(* ===== verification/Prelude.thy ===== *)
theory Prelude
  imports Main "HOL-Library.Word"
begin

text \<open>
  Shared vocabulary of the development: the fixed-width integer types of the C sources, the
  status codes of \<^verbatim>\<open>dpu_error.h\<close>, the control-flow macro \<^verbatim>\<open>FF\<close> of the host library as a
  combinator, and the generic facts on lists and words that the components use.
\<close>

unbundle bit_operations_syntax

named_theorems lock_simps \<open>effect of an operation on the depth of the rank mutex\<close>
named_theorems frame_simps \<open>fields that an operation leaves alone\<close>

section \<open>Machine integers\<close>

type_synonym u8 = "8 word"
type_synonym u16 = "16 word"
type_synonym u32 = "32 word"
type_synonym u64 = "64 word"

section \<open>Status codes\<close>

text \<open>
  \<^verbatim>\<open>dpu_error_t\<close> is an enumeration, but an asynchronous error carries the job type in its upper
  half, so that a status is modelled as the 32-bit value it is.
\<close>

type_synonym dpu_error_t = u32

abbreviation (input) DPU_OK :: dpu_error_t where "DPU_OK \<equiv> 0"
abbreviation (input) DPU_ERR_INTERNAL :: dpu_error_t where "DPU_ERR_INTERNAL \<equiv> 1"
abbreviation (input) DPU_ERR_SYSTEM :: dpu_error_t where "DPU_ERR_SYSTEM \<equiv> 2"
abbreviation (input) DPU_ERR_DRIVER :: dpu_error_t where "DPU_ERR_DRIVER \<equiv> 3"
abbreviation (input) DPU_ERR_ALLOCATION :: dpu_error_t where "DPU_ERR_ALLOCATION \<equiv> 4"
abbreviation (input) DPU_ERR_INVALID_DPU_SET :: dpu_error_t where "DPU_ERR_INVALID_DPU_SET \<equiv> 5"
abbreviation (input) DPU_ERR_INVALID_THREAD_ID :: dpu_error_t where "DPU_ERR_INVALID_THREAD_ID \<equiv> 6"
abbreviation (input) DPU_ERR_DPU_DISABLED :: dpu_error_t where "DPU_ERR_DPU_DISABLED \<equiv> 17"
abbreviation (input) DPU_ERR_DPU_ALREADY_RUNNING :: dpu_error_t where "DPU_ERR_DPU_ALREADY_RUNNING \<equiv> 18"
abbreviation (input) DPU_ERR_DPU_FAULT :: dpu_error_t where "DPU_ERR_DPU_FAULT \<equiv> 21"
abbreviation (input) DPU_ERR_INVALID_PROFILE :: dpu_error_t where "DPU_ERR_INVALID_PROFILE \<equiv> 26"
abbreviation (input) DPU_ERR_NONBLOCKING_SYNC_CALLBACK :: dpu_error_t
  where "DPU_ERR_NONBLOCKING_SYNC_CALLBACK \<equiv> 35"
abbreviation (input) DPU_ERR_ASYNC_JOBS :: dpu_error_t where "DPU_ERR_ASYNC_JOBS \<equiv> 0x80000000"

abbreviation (input) DPU_ERROR_ASYNC_JOB_TYPE_SHIFT :: nat where "DPU_ERROR_ASYNC_JOB_TYPE_SHIFT \<equiv> 16"

abbreviation (input) DPU_MAX_NR_CIS :: nat where "DPU_MAX_NR_CIS \<equiv> 8"
abbreviation (input) DPU_MAX_NR_DPUS_PER_CI :: nat where "DPU_MAX_NR_DPUS_PER_CI \<equiv> 8"

section \<open>The macro FF\<close>

text \<open>
  A fallible operation on a state \<open>'s\<close> returns its status and the state it leaves. \<^verbatim>\<open>FF(s)\<close>
  runs \<^verbatim>\<open>s\<close> and jumps to the label \<^verbatim>\<open>end\<close> unless the status is \<^verbatim>\<open>DPU_OK\<close>.
\<close>

type_synonym 's op = "'s \<Rightarrow> dpu_error_t \<times> 's"

definition FF :: "dpu_error_t \<times> 's \<Rightarrow> 's op \<Rightarrow> dpu_error_t \<times> 's" where
  "FF m k = (case m of (status, s) \<Rightarrow> if status \<noteq> DPU_OK then (status, s) else k s)"

lemma FF_ok [simp]: "FF (DPU_OK, s) k = k s"
  by (simp add: FF_def)

lemma FF_err [simp]: "e \<noteq> DPU_OK \<Longrightarrow> FF (e, s) k = (e, s)"
  by (simp add: FF_def)

lemma FF_cases:
  assumes "\<And>s'. m = (DPU_OK, s') \<Longrightarrow> P (k s')"
    and "\<And>e s'. m = (e, s') \<Longrightarrow> e \<noteq> DPU_OK \<Longrightarrow> P (e, s')"
  shows "P (FF m k)"
  using assms by (cases m) (auto simp: FF_def)

lemma FF_split:
  "P (FF m k) \<longleftrightarrow>
    (\<forall>s'. m = (DPU_OK, s') \<longrightarrow> P (k s')) \<and> (\<forall>e s'. m = (e, s') \<longrightarrow> e \<noteq> DPU_OK \<longrightarrow> P (e, s'))"
  by (cases m) (auto simp: FF_def)

lemma FF_result_ok:
  "fst (FF m k) = DPU_OK \<longleftrightarrow> fst m = DPU_OK \<and> fst (k (snd m)) = DPU_OK"
  by (cases m) (auto simp: FF_def)

section \<open>Lists\<close>

lemma sum_list_map_le:
  fixes f :: "'a \<Rightarrow> nat"
  assumes "\<And>x. x \<in> set xs \<Longrightarrow> f x \<le> b"
  shows "sum_list (map f xs) \<le> length xs * b"
  using assms by (induction xs) (auto simp: add_mono)

lemma sum_list_map_zero_iff:
  fixes f :: "'a \<Rightarrow> nat"
  shows "sum_list (map f xs) = 0 \<longleftrightarrow> (\<forall>x \<in> set xs. f x = 0)"
  by (induction xs) auto

lemma nth_map_upt_update:
  "i < n \<Longrightarrow> map f [0..<n] ! i = f i"
  by simp

lemma in_set_tl: "x \<in> set (tl xs) \<Longrightarrow> x \<in> set xs"
  by (cases xs) auto

lemma foldl_invariant:
  assumes "\<And>a x. h (f a x) = h a"
  shows "h (foldl f a xs) = h a"
  by (induction xs arbitrary: a) (simp_all add: assms)

section \<open>Words\<close>

lemma and_not_split: "(x AND m) + (x AND NOT m) = (x :: u32)"
proof -
  have "(x AND m) AND (x AND NOT m) = 0"
    by (rule bit_eqI) (simp add: bit_simps)
  then have "(x AND m) + (x AND NOT m) = (x AND m) OR (x AND NOT m)"
    by (rule disjunctive_add_eq_or)
  also have "\<dots> = x"
    by (rule bit_eqI) (auto simp: bit_simps)
  finally show ?thesis .
qed

end
