(* ===== verification/Mask.thy ===== *)
theory Mask
  imports Prelude
begin

text \<open>
  The DPU bitfields of \<^verbatim>\<open>commons/include/dpu_mask.h\<close>. A \<^verbatim>\<open>dpu_bitfield_t\<close> is a \<^verbatim>\<open>uint8_t\<close>: bit
  \<open>i\<close> stands for the DPU of member id \<open>i\<close> of one control interface. The functions are
  translated one by one; \<open>mask_set\<close> reads a mask as the finite set it represents, the locale
  \<open>dpu_bitset\<close> states what the clients of the header rely on, and its interpretation proves that
  the header provides it.
\<close>

section \<open>The functions of dpu mask h\<close>

type_synonym dpu_bitfield_t = u8
type_synonym dpu_member_id_t = u8
type_synonym dpu_slice_id_t = u8

definition dpu_mask_empty :: dpu_bitfield_t where
  "dpu_mask_empty = 0"

text \<open>
  \<^verbatim>\<open>(dpu_bitfield_t)(1 << dpu_id)\<close>: the shift is made on an \<^verbatim>\<open>int\<close> and the result cut to
  eight bits, so that an id between 8 and 31 gives 0 (a larger one is undefined in C).
\<close>

definition dpu_mask_one :: "dpu_member_id_t \<Rightarrow> dpu_bitfield_t" where
  "dpu_mask_one dpu_id = push_bit (unat dpu_id) 1"

definition dpu_mask_all :: "u8 \<Rightarrow> dpu_bitfield_t" where
  "dpu_mask_all nb_of_dpus = push_bit (unat nb_of_dpus) 1 - 1"

definition dpu_mask_union :: "dpu_bitfield_t \<Rightarrow> dpu_bitfield_t \<Rightarrow> dpu_bitfield_t" where
  "dpu_mask_union mask1 mask2 = mask1 OR mask2"

definition dpu_mask_intersection :: "dpu_bitfield_t \<Rightarrow> dpu_bitfield_t \<Rightarrow> dpu_bitfield_t" where
  "dpu_mask_intersection mask1 mask2 = mask1 AND mask2"

definition dpu_mask_difference :: "dpu_bitfield_t \<Rightarrow> dpu_bitfield_t \<Rightarrow> dpu_bitfield_t" where
  "dpu_mask_difference mask1 mask2 = mask1 AND NOT mask2"

definition dpu_mask_disjoint :: "dpu_bitfield_t \<Rightarrow> dpu_bitfield_t \<Rightarrow> dpu_bitfield_t" where
  "dpu_mask_disjoint mask1 mask2 = mask1 XOR mask2"

definition dpu_mask_select :: "dpu_bitfield_t \<Rightarrow> dpu_member_id_t \<Rightarrow> dpu_bitfield_t" where
  "dpu_mask_select msk dpu_id = dpu_mask_union msk (dpu_mask_one dpu_id)"

definition dpu_mask_unselect :: "dpu_bitfield_t \<Rightarrow> dpu_member_id_t \<Rightarrow> dpu_bitfield_t" where
  "dpu_mask_unselect msk dpu_id = dpu_mask_difference msk (dpu_mask_one dpu_id)"

definition dpu_bitfield_toggle :: "dpu_bitfield_t \<Rightarrow> dpu_member_id_t \<Rightarrow> dpu_bitfield_t" where
  "dpu_bitfield_toggle msk dpu_id = dpu_mask_disjoint msk (dpu_mask_one dpu_id)"

definition dpu_mask_is_selected :: "dpu_bitfield_t \<Rightarrow> dpu_member_id_t \<Rightarrow> bool" where
  "dpu_mask_is_selected msk dpu_id \<longleftrightarrow>
     dpu_mask_intersection msk (dpu_mask_one dpu_id) \<noteq> dpu_mask_empty"

text \<open>The compiler builtin \<^verbatim>\<open>__builtin_popcount\<close>: the number of bits that are set.\<close>

definition builtin_popcount :: "u8 \<Rightarrow> nat" where
  "builtin_popcount m = length (filter (bit m) [0..<8])"

definition dpu_mask_count :: "dpu_bitfield_t \<Rightarrow> u32" where
  "dpu_mask_count msk = word_of_nat (builtin_popcount msk)"

lemmas mask_defs =
  dpu_mask_empty_def dpu_mask_one_def dpu_mask_all_def dpu_mask_union_def
  dpu_mask_intersection_def dpu_mask_difference_def dpu_mask_disjoint_def dpu_mask_select_def
  dpu_mask_unselect_def dpu_bitfield_toggle_def dpu_mask_is_selected_def dpu_mask_count_def

section \<open>Masks as sets\<close>

definition mask_set :: "dpu_bitfield_t \<Rightarrow> nat set" where
  "mask_set m = {i. bit m i}"

lemma mask_set_bound: "mask_set m \<subseteq> {..<8}"
  by (auto simp: mask_set_def dest: bit_imp_le_length)

lemma finite_mask_set [simp]: "finite (mask_set m)"
  using finite_subset [OF mask_set_bound] by simp

lemma mask_set_inject: "mask_set m = mask_set n \<longleftrightarrow> m = n"
  by (auto simp: mask_set_def set_eq_iff intro: bit_eqI)

lemma mask_set_empty [simp]: "mask_set dpu_mask_empty = {}"
  by (simp add: mask_set_def mask_defs)

lemma mask_set_zero [simp]: "mask_set 0 = {}"
  by (simp add: mask_set_def)

lemma mask_set_eq_empty_iff [simp]: "mask_set m = {} \<longleftrightarrow> m = 0"
  using mask_set_inject [of m 0] by simp

lemma mask_set_one: "unat d < 8 \<Longrightarrow> mask_set (dpu_mask_one d) = {unat d}"
  by (auto simp: mask_set_def mask_defs bit_simps)

lemma mask_set_one_out: "8 \<le> unat d \<Longrightarrow> mask_set (dpu_mask_one d) = {}"
  by (auto simp: mask_set_def mask_defs bit_simps)

lemma mask_set_union: "mask_set (dpu_mask_union m n) = mask_set m \<union> mask_set n"
  by (auto simp: mask_set_def mask_defs bit_simps)

lemma mask_set_inter: "mask_set (dpu_mask_intersection m n) = mask_set m \<inter> mask_set n"
  by (auto simp: mask_set_def mask_defs bit_simps)

lemma mask_set_and: "mask_set (m AND n) = mask_set m \<inter> mask_set n"
  by (auto simp: mask_set_def bit_simps)

lemma mask_set_or: "mask_set (m OR n) = mask_set m \<union> mask_set n"
  by (auto simp: mask_set_def bit_simps)

lemma mask_set_diff: "mask_set (dpu_mask_difference m n) = mask_set m - mask_set n"
  by (auto simp: mask_set_def mask_defs bit_simps dest: bit_imp_le_length)

lemma mask_set_and_not: "mask_set (m AND NOT n) = mask_set m - mask_set n"
  using mask_set_diff [of m n] by (simp add: mask_defs)

lemma mask_set_disjoint:
  "mask_set (dpu_mask_disjoint m n) = (mask_set m - mask_set n) \<union> (mask_set n - mask_set m)"
  by (auto simp: mask_set_def mask_defs bit_simps)

lemmas mask_set_simps =
  mask_set_one mask_set_one_out mask_set_union mask_set_inter mask_set_and mask_set_or
  mask_set_diff mask_set_and_not mask_set_disjoint

lemma popcount_card: "builtin_popcount m = card (mask_set m)"
proof -
  have "mask_set m = set (filter (bit m) [0..<8])"
    using mask_set_bound [of m] by (auto simp: mask_set_def)
  then have "card (mask_set m) = card (set (filter (bit m) [0..<8]))"
    by simp
  also have "\<dots> = length (filter (bit m) [0..<8])"
    by (rule distinct_card) simp
  finally show ?thesis
    by (simp add: builtin_popcount_def)
qed

lemma popcount_le: "builtin_popcount m \<le> 8"
  using card_mono [OF _ mask_set_bound, of m] by (simp add: popcount_card)

lemma popcount_zero_iff [simp]: "builtin_popcount m = 0 \<longleftrightarrow> m = 0"
  by (simp add: popcount_card)

lemma popcount_mono: "mask_set m \<subseteq> mask_set n \<Longrightarrow> builtin_popcount m \<le> builtin_popcount n"
  by (simp add: popcount_card card_mono)

lemma unat_dpu_mask_count: "unat (dpu_mask_count m) = builtin_popcount m"
proof -
  have "builtin_popcount m < 2 ^ LENGTH(32)"
    using popcount_le [of m] by (simp add: order.strict_trans1)
  then show ?thesis
    by (simp add: dpu_mask_count_def unat_of_nat take_bit_nat_eq_self)
qed

lemma is_selected_iff: "dpu_mask_is_selected m d \<longleftrightarrow> unat d \<in> mask_set m"
proof (cases "unat d < 8")
  case True
  have "dpu_mask_is_selected m d \<longleftrightarrow> mask_set (dpu_mask_intersection m (dpu_mask_one d)) \<noteq> {}"
    by (simp add: dpu_mask_is_selected_def dpu_mask_empty_def)
  with True show ?thesis
    by (simp add: mask_set_simps)
next
  case False
  then have "mask_set (dpu_mask_intersection m (dpu_mask_one d)) = {}"
    by (simp add: mask_set_simps)
  with False mask_set_bound [of m] show ?thesis
    by (auto simp: dpu_mask_is_selected_def dpu_mask_empty_def)
qed

section \<open>The interface of a DPU bitfield\<close>

text \<open>
  What the runner, the polling loop and the set code rely on: a bitfield is a set of member ids
  below a limit, read by \<open>is_selected\<close> and \<open>count\<close> and changed by \<open>select\<close> and \<open>unselect\<close>.
\<close>

locale dpu_bitset =
  fixes limit :: nat
    and emp :: 'm
    and sel :: "'m \<Rightarrow> u8 \<Rightarrow> 'm"
    and unsel :: "'m \<Rightarrow> u8 \<Rightarrow> 'm"
    and mem :: "'m \<Rightarrow> u8 \<Rightarrow> bool"
    and cnt :: "'m \<Rightarrow> nat"
    and abs :: "'m \<Rightarrow> nat set"
  assumes abs_emp: "abs emp = {}"
    and abs_bound: "abs m \<subseteq> {..<limit}"
    and abs_sel: "unat d < limit \<Longrightarrow> abs (sel m d) = insert (unat d) (abs m)"
    and abs_unsel: "abs (unsel m d) = abs m - {unat d}"
    and mem_abs: "mem m d \<longleftrightarrow> unat d \<in> abs m"
    and cnt_abs: "cnt m = card (abs m)"
    and abs_inj: "abs m = abs n \<Longrightarrow> m = n"
begin

lemma fin: "finite (abs m)"
  using abs_bound finite_subset by fastforce

lemma mem_sel: "unat d < limit \<Longrightarrow> mem (sel m d) e \<longleftrightarrow> e = d \<or> mem m e"
  by (auto simp: mem_abs abs_sel word_unat_eq_iff)

lemma mem_unsel: "mem (unsel m d) e \<longleftrightarrow> e \<noteq> d \<and> mem m e"
  by (auto simp: mem_abs abs_unsel word_unat_eq_iff)

lemma unsel_sel: "unat d < limit \<Longrightarrow> \<not> mem m d \<Longrightarrow> unsel (sel m d) d = m"
  by (rule abs_inj) (auto simp: mem_abs abs_sel abs_unsel)

lemma cnt_sel: "unat d < limit \<Longrightarrow> cnt (sel m d) = (if mem m d then cnt m else Suc (cnt m))"
  by (simp add: cnt_abs mem_abs abs_sel fin insert_absorb)

lemma cnt_unsel: "cnt (unsel m d) = (if mem m d then cnt m - 1 else cnt m)"
  by (simp add: cnt_abs mem_abs abs_unsel)

lemma cnt_le: "cnt m \<le> limit"
  using card_mono [OF _ abs_bound, of m] by (simp add: cnt_abs)

lemma cnt_zero_iff: "cnt m = 0 \<longleftrightarrow> m = emp"
  using abs_inj [of m emp] by (auto simp: cnt_abs fin abs_emp)

end

interpretation dpu_mask: dpu_bitset 8 dpu_mask_empty dpu_mask_select dpu_mask_unselect
  dpu_mask_is_selected builtin_popcount mask_set
proof unfold_locales
  fix m n :: dpu_bitfield_t and d :: u8
  show "mask_set dpu_mask_empty = {}"
    by simp
  show "mask_set m \<subseteq> {..<8}"
    by (rule mask_set_bound)
  show "mask_set (dpu_mask_select m d) = insert (unat d) (mask_set m)" if "unat d < 8"
    using that by (simp add: dpu_mask_select_def mask_set_simps)
  show "mask_set (dpu_mask_unselect m d) = mask_set m - {unat d}"
  proof (cases "unat d < 8")
    case True
    then show ?thesis by (simp add: dpu_mask_unselect_def mask_set_simps)
  next
    case False
    moreover have "unat d \<notin> mask_set m"
      using False mask_set_bound [of m] by auto
    ultimately show ?thesis by (simp add: dpu_mask_unselect_def mask_set_simps)
  qed
  show "dpu_mask_is_selected m d \<longleftrightarrow> unat d \<in> mask_set m"
    by (rule is_selected_iff)
  show "builtin_popcount m = card (mask_set m)"
    by (rule popcount_card)
  show "m = n" if "mask_set m = mask_set n"
    using that by (simp add: mask_set_inject)
qed

section \<open>Properties\<close>

text \<open>
  C1: the operations of \<^verbatim>\<open>dpu_mask.h\<close> implement sets of DPU ids: union, intersection, difference
  and symmetric difference are those of the sets of selected ids, selecting, unselecting and
  testing an id below eight are insertion, removal and membership, a mask is empty exactly when
  its set is, and \<open>dpu_mask_count\<close> is the number of selected DPUs.
\<close>

theorem mask_ops_implement_sets:
  "mask_set dpu_mask_empty = {}
   \<and> mask_set (dpu_mask_union m n) = mask_set m \<union> mask_set n
   \<and> mask_set (dpu_mask_intersection m n) = mask_set m \<inter> mask_set n
   \<and> mask_set (dpu_mask_difference m n) = mask_set m - mask_set n
   \<and> mask_set (dpu_mask_disjoint m n) = (mask_set m - mask_set n) \<union> (mask_set n - mask_set m)
   \<and> (unat d < 8 \<longrightarrow> mask_set (dpu_mask_select m d) = insert (unat d) (mask_set m)
        \<and> mask_set (dpu_mask_unselect m d) = mask_set m - {unat d}
        \<and> (dpu_mask_is_selected m d \<longleftrightarrow> unat d \<in> mask_set m))
   \<and> (mask_set m = mask_set n \<longleftrightarrow> m = n)
   \<and> unat (dpu_mask_count m) = card (mask_set m)"
  by (simp add: mask_set_simps dpu_mask_select_def dpu_mask_unselect_def is_selected_iff
      mask_set_inject unat_dpu_mask_count popcount_card)

theorem mask_ops_implement_sets_witness:
  "dpu_mask_is_selected (dpu_mask_select 0x21 3) 3 \<and> unat (dpu_mask_count 0x29) = card (mask_set 0x29)
   \<and> mask_set (dpu_mask_select 0x21 3) = insert 3 (mask_set 0x21)"
  using mask_ops_implement_sets [of "dpu_mask_select 0x21 3" 0 3] mask_ops_implement_sets [of "0x29" 0 0]
    mask_ops_implement_sets [of "0x21" 0 3] by simp

end
