(* ===== verification/Rank.thy ===== *)
theory Rank
  imports Mask
begin

text \<open>
  The data model of the host library: \<^verbatim>\<open>struct dpu_rank_t\<close>, \<^verbatim>\<open>struct dpu_t\<close> and the structures
  they hold (\<^verbatim>\<open>commons/include/dpu_rank.h\<close>, \<^verbatim>\<open>lowlevel/dpu_runner.h\<close>,
  \<^verbatim>\<open>lowlevel/dpu_profiler.h\<close>), the table of backend functions
  (\<^verbatim>\<open>commons/include/dpu_rank_handler.h\<close>), the rank mutex (\<^verbatim>\<open>dpu_management.c\<close>), the custom
  operations (\<^verbatim>\<open>dpu_custom.c\<close>) and the reset of a rank (\<^verbatim>\<open>dpu_config.c\<close>).

  A backend is reached through function pointers only. The table is a parameter of every
  operation, and \<open>'h\<close> is the state behind it: the hardware or the simulator, and the host buffers
  that a transfer fills.
\<close>

section \<open>Structures\<close>

datatype dpu_rank_status_e =
    DPU_RANK_SUCCESS
  | DPU_RANK_COMMUNICATION_ERROR
  | DPU_RANK_BACKEND_ERROR
  | DPU_RANK_SYSTEM_ERROR
  | DPU_RANK_INVALID_PROPERTY_ERROR
  | DPU_RANK_ENODEV

definition map_rank_status_to_api_status :: "dpu_rank_status_e \<Rightarrow> dpu_error_t" where
  "map_rank_status_to_api_status rank_status = (case rank_status of
       DPU_RANK_SUCCESS \<Rightarrow> DPU_OK
     | DPU_RANK_COMMUNICATION_ERROR \<Rightarrow> DPU_ERR_DRIVER
     | DPU_RANK_BACKEND_ERROR \<Rightarrow> DPU_ERR_DRIVER
     | DPU_RANK_SYSTEM_ERROR \<Rightarrow> DPU_ERR_SYSTEM
     | DPU_RANK_INVALID_PROPERTY_ERROR \<Rightarrow> DPU_ERR_INVALID_PROFILE
     | _ \<Rightarrow> DPU_ERR_INTERNAL)"

datatype dpu_custom_command_t =
    DPU_COMMAND_DPU_SOFT_RESET
  | DPU_COMMAND_ALL_SOFT_RESET
  | DPU_COMMAND_DPU_PREEXECUTION
  | DPU_COMMAND_ALL_PREEXECUTION
  | DPU_COMMAND_DPU_POSTEXECUTION
  | DPU_COMMAND_ALL_POSTEXECUTION
  | DPU_COMMAND_CUSTOM_LABEL
  | DPU_COMMAND_POSTMORTEM
  | DPU_COMMAND_SYSTEM_REPORT
  | DPU_COMMAND_BINARY_PATH
  | DPU_COMMAND_EVENT_START
  | DPU_COMMAND_EVENT_END
  | DPU_COMMAND_SET_SLICE_INFO

datatype dpu_event_kind_t =
    DPU_EVENT_RESET
  | DPU_EVENT_EXTRACT_CONTEXT
  | DPU_EVENT_RESTORE_CONTEXT
  | DPU_EVENT_MRAM_ACCESS_PROGRAM
  | DPU_EVENT_LOAD_PROGRAM
  | DPU_EVENT_DEBUG_ACTION

text \<open>The arguments of a custom operation: \<open>None\<close> is the null pointer.\<close>

type_synonym dpu_custom_command_args_t = "dpu_event_kind_t option"

record dpu_t =
  slice_id :: dpu_slice_id_t
  dpu_id :: dpu_member_id_t
  enabled :: bool

record dpu_run_context_t =
  dpu_running :: "dpu_bitfield_t list"
  dpu_in_fault :: "dpu_bitfield_t list"
  poll_status :: dpu_error_t
  nb_dpu_running :: u8

datatype dpu_profiling_type_e =
    DPU_PROFILING_NOP
  | DPU_PROFILING_MCOUNT
  | DPU_PROFILING_STATS
  | DPU_PROFILING_SAMPLES
  | DPU_PROFILING_SECTIONS

record mcount_stat =
  mc_address :: u16
  mc_count :: u64

record dpu_elf_symbol_t =
  sym_name :: string
  sym_value :: u32
  sym_size :: u32

record dpu_profiling_context_t =
  enable_profiling :: dpu_profiling_type_e
  prof_dpu :: dpu_t
  sample_stats :: "u64 list"
  mcount_stats :: "mcount_stat list list"
  thread_profiling_address :: u32
  profiling_symbols :: "dpu_elf_symbol_t list"
  perfcounter_end_value_address :: u32

text \<open>
  A transfer matrix holds one host buffer per DPU of a rank; a buffer is its address, and \<open>None\<close>
  is the null pointer.
\<close>

datatype dpu_transfer_matrix_type_t = DPU_DEFAULT_XFER_MATRIX | DPU_SG_XFER_MATRIX

record dpu_transfer_matrix =
  ptr :: "nat option list"
  tm_offset :: u32
  tm_size :: u32
  tm_type :: dpu_transfer_matrix_type_t

abbreviation (input) MAX_NR_DPUS_PER_RANK :: nat where "MAX_NR_DPUS_PER_RANK \<equiv> 64"

text \<open>The lines that \<^verbatim>\<open>LOG_DPU(INFO, \<dots>)\<close> writes when profiling results are dumped.\<close>

datatype prof_line =
    ProfStat nat u16 u64
  | ProfSample nat u64
  | ProfSection string nat u32 u32

text \<open>
  The fields of a rank that the modelled code reads or writes. The recursive mutex is the number
  of times the running thread holds it.
\<close>

record 'h dpu_rank_t =
  nr_of_control_interfaces :: u8
  nr_of_dpus_per_control_interface :: u8
  nr_of_threads :: u8
  mram_size :: u32
  wram_size :: u32
  iram_size :: u16
  mram_access_by_dpu_only :: bool
  enabled_dpus :: "dpu_bitfield_t list"
  all_dpus_are_enabled :: "bool list"
  run_context :: dpu_run_context_t
  profiling_context :: dpu_profiling_context_t
  prof_log :: "prof_line list"
  dpus :: "dpu_t list"
  rank_mutex :: nat
  hw :: 'h

section \<open>The backend functions\<close>

record 'h dpu_rank_handler =
  reset_rank :: "'h op"
  disable_dpu :: "dpu_t \<Rightarrow> 'h op"
  copy_to_irams_matrix :: "dpu_transfer_matrix \<Rightarrow> 'h op"
  copy_to_irams_rank :: "u16 \<Rightarrow> u64 list \<Rightarrow> u16 \<Rightarrow> 'h op"
  copy_to_irams_dpu :: "dpu_t \<Rightarrow> u16 \<Rightarrow> u64 list \<Rightarrow> u16 \<Rightarrow> 'h op"
  copy_from_irams_matrix :: "dpu_transfer_matrix \<Rightarrow> 'h op"
  copy_from_irams_dpu :: "dpu_t \<Rightarrow> u16 \<Rightarrow> u16 \<Rightarrow> 'h \<Rightarrow> u64 list \<times> dpu_error_t \<times> 'h"
  copy_to_mrams :: "dpu_transfer_matrix \<Rightarrow> 'h op"
  copy_from_mrams :: "dpu_transfer_matrix \<Rightarrow> 'h op"
  copy_to_wrams_matrix :: "dpu_transfer_matrix \<Rightarrow> 'h op"
  copy_to_wrams_rank :: "u32 \<Rightarrow> u32 list \<Rightarrow> u32 \<Rightarrow> 'h op"
  copy_to_wrams_dpu :: "dpu_t \<Rightarrow> u32 \<Rightarrow> u32 list \<Rightarrow> u32 \<Rightarrow> 'h op"
  copy_from_wrams_matrix :: "dpu_transfer_matrix \<Rightarrow> 'h op"
  copy_from_wrams_dpu :: "dpu_t \<Rightarrow> u32 \<Rightarrow> u32 \<Rightarrow> 'h \<Rightarrow> u32 list \<times> dpu_error_t \<times> 'h"
  start_thread_rank :: "u8 \<Rightarrow> bool \<Rightarrow> 'h op"
  start_thread_dpu :: "dpu_t \<Rightarrow> u8 \<Rightarrow> bool \<Rightarrow> 'h op"
  poll_rank :: "'h \<Rightarrow> (dpu_bitfield_t list \<times> dpu_bitfield_t list) \<times> dpu_error_t \<times> 'h"
  sample_pc_dpu :: "dpu_t \<Rightarrow> 'h \<Rightarrow> u16 \<times> dpu_error_t \<times> 'h"
  custom_operation :: "u8 \<Rightarrow> u8 \<Rightarrow> dpu_custom_command_t \<Rightarrow> dpu_custom_command_args_t \<Rightarrow>
    'h \<Rightarrow> dpu_rank_status_e \<times> 'h"

text \<open>\<^verbatim>\<open>RANK_FEATURE(rank, f)\<close>: a backend function runs on the state behind the rank.\<close>

definition RANK_FEATURE :: "'h op \<Rightarrow> 'h dpu_rank_t op" where
  "RANK_FEATURE f rank = (case f (hw rank) of (status, h) \<Rightarrow> (status, rank\<lparr>hw := h\<rparr>))"

definition RANK_FEATURE_GET ::
  "('h \<Rightarrow> 'r \<times> dpu_error_t \<times> 'h) \<Rightarrow> 'h dpu_rank_t \<Rightarrow> 'r \<times> dpu_error_t \<times> 'h dpu_rank_t" where
  "RANK_FEATURE_GET f rank =
     (case f (hw rank) of (r, status, h) \<Rightarrow> (r, status, rank\<lparr>hw := h\<rparr>))"

section \<open>The rank mutex\<close>

definition dpu_lock_rank :: "'h dpu_rank_t \<Rightarrow> 'h dpu_rank_t" where
  "dpu_lock_rank rank = rank\<lparr>rank_mutex := rank_mutex rank + 1\<rparr>"

definition dpu_unlock_rank :: "'h dpu_rank_t \<Rightarrow> 'h dpu_rank_t" where
  "dpu_unlock_rank rank = rank\<lparr>rank_mutex := rank_mutex rank - 1\<rparr>"

text \<open>The label \<^verbatim>\<open>end\<close> of the functions that hold the mutex: unlock, and return the status.\<close>

definition unlock_and_return :: "dpu_error_t \<times> 'h dpu_rank_t \<Rightarrow> dpu_error_t \<times> 'h dpu_rank_t" where
  "unlock_and_return m = (case m of (status, rank) \<Rightarrow> (status, dpu_unlock_rank rank))"

lemma dpu_lock_rank_sel [simp]:
  "rank_mutex (dpu_lock_rank r) = Suc (rank_mutex r)"
  "run_context (dpu_lock_rank r) = run_context r"
  "nr_of_control_interfaces (dpu_lock_rank r) = nr_of_control_interfaces r"
  "nr_of_dpus_per_control_interface (dpu_lock_rank r) = nr_of_dpus_per_control_interface r"
  "nr_of_threads (dpu_lock_rank r) = nr_of_threads r"
  "wram_size (dpu_lock_rank r) = wram_size r"
  "mram_size (dpu_lock_rank r) = mram_size r"
  "iram_size (dpu_lock_rank r) = iram_size r"
  "enabled_dpus (dpu_lock_rank r) = enabled_dpus r"
  "profiling_context (dpu_lock_rank r) = profiling_context r"
  "dpus (dpu_lock_rank r) = dpus r"
  "hw (dpu_lock_rank r) = hw r"
  by (simp_all add: dpu_lock_rank_def)

lemma dpu_unlock_rank_sel [simp]:
  "rank_mutex (dpu_unlock_rank r) = rank_mutex r - 1"
  "run_context (dpu_unlock_rank r) = run_context r"
  "nr_of_control_interfaces (dpu_unlock_rank r) = nr_of_control_interfaces r"
  "nr_of_dpus_per_control_interface (dpu_unlock_rank r) = nr_of_dpus_per_control_interface r"
  "nr_of_threads (dpu_unlock_rank r) = nr_of_threads r"
  "wram_size (dpu_unlock_rank r) = wram_size r"
  "mram_size (dpu_unlock_rank r) = mram_size r"
  "iram_size (dpu_unlock_rank r) = iram_size r"
  "enabled_dpus (dpu_unlock_rank r) = enabled_dpus r"
  "profiling_context (dpu_unlock_rank r) = profiling_context r"
  "dpus (dpu_unlock_rank r) = dpus r"
  "hw (dpu_unlock_rank r) = hw r"
  by (simp_all add: dpu_unlock_rank_def)

lemma unlock_lock [simp]: "dpu_unlock_rank (dpu_lock_rank r) = r"
  by (simp add: dpu_lock_rank_def dpu_unlock_rank_def)

lemma unlock_and_return_pair [simp]:
  "unlock_and_return (e, r) = (e, dpu_unlock_rank r)"
  by (simp add: unlock_and_return_def)

section \<open>Custom operations and reset\<close>

definition dpu_custom_for_rank ::
  "'h dpu_rank_handler \<Rightarrow> dpu_custom_command_t \<Rightarrow> dpu_custom_command_args_t \<Rightarrow> 'h dpu_rank_t op" where
  "dpu_custom_for_rank H command args rank =
     (let rank = dpu_lock_rank rank;
          (status, h) = custom_operation H (- 1) (- 1) command args (hw rank);
          rank = dpu_unlock_rank (rank\<lparr>hw := h\<rparr>)
      in (map_rank_status_to_api_status status, rank))"

definition dpu_custom_for_dpu ::
  "'h dpu_rank_handler \<Rightarrow> dpu_t \<Rightarrow> dpu_custom_command_t \<Rightarrow> dpu_custom_command_args_t \<Rightarrow>
     'h dpu_rank_t op" where
  "dpu_custom_for_dpu H dpu command args rank =
     (if \<not> enabled dpu then (DPU_ERR_DPU_DISABLED, rank)
      else let rank = dpu_lock_rank rank;
          (status, h) = custom_operation H (slice_id dpu) (dpu_id dpu) command args (hw rank);
          rank = dpu_unlock_rank (rank\<lparr>hw := h\<rparr>)
        in (map_rank_status_to_api_status status, rank))"

definition dpu_reset_rank :: "'h dpu_rank_handler \<Rightarrow> 'h dpu_rank_t op" where
  "dpu_reset_rank H rank = unlock_and_return (
     FF (dpu_custom_for_rank H DPU_COMMAND_EVENT_START (Some DPU_EVENT_RESET) (dpu_lock_rank rank)) (\<lambda>rank.
     FF (dpu_custom_for_rank H DPU_COMMAND_ALL_SOFT_RESET None rank) (\<lambda>rank.
     FF (RANK_FEATURE (reset_rank H) rank) (\<lambda>rank.
     FF (dpu_custom_for_rank H DPU_COMMAND_EVENT_END (Some DPU_EVENT_RESET) rank) (\<lambda>rank.
       (DPU_OK, rank))))))"

section \<open>What the operations leave alone\<close>

text \<open>
  \<open>same_rank r r'\<close>: the two ranks differ at most in the state behind the backend. An operation
  \<open>f\<close> is \<open>hw_only\<close> when it always ends in such a rank, the mutex included: on every path it
  releases the lock as many times as it takes it.
\<close>

definition same_rank :: "'h dpu_rank_t \<Rightarrow> 'h dpu_rank_t \<Rightarrow> bool" where
  "same_rank r r' \<longleftrightarrow> r' = r\<lparr>hw := hw r'\<rparr>"

definition hw_only :: "'h dpu_rank_t op \<Rightarrow> bool" where
  "hw_only f \<longleftrightarrow> (\<forall>r. same_rank r (snd (f r)))"

lemma same_rank_refl [simp]: "same_rank r r"
  by (simp add: same_rank_def)

lemma same_rank_hw [simp]: "same_rank r (r\<lparr>hw := h\<rparr>)"
  by (simp add: same_rank_def)

lemma same_rank_trans: "same_rank a b \<Longrightarrow> same_rank b c \<Longrightarrow> same_rank a c"
  by (metis same_rank_def dpu_rank_t.surjective dpu_rank_t.update_convs(15))

lemma same_rank_sel:
  assumes "same_rank r r'"
  shows "rank_mutex r' = rank_mutex r" "run_context r' = run_context r"
    "nr_of_control_interfaces r' = nr_of_control_interfaces r"
    "nr_of_threads r' = nr_of_threads r" "enabled_dpus r' = enabled_dpus r"
    "nr_of_dpus_per_control_interface r' = nr_of_dpus_per_control_interface r"
    "profiling_context r' = profiling_context r" "wram_size r' = wram_size r"
    "iram_size r' = iram_size r" "prof_log r' = prof_log r" "dpus r' = dpus r"
proof -
  obtain h where "r' = r\<lparr>hw := h\<rparr>"
    using assms by (auto simp: same_rank_def)
  then show "rank_mutex r' = rank_mutex r" "run_context r' = run_context r"
    "nr_of_control_interfaces r' = nr_of_control_interfaces r"
    "nr_of_threads r' = nr_of_threads r" "enabled_dpus r' = enabled_dpus r"
    "nr_of_dpus_per_control_interface r' = nr_of_dpus_per_control_interface r"
    "profiling_context r' = profiling_context r" "wram_size r' = wram_size r"
    "iram_size r' = iram_size r" "prof_log r' = prof_log r" "dpus r' = dpus r"
    by simp_all
qed

lemma same_rank_unlock: "same_rank (dpu_lock_rank r) r' \<Longrightarrow> same_rank r (dpu_unlock_rank r')"
  by (cases r; cases r') (simp add: same_rank_def dpu_lock_rank_def dpu_unlock_rank_def)

lemma hw_onlyD: "hw_only f \<Longrightarrow> f r = (e, r') \<Longrightarrow> same_rank r r'"
  unfolding hw_only_def by (metis snd_conv)

lemma hw_only_snd: "hw_only f \<Longrightarrow> same_rank r (snd (f r))"
  by (simp add: hw_only_def)

lemma same_rank_FF:
  assumes "same_rank r (snd m)" and "\<And>r'. same_rank r r' \<Longrightarrow> same_rank r (snd (k r'))"
  shows "same_rank r (snd (FF m k))"
  using assms by (cases m) (auto simp: FF_def)

lemma hw_only_feature [intro]: "hw_only (RANK_FEATURE f)"
  by (auto simp: hw_only_def RANK_FEATURE_def split: prod.splits)

lemma hw_only_custom_rank [intro]: "hw_only (dpu_custom_for_rank H c a)"
  by (auto simp: hw_only_def dpu_custom_for_rank_def Let_def same_rank_def dpu_lock_rank_def
      dpu_unlock_rank_def split: prod.splits)

lemma hw_only_custom_dpu [intro]: "hw_only (dpu_custom_for_dpu H d c a)"
  by (auto simp: hw_only_def dpu_custom_for_dpu_def Let_def same_rank_def dpu_lock_rank_def
      dpu_unlock_rank_def split: prod.splits)

lemma hw_only_locked:
  assumes "\<And>r. same_rank r (snd (f r))"
  shows "same_rank r (snd (unlock_and_return (f (dpu_lock_rank r))))"
  using assms [of "dpu_lock_rank r"]
  by (cases "f (dpu_lock_rank r)") (simp add: same_rank_unlock)

lemma hw_only_reset [intro]: "hw_only (dpu_reset_rank H)"
  unfolding hw_only_def dpu_reset_rank_def
proof (intro allI hw_only_locked, goal_cases)
  case (1 r r')
  show ?case
    by (rule same_rank_FF, rule hw_only_snd [OF hw_only_custom_rank],
        rule same_rank_FF, erule same_rank_trans, rule hw_only_snd [OF hw_only_custom_rank],
        rule same_rank_FF, erule same_rank_trans, rule hw_only_snd [OF hw_only_feature],
        rule same_rank_FF, erule same_rank_trans, rule hw_only_snd [OF hw_only_custom_rank], simp)
qed

section \<open>The frame of an operation\<close>

text \<open>
  An operation on a rank changes the run context, the profiling data and the state behind the
  backend; the description of the rank, its table of DPUs and the depth of its mutex are as before.
  The locale is the contract that every operation of the host library keeps.
\<close>

definition rank_frame where
  "rank_frame r =
     (rank_mutex r, nr_of_control_interfaces r, nr_of_dpus_per_control_interface r, nr_of_threads r,
      (mram_size r, wram_size r, iram_size r, mram_access_by_dpu_only r), enabled_dpus r, dpus r)"

locale rank_op =
  fixes f :: "'h dpu_rank_t op"
  assumes frame: "rank_frame (snd (f r)) = rank_frame r"
begin

lemma lock_balanced: "rank_mutex (snd (f r)) = rank_mutex r"
  using frame [of r] by (simp add: rank_frame_def)

lemma keeps_enabled: "enabled_dpus (snd (f r)) = enabled_dpus r"
  using frame [of r] by (simp add: rank_frame_def)

lemma keeps_nr_cis: "nr_of_control_interfaces (snd (f r)) = nr_of_control_interfaces r"
  using frame [of r] by (simp add: rank_frame_def)

end

lemma rank_frame_hw [simp]: "rank_frame (r\<lparr>hw := h\<rparr>) = rank_frame r"
  and rank_frame_prof [simp]: "rank_frame (r\<lparr>profiling_context := p\<rparr>) = rank_frame r"
  and rank_frame_log [simp]: "rank_frame (r\<lparr>prof_log := l\<rparr>) = rank_frame r"
  and rank_frame_rc [simp]: "rank_frame (r\<lparr>run_context := c\<rparr>) = rank_frame r"
  by (simp_all add: rank_frame_def)

lemma rank_frame_unlock:
  "rank_frame r' = rank_frame (dpu_lock_rank r) \<Longrightarrow> rank_frame (dpu_unlock_rank r') = rank_frame r"
  by (auto simp: rank_frame_def dpu_lock_rank_def dpu_unlock_rank_def)

lemma rank_frame_unlock_return:
  "rank_frame (snd m) = rank_frame (dpu_lock_rank r) \<Longrightarrow>
     rank_frame (snd (unlock_and_return m)) = rank_frame r"
  by (cases m) (simp add: rank_frame_unlock)

lemma rank_frame_FF:
  assumes "rank_frame (snd m) = F" and "\<And>r'. rank_frame r' = F \<Longrightarrow> rank_frame (snd (k r')) = F"
  shows "rank_frame (snd (FF m k)) = F"
  using assms by (cases m) (auto simp: FF_def)

lemma rank_op_hw_only: "hw_only f \<Longrightarrow> rank_op f"
proof
  fix r
  assume "hw_only f"
  then have "same_rank r (snd (f r))"
    by (simp add: hw_only_def)
  then obtain h where "snd (f r) = r\<lparr>hw := h\<rparr>"
    by (auto simp: same_rank_def)
  then show "rank_frame (snd (f r)) = rank_frame r"
    by simp
qed

lemma rank_opD: "rank_op f \<Longrightarrow> f r = (e, r') \<Longrightarrow> rank_frame r' = rank_frame r"
  using rank_op.frame [of f r] by simp

interpretation custom_rank: rank_op "dpu_custom_for_rank H c a"
  by (intro rank_op_hw_only hw_only_custom_rank)

interpretation custom_dpu: rank_op "dpu_custom_for_dpu H d c a"
  by (intro rank_op_hw_only hw_only_custom_dpu)

interpretation reset_op: rank_op "dpu_reset_rank H"
  by (intro rank_op_hw_only hw_only_reset)

interpretation feature: rank_op "RANK_FEATURE g"
  by (intro rank_op_hw_only hw_only_feature)

section \<open>A small simulator\<close>

text \<open>
  A backend on which the operations can be run: its state is the bitfields of the DPUs that run
  and that are in fault. Starting a rank or a DPU makes it run, every other function succeeds
  and leaves the state alone. \<open>sim_rank\<close> has two control interfaces of two DPUs, the last DPU is
  disabled.
\<close>

type_synonym sim = "dpu_bitfield_t list \<times> dpu_bitfield_t list"

definition sim_handler :: "sim dpu_rank_handler" where
  "sim_handler = \<lparr>reset_rank = \<lambda>h. (DPU_OK, (replicate 8 0, replicate 8 0)), disable_dpu = \<lambda>d h. (DPU_OK, h),
     copy_to_irams_matrix = \<lambda>m h. (DPU_OK, h), copy_to_irams_rank = \<lambda>a b n h. (DPU_OK, h),
     copy_to_irams_dpu = \<lambda>d a b n h. (DPU_OK, h), copy_from_irams_matrix = \<lambda>m h. (DPU_OK, h),
     copy_from_irams_dpu = \<lambda>d a n h. (replicate (unat n) 0, DPU_OK, h),
     copy_to_mrams = \<lambda>m h. (DPU_OK, h), copy_from_mrams = \<lambda>m h. (DPU_OK, h),
     copy_to_wrams_matrix = \<lambda>m h. (DPU_OK, h), copy_to_wrams_rank = \<lambda>a b n h. (DPU_OK, h),
     copy_to_wrams_dpu = \<lambda>d a b n h. (DPU_OK, h), copy_from_wrams_matrix = \<lambda>m h. (DPU_OK, h),
     copy_from_wrams_dpu = \<lambda>d a n h. (replicate (unat n) 0, DPU_OK, h),
     start_thread_rank = \<lambda>t b h. (DPU_OK, (replicate 8 0xFF, snd h)),
     start_thread_dpu = \<lambda>d t b h. (DPU_OK, ((fst h)[unat (slice_id d) :=
        fst h ! unat (slice_id d) OR dpu_mask_one (dpu_id d)], snd h)),
     poll_rank = \<lambda>h. (h, DPU_OK, h), sample_pc_dpu = \<lambda>d h. (0, DPU_OK, h),
     custom_operation = \<lambda>s d c a h. (DPU_RANK_SUCCESS, h)\<rparr>"

definition sim_dpu :: "u8 \<Rightarrow> u8 \<Rightarrow> dpu_t" where
  "sim_dpu s d = \<lparr>slice_id = s, dpu_id = d, enabled = (s, d) \<noteq> (1, 1)\<rparr>"

definition sim_rank :: "sim dpu_rank_t" where
  "sim_rank = \<lparr>nr_of_control_interfaces = 2, nr_of_dpus_per_control_interface = 2, nr_of_threads = 24,
     mram_size = 0x4000000, wram_size = 0x4000, iram_size = 0x1000, mram_access_by_dpu_only = False,
     enabled_dpus = [3, 1, 0, 0, 0, 0, 0, 0], all_dpus_are_enabled = [True, False, False, False, False, False, False, False],
     run_context = \<lparr>dpu_running = replicate 8 0, dpu_in_fault = replicate 8 0, poll_status = DPU_OK,
       nb_dpu_running = 0\<rparr>,
     profiling_context = \<lparr>enable_profiling = DPU_PROFILING_NOP, prof_dpu = sim_dpu 0 0,
       sample_stats = [], mcount_stats = [], thread_profiling_address = 0, profiling_symbols = [],
       perfcounter_end_value_address = 0\<rparr>,
     prof_log = [], dpus = [sim_dpu 0 0, sim_dpu 0 1, sim_dpu 1 0, sim_dpu 1 1],
     rank_mutex = 0, hw = (replicate 8 0, replicate 8 0)\<rparr>"

lemmas sim_defs = sim_handler_def sim_dpu_def sim_rank_def

lemma sim_rank_sel [simp]:
  "nr_of_control_interfaces sim_rank = 2" "nr_of_dpus_per_control_interface sim_rank = 2"
  "nr_of_threads sim_rank = 24" "wram_size sim_rank = 0x4000" "mram_size sim_rank = 0x4000000"
  "enabled_dpus sim_rank = [3, 1, 0, 0, 0, 0, 0, 0]" "rank_mutex sim_rank = 0"
  "run_context sim_rank = \<lparr>dpu_running = replicate 8 0, dpu_in_fault = replicate 8 0,
     poll_status = DPU_OK, nb_dpu_running = 0\<rparr>"
  "enable_profiling (profiling_context sim_rank) = DPU_PROFILING_NOP"
  "hw sim_rank = (replicate 8 0, replicate 8 0)"
  by (simp_all add: sim_rank_def)

lemma sim_handler_sel [simp]:
  "poll_rank sim_handler = (\<lambda>h. (h, DPU_OK, h))"
  "custom_operation sim_handler = (\<lambda>s d c a h. (DPU_RANK_SUCCESS, h))"
  "start_thread_rank sim_handler = (\<lambda>t b h. (DPU_OK, (replicate 8 0xFF, snd h)))"
  by (simp_all add: sim_handler_def)

end
