(* ===== verification/Memory.thy ===== *)
theory Memory
  imports Rank
begin

text \<open>
  The memory accesses of the host library (\<^verbatim>\<open>api/src/dpu_memory.c\<close>): the range checks of
  \<^verbatim>\<open>dpu_internals.h\<close>, the copies to and from IRAM, WRAM and MRAM of a rank or of one DPU, and the
  transfer matrix. An access that a check rejects never reaches the backend.

  MRAM can also be accessed through a program that runs on the DPU
  (\<^verbatim>\<open>mram_access_by_dpu_only\<close>); that path is an argument of the two MRAM copies.
\<close>

section \<open>Range checks\<close>

text \<open>
  The macros return from the caller: with \<^verbatim>\<open>DPU_OK\<close> on an empty access, with an error on one out
  of range. The sum \<^verbatim>\<open>(o) + (s)\<close> is computed in the type of its operands, which is \<^verbatim>\<open>uint32_t\<close>
  for WRAM, for MRAM and for the matrix copies to IRAM, and \<^verbatim>\<open>int\<close> for the other IRAM copies, where
  both operands are promoted from \<^verbatim>\<open>uint16_t\<close>.
\<close>

abbreviation (input) DPU_ERR_INVALID_WRAM_ACCESS :: dpu_error_t where "DPU_ERR_INVALID_WRAM_ACCESS \<equiv> 8"
abbreviation (input) DPU_ERR_INVALID_IRAM_ACCESS :: dpu_error_t where "DPU_ERR_INVALID_IRAM_ACCESS \<equiv> 9"
abbreviation (input) DPU_ERR_INVALID_MRAM_ACCESS :: dpu_error_t where "DPU_ERR_INVALID_MRAM_ACCESS \<equiv> 10"
abbreviation (input) DPU_ERR_MRAM_BUSY :: dpu_error_t where "DPU_ERR_MRAM_BUSY \<equiv> 12"

definition verify_wram_access :: "u32 \<Rightarrow> u32 \<Rightarrow> 'h dpu_rank_t op \<Rightarrow> 'h dpu_rank_t op" where
  "verify_wram_access offs siz k r =
     (if siz = 0 then (DPU_OK, r)
      else if offs \<ge> wram_size r \<or> offs + siz > wram_size r then (DPU_ERR_INVALID_WRAM_ACCESS, r)
      else k r)"

definition verify_iram_access :: "u16 \<Rightarrow> u16 \<Rightarrow> 'h dpu_rank_t op \<Rightarrow> 'h dpu_rank_t op" where
  "verify_iram_access offs siz k r =
     (if siz = 0 then (DPU_OK, r)
      else if unat offs \<ge> unat (iram_size r) \<or> unat offs + unat siz > unat (iram_size r)
      then (DPU_ERR_INVALID_IRAM_ACCESS, r)
      else k r)"

definition verify_iram_access_matrix :: "u32 \<Rightarrow> u32 \<Rightarrow> 'h dpu_rank_t op \<Rightarrow> 'h dpu_rank_t op" where
  "verify_iram_access_matrix offs siz k r =
     (if siz = 0 then (DPU_OK, r)
      else if offs \<ge> ucast (iram_size r) \<or> offs + siz > ucast (iram_size r)
      then (DPU_ERR_INVALID_IRAM_ACCESS, r)
      else k r)"

definition verify_mram_access_offset_and_size ::
  "u32 \<Rightarrow> u32 \<Rightarrow> 'h dpu_rank_t op \<Rightarrow> 'h dpu_rank_t op" where
  "verify_mram_access_offset_and_size offs siz k r =
     (if siz mod 8 \<noteq> 0 \<or> offs mod 8 \<noteq> 0 then (DPU_ERR_INVALID_MRAM_ACCESS, r)
      else if offs \<ge> mram_size r \<or> offs + siz > mram_size r then (DPU_ERR_INVALID_MRAM_ACCESS, r)
      else k r)"

section \<open>IRAM\<close>

text \<open>The body shared by the copies: lock the rank, call the backend, unlock the rank.\<close>

definition locked_feature :: "'h op \<Rightarrow> 'h dpu_rank_t op" where
  "locked_feature f rank = unlock_and_return (RANK_FEATURE f (dpu_lock_rank rank))"

definition dpu_copy_to_iram_for_matrix ::
  "'h dpu_rank_handler \<Rightarrow> dpu_transfer_matrix \<Rightarrow> 'h dpu_rank_t op" where
  "dpu_copy_to_iram_for_matrix H matrix =
     verify_iram_access_matrix (tm_offset matrix) (tm_size matrix)
       (locked_feature (copy_to_irams_matrix H matrix))"

definition dpu_copy_from_iram_for_matrix ::
  "'h dpu_rank_handler \<Rightarrow> dpu_transfer_matrix \<Rightarrow> 'h dpu_rank_t op" where
  "dpu_copy_from_iram_for_matrix H matrix =
     verify_iram_access_matrix (tm_offset matrix) (tm_size matrix)
       (locked_feature (copy_from_irams_matrix H matrix))"

definition dpu_copy_to_iram_for_rank ::
  "'h dpu_rank_handler \<Rightarrow> u16 \<Rightarrow> u64 list \<Rightarrow> u16 \<Rightarrow> 'h dpu_rank_t op" where
  "dpu_copy_to_iram_for_rank H iram_instruction_index source nb_of_instructions =
     verify_iram_access iram_instruction_index nb_of_instructions
       (locked_feature (copy_to_irams_rank H iram_instruction_index source nb_of_instructions))"

definition dpu_copy_to_iram_for_dpu ::
  "'h dpu_rank_handler \<Rightarrow> dpu_t \<Rightarrow> u16 \<Rightarrow> u64 list \<Rightarrow> u16 \<Rightarrow> 'h dpu_rank_t op" where
  "dpu_copy_to_iram_for_dpu H dpu iram_instruction_index source nb_of_instructions rank =
     (if \<not> enabled dpu then (DPU_ERR_DPU_DISABLED, rank)
      else verify_iram_access iram_instruction_index nb_of_instructions
        (locked_feature (copy_to_irams_dpu H dpu iram_instruction_index source nb_of_instructions))
        rank)"

section \<open>WRAM\<close>

definition dpu_copy_to_wram_for_rank ::
  "'h dpu_rank_handler \<Rightarrow> u32 \<Rightarrow> u32 list \<Rightarrow> u32 \<Rightarrow> 'h dpu_rank_t op" where
  "dpu_copy_to_wram_for_rank H wram_word_offset source nb_of_words =
     verify_wram_access wram_word_offset nb_of_words
       (locked_feature (copy_to_wrams_rank H wram_word_offset source nb_of_words))"

definition dpu_copy_to_wram_for_dpu ::
  "'h dpu_rank_handler \<Rightarrow> dpu_t \<Rightarrow> u32 \<Rightarrow> u32 list \<Rightarrow> u32 \<Rightarrow> 'h dpu_rank_t op" where
  "dpu_copy_to_wram_for_dpu H dpu wram_word_offset source nb_of_words rank =
     (if \<not> enabled dpu then (DPU_ERR_DPU_DISABLED, rank)
      else verify_wram_access wram_word_offset nb_of_words
        (locked_feature (copy_to_wrams_dpu H dpu wram_word_offset source nb_of_words)) rank)"

definition dpu_copy_to_wram_for_matrix ::
  "'h dpu_rank_handler \<Rightarrow> dpu_transfer_matrix \<Rightarrow> 'h dpu_rank_t op" where
  "dpu_copy_to_wram_for_matrix H transfer_matrix =
     verify_wram_access (tm_offset transfer_matrix) (tm_size transfer_matrix)
       (locked_feature (copy_to_wrams_matrix H transfer_matrix))"

definition dpu_copy_from_wram_for_matrix ::
  "'h dpu_rank_handler \<Rightarrow> dpu_transfer_matrix \<Rightarrow> 'h dpu_rank_t op" where
  "dpu_copy_from_wram_for_matrix H transfer_matrix =
     verify_wram_access (tm_offset transfer_matrix) (tm_size transfer_matrix)
       (locked_feature (copy_from_wrams_matrix H transfer_matrix))"

text \<open>
  The copies out of one DPU fill the caller's buffer: the result is the content written to it, or
  \<open>None\<close> when the access returns before the backend is called.
\<close>

definition dpu_copy_from_wram_for_dpu ::
  "'h dpu_rank_handler \<Rightarrow> dpu_t \<Rightarrow> u32 \<Rightarrow> u32 \<Rightarrow> 'h dpu_rank_t \<Rightarrow>
     u32 list option \<times> dpu_error_t \<times> 'h dpu_rank_t" where
  "dpu_copy_from_wram_for_dpu H dpu wram_word_offset nb_of_words rank =
     (if \<not> enabled dpu then (None, DPU_ERR_DPU_DISABLED, rank)
      else if nb_of_words = 0 then (None, DPU_OK, rank)
      else if wram_word_offset \<ge> wram_size rank \<or> wram_word_offset + nb_of_words > wram_size rank
      then (None, DPU_ERR_INVALID_WRAM_ACCESS, rank)
      else case RANK_FEATURE_GET (copy_from_wrams_dpu H dpu wram_word_offset nb_of_words)
             (dpu_lock_rank rank) of
          (words, status, rank) \<Rightarrow> (Some words, status, dpu_unlock_rank rank))"

definition dpu_copy_from_iram_for_dpu ::
  "'h dpu_rank_handler \<Rightarrow> dpu_t \<Rightarrow> u16 \<Rightarrow> u16 \<Rightarrow> 'h dpu_rank_t \<Rightarrow>
     u64 list option \<times> dpu_error_t \<times> 'h dpu_rank_t" where
  "dpu_copy_from_iram_for_dpu H dpu iram_instruction_index nb_of_instructions rank =
     (if \<not> enabled dpu then (None, DPU_ERR_DPU_DISABLED, rank)
      else if nb_of_instructions = 0 then (None, DPU_OK, rank)
      else if unat iram_instruction_index \<ge> unat (iram_size rank)
        \<or> unat iram_instruction_index + unat nb_of_instructions > unat (iram_size rank)
      then (None, DPU_ERR_INVALID_IRAM_ACCESS, rank)
      else case RANK_FEATURE_GET (copy_from_irams_dpu H dpu iram_instruction_index nb_of_instructions)
             (dpu_lock_rank rank) of
          (instrs, status, rank) \<Rightarrow> (Some instrs, status, dpu_unlock_rank rank))"

section \<open>The transfer matrix\<close>

text \<open>\<^verbatim>\<open>get_transfer_matrix_index\<close> returns a \<^verbatim>\<open>uint8_t\<close>.\<close>

definition get_transfer_matrix_index :: "'h dpu_rank_t \<Rightarrow> u8 \<Rightarrow> u8 \<Rightarrow> u8" where
  "get_transfer_matrix_index rank slc dpu = dpu * nr_of_control_interfaces rank + slc"

definition transfer_matrix_index :: "'h dpu_rank_t \<Rightarrow> dpu_t \<Rightarrow> nat" where
  "transfer_matrix_index rank dpu = unat (get_transfer_matrix_index rank (slice_id dpu) (dpu_id dpu))"

definition dpu_transfer_matrix_add_dpu ::
  "'h dpu_rank_t \<Rightarrow> dpu_t \<Rightarrow> dpu_transfer_matrix \<Rightarrow> nat option \<Rightarrow> dpu_transfer_matrix" where
  "dpu_transfer_matrix_add_dpu rank dpu transfer_matrix buffer =
     transfer_matrix\<lparr>ptr := (ptr transfer_matrix)[transfer_matrix_index rank dpu := buffer]\<rparr>"

definition dpu_transfer_matrix_clear_dpu ::
  "'h dpu_rank_t \<Rightarrow> dpu_t \<Rightarrow> dpu_transfer_matrix \<Rightarrow> dpu_transfer_matrix" where
  "dpu_transfer_matrix_clear_dpu rank dpu transfer_matrix =
     transfer_matrix\<lparr>ptr := (ptr transfer_matrix)[transfer_matrix_index rank dpu := None]\<rparr>"

definition dpu_transfer_matrix_clear_all :: dpu_transfer_matrix where
  "dpu_transfer_matrix_clear_all =
     \<lparr>ptr = replicate MAX_NR_DPUS_PER_RANK None, tm_offset = 0, tm_size = 0,
      tm_type = DPU_DEFAULT_XFER_MATRIX\<rparr>"

definition dpu_transfer_matrix_get_ptr ::
  "'h dpu_rank_t \<Rightarrow> dpu_t \<Rightarrow> dpu_transfer_matrix \<Rightarrow> nat option" where
  "dpu_transfer_matrix_get_ptr rank dpu transfer_matrix =
     (if \<not> enabled dpu then None else ptr transfer_matrix ! transfer_matrix_index rank dpu)"

definition DPU_INDEX :: "'h dpu_rank_t \<Rightarrow> nat \<Rightarrow> nat \<Rightarrow> nat" where
  "DPU_INDEX rank ci dpu = unat (nr_of_dpus_per_control_interface rank) * ci + dpu"

definition dpu_transfer_matrix_set_all ::
  "'h dpu_rank_t \<Rightarrow> dpu_transfer_matrix \<Rightarrow> nat option \<Rightarrow> dpu_transfer_matrix" where
  "dpu_transfer_matrix_set_all rank transfer_matrix buffer =
     foldl (\<lambda>tm each_ci.
        foldl (\<lambda>tm each_dpu.
            let dpu = dpus rank ! DPU_INDEX rank each_ci each_dpu
            in dpu_transfer_matrix_add_dpu rank dpu tm (if enabled dpu then buffer else None))
          tm [0..<unat (nr_of_dpus_per_control_interface rank)])
      transfer_matrix [0..<unat (nr_of_control_interfaces rank)]"

section \<open>MRAM\<close>

definition dpu_copy_to_mrams ::
  "'h dpu_rank_handler \<Rightarrow> (dpu_transfer_matrix \<Rightarrow> 'h dpu_rank_t op) \<Rightarrow> dpu_transfer_matrix \<Rightarrow>
     'h dpu_rank_t op" where
  "dpu_copy_to_mrams H using_dpu_program transfer_matrix =
     verify_mram_access_offset_and_size (tm_offset transfer_matrix) (tm_size transfer_matrix) (\<lambda>rank.
       let rank = dpu_lock_rank rank
       in if nb_dpu_running (run_context rank) > 0
          then (DPU_ERR_MRAM_BUSY, dpu_unlock_rank rank)
          else unlock_and_return
            (if mram_access_by_dpu_only rank then using_dpu_program transfer_matrix rank
             else RANK_FEATURE (copy_to_mrams H transfer_matrix) rank))"

definition dpu_copy_from_mrams ::
  "'h dpu_rank_handler \<Rightarrow> (dpu_transfer_matrix \<Rightarrow> 'h dpu_rank_t op) \<Rightarrow> dpu_transfer_matrix \<Rightarrow>
     'h dpu_rank_t op" where
  "dpu_copy_from_mrams H using_dpu_program transfer_matrix =
     verify_mram_access_offset_and_size (tm_offset transfer_matrix) (tm_size transfer_matrix) (\<lambda>rank.
       let rank = dpu_lock_rank rank
       in if nb_dpu_running (run_context rank) > 0
          then (DPU_ERR_MRAM_BUSY, dpu_unlock_rank rank)
          else unlock_and_return
            (if mram_access_by_dpu_only rank then using_dpu_program transfer_matrix rank
             else RANK_FEATURE (copy_from_mrams H transfer_matrix) rank))"

definition dpu_copy_to_mram ::
  "'h dpu_rank_handler \<Rightarrow> (dpu_transfer_matrix \<Rightarrow> 'h dpu_rank_t op) \<Rightarrow> dpu_t \<Rightarrow> u32 \<Rightarrow> nat option \<Rightarrow> u32 \<Rightarrow>
     'h dpu_rank_t op" where
  "dpu_copy_to_mram H using_dpu_program dpu mram_byte_offset source nb_of_bytes rank =
     (if \<not> enabled dpu then (DPU_ERR_DPU_DISABLED, rank)
      else if nb_of_bytes = 0 then (DPU_OK, rank)
      else let tm = dpu_transfer_matrix_add_dpu rank dpu dpu_transfer_matrix_clear_all source;
               tm = tm\<lparr>tm_size := nb_of_bytes, tm_offset := mram_byte_offset\<rparr>
           in dpu_copy_to_mrams H using_dpu_program tm rank)"

definition dpu_copy_from_mram ::
  "'h dpu_rank_handler \<Rightarrow> (dpu_transfer_matrix \<Rightarrow> 'h dpu_rank_t op) \<Rightarrow> dpu_t \<Rightarrow> nat option \<Rightarrow> u32 \<Rightarrow> u32 \<Rightarrow>
     'h dpu_rank_t op" where
  "dpu_copy_from_mram H using_dpu_program dpu destination mram_byte_offset nb_of_bytes rank =
     (if \<not> enabled dpu then (DPU_ERR_DPU_DISABLED, rank)
      else if nb_of_bytes = 0 then (DPU_OK, rank)
      else let tm = dpu_transfer_matrix_add_dpu rank dpu dpu_transfer_matrix_clear_all destination;
               tm = tm\<lparr>tm_size := nb_of_bytes, tm_offset := mram_byte_offset\<rparr>
           in dpu_copy_from_mrams H using_dpu_program tm rank)"

lemmas copy_defs =
  dpu_copy_to_iram_for_matrix_def dpu_copy_from_iram_for_matrix_def dpu_copy_to_iram_for_rank_def
  dpu_copy_to_iram_for_dpu_def dpu_copy_to_wram_for_rank_def dpu_copy_to_wram_for_dpu_def
  dpu_copy_to_wram_for_matrix_def dpu_copy_from_wram_for_matrix_def

lemmas verify_defs =
  verify_wram_access_def verify_iram_access_def verify_iram_access_matrix_def
  verify_mram_access_offset_and_size_def

section \<open>Range checks: what they guarantee\<close>

lemma unat_add_no_wrap:
  fixes a b :: "'a::len word"
  assumes "unat a + unat b < 2 ^ LENGTH('a)"
  shows "unat (a + b) = unat a + unat b"
  using assms by (simp add: unat_word_ariths)

lemma add_le_iff_no_wrap:
  fixes a b c :: "'a::len word"
  assumes "unat a + unat b < 2 ^ LENGTH('a)"
  shows "a + b > c \<longleftrightarrow> unat a + unat b > unat c"
  using unat_add_no_wrap [OF assms] by (simp add: word_less_nat_alt)

lemma unat_add_minus:
  fixes a :: "'a::len word"
  assumes "a \<noteq> 0"
  shows "unat a + unat (- a) = 2 ^ LENGTH('a)"
proof -
  have "uint (- a) = 2 ^ LENGTH('a) - uint a"
    using assms by (simp add: uint_word_ariths zmod_zminus1_eq_if uint_0_iff)
  then have "int (unat a + unat (- a)) = int (2 ^ LENGTH('a))"
    by simp
  then show ?thesis
    by (metis of_nat_eq_iff)
qed

lemma verify_wram_reached:
  assumes "unat offs + unat siz < 2 ^ 32" and "siz \<noteq> 0"
  shows "verify_wram_access offs siz k r =
    (if unat offs + unat siz \<le> unat (wram_size r) then k r else (DPU_ERR_INVALID_WRAM_ACCESS, r))"
proof -
  have "offs + siz > wram_size r \<longleftrightarrow> unat offs + unat siz > unat (wram_size r)"
    using assms(1) by (simp add: add_le_iff_no_wrap)
  moreover have "unat siz > 0"
    using assms(2) by (simp add: unat_gt_0)
  ultimately show ?thesis
    using assms(2) by (auto simp: verify_wram_access_def word_le_nat_alt)
qed

lemma verify_mram_reached:
  assumes "unat offs + unat siz < 2 ^ 32"
  shows "verify_mram_access_offset_and_size offs siz k r =
    (if unat siz mod 8 = 0 \<and> unat offs mod 8 = 0 \<and> unat offs < unat (mram_size r)
        \<and> unat offs + unat siz \<le> unat (mram_size r)
     then k r else (DPU_ERR_INVALID_MRAM_ACCESS, r))"
proof -
  have "offs + siz > mram_size r \<longleftrightarrow> unat offs + unat siz > unat (mram_size r)"
    using assms by (simp add: add_le_iff_no_wrap)
  moreover have "(x :: u32) mod 8 = 0 \<longleftrightarrow> unat x mod 8 = 0" for x
    by (simp add: word_unat_eq_iff unat_mod)
  ultimately show ?thesis
    by (auto simp: verify_mram_access_offset_and_size_def word_le_nat_alt)
qed

section \<open>The transfer matrix: indices\<close>

text \<open>
  The topology of a rank: at most eight control interfaces of at most eight DPUs, and the table
  of DPUs holds the DPU of each pair of ids at its index.
\<close>

definition topology_wf :: "'h dpu_rank_t \<Rightarrow> bool" where
  "topology_wf r \<longleftrightarrow> unat (nr_of_control_interfaces r) \<le> 8
     \<and> unat (nr_of_dpus_per_control_interface r) \<le> 8
     \<and> (\<forall>ci < unat (nr_of_control_interfaces r). \<forall>d < unat (nr_of_dpus_per_control_interface r).
           unat (slice_id (dpus r ! DPU_INDEX r ci d)) = ci \<and> unat (dpu_id (dpus r ! DPU_INDEX r ci d)) = d)"

lemma transfer_index_arith:
  fixes s d n m :: nat
  assumes "s < n" "n \<le> 8" "d < m" "m \<le> 8"
  shows "d * n + s < 64"
proof -
  have "d * n + s < (d + 1) * n"
    using assms(1) by (simp add: algebra_simps)
  also have "\<dots> \<le> 8 * 8"
    using assms by (intro mult_mono) auto
  finally show ?thesis by simp
qed

lemma transfer_matrix_index_eq:
  assumes "topology_wf r" "ci < unat (nr_of_control_interfaces r)"
    "d < unat (nr_of_dpus_per_control_interface r)"
  shows "transfer_matrix_index r (dpus r ! DPU_INDEX r ci d) = d * unat (nr_of_control_interfaces r) + ci"
proof -
  have "d * unat (nr_of_control_interfaces r) + ci < 64"
    using assms by (intro transfer_index_arith) (auto simp: topology_wf_def)
  with assms show ?thesis
    by (simp add: topology_wf_def transfer_matrix_index_def get_transfer_matrix_index_def
        unat_word_ariths)
qed

lemma transfer_index_inj:
  fixes s d s' d' n :: nat
  assumes "s < n" "s' < n" "d * n + s = d' * n + s'"
  shows "s = s' \<and> d = d'"
proof -
  have "(d * n + s) div n = d" "(d' * n + s') div n = d'"
    using assms(1,2) by auto
  then have "d = d'" using assms(3) by simp
  with assms(3) show ?thesis by simp
qed

lemma foldl_product:
  "foldl (\<lambda>a x. foldl (\<lambda>a y. f a x y) a ys) a xs = foldl (\<lambda>a p. f a (fst p) (snd p)) a (List.product xs ys)"
proof -
  have "foldl (\<lambda>a p. f a (fst p) (snd p)) a (map (Pair x) ys) = foldl (\<lambda>a y. f a x y) a ys" for x a
    by (induction ys arbitrary: a) auto
  then show ?thesis
    by (induction xs arbitrary: a) auto
qed

lemma foldl_update_length [simp]:
  "length (foldl (\<lambda>xs i. xs[g i := v i]) xs is) = length xs"
  by (induction "is" arbitrary: xs) auto

lemma foldl_update_other:
  "k \<notin> g ` set is \<Longrightarrow> foldl (\<lambda>xs i. xs[g i := v i]) xs is ! k = xs ! k"
  by (induction "is" arbitrary: xs) auto

lemma foldl_update_nth:
  assumes "inj_on g (set is)" "j \<in> set is" "g j < length xs" "distinct is"
  shows "foldl (\<lambda>xs i. xs[g i := v i]) xs is ! g j = v j"
  using assms
proof (induction "is" arbitrary: xs)
  case Nil
  then show ?case by simp
next
  case (Cons i "is")
  show ?case
  proof (cases "j = i")
    case True
    with Cons.prems have "g i \<notin> g ` set is"
      by (auto simp: inj_on_def)
    with True Cons.prems show ?thesis
      by (simp add: foldl_update_other)
  next
    case False
    with Cons show ?thesis by (simp add: inj_on_def)
  qed
qed

text \<open>The matrix after \<open>dpu_transfer_matrix_set_all\<close>, one cell at a time.\<close>

lemma set_all_ptr:
  "ptr (dpu_transfer_matrix_set_all r tm b) =
     foldl (\<lambda>xs p. xs[transfer_matrix_index r (dpus r ! DPU_INDEX r (fst p) (snd p)) :=
         (if enabled (dpus r ! DPU_INDEX r (fst p) (snd p)) then b else None)])
       (ptr tm) (List.product [0..<unat (nr_of_control_interfaces r)]
                              [0..<unat (nr_of_dpus_per_control_interface r)])"
proof -
  have "ptr (foldl (\<lambda>tm p. dpu_transfer_matrix_add_dpu r (dpus r ! DPU_INDEX r (fst p) (snd p)) tm
          (if enabled (dpus r ! DPU_INDEX r (fst p) (snd p)) then b else None)) tm ps) =
      foldl (\<lambda>xs p. xs[transfer_matrix_index r (dpus r ! DPU_INDEX r (fst p) (snd p)) :=
         (if enabled (dpus r ! DPU_INDEX r (fst p) (snd p)) then b else None)]) (ptr tm) ps" for ps
    by (induction ps arbitrary: tm) (auto simp: dpu_transfer_matrix_add_dpu_def)
  then show ?thesis
    by (simp add: dpu_transfer_matrix_set_all_def Let_def foldl_product)
qed

lemma set_all_type: "tm_type (dpu_transfer_matrix_set_all r tm b) = tm_type tm"
  unfolding dpu_transfer_matrix_set_all_def
  by (intro foldl_invariant) (simp add: Let_def dpu_transfer_matrix_add_dpu_def)

lemma set_all_cell:
  assumes "topology_wf r" "length (ptr tm) = 64"
    "ci < unat (nr_of_control_interfaces r)" "d < unat (nr_of_dpus_per_control_interface r)"
  shows "ptr (dpu_transfer_matrix_set_all r tm b) ! (d * unat (nr_of_control_interfaces r) + ci) =
    (if enabled (dpus r ! DPU_INDEX r ci d) then b else None)"
proof -
  let ?n = "unat (nr_of_control_interfaces r)" and ?m = "unat (nr_of_dpus_per_control_interface r)"
  let ?g = "\<lambda>p. transfer_matrix_index r (dpus r ! DPU_INDEX r (fst p) (snd p))"
  let ?v = "\<lambda>p. if enabled (dpus r ! DPU_INDEX r (fst p) (snd p)) then b else None"
  have idx: "?g (c, e) = e * ?n + c" if "c < ?n" "e < ?m" for c e
    using transfer_matrix_index_eq [OF assms(1) that] by simp
  have "inj_on ?g (set (List.product [0..<?n] [0..<?m]))"
  proof (rule inj_onI)
    fix p q assume "p \<in> set (List.product [0..<?n] [0..<?m])" "q \<in> set (List.product [0..<?n] [0..<?m])"
      and eq: "?g p = ?g q"
    then obtain c e c' e' where "p = (c, e)" "q = (c', e')" "c < ?n" "e < ?m" "c' < ?n" "e' < ?m"
      by auto
    with eq idx transfer_index_inj [of c ?n c' e e'] show "p = q"
      by metis
  qed
  moreover have "?g (ci, d) < length (ptr tm)"
    using assms transfer_index_arith [of ci ?n d ?m] idx [OF assms(3,4)]
    by (auto simp: topology_wf_def)
  ultimately have "foldl (\<lambda>xs p. xs[?g p := ?v p]) (ptr tm) (List.product [0..<?n] [0..<?m]) ! ?g (ci, d)
      = ?v (ci, d)"
    using assms(3,4) by (intro foldl_update_nth) (auto simp: distinct_product)
  then show ?thesis
    using idx [OF assms(3,4)] by (simp add: set_all_ptr)
qed

section \<open>Properties\<close>

text \<open>
  a WRAM copy to a rank whose end does not overflow 32 bits reaches the backend exactly when it
  is not empty and lies inside WRAM; an empty copy is a success without effect, and one out of range
  returns \<^verbatim>\<open>DPU_ERR_INVALID_WRAM_ACCESS\<close> and leaves the rank as it was.
\<close>

lemma wram_copy_checked:
  assumes "unat offs + unat siz < 2 ^ 32"
  shows "dpu_copy_to_wram_for_rank H offs src siz r =
    (if siz = 0 then (DPU_OK, r)
     else if unat offs + unat siz \<le> unat (wram_size r)
     then locked_feature (copy_to_wrams_rank H offs src siz) r
     else (DPU_ERR_INVALID_WRAM_ACCESS, r))"
proof (cases "siz = 0")
  case False
  then show ?thesis
    by (simp add: dpu_copy_to_wram_for_rank_def verify_wram_reached [OF assms])
qed (simp add: dpu_copy_to_wram_for_rank_def verify_wram_access_def)

lemma wram_copy_checked_witness:
  "dpu_copy_to_wram_for_rank sim_handler 0x3FF0 [] 0x20 sim_rank = (DPU_ERR_INVALID_WRAM_ACCESS, sim_rank)"
  using wram_copy_checked [of "0x3FF0" "0x20" sim_handler "[]" sim_rank] by (simp add: sim_rank_def)

text \<open>
  C2: the sum of the WRAM check is computed in 32 bits. For every non-zero offset inside WRAM there is a
  size with which the copy runs past the end of WRAM and is nevertheless handed to the backend.
\<close>

theorem wram_check_wraps:
  assumes "0 < offs" "offs < wram_size r"
  shows "unat offs + unat (- offs) > unat (wram_size r)
    \<and> dpu_copy_to_wram_for_rank H offs src (- offs) r =
        locked_feature (copy_to_wrams_rank H offs src (- offs)) r"
proof -
  have n0: "offs \<noteq> 0"
    using assms(1) by auto
  then have "unat offs + unat (- offs) = 2 ^ 32"
    by (simp add: unat_add_minus)
  moreover have "unat (wram_size r) < 2 ^ 32"
    using unsigned_less [of "wram_size r"] by simp
  moreover have "\<not> wram_size r \<le> offs"
    using assms(2) by (simp add: not_le)
  ultimately show ?thesis
    using n0 by (simp add: dpu_copy_to_wram_for_rank_def verify_wram_access_def)
qed

theorem wram_check_wraps_witness:
  "dpu_copy_to_wram_for_rank sim_handler 16 [] (- 16) sim_rank =
     locked_feature (copy_to_wrams_rank sim_handler 16 [] (- 16)) sim_rank"
  using wram_check_wraps [of 16 sim_rank sim_handler "[]"] by (simp add: sim_rank_def)

text \<open>
  while the run context counts a running DPU, no MRAM copy reaches the backend: it fails with an
  invalid access or with \<^verbatim>\<open>DPU_ERR_MRAM_BUSY\<close>, and the rank, its mutex included, is as before. For one
  DPU, a disabled DPU and an empty copy are answered first, without effect either.
\<close>

lemma mram_copy_busy:
  assumes "nb_dpu_running (run_context r) \<noteq> 0"
  shows "snd (dpu_copy_to_mrams H via m r) = r \<and> snd (dpu_copy_from_mrams H via m r) = r
    \<and> fst (dpu_copy_to_mrams H via m r) \<in> {DPU_ERR_INVALID_MRAM_ACCESS, DPU_ERR_MRAM_BUSY}
    \<and> fst (dpu_copy_from_mrams H via m r) \<in> {DPU_ERR_INVALID_MRAM_ACCESS, DPU_ERR_MRAM_BUSY}
    \<and> snd (dpu_copy_to_mram H via d offs buf n r) = r \<and> snd (dpu_copy_from_mram H via d buf offs n r) = r"
proof -
  have "nb_dpu_running (run_context r) > 0"
    using assms by (simp add: word_gt_0)
  then have "snd (dpu_copy_to_mrams H via m r) = r" "snd (dpu_copy_from_mrams H via m r) = r"
      "fst (dpu_copy_to_mrams H via m r) \<in> {DPU_ERR_INVALID_MRAM_ACCESS, DPU_ERR_MRAM_BUSY}"
      "fst (dpu_copy_from_mrams H via m r) \<in> {DPU_ERR_INVALID_MRAM_ACCESS, DPU_ERR_MRAM_BUSY}" for m
    by (simp_all add: dpu_copy_to_mrams_def dpu_copy_from_mrams_def
        verify_mram_access_offset_and_size_def Let_def)
  then show ?thesis
    by (simp add: dpu_copy_to_mram_def dpu_copy_from_mram_def Let_def)
qed

definition sim_busy :: "sim dpu_rank_t" where
  "sim_busy = sim_rank\<lparr>run_context := (run_context sim_rank)\<lparr>dpu_running := [3, 0, 0, 0, 0, 0, 0, 0],
     nb_dpu_running := 2\<rparr>\<rparr>"

lemma mram_copy_busy_witness:
  "snd (dpu_copy_to_mram sim_handler (\<lambda>m r. (DPU_OK, r)) (sim_dpu 0 0) 8 (Some 64) 16 sim_busy) = sim_busy"
  using mram_copy_busy [of sim_busy sim_handler] by (simp add: sim_busy_def)

text \<open>
  after \<open>dpu_transfer_matrix_set_all\<close> on a well-formed topology, the cell of every DPU of the
  rank, which is the cell that \<open>dpu_transfer_matrix_get_ptr\<close> reads, holds the buffer when the DPU is
  enabled and the null pointer when it is not.
\<close>

lemma set_all_get_ptr:
  assumes "topology_wf r" "length (ptr tm) = 64"
    "ci < unat (nr_of_control_interfaces r)" "d < unat (nr_of_dpus_per_control_interface r)"
  shows "dpu_transfer_matrix_get_ptr r (dpus r ! DPU_INDEX r ci d) (dpu_transfer_matrix_set_all r tm b) =
      (if enabled (dpus r ! DPU_INDEX r ci d) then b else None)
    \<and> ptr (dpu_transfer_matrix_set_all r tm b) ! transfer_matrix_index r (dpus r ! DPU_INDEX r ci d) =
      (if enabled (dpus r ! DPU_INDEX r ci d) then b else None)"
  using set_all_cell [OF assms] transfer_matrix_index_eq [OF assms(1,3,4)]
  by (simp add: dpu_transfer_matrix_get_ptr_def)

lemma set_all_get_ptr_witness:
  "dpu_transfer_matrix_get_ptr sim_rank (sim_dpu 1 0)
     (dpu_transfer_matrix_set_all sim_rank dpu_transfer_matrix_clear_all (Some 64)) = Some 64"
  using set_all_get_ptr [of sim_rank dpu_transfer_matrix_clear_all 1 0 "Some 64"]
  by (simp add: sim_rank_def sim_dpu_def topology_wf_def DPU_INDEX_def dpu_transfer_matrix_clear_all_def
      less_2_cases_iff)

end
