(* ===== verification/Profiler.thy ===== *)
theory Profiler
  imports Memory
begin

text \<open>
  The part of the profiler (\<^verbatim>\<open>api/src/dpu_profiler.c\<close>) that the runner calls while it launches and
  polls DPUs: the counters of the three profiling methods, the lines dumped when the profiled DPU
  stops, and the magic number written to WRAM at launch.
\<close>

section \<open>Collecting\<close>

abbreviation (input) MAGIC_PROFILING_VALUE :: u32 where "MAGIC_PROFILING_VALUE \<equiv> 0xDEAD0000"
abbreviation (input) MAGIC_PROFILING_VALUE_MASK :: u32 where "MAGIC_PROFILING_VALUE_MASK \<equiv> 0xFFFF0000"
abbreviation (input) DPU_NR_THREADS :: nat where "DPU_NR_THREADS \<equiv> 24"

text \<open>The inner loop: the first entry with the sampled address is counted, then the loop breaks.\<close>

fun count_address :: "u16 \<Rightarrow> mcount_stat list \<Rightarrow> mcount_stat list" where
  "count_address a [] = []"
| "count_address a (s # ss) =
     (if mc_address s = a then s\<lparr>mc_count := mc_count s + 1\<rparr> # ss else s # count_address a ss)"

definition collect_thread :: "u32 list \<Rightarrow> mcount_stat list list \<Rightarrow> nat \<Rightarrow> mcount_stat list list" where
  "collect_thread profiled_address stats thread_id =
     (let w = profiled_address ! thread_id
      in if w AND MAGIC_PROFILING_VALUE_MASK \<noteq> MAGIC_PROFILING_VALUE then stats
         else let cur_profiled_address = ucast (w AND NOT MAGIC_PROFILING_VALUE_MASK) :: u16
              in if cur_profiled_address = 0 then stats
                 else stats[thread_id := count_address cur_profiled_address (stats ! thread_id)])"

definition dpu_collect_statistics_profiling ::
  "dpu_t \<Rightarrow> u8 \<Rightarrow> u32 list \<Rightarrow> 'h dpu_rank_t \<Rightarrow> 'h dpu_rank_t" where
  "dpu_collect_statistics_profiling dpu nr_threads profiled_address rank =
     (if \<not> enabled dpu then rank
      else let pc = profiling_context rank
           in rank\<lparr>profiling_context := pc\<lparr>mcount_stats :=
                foldl (collect_thread profiled_address) (mcount_stats pc) [0..<unat nr_threads]\<rparr>\<rparr>)"

definition dpu_collect_samples_profiling :: "dpu_t \<Rightarrow> u16 \<Rightarrow> 'h dpu_rank_t \<Rightarrow> 'h dpu_rank_t" where
  "dpu_collect_samples_profiling dpu profiled_address rank =
     (if \<not> enabled dpu then rank
      else if profiled_address \<ge> iram_size rank then rank
      else let pc = profiling_context rank; i = unat profiled_address
           in rank\<lparr>profiling_context := pc\<lparr>sample_stats := (sample_stats pc)[i := sample_stats pc ! i + 1]\<rparr>\<rparr>)"

section \<open>Dumping\<close>

definition dpu_dump_statistics_profiling :: "dpu_t \<Rightarrow> u8 \<Rightarrow> 'h dpu_rank_t \<Rightarrow> 'h dpu_rank_t" where
  "dpu_dump_statistics_profiling dpu nr_threads rank =
     (if \<not> enabled dpu then rank
      else rank\<lparr>prof_log := prof_log rank @
        concat (map (\<lambda>thread_id.
            map (\<lambda>s. ProfStat thread_id (mc_address s) (mc_count s))
              (mcount_stats (profiling_context rank) ! thread_id))
          [0..<unat nr_threads])\<rparr>)"

definition dpu_dump_samples_profiling :: "dpu_t \<Rightarrow> 'h dpu_rank_t \<Rightarrow> 'h dpu_rank_t" where
  "dpu_dump_samples_profiling dpu rank =
     (if \<not> enabled dpu then rank
      else rank\<lparr>prof_log := prof_log rank @
        map (\<lambda>i. ProfSample i (sample_stats (profiling_context rank) ! i))
          (filter (\<lambda>i. sample_stats (profiling_context rank) ! i \<noteq> 0) [0..<unat (iram_size rank)])\<rparr>)"

text \<open>
  A section is \<^verbatim>\<open>struct { uint32_t start[NR_THREADS]; uint32_t count[NR_THREADS]; }\<close>. The line
  printed for a thread is the ratio of the two numbers logged here.
\<close>

definition dpu_dump_section_profiling ::
  "dpu_t \<Rightarrow> u8 \<Rightarrow> string \<Rightarrow> u32 list \<Rightarrow> u32 \<Rightarrow> 'h dpu_rank_t \<Rightarrow> 'h dpu_rank_t" where
  "dpu_dump_section_profiling dpu nr_threads section_name section_info perfcounter_end_value rank =
     (if \<not> enabled dpu then rank
      else if perfcounter_end_value = 0 then rank
      else rank\<lparr>prof_log := prof_log rank @
        map (\<lambda>t. ProfSection section_name t (section_info ! (DPU_NR_THREADS + t)) perfcounter_end_value)
          (filter (\<lambda>t. section_info ! (DPU_NR_THREADS + t) \<noteq> 0) [0..<unat nr_threads])\<rparr>)"

section \<open>The magic number\<close>

definition dpu_set_magic_profiling_for_dpu :: "'h dpu_rank_handler \<Rightarrow> dpu_t \<Rightarrow> 'h dpu_rank_t op" where
  "dpu_set_magic_profiling_for_dpu H dpu rank =
     (if \<not> enabled dpu then (DPU_ERR_DPU_DISABLED, rank)
      else if enable_profiling (profiling_context rank) \<noteq> DPU_PROFILING_STATS then (DPU_OK, rank)
      else dpu_copy_to_wram_for_dpu H dpu (thread_profiling_address (profiling_context rank) div 4)
        (replicate (unat (nr_of_threads rank)) MAGIC_PROFILING_VALUE) (ucast (nr_of_threads rank)) rank)"

section \<open>What the profiler leaves alone\<close>

lemma prof_frame [simp]:
  "rank_frame (dpu_collect_statistics_profiling d n p r) = rank_frame r"
  "rank_frame (dpu_collect_samples_profiling d a r) = rank_frame r"
  "rank_frame (dpu_dump_statistics_profiling d n r) = rank_frame r"
  "rank_frame (dpu_dump_samples_profiling d r) = rank_frame r"
  "rank_frame (dpu_dump_section_profiling d n s i e r) = rank_frame r"
  by (simp_all add: dpu_collect_statistics_profiling_def dpu_collect_samples_profiling_def
      dpu_dump_statistics_profiling_def dpu_dump_samples_profiling_def
      dpu_dump_section_profiling_def Let_def)

lemma prof_run_context [simp]:
  "run_context (dpu_collect_statistics_profiling d n p r) = run_context r"
  "run_context (dpu_collect_samples_profiling d a r) = run_context r"
  "run_context (dpu_dump_statistics_profiling d n r) = run_context r"
  "run_context (dpu_dump_samples_profiling d r) = run_context r"
  "run_context (dpu_dump_section_profiling d n s i e r) = run_context r"
  by (simp_all add: dpu_collect_statistics_profiling_def dpu_collect_samples_profiling_def
      dpu_dump_statistics_profiling_def dpu_dump_samples_profiling_def
      dpu_dump_section_profiling_def Let_def)

lemma hw_only_locked_feature: "hw_only (locked_feature g)"
  unfolding hw_only_def locked_feature_def
  by (intro allI hw_only_locked) (rule hw_only_snd [OF hw_only_feature])

lemma hw_only_verify_wram: "hw_only k \<Longrightarrow> hw_only (verify_wram_access offs siz k)"
  by (auto simp: hw_only_def verify_wram_access_def)

lemma hw_only_copy_to_wram_for_dpu: "hw_only (dpu_copy_to_wram_for_dpu H d offs src n)"
  using hw_only_verify_wram [OF hw_only_locked_feature]
  by (auto simp: hw_only_def dpu_copy_to_wram_for_dpu_def)

lemma hw_only_set_magic: "hw_only (dpu_set_magic_profiling_for_dpu H d)"
  unfolding hw_only_def
  by (auto simp: dpu_set_magic_profiling_for_dpu_def
      intro: hw_only_snd [OF hw_only_copy_to_wram_for_dpu])

interpretation set_magic: rank_op "dpu_set_magic_profiling_for_dpu H d"
  by (intro rank_op_hw_only hw_only_set_magic)

section \<open>Counting\<close>

text \<open>One sample adds one hit in total, and only to an entry with the sampled address.\<close>

lemma count_address_addresses: "map mc_address (count_address a ss) = map mc_address ss"
  by (induction ss) auto

lemma count_address_unknown: "a \<notin> set (map mc_address ss) \<Longrightarrow> count_address a ss = ss"
  by (induction ss) auto

lemma count_address_known:
  assumes "a \<in> set (map mc_address ss)"
  shows "\<exists>i < length ss. mc_address (ss ! i) = a \<and> (\<forall>j < i. mc_address (ss ! j) \<noteq> a)
    \<and> count_address a ss = ss[i := (ss ! i)\<lparr>mc_count := mc_count (ss ! i) + 1\<rparr>]"
  using assms
proof (induction ss)
  case Nil
  then show ?case by simp
next
  case (Cons s ss)
  show ?case
  proof (cases "mc_address s = a")
    case True
    then show ?thesis by (intro exI [of _ 0]) auto
  next
    case False
    with Cons obtain i where "i < length ss" "mc_address (ss ! i) = a"
      "\<forall>j < i. mc_address (ss ! j) \<noteq> a"
      "count_address a ss = ss[i := (ss ! i)\<lparr>mc_count := mc_count (ss ! i) + 1\<rparr>]"
      by auto
    with False show ?thesis
      by (intro exI [of _ "Suc i"]) (auto simp: less_Suc_eq_0_disj)
  qed
qed

section \<open>Properties\<close>

text \<open>
  one collection of statistics adds at most one hit to the table of a thread: nothing when the
  word read for the thread does not carry the magic number, holds address zero or an address that
  is not in the table, and otherwise exactly one hit, to the first entry with that address.
  The addresses in the table never change.
\<close>

lemma collect_thread_counts_once:
  assumes "t < length stats" "w = profiled ! t"
  shows "map (map mc_address) (collect_thread profiled stats t) = map (map mc_address) stats
    \<and> (w AND MAGIC_PROFILING_VALUE_MASK \<noteq> MAGIC_PROFILING_VALUE
         \<or> ucast (w AND NOT MAGIC_PROFILING_VALUE_MASK) \<notin> insert (0 :: u16) (mc_address ` set (stats ! t))
       \<longrightarrow> collect_thread profiled stats t = stats)
    \<and> (w AND MAGIC_PROFILING_VALUE_MASK = MAGIC_PROFILING_VALUE
         \<and> ucast (w AND NOT MAGIC_PROFILING_VALUE_MASK) \<in> mc_address ` set (stats ! t) - {0 :: u16}
       \<longrightarrow> (\<exists>i < length (stats ! t). mc_address (stats ! t ! i) = ucast (w AND NOT MAGIC_PROFILING_VALUE_MASK)
             \<and> (\<forall>j < i. mc_address (stats ! t ! j) \<noteq> ucast (w AND NOT MAGIC_PROFILING_VALUE_MASK))
             \<and> collect_thread profiled stats t = stats[t := (stats ! t)[i :=
                   (stats ! t ! i)\<lparr>mc_count := mc_count (stats ! t ! i) + 1\<rparr>]]))"
proof -
  let ?a = "ucast (w AND NOT MAGIC_PROFILING_VALUE_MASK) :: u16"
  have eq: "collect_thread profiled stats t =
      (if w AND MAGIC_PROFILING_VALUE_MASK \<noteq> MAGIC_PROFILING_VALUE \<or> ?a = 0 then stats
       else stats[t := count_address ?a (stats ! t)])"
    by (simp add: collect_thread_def assms(2) Let_def)
  have "map (map mc_address) (stats[t := count_address a (stats ! t)]) = map (map mc_address) stats" for a
    by (simp add: map_update count_address_addresses)
      (metis assms(1) list_update_id nth_map)
  moreover have "stats[t := count_address ?a (stats ! t)] = stats" if "?a \<notin> mc_address ` set (stats ! t)"
    using that by (simp add: count_address_unknown)
  moreover have "\<exists>i < length (stats ! t). mc_address (stats ! t ! i) = ?a
      \<and> (\<forall>j < i. mc_address (stats ! t ! j) \<noteq> ?a)
      \<and> stats[t := count_address ?a (stats ! t)] = stats[t := (stats ! t)[i :=
            (stats ! t ! i)\<lparr>mc_count := mc_count (stats ! t ! i) + 1\<rparr>]]"
    if "?a \<in> mc_address ` set (stats ! t)"
    using count_address_known [of ?a "stats ! t"] that unfolding set_map by metis
  ultimately show ?thesis
    unfolding eq by (simp split: if_split)
qed

lemma collect_thread_counts_once_witness:
  "collect_thread [0xDEAD0010] [[\<lparr>mc_address = 0x10, mc_count = 4\<rparr>]] 0 =
     [[\<lparr>mc_address = 0x10, mc_count = 5\<rparr>]]"
  using collect_thread_counts_once [of 0 "[[\<lparr>mc_address = 0x10, mc_count = 4\<rparr>]]" "0xDEAD0010" "[0xDEAD0010]"]
  by simp

end
