(* ===== verification/Runner.thy ===== *)
theory Runner
  imports Profiler
begin

text \<open>
  The low-level runner (\<^verbatim>\<open>api/src/dpu_runner.c\<close>): booting a rank or a DPU, polling the backend and
  reading the status. The state is the run context of the rank: one bitfield of running DPUs and
  one of DPUs in fault per control interface, and the number of running DPUs.
\<close>

section \<open>Booting a thread\<close>

abbreviation (input) DPU_BOOT_THREAD :: u8 where "DPU_BOOT_THREAD \<equiv> 0"

definition dpu_thread_boot_safe_for_dpu ::
  "'h dpu_rank_handler \<Rightarrow> dpu_t \<Rightarrow> u8 \<Rightarrow> bool \<Rightarrow> 'h dpu_rank_t op" where
  "dpu_thread_boot_safe_for_dpu H dpu thread resume rank =
     FF (RANK_FEATURE (start_thread_dpu H dpu thread resume) rank) (\<lambda>rank. (DPU_OK, rank))"

definition dpu_thread_boot_safe_for_rank ::
  "'h dpu_rank_handler \<Rightarrow> u8 \<Rightarrow> bool \<Rightarrow> 'h dpu_rank_t op" where
  "dpu_thread_boot_safe_for_rank H thread resume rank =
     FF (RANK_FEATURE (start_thread_rank H thread resume) rank) (\<lambda>rank. (DPU_OK, rank))"

section \<open>Polling\<close>

text \<open>
  The loop at the end of \<^verbatim>\<open>dpu_poll_rank\<close>: what the backend reports is restricted to the enabled
  DPUs, a DPU in fault is not running, and the running DPUs are counted in a \<^verbatim>\<open>uint32_t\<close> that is
  stored in the \<^verbatim>\<open>uint8_t\<close> of the run context.
\<close>

definition poll_slice ::
  "dpu_bitfield_t list \<Rightarrow> dpu_bitfield_t list \<Rightarrow> dpu_bitfield_t list \<Rightarrow>
     dpu_run_context_t \<times> u32 \<Rightarrow> nat \<Rightarrow> dpu_run_context_t \<times> u32" where
  "poll_slice enabled_masks poll_running poll_in_fault = (\<lambda>(rc, nb) each_slice.
     let mask_all = enabled_masks ! each_slice;
         rc = rc\<lparr>dpu_in_fault := (dpu_in_fault rc)[each_slice := poll_in_fault ! each_slice AND mask_all]\<rparr>;
         rc = rc\<lparr>dpu_running := (dpu_running rc)[each_slice :=
                (poll_running ! each_slice AND mask_all) AND NOT (dpu_in_fault rc ! each_slice)]\<rparr>
     in (rc, nb + word_of_nat (builtin_popcount (dpu_running rc ! each_slice))))"

definition poll_run_context ::
  "dpu_bitfield_t list \<Rightarrow> dpu_bitfield_t list \<Rightarrow> 'h dpu_rank_t \<Rightarrow> 'h dpu_rank_t" where
  "poll_run_context poll_running poll_in_fault rank =
     (let (rc, nb) = foldl (poll_slice (enabled_dpus rank) poll_running poll_in_fault)
            (run_context rank, 0) [0..<unat (nr_of_control_interfaces rank)]
      in rank\<lparr>run_context := rc\<lparr>nb_dpu_running := ucast nb\<rparr>\<rparr>)"

text \<open>The test that the three profiling methods share: the profiled DPU has just stopped.\<close>

definition profiled_dpu_stopped ::
  "dpu_bitfield_t list \<Rightarrow> dpu_bitfield_t list \<Rightarrow> 'h dpu_rank_t \<Rightarrow> bool" where
  "profiled_dpu_stopped poll_running poll_in_fault rank =
     (let d = prof_dpu (profiling_context rank); s = unat (slice_id d);
          mask_one = dpu_mask_one (dpu_id d);
          dpu_is_not_running = (poll_running ! s AND mask_one = 0) \<or> (poll_in_fault ! s AND mask_one \<noteq> 0);
          dpu_was_running = (dpu_running (run_context rank) ! s AND mask_one \<noteq> 0)
      in dpu_is_not_running \<and> dpu_was_running)"

fun dump_sections ::
  "'h dpu_rank_handler \<Rightarrow> dpu_t \<Rightarrow> u8 \<Rightarrow> u32 \<Rightarrow> dpu_elf_symbol_t list \<Rightarrow> 'h dpu_rank_t op" where
  "dump_sections H dpu nr_threads end_value [] rank = (DPU_OK, rank)"
| "dump_sections H dpu nr_threads end_value (symb # symbs) rank =
     (case RANK_FEATURE_GET (copy_from_wrams_dpu H dpu (sym_value symb div 4) (sym_size symb div 4)) rank of
        (section_info, status, rank) \<Rightarrow>
          FF (status, rank) (\<lambda>rank. dump_sections H dpu nr_threads end_value symbs
            (dpu_dump_section_profiling dpu nr_threads (sym_name symb) section_info end_value rank)))"

definition poll_profiling ::
  "'h dpu_rank_handler \<Rightarrow> dpu_bitfield_t list \<Rightarrow> dpu_bitfield_t list \<Rightarrow> 'h dpu_rank_t op" where
  "poll_profiling H poll_running poll_in_fault rank =
     (let pc = profiling_context rank; nr_threads = nr_of_threads rank;
          dpu = dpus rank ! DPU_INDEX rank (unat (slice_id (prof_dpu pc))) (unat (dpu_id (prof_dpu pc)))
      in case enable_profiling pc of
        DPU_PROFILING_STATS \<Rightarrow>
          (case RANK_FEATURE_GET (copy_from_wrams_dpu H dpu (thread_profiling_address pc div 4)
                  (ucast nr_threads)) rank of
             (profiled_address, status, rank) \<Rightarrow>
               FF (status, rank) (\<lambda>rank.
                 let rank = dpu_collect_statistics_profiling (prof_dpu pc) nr_threads profiled_address rank
                 in (DPU_OK, if profiled_dpu_stopped poll_running poll_in_fault rank
                             then dpu_dump_statistics_profiling (prof_dpu pc) nr_threads rank else rank)))
      | DPU_PROFILING_SAMPLES \<Rightarrow>
          (case RANK_FEATURE_GET (sample_pc_dpu H dpu) rank of
             (sampled_address, status, rank) \<Rightarrow>
               FF (status, rank) (\<lambda>rank.
                 let rank = dpu_collect_samples_profiling (prof_dpu pc) sampled_address rank
                 in (DPU_OK, if profiled_dpu_stopped poll_running poll_in_fault rank
                             then dpu_dump_samples_profiling (prof_dpu pc) rank else rank)))
      | DPU_PROFILING_SECTIONS \<Rightarrow>
          if profiled_dpu_stopped poll_running poll_in_fault rank
          then (case RANK_FEATURE_GET (copy_from_wrams_dpu H dpu
                       (perfcounter_end_value_address pc div 4) 1) rank of
                  (words, status, rank) \<Rightarrow>
                    FF (status, rank)
                      (\<lambda>rank. dump_sections H dpu nr_threads (words ! 0) (profiling_symbols pc) rank))
          else (DPU_OK, rank)
      | _ \<Rightarrow> (DPU_OK, rank))"

definition dpu_poll_rank :: "'h dpu_rank_handler \<Rightarrow> 'h dpu_rank_t op" where
  "dpu_poll_rank H rank = unlock_and_return
     (case RANK_FEATURE_GET (poll_rank H) (dpu_lock_rank rank) of
        ((dpu_poll_running, dpu_poll_in_fault), status, rank) \<Rightarrow>
          FF (status, rank) (\<lambda>rank.
          FF (poll_profiling H dpu_poll_running dpu_poll_in_fault rank) (\<lambda>rank.
            (DPU_OK, poll_run_context dpu_poll_running dpu_poll_in_fault rank))))"

text \<open>The two booleans that \<^verbatim>\<open>dpu_poll_dpu\<close> stores for its caller; \<open>None\<close> when it stores none.\<close>

definition dpu_poll_dpu ::
  "'h dpu_rank_handler \<Rightarrow> dpu_t \<Rightarrow> 'h dpu_rank_t \<Rightarrow> (bool \<times> bool) option \<times> dpu_error_t \<times> 'h dpu_rank_t" where
  "dpu_poll_dpu H dpu rank =
     (if \<not> enabled dpu then (None, DPU_ERR_DPU_DISABLED, rank)
      else let mask_one = dpu_mask_one (dpu_id dpu);
               (status, rank) = dpu_poll_rank H (dpu_lock_rank rank);
               dpu_is_running = (dpu_running (run_context rank) ! unat (slice_id dpu) AND mask_one \<noteq> 0);
               dpu_is_in_fault = (dpu_in_fault (run_context rank) ! unat (slice_id dpu) AND mask_one \<noteq> 0)
           in (Some (dpu_is_running, dpu_is_in_fault), status, dpu_unlock_rank rank))"

section \<open>Launching\<close>

definition launch_slice ::
  "dpu_bitfield_t list \<Rightarrow> dpu_run_context_t \<times> u32 \<Rightarrow> nat \<Rightarrow> dpu_run_context_t \<times> u32" where
  "launch_slice enabled_masks = (\<lambda>(rc, nb) each_slice.
     let mask_all = enabled_masks ! each_slice
     in (rc\<lparr>dpu_running := (dpu_running rc)[each_slice := mask_all]\<rparr>, nb + dpu_mask_count mask_all))"

definition launch_run_context :: "'h dpu_rank_t \<Rightarrow> 'h dpu_rank_t" where
  "launch_run_context rank =
     (let (rc, nb) = foldl (launch_slice (enabled_dpus rank)) (run_context rank, 0)
            [0..<unat (nr_of_control_interfaces rank)]
      in rank\<lparr>run_context := rc\<lparr>nb_dpu_running := ucast nb\<rparr>\<rparr>)"

definition reset_samples :: "'h dpu_rank_t \<Rightarrow> 'h dpu_rank_t" where
  "reset_samples rank = rank\<lparr>profiling_context :=
     (profiling_context rank)\<lparr>sample_stats := replicate (unat (iram_size rank)) 0\<rparr>\<rparr>"

definition launch_profiling :: "'h dpu_rank_handler \<Rightarrow> dpu_t \<Rightarrow> 'h dpu_rank_t op" where
  "launch_profiling H dpu rank = (case enable_profiling (profiling_context rank) of
       DPU_PROFILING_STATS \<Rightarrow> dpu_set_magic_profiling_for_dpu H dpu rank
     | DPU_PROFILING_SAMPLES \<Rightarrow> (DPU_OK, reset_samples rank)
     | _ \<Rightarrow> (DPU_OK, rank))"

definition dpu_launch_thread_on_rank ::
  "'h dpu_rank_handler \<Rightarrow> u8 \<Rightarrow> bool \<Rightarrow> 'h dpu_rank_t op" where
  "dpu_launch_thread_on_rank H thread should_resume rank =
     (if thread \<ge> nr_of_threads rank then (DPU_ERR_INVALID_THREAD_ID, rank)
      else unlock_and_return (
        FF (dpu_poll_rank H (dpu_lock_rank rank)) (\<lambda>rank.
        FF (if \<not> should_resume then launch_profiling H (prof_dpu (profiling_context rank)) rank
            else (DPU_OK, rank)) (\<lambda>rank.
        FF (dpu_thread_boot_safe_for_rank H thread should_resume rank) (\<lambda>rank.
          (DPU_OK, launch_run_context rank))))))"

definition same_dpu :: "dpu_t \<Rightarrow> dpu_t \<Rightarrow> bool" where
  "same_dpu d e \<longleftrightarrow> slice_id d = slice_id e \<and> dpu_id d = dpu_id e"

definition mark_running :: "dpu_t \<Rightarrow> 'h dpu_rank_t \<Rightarrow> 'h dpu_rank_t" where
  "mark_running dpu rank =
     (let rc = run_context rank; s = unat (slice_id dpu)
      in rank\<lparr>run_context := rc\<lparr>dpu_running := (dpu_running rc)[s := dpu_running rc ! s OR dpu_mask_one (dpu_id dpu)],
                nb_dpu_running := nb_dpu_running rc + 1\<rparr>\<rparr>)"

definition dpu_launch_thread_on_dpu ::
  "'h dpu_rank_handler \<Rightarrow> dpu_t \<Rightarrow> u8 \<Rightarrow> bool \<Rightarrow> 'h dpu_rank_t op" where
  "dpu_launch_thread_on_dpu H dpu thread should_resume rank =
     (if \<not> enabled dpu then (DPU_ERR_DPU_DISABLED, rank)
      else if thread \<ge> nr_of_threads rank then (DPU_ERR_INVALID_THREAD_ID, rank)
      else unlock_and_return (
        case dpu_poll_dpu H dpu (dpu_lock_rank rank) of (polled, status, rank) \<Rightarrow>
        FF (status, rank) (\<lambda>rank.
        FF (if \<not> should_resume \<and> same_dpu (prof_dpu (profiling_context rank)) dpu
            then launch_profiling H dpu rank else (DPU_OK, rank)) (\<lambda>rank.
        FF (dpu_thread_boot_safe_for_dpu H dpu thread should_resume rank) (\<lambda>rank.
          (DPU_OK, case polled of
             Some (dpu_is_running, _) \<Rightarrow> if \<not> dpu_is_running then mark_running dpu rank else rank
           | None \<Rightarrow> rank))))))"

section \<open>Booting\<close>

definition dpu_boot_dpu :: "'h dpu_rank_handler \<Rightarrow> dpu_t \<Rightarrow> 'h dpu_rank_t op" where
  "dpu_boot_dpu H dpu rank =
     (if \<not> enabled dpu then (DPU_ERR_DPU_DISABLED, rank)
      else let rank = dpu_lock_rank rank
        in if dpu_mask_intersection (dpu_running (run_context rank) ! unat (slice_id dpu))
                (dpu_mask_one (dpu_id dpu)) \<noteq> dpu_mask_empty
           then (DPU_ERR_DPU_ALREADY_RUNNING, dpu_unlock_rank rank)
           else unlock_and_return (
             FF (dpu_custom_for_dpu H dpu DPU_COMMAND_DPU_PREEXECUTION None rank) (\<lambda>rank.
             FF (dpu_launch_thread_on_dpu H dpu DPU_BOOT_THREAD False rank) (\<lambda>rank. (DPU_OK, rank)))))"

definition dpu_boot_rank :: "'h dpu_rank_handler \<Rightarrow> 'h dpu_rank_t op" where
  "dpu_boot_rank H rank =
     (let rank = dpu_lock_rank rank
      in if nb_dpu_running (run_context rank) \<noteq> 0
         then (DPU_ERR_DPU_ALREADY_RUNNING, dpu_unlock_rank rank)
         else unlock_and_return (
           FF (dpu_custom_for_rank H DPU_COMMAND_ALL_PREEXECUTION None rank) (\<lambda>rank.
           FF (dpu_launch_thread_on_rank H DPU_BOOT_THREAD False rank) (\<lambda>rank. (DPU_OK, rank)))))"

section \<open>Reading the status\<close>

definition status_slice :: "dpu_run_context_t \<Rightarrow> bool \<times> bool \<Rightarrow> nat \<Rightarrow> bool \<times> bool" where
  "status_slice rc = (\<lambda>(done, fault) each_slice.
     (done \<and> dpu_running rc ! each_slice = dpu_mask_empty,
      fault \<or> dpu_in_fault rc ! each_slice \<noteq> dpu_mask_empty))"

definition dpu_status_rank :: "'h dpu_rank_t \<Rightarrow> (bool \<times> bool) \<times> dpu_error_t \<times> 'h dpu_rank_t" where
  "dpu_status_rank rank =
     (let rank = dpu_lock_rank rank;
          res = foldl (status_slice (run_context rank)) (True, False)
                  [0..<unat (nr_of_control_interfaces rank)]
      in (res, DPU_OK, dpu_unlock_rank rank))"

definition dpu_status_dpu ::
  "dpu_t \<Rightarrow> 'h dpu_rank_t \<Rightarrow> (bool \<times> bool) option \<times> dpu_error_t \<times> 'h dpu_rank_t" where
  "dpu_status_dpu dpu rank =
     (if \<not> enabled dpu then (None, DPU_ERR_DPU_DISABLED, rank)
      else let rank = dpu_lock_rank rank; rc = run_context rank; s = unat (slice_id dpu)
           in (Some (\<not> dpu_mask_is_selected (dpu_running rc ! s) (dpu_id dpu),
                     dpu_mask_is_selected (dpu_in_fault rc ! s) (dpu_id dpu)),
               DPU_OK, dpu_unlock_rank rank))"

section \<open>Frames: the mutex is released on every path\<close>

lemma RANK_FEATURE_GET_frame:
  assumes "RANK_FEATURE_GET g r = (x, e, r')"
  shows "same_rank r r'"
  using assms by (auto simp: RANK_FEATURE_GET_def split: prod.splits)

lemma same_rank_frame: "same_rank r r' \<Longrightarrow> rank_frame r' = rank_frame r"
  by (metis same_rank_def rank_frame_hw)

lemma poll_run_context_frame [simp]: "rank_frame (poll_run_context p f r) = rank_frame r"
  by (simp add: poll_run_context_def split: prod.splits)

lemma launch_run_context_frame [simp]: "rank_frame (launch_run_context r) = rank_frame r"
  by (simp add: launch_run_context_def split: prod.splits)

lemma mark_running_frame [simp]: "rank_frame (mark_running d r) = rank_frame r"
  by (simp add: mark_running_def Let_def)

lemma reset_samples_frame [simp]: "rank_frame (reset_samples r) = rank_frame r"
  by (simp add: reset_samples_def)

lemma dump_sections_frame: "rank_frame (snd (dump_sections H d n v symbs r)) = rank_frame r"
proof (induction symbs arbitrary: r)
  case (Cons symb symbs)
  obtain x e r' where g: "RANK_FEATURE_GET (copy_from_wrams_dpu H d (sym_value symb div 4)
      (sym_size symb div 4)) r = (x, e, r')"
    by (metis prod_cases3)
  then have "rank_frame r' = rank_frame r"
    by (intro same_rank_frame RANK_FEATURE_GET_frame)
  with g Cons.IH show ?case
    by (simp add: FF_def)
qed simp

lemma get_frame: "RANK_FEATURE_GET g r = (x, e, r') \<Longrightarrow> rank_frame r' = rank_frame r"
  by (intro same_rank_frame RANK_FEATURE_GET_frame)

lemma poll_profiling_frame: "rank_frame (snd (poll_profiling H p f r)) = rank_frame r"
  by (auto simp: poll_profiling_def Let_def FF_def dump_sections_frame
      split: dpu_profiling_type_e.split prod.split dest!: get_frame)

interpretation poll_op: rank_op "dpu_poll_rank H"
proof
  fix r :: "'a dpu_rank_t"
  obtain p f e r' where g: "RANK_FEATURE_GET (poll_rank H) (dpu_lock_rank r) = ((p, f), e, r')"
    by (metis surj_pair)
  then have "rank_frame r' = rank_frame (dpu_lock_rank r)"
    by (rule get_frame)
  moreover have "rank_frame (snd (FF (e, r') (\<lambda>rank. FF (poll_profiling H p f rank)
      (\<lambda>rank. (DPU_OK, poll_run_context p f rank))))) = rank_frame r'"
    by (intro rank_frame_FF) (auto simp: poll_profiling_frame)
  ultimately show "rank_frame (snd (dpu_poll_rank H r)) = rank_frame r"
    using g by (auto simp: dpu_poll_rank_def intro!: rank_frame_unlock_return)
qed

lemma poll_dpu_frame: "rank_frame (snd (snd (dpu_poll_dpu H d r))) = rank_frame r"
proof -
  obtain e r' where p: "dpu_poll_rank H (dpu_lock_rank r) = (e, r')"
    by fastforce
  then have "rank_frame r' = rank_frame (dpu_lock_rank r)"
    using poll_op.frame [of H "dpu_lock_rank r"] by simp
  with p show ?thesis
    by (simp add: dpu_poll_dpu_def Let_def rank_frame_unlock)
qed

lemma launch_profiling_frame: "rank_frame (snd (launch_profiling H d r)) = rank_frame r"
  by (simp add: launch_profiling_def set_magic.frame split: dpu_profiling_type_e.split)

lemma boot_safe_frame:
  "rank_frame (snd (dpu_thread_boot_safe_for_rank H t b r)) = rank_frame r"
  "rank_frame (snd (dpu_thread_boot_safe_for_dpu H d t b r)) = rank_frame r"
  by (auto simp: dpu_thread_boot_safe_for_rank_def dpu_thread_boot_safe_for_dpu_def feature.frame
      intro!: rank_frame_FF)

interpretation launch_rank_op: rank_op "dpu_launch_thread_on_rank H t b"
proof
  fix r :: "'a dpu_rank_t"
  show "rank_frame (snd (dpu_launch_thread_on_rank H t b r)) = rank_frame r"
    by (auto simp: dpu_launch_thread_on_rank_def poll_op.frame launch_profiling_frame boot_safe_frame
        intro!: rank_frame_unlock_return rank_frame_FF)
qed

interpretation launch_dpu_op: rank_op "dpu_launch_thread_on_dpu H d t b"
proof
  fix r :: "'a dpu_rank_t"
  obtain x e r' where p: "dpu_poll_dpu H d (dpu_lock_rank r) = (x, e, r')"
    by (metis prod_cases3)
  then have "rank_frame r' = rank_frame (dpu_lock_rank r)"
    using poll_dpu_frame [of H d "dpu_lock_rank r"] by simp
  with p show "rank_frame (snd (dpu_launch_thread_on_dpu H d t b r)) = rank_frame r"
    by (auto simp: dpu_launch_thread_on_dpu_def launch_profiling_frame boot_safe_frame
        split: option.split intro!: rank_frame_unlock_return rank_frame_FF)
qed

interpretation boot_rank_op: rank_op "dpu_boot_rank H"
proof
  fix r :: "'a dpu_rank_t"
  show "rank_frame (snd (dpu_boot_rank H r)) = rank_frame r"
    by (auto simp: dpu_boot_rank_def Let_def custom_rank.frame launch_rank_op.frame
        intro!: rank_frame_unlock_return rank_frame_FF)
qed

interpretation boot_dpu_op: rank_op "dpu_boot_dpu H d"
proof
  fix r :: "'a dpu_rank_t"
  show "rank_frame (snd (dpu_boot_dpu H d r)) = rank_frame r"
    by (auto simp: dpu_boot_dpu_def Let_def custom_dpu.frame launch_dpu_op.frame
        intro!: rank_frame_unlock_return rank_frame_FF)
qed

section \<open>The run context\<close>

text \<open>
  The run context of a rank is well formed when its arrays have the size of the C structure; it is
  consistent when only enabled DPUs run and \<open>nb_dpu_running\<close> is their number.
\<close>

definition rank_wf :: "'h dpu_rank_t \<Rightarrow> bool" where
  "rank_wf r \<longleftrightarrow> unat (nr_of_control_interfaces r) \<le> DPU_MAX_NR_CIS
     \<and> length (enabled_dpus r) = DPU_MAX_NR_CIS
     \<and> length (dpu_running (run_context r)) = DPU_MAX_NR_CIS
     \<and> length (dpu_in_fault (run_context r)) = DPU_MAX_NR_CIS"

definition run_count :: "'h dpu_rank_t \<Rightarrow> nat" where
  "run_count r = sum_list (map (\<lambda>i. builtin_popcount (dpu_running (run_context r) ! i))
     [0..<unat (nr_of_control_interfaces r)])"

definition run_context_ok :: "'h dpu_rank_t \<Rightarrow> bool" where
  "run_context_ok r \<longleftrightarrow> unat (nb_dpu_running (run_context r)) = run_count r
     \<and> (\<forall>i \<in> set [0..<unat (nr_of_control_interfaces r)].
          mask_set (dpu_running (run_context r) ! i) \<subseteq> mask_set (enabled_dpus r ! i))"

lemma sum_popcount_le: "sum_list (map (\<lambda>i. builtin_popcount (f i)) [0..<n]) \<le> n * 8"
  using sum_list_map_le [of "[0..<n]" "\<lambda>i. builtin_popcount (f i)" 8] by (simp add: popcount_le)

lemma unat_count_word:
  assumes "n \<le> 8"
  shows "unat (ucast (word_of_nat (sum_list (map (\<lambda>i. builtin_popcount (f i)) [0..<n])) :: u32) :: u8) =
    sum_list (map (\<lambda>i. builtin_popcount (f i)) [0..<n])"
proof -
  have "sum_list (map (\<lambda>i. builtin_popcount (f i)) [0..<n]) < 256"
    using sum_popcount_le [of f n] assms by simp
  then show ?thesis
    by (simp add: unsigned_ucast_eq unat_of_nat take_bit_nat_eq_self)
qed

lemma poll_loop:
  assumes "n \<le> length (dpu_running rc)" "n \<le> length (dpu_in_fault rc)"
  shows "\<exists>rc'. foldl (poll_slice E P F) (rc, 0) [0..<n] =
      (rc', word_of_nat (sum_list (map (\<lambda>i. builtin_popcount ((P ! i AND E ! i) AND NOT (F ! i AND E ! i))) [0..<n])))
    \<and> length (dpu_running rc') = length (dpu_running rc)
    \<and> length (dpu_in_fault rc') = length (dpu_in_fault rc)
    \<and> (\<forall>i < n. dpu_running rc' ! i = (P ! i AND E ! i) AND NOT (F ! i AND E ! i))
    \<and> (\<forall>i < n. dpu_in_fault rc' ! i = F ! i AND E ! i)"
  using assms
proof (induction n)
  case 0
  then show ?case by simp
next
  case (Suc n)
  then obtain rc' where
    "foldl (poll_slice E P F) (rc, 0) [0..<n] =
      (rc', word_of_nat (sum_list (map (\<lambda>i. builtin_popcount ((P ! i AND E ! i) AND NOT (F ! i AND E ! i))) [0..<n])))"
    "length (dpu_running rc') = length (dpu_running rc)"
    "length (dpu_in_fault rc') = length (dpu_in_fault rc)"
    "\<forall>i < n. dpu_running rc' ! i = (P ! i AND E ! i) AND NOT (F ! i AND E ! i)"
    "\<forall>i < n. dpu_in_fault rc' ! i = F ! i AND E ! i"
    by auto
  with Suc.prems show ?case
    by (auto simp: poll_slice_def Let_def nth_list_update less_Suc_eq)
qed

lemma poll_run_context_spec:
  assumes "rank_wf r"
  shows "rank_wf (poll_run_context P F r)" "run_context_ok (poll_run_context P F r)"
    "i < unat (nr_of_control_interfaces r) \<Longrightarrow>
      dpu_running (run_context (poll_run_context P F r)) ! i =
        (P ! i AND enabled_dpus r ! i) AND NOT (F ! i AND enabled_dpus r ! i)"
    "i < unat (nr_of_control_interfaces r) \<Longrightarrow>
      dpu_in_fault (run_context (poll_run_context P F r)) ! i = F ! i AND enabled_dpus r ! i"
proof -
  let ?n = "unat (nr_of_control_interfaces r)" and ?E = "enabled_dpus r"
  obtain rc' where f: "foldl (poll_slice ?E P F) (run_context r, 0) [0..<?n] =
      (rc', word_of_nat (sum_list (map (\<lambda>i. builtin_popcount ((P ! i AND ?E ! i) AND NOT (F ! i AND ?E ! i))) [0..<?n])))"
    and len: "length (dpu_running rc') = length (dpu_running (run_context r))"
      "length (dpu_in_fault rc') = length (dpu_in_fault (run_context r))"
    and run: "\<forall>i < ?n. dpu_running rc' ! i = (P ! i AND ?E ! i) AND NOT (F ! i AND ?E ! i)"
    and flt: "\<forall>i < ?n. dpu_in_fault rc' ! i = F ! i AND ?E ! i"
    using poll_loop [of ?n "run_context r" ?E P F] assms by (auto simp: rank_wf_def)
  have eq: "poll_run_context P F r = r\<lparr>run_context := rc'\<lparr>nb_dpu_running :=
      ucast (word_of_nat (sum_list (map (\<lambda>i. builtin_popcount ((P ! i AND ?E ! i) AND NOT (F ! i AND ?E ! i))) [0..<?n])) :: u32)\<rparr>\<rparr>"
    by (simp add: poll_run_context_def f)
  show "rank_wf (poll_run_context P F r)"
    using assms len by (simp add: eq rank_wf_def)
  have "sum_list (map (\<lambda>i. builtin_popcount (dpu_running rc' ! i)) [0..<?n]) =
      sum_list (map (\<lambda>i. builtin_popcount ((P ! i AND ?E ! i) AND NOT (F ! i AND ?E ! i))) [0..<?n])"
    using run by (intro arg_cong [where f = sum_list] map_cong) auto
  then show "run_context_ok (poll_run_context P F r)"
    using run assms
    by (simp add: eq run_context_ok_def run_count_def unat_count_word rank_wf_def)
      (auto simp: mask_set_simps)
  show "i < ?n \<Longrightarrow> dpu_running (run_context (poll_run_context P F r)) ! i =
      (P ! i AND ?E ! i) AND NOT (F ! i AND ?E ! i)"
    using run by (simp add: eq)
  show "i < ?n \<Longrightarrow> dpu_in_fault (run_context (poll_run_context P F r)) ! i = F ! i AND ?E ! i"
    using flt by (simp add: eq)
qed

lemma launch_loop:
  assumes "n \<le> length (dpu_running rc)"
  shows "\<exists>rc'. foldl (launch_slice E) (rc, 0) [0..<n] =
      (rc', word_of_nat (sum_list (map (\<lambda>i. builtin_popcount (E ! i)) [0..<n])))
    \<and> length (dpu_running rc') = length (dpu_running rc)
    \<and> dpu_in_fault rc' = dpu_in_fault rc
    \<and> (\<forall>i < n. dpu_running rc' ! i = E ! i)"
  using assms
proof (induction n)
  case 0
  then show ?case by simp
next
  case (Suc n)
  then obtain rc' where
    "foldl (launch_slice E) (rc, 0) [0..<n] =
      (rc', word_of_nat (sum_list (map (\<lambda>i. builtin_popcount (E ! i)) [0..<n])))"
    "length (dpu_running rc') = length (dpu_running rc)"
    "dpu_in_fault rc' = dpu_in_fault rc"
    "\<forall>i < n. dpu_running rc' ! i = E ! i"
    by auto
  with Suc.prems show ?case
    by (auto simp: launch_slice_def Let_def nth_list_update less_Suc_eq dpu_mask_count_def)
qed

lemma launch_run_context_spec:
  assumes "rank_wf r"
  shows "rank_wf (launch_run_context r)" "run_context_ok (launch_run_context r)"
    "i < unat (nr_of_control_interfaces r) \<Longrightarrow>
      dpu_running (run_context (launch_run_context r)) ! i = enabled_dpus r ! i"
proof -
  let ?n = "unat (nr_of_control_interfaces r)" and ?E = "enabled_dpus r"
  obtain rc' where f: "foldl (launch_slice ?E) (run_context r, 0) [0..<?n] =
      (rc', word_of_nat (sum_list (map (\<lambda>i. builtin_popcount (?E ! i)) [0..<?n])))"
    and len: "length (dpu_running rc') = length (dpu_running (run_context r))"
      "dpu_in_fault rc' = dpu_in_fault (run_context r)"
    and run: "\<forall>i < ?n. dpu_running rc' ! i = ?E ! i"
    using launch_loop [of ?n "run_context r" ?E] assms by (auto simp: rank_wf_def)
  have eq: "launch_run_context r = r\<lparr>run_context := rc'\<lparr>nb_dpu_running :=
      ucast (word_of_nat (sum_list (map (\<lambda>i. builtin_popcount (?E ! i)) [0..<?n])) :: u32)\<rparr>\<rparr>"
    by (simp add: launch_run_context_def f)
  show "rank_wf (launch_run_context r)"
    using assms len by (simp add: eq rank_wf_def)
  have "sum_list (map (\<lambda>i. builtin_popcount (dpu_running rc' ! i)) [0..<?n]) =
      sum_list (map (\<lambda>i. builtin_popcount (?E ! i)) [0..<?n])"
    using run by (intro arg_cong [where f = sum_list] map_cong) auto
  then show "run_context_ok (launch_run_context r)"
    using run assms
    by (simp add: eq run_context_ok_def run_count_def unat_count_word rank_wf_def)
  show "i < ?n \<Longrightarrow> dpu_running (run_context (launch_run_context r)) ! i = ?E ! i"
    using run by (simp add: eq)
qed

section \<open>The invariant of the run context\<close>

definition rc_inv :: "'h dpu_rank_t \<Rightarrow> bool" where
  "rc_inv r \<longleftrightarrow> rank_wf r \<and> run_context_ok r"

lemma rc_inv_cong:
  "rank_frame r' = rank_frame r \<Longrightarrow> run_context r' = run_context r \<Longrightarrow> rc_inv r' \<longleftrightarrow> rc_inv r"
  by (simp add: rc_inv_def rank_wf_def run_context_ok_def run_count_def rank_frame_def)

lemma rank_wf_cong:
  "rank_frame r' = rank_frame r \<Longrightarrow> run_context r' = run_context r \<Longrightarrow> rank_wf r' \<longleftrightarrow> rank_wf r"
  by (simp add: rank_wf_def rank_frame_def)

lemma rc_inv_lock [simp]: "rc_inv (dpu_lock_rank r) \<longleftrightarrow> rc_inv r"
  and rc_inv_unlock [simp]: "rc_inv (dpu_unlock_rank r) \<longleftrightarrow> rc_inv r"
  by (simp_all add: rc_inv_def rank_wf_def run_context_ok_def run_count_def)

lemma rc_inv_unlock_return [simp]: "rc_inv (snd (unlock_and_return m)) \<longleftrightarrow> rc_inv (snd m)"
  by (cases m) simp

lemma rc_inv_FF:
  assumes "rc_inv (snd m)" and "\<And>r'. m = (DPU_OK, r') \<Longrightarrow> rc_inv r' \<Longrightarrow> rc_inv (snd (k r'))"
  shows "rc_inv (snd (FF m k))"
  using assms by (cases m) (auto simp: FF_def)

lemma rc_inv_same_rank: "same_rank r r' \<Longrightarrow> rc_inv r' \<longleftrightarrow> rc_inv r"
  using same_rank_sel [of r r'] same_rank_frame [of r r'] by (intro rc_inv_cong)

lemma poll_run_context_cong:
  assumes "rank_frame r' = rank_frame r" "run_context r' = run_context r"
  shows "run_context (poll_run_context P F r') = run_context (poll_run_context P F r)"
  using assms by (simp add: poll_run_context_def rank_frame_def split: prod.splits)

lemma dump_sections_run_context: "run_context (snd (dump_sections H d n v symbs r)) = run_context r"
proof (induction symbs arbitrary: r)
  case (Cons symb symbs)
  obtain x e r' where g: "RANK_FEATURE_GET (copy_from_wrams_dpu H d (sym_value symb div 4)
      (sym_size symb div 4)) r = (x, e, r')"
    by (metis prod_cases3)
  then have "run_context r' = run_context r"
    by (intro same_rank_sel(2) RANK_FEATURE_GET_frame)
  with g Cons.IH show ?case
    by (simp add: FF_def)
qed simp

lemma get_run_context: "RANK_FEATURE_GET g r = (x, e, r') \<Longrightarrow> run_context r' = run_context r"
  by (intro same_rank_sel(2) RANK_FEATURE_GET_frame)

lemma poll_profiling_run_context: "run_context (snd (poll_profiling H p f r)) = run_context r"
  by (auto simp: poll_profiling_def Let_def FF_def dump_sections_run_context
      split: dpu_profiling_type_e.split prod.split dest!: get_run_context)

text \<open>What a poll does to the run context, in terms of what the backend reports.\<close>

lemma dpu_poll_rank_cases:
  assumes "dpu_poll_rank H r = (e, r')"
  shows "rank_frame r' = rank_frame r"
    and "e \<noteq> DPU_OK \<Longrightarrow> run_context r' = run_context r"
    and "e = DPU_OK \<Longrightarrow> \<exists>P F h. poll_rank H (hw r) = ((P, F), DPU_OK, h)
           \<and> run_context r' = run_context (poll_run_context P F r)"
proof -
  show "rank_frame r' = rank_frame r"
    using rank_opD [OF poll_op.rank_op_axioms assms] .
  obtain P F st h where pr: "poll_rank H (hw r) = ((P, F), st, h)"
    by (metis surj_pair)
  define r1 where "r1 = (dpu_lock_rank r)\<lparr>hw := h\<rparr>"
  obtain e2 r2 where pp: "poll_profiling H P F r1 = (e2, r2)"
    by fastforce
  have r2: "run_context r2 = run_context r" "rank_frame r2 = rank_frame (dpu_lock_rank r)"
    using poll_profiling_run_context [of H P F r1] poll_profiling_frame [of H P F r1] pp
    by (simp_all add: r1_def)
  have "dpu_poll_rank H r = unlock_and_return (FF (st, r1) (\<lambda>r. FF (poll_profiling H P F r)
      (\<lambda>r. (DPU_OK, poll_run_context P F r))))"
    by (simp add: dpu_poll_rank_def RANK_FEATURE_GET_def pr r1_def)
  then have res: "(e, r') = (if st \<noteq> DPU_OK then (st, dpu_unlock_rank r1)
      else if e2 \<noteq> DPU_OK then (e2, dpu_unlock_rank r2)
      else (DPU_OK, dpu_unlock_rank (poll_run_context P F r2)))"
    using assms pp by (simp add: FF_def)
  show "e \<noteq> DPU_OK \<Longrightarrow> run_context r' = run_context r"
    using res r2 by (auto simp: r1_def split: if_splits)
  show "e = DPU_OK \<Longrightarrow> \<exists>P F h. poll_rank H (hw r) = ((P, F), DPU_OK, h)
      \<and> run_context r' = run_context (poll_run_context P F r)"
  proof -
    assume "e = DPU_OK"
    with res have "st = DPU_OK" and eq: "run_context r' = run_context (poll_run_context P F r2)"
      by (auto split: if_splits)
    moreover have "run_context (poll_run_context P F r2) = run_context (poll_run_context P F (dpu_lock_rank r))"
      using r2 by (intro poll_run_context_cong) simp_all
    moreover have "run_context (poll_run_context P F (dpu_lock_rank r)) = run_context (poll_run_context P F r)"
      by (simp add: poll_run_context_def split: prod.splits)
    ultimately show ?thesis
      using pr by auto
  qed
qed

text \<open>
  The operations that keep the invariant, as a contract: a \<open>rank_op\<close> that also keeps \<open>rc_inv\<close>,
  whatever the backend answers and whether or not it succeeds.
\<close>

locale run_op = rank_op f for f :: "'h dpu_rank_t op" +
  assumes keeps_inv: "rc_inv r \<Longrightarrow> rc_inv (snd (f r))"
begin

lemma count_bounded:
  assumes "rc_inv r"
  shows "unat (nb_dpu_running (run_context (snd (f r)))) \<le> unat (nr_of_control_interfaces r) * 8"
proof -
  have "run_context_ok (snd (f r))"
    using keeps_inv [OF assms] by (simp add: rc_inv_def)
  then show ?thesis
    using sum_popcount_le [of "\<lambda>i. dpu_running (run_context (snd (f r))) ! i"
        "unat (nr_of_control_interfaces r)"]
    by (simp add: run_context_ok_def run_count_def keeps_nr_cis)
qed

end

lemma run_op_hw_only:
  fixes f :: "'h dpu_rank_t op"
  shows "hw_only f \<Longrightarrow> run_op f"
proof (intro run_op.intro rank_op_hw_only run_op_axioms.intro)
  fix r :: "'h dpu_rank_t"
  assume "hw_only f" and "rc_inv r"
  then show "rc_inv (snd (f r))"
    using rc_inv_same_rank [of r "snd (f r)"] by (simp add: hw_only_def)
qed

interpretation run_custom_rank: run_op "dpu_custom_for_rank H c a"
  by (intro run_op_hw_only hw_only_custom_rank)

interpretation run_custom_dpu: run_op "dpu_custom_for_dpu H d c a"
  by (intro run_op_hw_only hw_only_custom_dpu)

interpretation run_reset: run_op "dpu_reset_rank H"
  by (intro run_op_hw_only hw_only_reset)

interpretation run_feature: run_op "RANK_FEATURE g"
  by (intro run_op_hw_only hw_only_feature)

interpretation run_magic: run_op "dpu_set_magic_profiling_for_dpu H d"
  by (intro run_op_hw_only hw_only_set_magic)

lemma poll_establishes_inv:
  assumes "rank_wf r" "dpu_poll_rank H r = (DPU_OK, r')"
  shows "rc_inv r'"
proof -
  obtain P F where rc: "run_context r' = run_context (poll_run_context P F r)"
    using dpu_poll_rank_cases(3) [OF assms(2)] by auto
  have "rank_frame r' = rank_frame (poll_run_context P F r)"
    using dpu_poll_rank_cases(1) [OF assms(2)] by simp
  with rc have "rc_inv r' \<longleftrightarrow> rc_inv (poll_run_context P F r)"
    by (intro rc_inv_cong)
  with assms(1) show ?thesis
    by (simp add: rc_inv_def poll_run_context_spec)
qed

interpretation run_poll: run_op "dpu_poll_rank H"
proof
  fix r :: "'a dpu_rank_t"
  assume inv: "rc_inv r"
  obtain e r' where p: "dpu_poll_rank H r = (e, r')"
    by fastforce
  show "rc_inv (snd (dpu_poll_rank H r))"
  proof (cases "e = DPU_OK")
    case True
    with p inv show ?thesis
      using poll_establishes_inv [of r H r'] by (simp add: rc_inv_def)
  next
    case False
    with p have "rc_inv r' \<longleftrightarrow> rc_inv r"
      using dpu_poll_rank_cases [OF p] by (intro rc_inv_cong) auto
    with p inv show ?thesis by simp
  qed
qed

lemma reset_samples_inv [simp]: "rc_inv (reset_samples r) \<longleftrightarrow> rc_inv r"
  by (intro rc_inv_cong reset_samples_frame) (simp add: reset_samples_def)

lemma launch_profiling_inv: "rc_inv r \<Longrightarrow> rc_inv (snd (launch_profiling H d r))"
  by (simp add: launch_profiling_def run_magic.keeps_inv split: dpu_profiling_type_e.split)

lemma launch_profiling_run_context: "run_context (snd (launch_profiling H d r)) = run_context r"
  by (simp add: launch_profiling_def reset_samples_def
      same_rank_sel(2) [OF hw_only_snd [OF hw_only_set_magic]] split: dpu_profiling_type_e.split)

lemma boot_safe_run_context:
  "run_context (snd (dpu_thread_boot_safe_for_rank H t b r)) = run_context r"
  "run_context (snd (dpu_thread_boot_safe_for_dpu H d t b r)) = run_context r"
  by (auto simp: dpu_thread_boot_safe_for_rank_def dpu_thread_boot_safe_for_dpu_def RANK_FEATURE_def
      FF_def split: prod.splits)

lemma boot_safe_inv:
  "rc_inv r \<Longrightarrow> rc_inv (snd (dpu_thread_boot_safe_for_rank H t b r))"
  "rc_inv r \<Longrightarrow> rc_inv (snd (dpu_thread_boot_safe_for_dpu H d t b r))"
  by (subst rc_inv_cong [OF boot_safe_frame(1) boot_safe_run_context(1)], simp)
    (subst rc_inv_cong [OF boot_safe_frame(2) boot_safe_run_context(2)], simp)

lemma launch_run_context_inv: "rc_inv r \<Longrightarrow> rc_inv (launch_run_context r)"
  by (simp add: rc_inv_def launch_run_context_spec)

interpretation run_launch_rank: run_op "dpu_launch_thread_on_rank H t b"
proof
  fix r :: "'a dpu_rank_t"
  assume "rc_inv r"
  then show "rc_inv (snd (dpu_launch_thread_on_rank H t b r))"
    by (auto simp: dpu_launch_thread_on_rank_def run_poll.keeps_inv launch_profiling_inv boot_safe_inv
        launch_run_context_inv intro!: rc_inv_FF)
qed

interpretation run_boot_rank: run_op "dpu_boot_rank H"
proof
  fix r :: "'a dpu_rank_t"
  assume "rc_inv r"
  then show "rc_inv (snd (dpu_boot_rank H r))"
    by (auto simp: dpu_boot_rank_def Let_def run_custom_rank.keeps_inv run_launch_rank.keeps_inv
        intro!: rc_inv_FF)
qed

text \<open>Booting or launching one DPU keeps the invariant when the DPU is one of the rank.\<close>

definition dpu_in_rank :: "dpu_t \<Rightarrow> 'h dpu_rank_t \<Rightarrow> bool" where
  "dpu_in_rank d r \<longleftrightarrow> slice_id d < nr_of_control_interfaces r
     \<and> unat (dpu_id d) < DPU_MAX_NR_DPUS_PER_CI
     \<and> (enabled d \<longleftrightarrow> unat (dpu_id d) \<in> mask_set (enabled_dpus r ! unat (slice_id d)))"

lemma dpu_in_rank_cong: "rank_frame r' = rank_frame r \<Longrightarrow> dpu_in_rank d r' \<longleftrightarrow> dpu_in_rank d r"
  by (simp add: dpu_in_rank_def rank_frame_def)

lemma dpu_in_rank_lock [simp]: "dpu_in_rank d (dpu_lock_rank r) \<longleftrightarrow> dpu_in_rank d r"
  by (simp add: dpu_in_rank_def)

lemma sum_list_map_upt_update:
  fixes f :: "nat \<Rightarrow> nat"
  assumes "s < n" "g s = Suc (f s)" "\<And>i. i < n \<Longrightarrow> i \<noteq> s \<Longrightarrow> g i = f i"
  shows "sum_list (map g [0..<n]) = Suc (sum_list (map f [0..<n]))"
proof -
  have split: "[0..<n] = [0..<s] @ s # [Suc s..<n]"
    using assms(1) by (metis le_add1 less_imp_le_nat upt_add_eq_append upt_conv_Cons add_0 le_add_diff_inverse)
  have eqs: "map g [0..<s] = map f [0..<s]" "map g [Suc s..<n] = map f [Suc s..<n]"
    using assms by auto
  show ?thesis
    unfolding split map_append list.map sum_list_append sum_list.Cons assms(2) eqs by simp
qed

lemma popcount_or_new:
  assumes "unat d < 8" "unat d \<notin> mask_set m"
  shows "builtin_popcount (m OR dpu_mask_one d) = Suc (builtin_popcount m)"
  using assms by (simp add: popcount_card mask_set_simps)

lemma mark_running_inv:
  assumes inv: "rc_inv r" and d: "dpu_in_rank d r" "enabled d"
    and idle: "unat (dpu_id d) \<notin> mask_set (dpu_running (run_context r) ! unat (slice_id d))"
  shows "rc_inv (mark_running d r)"
proof -
  let ?s = "unat (slice_id d)" and ?n = "unat (nr_of_control_interfaces r)"
  let ?R = "dpu_running (run_context r)" and ?r = "mark_running d r"
  have s: "?s < ?n" "?n \<le> 8" "?s < length ?R" "unat (dpu_id d) < 8"
    using inv d by (auto simp: rc_inv_def rank_wf_def dpu_in_rank_def word_less_nat_alt)
  have run: "dpu_running (run_context ?r) = ?R[?s := ?R ! ?s OR dpu_mask_one (dpu_id d)]"
    and nb: "nb_dpu_running (run_context ?r) = nb_dpu_running (run_context r) + 1"
    by (simp_all add: mark_running_def Let_def)
  have n: "nr_of_control_interfaces ?r = nr_of_control_interfaces r" "enabled_dpus ?r = enabled_dpus r"
    by (simp_all add: mark_running_def Let_def)
  have count: "run_count ?r = Suc (run_count r)"
    unfolding run_count_def n run
    by (rule sum_list_map_upt_update [OF s(1)]) (use s idle in \<open>simp_all add: popcount_or_new\<close>)
  have "run_count ?r \<le> 64"
    using sum_popcount_le [of "\<lambda>i. dpu_running (run_context ?r) ! i" ?n] s(2)
    by (simp add: run_count_def n)
  then have "unat (nb_dpu_running (run_context ?r)) = run_count ?r"
    using inv count by (simp add: nb unat_word_ariths rc_inv_def run_context_ok_def)
  moreover have "\<forall>i < ?n. mask_set (dpu_running (run_context ?r) ! i) \<subseteq> mask_set (enabled_dpus r ! i)"
    using inv d s by (auto simp: run nth_list_update mask_set_simps rc_inv_def run_context_ok_def dpu_in_rank_def)
  moreover have "rank_wf ?r"
    using inv by (simp add: rc_inv_def rank_wf_def mark_running_def Let_def)
  ultimately show ?thesis
    by (simp add: rc_inv_def run_context_ok_def n)
qed

lemma poll_dpu_result:
  assumes "dpu_poll_dpu H d r = (polled, e, r')" "enabled d"
  shows "run_context r' = run_context (snd (dpu_poll_rank H (dpu_lock_rank r)))"
    and "e = fst (dpu_poll_rank H (dpu_lock_rank r))"
    and "polled = Some (dpu_running (run_context r') ! unat (slice_id d) AND dpu_mask_one (dpu_id d) \<noteq> 0,
           dpu_in_fault (run_context r') ! unat (slice_id d) AND dpu_mask_one (dpu_id d) \<noteq> 0)"
    and "rc_inv r \<Longrightarrow> rc_inv r'"
  using assms run_poll.keeps_inv [of "dpu_lock_rank r" H]
  by (auto simp: dpu_poll_dpu_def Let_def split: prod.splits)

lemma and_one_iff: "unat d < 8 \<Longrightarrow> m AND dpu_mask_one d \<noteq> 0 \<longleftrightarrow> unat d \<in> mask_set m"
  by (subst mask_set_eq_empty_iff [symmetric]) (simp add: mask_set_simps)

lemma launch_dpu_inv:
  assumes inv: "rc_inv r" and d: "dpu_in_rank d r"
  shows "rc_inv (snd (dpu_launch_thread_on_dpu H d t b r))"
proof (cases "enabled d \<and> t < nr_of_threads r")
  case False
  then show ?thesis
    using inv by (auto simp: dpu_launch_thread_on_dpu_def)
next
  case True
  obtain polled e r1 where p: "dpu_poll_dpu H d (dpu_lock_rank r) = (polled, e, r1)"
    by (metis prod_cases3)
  note pd = poll_dpu_result [OF p]
  have r1: "rc_inv r1" "rank_frame r1 = rank_frame (dpu_lock_rank r)"
    using pd(4) True inv poll_dpu_frame [of H d "dpu_lock_rank r"] p by simp_all
  define P where "P r' \<longleftrightarrow> rc_inv r' \<and> run_context r' = run_context r1 \<and> dpu_in_rank d r'" for r' :: "'a dpu_rank_t"
  have P1: "P r1"
    using r1 d dpu_in_rank_cong [OF r1(2), of d] by (simp add: P_def)
  have Pprof: "P (snd (launch_profiling H d r'))" if "P r'" for r' :: "'a dpu_rank_t"
    using that dpu_in_rank_cong [OF launch_profiling_frame [of H d r'], of d]
    by (simp add: P_def launch_profiling_inv launch_profiling_run_context)
  have Pboot: "P (snd (dpu_thread_boot_safe_for_dpu H d t b r'))" if "P r'" for r' :: "'a dpu_rank_t"
    using that dpu_in_rank_cong [OF boot_safe_frame(2) [of H d t b r'], of d]
    by (simp add: P_def boot_safe_inv boot_safe_run_context)
  have PFF: "rc_inv (snd (FF m k))" if "P (snd m)" "\<And>r'. P r' \<Longrightarrow> rc_inv (snd (k r'))"
    for m and k :: "'a dpu_rank_t op"
    using that by (cases m) (auto simp: FF_def P_def)
  have last: "rc_inv (if \<not> (dpu_running (run_context r1) ! unat (slice_id d) AND dpu_mask_one (dpu_id d) \<noteq> 0)
      then mark_running d r' else r')" if "P r'" for r'
  proof -
    have "unat (dpu_id d) < 8"
      using d by (simp add: dpu_in_rank_def)
    note one = and_one_iff [OF this, of "dpu_running (run_context r1) ! unat (slice_id d)"]
    have "rc_inv (mark_running d r')"
      if "unat (dpu_id d) \<notin> mask_set (dpu_running (run_context r1) ! unat (slice_id d))"
      using that \<open>P r'\<close> True by (intro mark_running_inv) (simp_all add: P_def)
    then show ?thesis
      using \<open>P r'\<close> unfolding one P_def by presburger
  qed
  have "rc_inv (snd (FF (e, r1) (\<lambda>rank.
        FF (if \<not> b \<and> same_dpu (prof_dpu (profiling_context rank)) d
            then launch_profiling H d rank else (DPU_OK, rank)) (\<lambda>rank.
        FF (dpu_thread_boot_safe_for_dpu H d t b rank) (\<lambda>rank.
          (DPU_OK, if \<not> (dpu_running (run_context r1) ! unat (slice_id d) AND dpu_mask_one (dpu_id d) \<noteq> 0)
             then mark_running d rank else rank))))))"
    by (intro PFF) (use P1 Pprof Pboot last in auto)
  moreover have "enabled d" "\<not> t \<ge> nr_of_threads r"
    using True by (simp_all add: not_le)
  ultimately show ?thesis
    using p pd(3) by (simp add: dpu_launch_thread_on_dpu_def)
qed

lemma boot_dpu_inv:
  assumes inv: "rc_inv r" and d: "dpu_in_rank d r"
  shows "rc_inv (snd (dpu_boot_dpu H d r))"
proof -
  have "dpu_in_rank d r'" if "dpu_custom_for_dpu H d c a (dpu_lock_rank r) = (e, r')" for c a e r'
    using dpu_in_rank_cong [OF rank_opD [OF custom_dpu.rank_op_axioms that], of d] d by simp
  then show ?thesis
    using inv run_custom_dpu.keeps_inv [of "dpu_lock_rank r"]
    by (auto simp: dpu_boot_dpu_def Let_def intro!: rc_inv_FF launch_dpu_inv)
qed

section \<open>Reading the status and booting\<close>

lemma status_loop:
  "foldl (status_slice rc) (b, f) sls =
     (b \<and> (\<forall>i \<in> set sls. dpu_running rc ! i = 0), f \<or> (\<exists>i \<in> set sls. dpu_in_fault rc ! i \<noteq> 0))"
  by (induction sls arbitrary: b f) (auto simp: status_slice_def dpu_mask_empty_def)

lemma status_rank_eq:
  "dpu_status_rank r =
     ((\<forall>i < unat (nr_of_control_interfaces r). dpu_running (run_context r) ! i = 0,
       \<exists>i < unat (nr_of_control_interfaces r). dpu_in_fault (run_context r) ! i \<noteq> 0), DPU_OK, r)"
  by (auto simp: dpu_status_rank_def Let_def status_loop)

lemma run_count_zero_iff:
  "run_count r = 0 \<longleftrightarrow> (\<forall>i < unat (nr_of_control_interfaces r). dpu_running (run_context r) ! i = 0)"
  by (auto simp: run_count_def sum_list_map_zero_iff)

lemma nb_running_zero_iff:
  assumes "rc_inv r"
  shows "nb_dpu_running (run_context r) = 0 \<longleftrightarrow>
    (\<forall>i < unat (nr_of_control_interfaces r). dpu_running (run_context r) ! i = 0)"
proof -
  have "unat (nb_dpu_running (run_context r)) = run_count r"
    using assms by (simp add: rc_inv_def run_context_ok_def)
  then show ?thesis
    using run_count_zero_iff [of r] by (metis unat_eq_zero)
qed

lemma launch_rank_ok:
  assumes wf: "rank_wf r" and ok: "dpu_launch_thread_on_rank H t b r = (DPU_OK, r')"
  shows "\<forall>i < unat (nr_of_control_interfaces r). dpu_running (run_context r') ! i = enabled_dpus r ! i"
proof -
  from ok have t: "\<not> t \<ge> nr_of_threads r"
    by (auto simp: dpu_launch_thread_on_rank_def)
  obtain r1 where p: "dpu_poll_rank H (dpu_lock_rank r) = (DPU_OK, r1)"
    using ok t by (auto simp: dpu_launch_thread_on_rank_def FF_def unlock_and_return_def
        split: prod.splits if_splits)
  obtain r2 where m: "(if \<not> b then launch_profiling H (prof_dpu (profiling_context r1)) r1 else (DPU_OK, r1)) = (DPU_OK, r2)"
    using ok t p by (auto simp: dpu_launch_thread_on_rank_def FF_def unlock_and_return_def
        split: prod.splits if_splits)
  obtain r3 where s: "dpu_thread_boot_safe_for_rank H t b r2 = (DPU_OK, r3)"
    using ok t p m by (auto simp: dpu_launch_thread_on_rank_def FF_def unlock_and_return_def
        split: prod.splits if_splits)
  have r': "r' = dpu_unlock_rank (launch_run_context r3)"
    using ok t p m s by (auto simp: dpu_launch_thread_on_rank_def FF_def)
  have inv1: "rc_inv r1"
    using poll_establishes_inv [OF _ p] wf by (simp add: rank_wf_def)
  have "rc_inv r2" "rank_frame r2 = rank_frame r1"
    using m inv1 launch_profiling_inv [OF inv1, of H "prof_dpu (profiling_context r1)"]
      launch_profiling_frame [of H "prof_dpu (profiling_context r1)" r1] by (auto split: if_splits)
  then have "rc_inv r3" "rank_frame r3 = rank_frame r1"
    using boot_safe_inv(1) [of r2 H t b] boot_safe_frame(1) [of H t b r2] s by auto
  moreover have "rank_frame r1 = rank_frame (dpu_lock_rank r)"
    using rank_opD [OF poll_op.rank_op_axioms p] .
  ultimately have "rank_wf r3" "nr_of_control_interfaces r3 = nr_of_control_interfaces r"
    "enabled_dpus r3 = enabled_dpus r"
    by (simp_all add: rank_frame_def rc_inv_def)
  then show ?thesis
    using launch_run_context_spec(3) [of r3] by (simp add: r')
qed

lemma boot_rank_ok:
  assumes wf: "rank_wf r" and ok: "dpu_boot_rank H r = (DPU_OK, r')"
  shows "nb_dpu_running (run_context r) = 0"
    "\<forall>i < unat (nr_of_control_interfaces r). dpu_running (run_context r') ! i = enabled_dpus r ! i"
proof -
  show "nb_dpu_running (run_context r) = 0"
    using ok by (auto simp: dpu_boot_rank_def Let_def split: if_splits)
  obtain r1 where c: "dpu_custom_for_rank H DPU_COMMAND_ALL_PREEXECUTION None (dpu_lock_rank r) = (DPU_OK, r1)"
    using ok by (auto simp: dpu_boot_rank_def Let_def FF_def unlock_and_return_def
        split: prod.splits if_splits)
  obtain r2 where l: "dpu_launch_thread_on_rank H DPU_BOOT_THREAD False r1 = (DPU_OK, r2)"
    using ok c by (auto simp: dpu_boot_rank_def Let_def FF_def unlock_and_return_def
        split: prod.splits if_splits)
  have r': "r' = dpu_unlock_rank r2"
    using ok c l by (auto simp: dpu_boot_rank_def Let_def split: if_splits)
  have "same_rank (dpu_lock_rank r) r1"
    using hw_onlyD [OF hw_only_custom_rank c] .
  from same_rank_sel [OF this] have "rank_wf r1" "nr_of_control_interfaces r1 = nr_of_control_interfaces r"
    "enabled_dpus r1 = enabled_dpus r"
    using wf by (simp_all add: rank_wf_def)
  then show "\<forall>i < unat (nr_of_control_interfaces r). dpu_running (run_context r') ! i = enabled_dpus r ! i"
    using launch_rank_ok [OF _ l] by (simp add: r')
qed

section \<open>Properties\<close>

text \<open>The operations of the runner, as the steps of a rank under one backend.\<close>

inductive runner_step :: "'h dpu_rank_handler \<Rightarrow> 'h dpu_rank_t \<Rightarrow> 'h dpu_rank_t \<Rightarrow> bool"
  for H :: "'h dpu_rank_handler" where
  step_poll: "runner_step H r (snd (dpu_poll_rank H r))"
| step_poll_dpu: "runner_step H r (snd (snd (dpu_poll_dpu H d r)))"
| step_boot_rank: "runner_step H r (snd (dpu_boot_rank H r))"
| step_boot_dpu: "dpu_in_rank d r \<Longrightarrow> runner_step H r (snd (dpu_boot_dpu H d r))"
| step_launch_rank: "runner_step H r (snd (dpu_launch_thread_on_rank H t b r))"
| step_launch_dpu: "dpu_in_rank d r \<Longrightarrow> runner_step H r (snd (dpu_launch_thread_on_dpu H d t b r))"
| step_status_rank: "runner_step H r (snd (snd (dpu_status_rank r)))"
| step_reset: "runner_step H r (snd (dpu_reset_rank H r))"
| step_custom: "runner_step H r (snd (dpu_custom_for_rank H c a r))"

inductive runner_reachable :: "'h dpu_rank_handler \<Rightarrow> 'h dpu_rank_t \<Rightarrow> 'h dpu_rank_t \<Rightarrow> bool"
  for H :: "'h dpu_rank_handler" where
  reach_refl: "runner_reachable H r r"
| reach_step: "runner_reachable H r r' \<Longrightarrow> runner_step H r' r'' \<Longrightarrow> runner_reachable H r r''"

lemma poll_dpu_inv: "rc_inv r \<Longrightarrow> rc_inv (snd (snd (dpu_poll_dpu H d r)))"
  using poll_dpu_result(4) [of H d r]
  by (cases "dpu_poll_dpu H d r"; cases "enabled d") (auto simp: dpu_poll_dpu_def)

lemma runner_step_inv:
  assumes "runner_step H r r'" "rc_inv r"
  shows "rc_inv r' \<and> rank_frame r' = rank_frame r"
  using assms
  by (induction rule: runner_step.induct)
    (simp_all add: run_poll.keeps_inv run_boot_rank.keeps_inv run_launch_rank.keeps_inv run_reset.keeps_inv
      run_custom_rank.keeps_inv poll_dpu_inv boot_dpu_inv launch_dpu_inv status_rank_eq poll_op.frame
      boot_rank_op.frame boot_dpu_op.frame launch_rank_op.frame launch_dpu_op.frame reset_op.frame
      custom_rank.frame poll_dpu_frame)

lemma runner_reachable_inv:
  "runner_reachable H r r' \<Longrightarrow> rc_inv r \<Longrightarrow> rc_inv r' \<and> rank_frame r' = rank_frame r"
  by (induction rule: runner_reachable.induct) (auto dest: runner_step_inv)


lemma sim_rank_inv: "rc_inv sim_rank"
  by (simp add: rc_inv_def rank_wf_def run_context_ok_def run_count_def sim_rank_def upt_rec)



lemma sim_poll_ok: "fst (dpu_poll_rank sim_handler (sim_rank\<lparr>hw := h\<rparr>)) = DPU_OK"
  by (simp add: dpu_poll_rank_def RANK_FEATURE_GET_def poll_profiling_def Let_def split: prod.split)



lemma sim_boot_ok: "fst (dpu_boot_rank sim_handler sim_rank) = DPU_OK"
  by (simp add: dpu_boot_rank_def dpu_launch_thread_on_rank_def dpu_custom_for_rank_def Let_def
      dpu_poll_rank_def RANK_FEATURE_GET_def RANK_FEATURE_def poll_profiling_def launch_profiling_def
      dpu_thread_boot_safe_for_rank_def poll_run_context_def map_rank_status_to_api_status_def
      split: prod.split)


text \<open>
  on a consistent rank, \<open>dpu_status_rank\<close> answers that the rank is done exactly when no DPU is counted
  as running, that it is in fault exactly when some DPU of it is, changes nothing and never fails.
\<close>

lemma status_rank_agrees_with_count:
  assumes "rc_inv r"
  shows "\<exists>fault. dpu_status_rank r = ((nb_dpu_running (run_context r) = 0, fault), DPU_OK, r)
    \<and> (fault \<longleftrightarrow> (\<exists>i < unat (nr_of_control_interfaces r). mask_set (dpu_in_fault (run_context r) ! i) \<noteq> {}))"
  unfolding status_rank_eq nb_running_zero_iff [OF assms] by simp

lemma status_rank_agrees_with_count_witness:
  "\<exists>fault. dpu_status_rank sim_rank = ((True, fault), DPU_OK, sim_rank)"
  using status_rank_agrees_with_count [OF sim_rank_inv] by (auto simp: sim_rank_def)

end
