(* ===== verification/Polling.thy ===== *)
theory Polling
  imports Runner
begin

text \<open>
  The polling threads and the synchronisation with a running rank
  (\<^verbatim>\<open>api/src/api/dpu_polling.c\<close>): one pass of a polling thread over the ranks of its queue, the
  check for DPUs in fault, and \<^verbatim>\<open>dpu_sync_rank\<close> and \<^verbatim>\<open>dpu_sync_dpu\<close>.

  A \<^verbatim>\<open>pthread_cond_wait\<close> on the rank releases the rank mutex, lets other threads change the rank,
  and takes the mutex back. The successive wake-ups of a waiting thread are a list of functions on
  the rank, one per wake-up (spurious ones included): a wait with an empty list does not return,
  which is the result \<open>None\<close>.
\<close>

type_synonym 'h wakeups = "('h dpu_rank_t \<Rightarrow> 'h dpu_rank_t) list"

section \<open>The polling thread\<close>

record polling_thread =
  is_dpu_running :: bool
  is_running :: bool

definition POLLING_THREAD_INITIALIZER :: polling_thread where
  "POLLING_THREAD_INITIALIZER = \<lparr>is_dpu_running = False, is_running = False\<rparr>"

definition set_poll_status :: "dpu_error_t \<Rightarrow> 'h dpu_rank_t \<Rightarrow> 'h dpu_rank_t" where
  "set_poll_status status rank =
     rank\<lparr>run_context := (run_context rank)\<lparr>poll_status := status\<rparr>\<rparr>"

text \<open>
  The result is what the function returns, whether it broadcasts \<^verbatim>\<open>poll_cond\<close>, and the rank. The first
  read of \<^verbatim>\<open>nb_dpu_running\<close> is done without the mutex: \<open>seen\<close> is the rank at that moment, \<open>rank\<close> the
  rank when the mutex is (tried to be) taken, and \<open>trylock\<close> tells whether it is free.
\<close>

definition polling_thread_rank ::
  "'h dpu_rank_handler \<Rightarrow> bool \<Rightarrow> 'h dpu_rank_t \<Rightarrow> 'h dpu_rank_t \<Rightarrow> bool \<times> bool \<times> 'h dpu_rank_t" where
  "polling_thread_rank H trylock seen rank =
     (let nb_dpu_was_running = nb_dpu_running (run_context seen)
      in if nb_dpu_was_running = 0 then (False, False, rank)
         else if \<not> trylock then (True, False, rank)
         else let (status, rank) = dpu_poll_rank H (dpu_lock_rank rank);
                  rank = set_poll_status status rank
              in if status \<noteq> DPU_OK then (False, True, dpu_unlock_rank rank)
                 else let nb_dpu_running = nb_dpu_running (run_context rank)
                      in (nb_dpu_running \<noteq> 0, nb_dpu_was_running > nb_dpu_running, dpu_unlock_rank rank))"

text \<open>
  One iteration of \<^verbatim>\<open>polling_thread_fct\<close>. A slot of the rank table is \<open>None\<close> when it is empty and carries
  the queue index of its rank otherwise; \<open>trylock\<close> gives, per slot, whether the mutex is free.
  The thread waits for its condition variable only when no rank has been launched
  since the last iteration and no rank was running then.
\<close>

type_synonym 'h rank_table = "(nat \<times> 'h dpu_rank_t) option list"

definition polling_waits :: "polling_thread \<Rightarrow> bool \<Rightarrow> bool" where
  "polling_waits t one_rank_running \<longleftrightarrow> \<not> is_dpu_running t \<and> \<not> one_rank_running \<and> is_running t"

definition polling_prologue :: "polling_thread \<Rightarrow> bool \<Rightarrow> polling_thread \<times> bool" where
  "polling_prologue t one_rank_running =
     (if polling_waits t one_rank_running then (t, one_rank_running)
      else (t\<lparr>is_dpu_running := False\<rparr>, False))"

definition polling_slot ::
  "'h dpu_rank_handler \<Rightarrow> nat \<Rightarrow> bool list \<Rightarrow> bool \<times> 'h rank_table \<Rightarrow> nat \<Rightarrow> bool \<times> 'h rank_table" where
  "polling_slot H idx trylock = (\<lambda>(one_rank_running, ranks) each_rank.
     case ranks ! each_rank of
       None \<Rightarrow> (one_rank_running, ranks)
     | Some (queue_idx, rank) \<Rightarrow>
         if queue_idx \<noteq> idx then (one_rank_running, ranks)
         else case polling_thread_rank H (trylock ! each_rank) rank rank of
           (running, _, rank) \<Rightarrow>
             (one_rank_running \<or> running, ranks[each_rank := Some (queue_idx, rank)]))"

definition polling_iteration ::
  "'h dpu_rank_handler \<Rightarrow> nat \<Rightarrow> bool list \<Rightarrow> bool \<Rightarrow> 'h rank_table \<Rightarrow> bool \<times> 'h rank_table" where
  "polling_iteration H idx trylock one_rank_running ranks =
     foldl (polling_slot H idx trylock) (one_rank_running, ranks) [0..<length ranks]"

definition polling_thread_set_dpu_running :: "polling_thread list \<Rightarrow> nat \<Rightarrow> polling_thread list" where
  "polling_thread_set_dpu_running threads idx =
     threads[idx := (threads ! idx)\<lparr>is_dpu_running := True\<rparr>]"

text \<open>
  Creation: \<open>outcomes\<close> tells, per queue, whether the condition variable and the thread can be
  created. The function returns at once when a thread is already running.
\<close>

fun polling_thread_create_loop ::
  "(bool \<times> bool) list \<Rightarrow> polling_thread list \<Rightarrow> nat list \<Rightarrow> dpu_error_t \<times> polling_thread list" where
  "polling_thread_create_loop outcomes threads [] = (DPU_OK, threads)"
| "polling_thread_create_loop outcomes threads (each_queue # queues) =
     (if is_running (threads ! each_queue) then (DPU_OK, threads)
      else let threads = threads[each_queue := (threads ! each_queue)\<lparr>is_running := True\<rparr>];
               (cond_ok, thread_ok) = outcomes ! each_queue
           in if \<not> cond_ok then (DPU_ERR_SYSTEM, threads)
              else if \<not> thread_ok then (DPU_ERR_SYSTEM, threads)
              else polling_thread_create_loop outcomes threads queues)"

abbreviation (input) NR_QUEUES :: nat where "NR_QUEUES \<equiv> 4"

definition polling_thread_create ::
  "(bool \<times> bool) list \<Rightarrow> polling_thread list \<Rightarrow> dpu_error_t \<times> polling_thread list" where
  "polling_thread_create outcomes threads = polling_thread_create_loop outcomes threads [0..<NR_QUEUES]"

fun polling_thread_destroy_loop :: "polling_thread list \<Rightarrow> nat list \<Rightarrow> polling_thread list" where
  "polling_thread_destroy_loop threads [] = threads"
| "polling_thread_destroy_loop threads (each_queue # queues) =
     (if \<not> is_running (threads ! each_queue) then threads
      else polling_thread_destroy_loop
        (threads[each_queue := (threads ! each_queue)\<lparr>is_running := False\<rparr>]) queues)"

definition polling_thread_destroy :: "polling_thread list \<Rightarrow> polling_thread list" where
  "polling_thread_destroy threads = polling_thread_destroy_loop threads [0..<NR_QUEUES]"

section \<open>Reporting DPUs in fault\<close>

text \<open>The messages of \<^verbatim>\<open>dpu_print_lldb_message_on_fault\<close>, with the level they are logged at.\<close>

datatype log_level = WARNING | INFO

datatype fault_line =
    AttachHint
  | TooManyFaults log_level
  | DpuInFault log_level u8 u8

text \<open>The counter is a static variable of the function; it is shared by every rank.\<close>

record fault_log =
  nb_dpu_in_fault :: u32
  fault_lines :: "fault_line list"

abbreviation (input) nb_dpu_in_fault_to_print :: u32 where "nb_dpu_in_fault_to_print \<equiv> 16"

definition dpu_print_lldb_message_on_fault :: "bool \<Rightarrow> u8 \<Rightarrow> u8 \<Rightarrow> fault_log \<Rightarrow> fault_log" where
  "dpu_print_lldb_message_on_fault is_hw slc dpu log =
     (let n = nb_dpu_in_fault log + 1;
          (header, level) =
            (if n = 1 \<and> is_hw then ([AttachHint], WARNING)
             else if n = nb_dpu_in_fault_to_print then ([TooManyFaults WARNING, TooManyFaults INFO], INFO)
             else if n > nb_dpu_in_fault_to_print then ([], INFO)
             else ([], WARNING))
      in \<lparr>nb_dpu_in_fault = n, fault_lines = fault_lines log @ header @ [DpuInFault level slc dpu]\<rparr>)"

definition builtin_ctz :: "u8 \<Rightarrow> nat" where
  "builtin_ctz m = length (takeWhile (\<lambda>i. \<not> bit m i) [0..<8])"

lemma ctz_bit: "m \<noteq> 0 \<Longrightarrow> bit m (builtin_ctz m) \<and> builtin_ctz m < 8"
proof -
  assume "m \<noteq> 0"
  then obtain i where i: "bit m i"
    using bit_eq_iff [of m 0] by auto
  then have i8: "i < 8"
    using bit_imp_le_length [OF i] by simp
  let ?n = "length (takeWhile (\<lambda>i. \<not> bit m i) [0..<8])"
  have "?n < length [0..<8]"
  proof (rule ccontr)
    assume "\<not> ?n < length [0..<8]"
    then have "takeWhile (\<lambda>i. \<not> bit m i) [0..<8] = [0..<8]"
      by (metis length_takeWhile_le linorder_neqE_nat not_less takeWhile_eq_take take_all le_eq_less_or_eq)
    then have "\<not> bit m i"
      using i8 set_takeWhileD [of i "\<lambda>i. \<not> bit m i" "[0..<8]"] by simp
    with i show False by simp
  qed
  then show ?thesis
    using nth_length_takeWhile [of "\<lambda>i. \<not> bit m i" "[0..<8]"] by (simp add: builtin_ctz_def)
qed

text \<open>The \<^verbatim>\<open>while\<close> loop that takes the lowest bit of the new faults until none is left.\<close>

function report_faults :: "bool \<Rightarrow> u8 \<Rightarrow> dpu_bitfield_t \<Rightarrow> fault_log \<Rightarrow> fault_log" where
  "report_faults is_hw ci new_dpu_in_fault log =
     (if new_dpu_in_fault = 0 then log
      else let dpu = builtin_ctz new_dpu_in_fault
           in report_faults is_hw ci (new_dpu_in_fault AND NOT (push_bit dpu 1))
                (dpu_print_lldb_message_on_fault is_hw ci (word_of_nat dpu) log))"
  by auto

lemma mask_set_clear_bit: "i < 8 \<Longrightarrow> mask_set (m AND NOT (push_bit i 1)) = mask_set m - {i}"
  by (auto simp: mask_set_def bit_simps dest: bit_imp_le_length)

termination report_faults
proof (relation "measure (\<lambda>(is_hw, ci, m, log). builtin_popcount m)", goal_cases)
  case (2 is_hw ci m log dpu)
  then have "dpu \<in> mask_set m" "dpu < 8"
    using ctz_bit [of m] by (simp_all add: mask_set_def)
  then have "mask_set (m AND NOT (push_bit dpu 1)) \<subset> mask_set m"
    unfolding mask_set_clear_bit [OF \<open>dpu < 8\<close>] by blast
  from psubset_card_mono [OF _ this] show ?case
    by (simp only: in_measure prod.case popcount_card finite_mask_set simp_thms)
qed simp

declare report_faults.simps [simp del]

definition check_fault_ci ::
  "bool \<Rightarrow> dpu_run_context_t \<Rightarrow> dpu_bitfield_t list \<times> dpu_error_t \<times> fault_log \<Rightarrow> nat \<Rightarrow>
     dpu_bitfield_t list \<times> dpu_error_t \<times> fault_log" where
  "check_fault_ci is_hw rc = (\<lambda>(in_fault, status, log) each_ci.
     if in_fault ! each_ci \<noteq> dpu_in_fault rc ! each_ci
     then let new_dpu_in_fault = dpu_in_fault rc ! each_ci AND NOT (in_fault ! each_ci)
          in (in_fault[each_ci := dpu_in_fault rc ! each_ci], DPU_ERR_DPU_FAULT,
              report_faults is_hw (word_of_nat each_ci) new_dpu_in_fault log)
     else (in_fault, status, log))"

definition dpu_check_fault_rank ::
  "bool \<Rightarrow> 'h dpu_rank_t \<Rightarrow> dpu_bitfield_t list \<times> dpu_error_t \<times> fault_log \<Rightarrow>
     dpu_bitfield_t list \<times> dpu_error_t \<times> fault_log" where
  "dpu_check_fault_rank is_hw rank = (\<lambda>(in_fault, status, log).
     if poll_status (run_context rank) \<noteq> DPU_OK then (in_fault, poll_status (run_context rank), log)
     else foldl (check_fault_ci is_hw (run_context rank)) (in_fault, status, log)
            [0..<unat (nr_of_control_interfaces rank)])"

section \<open>Waiting for a rank\<close>

definition sync_keeps_waiting :: "'h dpu_rank_t \<Rightarrow> dpu_error_t \<Rightarrow> bool" where
  "sync_keeps_waiting rank status \<longleftrightarrow>
     nb_dpu_running (run_context rank) > 0 \<and> (status = DPU_OK \<or> status = DPU_ERR_DPU_FAULT)"

fun sync_rank_loop ::
  "bool \<Rightarrow> 'h wakeups \<Rightarrow> 'h dpu_rank_t \<Rightarrow> dpu_bitfield_t list \<times> dpu_error_t \<times> fault_log \<Rightarrow>
     ('h dpu_rank_t \<times> dpu_bitfield_t list \<times> dpu_error_t \<times> fault_log) option" where
  "sync_rank_loop is_hw ws rank (in_fault, status, log) =
     (if \<not> sync_keeps_waiting rank status then Some (rank, in_fault, status, log)
      else case ws of
          [] \<Rightarrow> None
        | w # ws \<Rightarrow> sync_rank_loop is_hw ws (w rank) (dpu_check_fault_rank is_hw (w rank) (in_fault, status, log)))"

declare sync_rank_loop.simps [simp del]

definition dpu_sync_rank ::
  "'h dpu_rank_handler \<Rightarrow> bool \<Rightarrow> 'h wakeups \<Rightarrow> fault_log \<Rightarrow> 'h dpu_rank_t \<Rightarrow>
     (dpu_error_t \<times> 'h dpu_rank_t \<times> fault_log) option" where
  "dpu_sync_rank H is_hw ws log rank =
     (case sync_rank_loop is_hw ws rank (replicate DPU_MAX_NR_CIS 0, DPU_OK, log) of
        None \<Rightarrow> None
      | Some (rank, checked) \<Rightarrow>
          (case dpu_check_fault_rank is_hw rank checked of (in_fault, status, log) \<Rightarrow>
             if status = DPU_OK
             then (case dpu_custom_for_rank H DPU_COMMAND_ALL_POSTEXECUTION None rank of
                     (status, rank) \<Rightarrow> Some (status, rank, log))
             else Some (status, rank, log)))"

fun sync_dpu_loop :: "dpu_t \<Rightarrow> 'h wakeups \<Rightarrow> 'h dpu_rank_t \<Rightarrow> 'h dpu_rank_t option" where
  "sync_dpu_loop dpu ws rank =
     (if \<not> dpu_mask_is_selected (dpu_running (run_context rank) ! unat (slice_id dpu)) (dpu_id dpu)
      then Some rank
      else case ws of [] \<Rightarrow> None | w # ws \<Rightarrow> sync_dpu_loop dpu ws (w rank))"

declare sync_dpu_loop.simps [simp del]

definition dpu_sync_dpu ::
  "'h dpu_rank_handler \<Rightarrow> bool \<Rightarrow> 'h wakeups \<Rightarrow> fault_log \<Rightarrow> dpu_t \<Rightarrow> 'h dpu_rank_t \<Rightarrow>
     (dpu_error_t \<times> 'h dpu_rank_t \<times> fault_log) option" where
  "dpu_sync_dpu H is_hw ws log dpu rank =
     (case sync_dpu_loop dpu ws rank of
        None \<Rightarrow> None
      | Some rank \<Rightarrow>
          if dpu_mask_is_selected (dpu_in_fault (run_context rank) ! unat (slice_id dpu)) (dpu_id dpu)
          then Some (DPU_ERR_DPU_FAULT, rank,
                 dpu_print_lldb_message_on_fault is_hw (slice_id dpu) (dpu_id dpu) log)
          else (case dpu_custom_for_dpu H dpu DPU_COMMAND_DPU_POSTEXECUTION None rank of
                  (status, rank) \<Rightarrow> Some (status, rank, log)))"

section \<open>Reports: every new fault once, in increasing order\<close>

lemma ctz_least: "i < builtin_ctz m \<Longrightarrow> \<not> bit m i"
proof -
  assume "i < builtin_ctz m"
  then have "i < length (takeWhile (\<lambda>i. \<not> bit m i) [0..<8])"
    by (simp add: builtin_ctz_def)
  moreover from this have "i < 8"
    using length_takeWhile_le [of "\<lambda>i. \<not> bit m i" "[0..<8]"] by simp
  ultimately show ?thesis
    using set_takeWhileD [of "takeWhile (\<lambda>i. \<not> bit m i) [0..<8] ! i" "\<lambda>i. \<not> bit m i" "[0..<8]"]
    by (metis add_0 length_upt minus_nat.diff_0 nth_mem nth_upt takeWhile_nth)
qed

lemma filter_bits_step:
  assumes "m \<noteq> 0"
  shows "filter (bit m) [0..<8] =
    builtin_ctz m # filter (bit (m AND NOT (push_bit (builtin_ctz m) 1))) [0..<8]"
proof -
  let ?d = "builtin_ctz m" and ?m = "m AND NOT (push_bit (builtin_ctz m) 1)"
  have d: "bit m ?d" "?d < 8"
    using ctz_bit [OF assms] by simp_all
  have bits: "bit ?m i \<longleftrightarrow> bit m i \<and> i \<noteq> ?d" if "i < 8" for i
    using that d by (auto simp: bit_simps)
  have split: "[0..<8] = [0..<?d] @ ?d # [Suc ?d..<8]"
    using d(2) by (metis add_0 le_add_diff_inverse less_imp_le_nat upt_add_eq_append upt_conv_Cons zero_le)
  have low: "filter (bit m) [0..<?d] = []" "filter (bit ?m) [0..<?d] = []"
    using ctz_least [of _ m] bits d(2) by (auto simp: filter_empty_conv)
  have high: "filter (bit ?m) [Suc ?d..<8] = filter (bit m) [Suc ?d..<8]"
    using bits by (intro filter_cong) auto
  show ?thesis
    using d bits [of ?d] unfolding split filter_append filter.simps low high by simp
qed

lemma report_faults_fold:
  "report_faults is_hw ci m log =
     foldl (\<lambda>log i. dpu_print_lldb_message_on_fault is_hw ci (word_of_nat i) log) log (filter (bit m) [0..<8])"
proof (induction is_hw ci m log rule: report_faults.induct)
  case (1 is_hw ci m log)
  show ?case
  proof (cases "m = 0")
    case True
    then show ?thesis by (simp add: report_faults.simps)
  next
    case False
    show ?thesis
      unfolding filter_bits_step [OF False] foldl.simps "1.IH" [OF False refl, symmetric]
      using False by (subst report_faults.simps) (simp only: Let_def if_False)
  qed
qed

text \<open>The DPUs that a log reports, in order.\<close>

fun reported :: "fault_line list \<Rightarrow> (u8 \<times> u8) list" where
  "reported [] = []"
| "reported (DpuInFault _ s d # ls) = (s, d) # reported ls"
| "reported (_ # ls) = reported ls"

lemma reported_append [simp]: "reported (xs @ ys) = reported xs @ reported ys"
  by (induction xs rule: reported.induct) auto

lemma reported_print [simp]:
  "reported (fault_lines (dpu_print_lldb_message_on_fault is_hw s d log)) = reported (fault_lines log) @ [(s, d)]"
  by (simp add: dpu_print_lldb_message_on_fault_def Let_def)

lemma reported_report_faults:
  "reported (fault_lines (report_faults is_hw ci m log)) =
     reported (fault_lines log) @ map (\<lambda>i. (ci, word_of_nat i)) (filter (bit m) [0..<8])"
proof -
  have "reported (fault_lines (foldl (\<lambda>log i. dpu_print_lldb_message_on_fault is_hw ci (word_of_nat i) log) log xs))
      = reported (fault_lines log) @ map (\<lambda>i. (ci, word_of_nat i)) xs" for xs
    by (induction xs arbitrary: log) auto
  then show ?thesis
    by (simp add: report_faults_fold)
qed

section \<open>The check for faults\<close>

lemma check_fault_loop:
  assumes "n \<le> length flt"
  shows "\<exists>flt' status' log'. foldl (check_fault_ci is_hw rc) (flt, status, log) [0..<n] = (flt', status', log')
    \<and> length flt' = length flt
    \<and> (\<forall>i < n. flt' ! i = dpu_in_fault rc ! i)
    \<and> (\<forall>i \<ge> n. flt' ! i = flt ! i)
    \<and> status' = (if \<forall>i < n. flt ! i = dpu_in_fault rc ! i then status else DPU_ERR_DPU_FAULT)
    \<and> reported (fault_lines log') = reported (fault_lines log) @
        concat (map (\<lambda>ci. map (\<lambda>i. (word_of_nat ci, word_of_nat i))
          (filter (bit (dpu_in_fault rc ! ci AND NOT (flt ! ci))) [0..<8])) [0..<n])
    \<and> ((\<forall>i < n. flt ! i = dpu_in_fault rc ! i) \<longrightarrow> flt' = flt \<and> log' = log)"
  using assms
proof (induction n)
  case 0
  then show ?case by simp
next
  case (Suc n)
  then obtain flt' status' log' where IH:
    "foldl (check_fault_ci is_hw rc) (flt, status, log) [0..<n] = (flt', status', log')"
    "length flt' = length flt" "\<forall>i < n. flt' ! i = dpu_in_fault rc ! i" "\<forall>i \<ge> n. flt' ! i = flt ! i"
    "status' = (if \<forall>i < n. flt ! i = dpu_in_fault rc ! i then status else DPU_ERR_DPU_FAULT)"
    "reported (fault_lines log') = reported (fault_lines log) @
        concat (map (\<lambda>ci. map (\<lambda>i. (word_of_nat ci, word_of_nat i))
          (filter (bit (dpu_in_fault rc ! ci AND NOT (flt ! ci))) [0..<8])) [0..<n])"
    "(\<forall>i < n. flt ! i = dpu_in_fault rc ! i) \<longrightarrow> flt' = flt \<and> log' = log"
    by auto
  have n: "flt' ! n = flt ! n"
    using IH(4) by simp
  show ?case
  proof (cases "flt ! n = dpu_in_fault rc ! n")
    case True
    moreover have "filter (bit (x AND NOT x)) [0..<8] = []" for x :: u8
      by (simp add: filter_empty_conv bit_simps)
    ultimately show ?thesis
      using IH n by (auto simp: check_fault_ci_def less_Suc_eq)
  next
    case False
    then show ?thesis
      using IH n Suc.prems
      by (auto simp: check_fault_ci_def less_Suc_eq nth_list_update Let_def reported_report_faults)
  qed
qed

definition fault_free :: "'h dpu_rank_t \<Rightarrow> bool" where
  "fault_free r \<longleftrightarrow> (\<forall>i < unat (nr_of_control_interfaces r). dpu_in_fault (run_context r) ! i = 0)"

lemma check_fault_rank_spec:
  assumes "dpu_check_fault_rank is_hw r (flt, status, log) = (flt', status', log')"
    and "poll_status (run_context r) = DPU_OK"
    and "unat (nr_of_control_interfaces r) \<le> length flt"
  shows "length flt' = length flt"
    and "i < unat (nr_of_control_interfaces r) \<Longrightarrow> flt' ! i = dpu_in_fault (run_context r) ! i"
    and "status' = (if \<forall>i < unat (nr_of_control_interfaces r). flt ! i = dpu_in_fault (run_context r) ! i
           then status else DPU_ERR_DPU_FAULT)"
    and "\<forall>i < unat (nr_of_control_interfaces r). flt ! i = dpu_in_fault (run_context r) ! i \<Longrightarrow> log' = log"
    and "reported (fault_lines log') = reported (fault_lines log) @
        concat (map (\<lambda>ci. map (\<lambda>i. (word_of_nat ci, word_of_nat i))
          (filter (bit (dpu_in_fault (run_context r) ! ci AND NOT (flt ! ci))) [0..<8]))
            [0..<unat (nr_of_control_interfaces r)])"
  using check_fault_loop [OF assms(3), of is_hw "run_context r" status log] assms(1,2)
  by (auto simp: dpu_check_fault_rank_def)

section \<open>Synchronisation\<close>

definition after :: "'h wakeups \<Rightarrow> nat \<Rightarrow> 'h dpu_rank_t \<Rightarrow> 'h dpu_rank_t" where
  "after ws k r = foldl (\<lambda>r w. w r) r (take k ws)"

lemma after_0 [simp]: "after ws 0 r = r"
  by (simp add: after_def)

lemma after_Cons [simp]: "after (w # ws) (Suc k) r = after ws k (w r)"
  by (simp add: after_def)

text \<open>What the waiting thread can rely on at its wake-ups: polls succeed, the topology is fixed.\<close>

definition steady :: "'h wakeups \<Rightarrow> 'h dpu_rank_t \<Rightarrow> bool" where
  "steady ws r \<longleftrightarrow> unat (nr_of_control_interfaces r) \<le> DPU_MAX_NR_CIS \<and>
     (\<forall>k \<le> length ws. nr_of_control_interfaces (after ws k r) = nr_of_control_interfaces r
        \<and> poll_status (run_context (after ws k r)) = DPU_OK)"

lemma steady_Cons:
  assumes "steady (w # ws) r"
  shows "steady ws (w r)" "nr_of_control_interfaces (w r) = nr_of_control_interfaces r"
    "poll_status (run_context (w r)) = DPU_OK"
proof -
  have all: "nr_of_control_interfaces (after ws k (w r)) = nr_of_control_interfaces r
      \<and> poll_status (run_context (after ws k (w r))) = DPU_OK" if "k \<le> length ws" for k
    using assms that unfolding steady_def by (metis Suc_le_mono after_Cons length_Cons)
  from all [of 0] show nr: "nr_of_control_interfaces (w r) = nr_of_control_interfaces r"
    and "poll_status (run_context (w r)) = DPU_OK"
    by simp_all
  show "steady ws (w r)"
    using assms all nr by (simp add: steady_def)
qed

lemma sync_loop_result:
  assumes "steady ws r" "length flt = DPU_MAX_NR_CIS" "status \<in> {DPU_OK, DPU_ERR_DPU_FAULT}"
    and "status = DPU_OK \<Longrightarrow> \<forall>i < unat (nr_of_control_interfaces r). flt ! i = 0"
    and "sync_rank_loop is_hw ws r (flt, status, log) = Some (r1, flt1, st1, log1)"
  shows "\<exists>k \<le> length ws. r1 = after ws k r \<and> nb_dpu_running (run_context r1) = 0
    \<and> length flt1 = DPU_MAX_NR_CIS \<and> st1 \<in> {DPU_OK, DPU_ERR_DPU_FAULT}
    \<and> (st1 = DPU_OK \<longleftrightarrow> status = DPU_OK \<and> (\<forall>j \<in> {1..k}. fault_free (after ws j r)))
    \<and> (st1 = DPU_OK \<longrightarrow> (\<forall>i < unat (nr_of_control_interfaces r). flt1 ! i = 0) \<and> log1 = log)"
  using assms
proof (induction ws arbitrary: r flt status log)
  case Nil
  then have "\<not> sync_keeps_waiting r status"
    by (auto simp: sync_rank_loop.simps split: if_splits)
  with Nil show ?case
    by (auto simp: sync_rank_loop.simps sync_keeps_waiting_def word_neq_0_conv [symmetric] split: if_splits)
next
  case (Cons w ws)
  show ?case
  proof (cases "sync_keeps_waiting r status")
    case False
    with Cons.prems show ?thesis
      by (intro exI [of _ 0])
        (auto simp: sync_rank_loop.simps sync_keeps_waiting_def word_neq_0_conv [symmetric])
  next
    case True
    obtain flt2 st2 log2 where c: "dpu_check_fault_rank is_hw (w r) (flt, status, log) = (flt2, st2, log2)"
      by (metis prod_cases3)
    note st = steady_Cons [OF Cons.prems(1)]
    have le: "unat (nr_of_control_interfaces (w r)) \<le> length flt"
      using Cons.prems(1,2) st by (simp add: steady_def)
    note chk = check_fault_rank_spec [OF c st(3) le]
    have loop: "sync_rank_loop is_hw ws (w r) (flt2, st2, log2) = Some (r1, flt1, st1, log1)"
      using Cons.prems(5) True c by (simp add: sync_rank_loop.simps [of _ "w # ws"])
    have ff: "st2 = DPU_OK \<longleftrightarrow> status = DPU_OK \<and> fault_free (w r)"
      using chk(3) Cons.prems(3,4) st(2) by (auto simp: fault_free_def)
    have keep: "st2 = DPU_OK \<Longrightarrow> (\<forall>i < unat (nr_of_control_interfaces (w r)). flt2 ! i = 0) \<and> log2 = log"
      using chk(2,3,4) ff Cons.prems(4) by (auto simp: fault_free_def split: if_splits)
    have "st2 \<in> {DPU_OK, DPU_ERR_DPU_FAULT}"
      using chk(3) Cons.prems(3) by auto
    with Cons.IH [OF st(1) _ _ _ loop] chk(1) keep Cons.prems(2)
    obtain k where k: "k \<le> length ws" "r1 = after ws k (w r)" "nb_dpu_running (run_context r1) = 0"
      "length flt1 = DPU_MAX_NR_CIS" "st1 \<in> {DPU_OK, DPU_ERR_DPU_FAULT}"
      "st1 = DPU_OK \<longleftrightarrow> st2 = DPU_OK \<and> (\<forall>j \<in> {1..k}. fault_free (after ws j (w r)))"
      "st1 = DPU_OK \<longrightarrow> (\<forall>i < unat (nr_of_control_interfaces (w r)). flt1 ! i = 0) \<and> log1 = log2"
      by auto
    have "(\<forall>j \<in> {1..Suc k}. fault_free (after (w # ws) j r)) \<longleftrightarrow>
        fault_free (w r) \<and> (\<forall>j \<in> {1..k}. fault_free (after ws j (w r)))"
    proof -
      have eq: "{1..Suc k} = insert 1 (Suc ` {1..k})"
        by (auto simp: image_iff)
      show ?thesis
        unfolding eq by (simp only: ball_simps) (simp del: image_Suc_atLeastAtMost)
    qed
    then show ?thesis
      using k ff keep st(2) by (intro exI [of _ "Suc k"]) auto
  qed
qed

lemma sync_loop_terminates:
  assumes "k \<le> length ws" "nb_dpu_running (run_context (after ws k r)) = 0"
  shows "\<exists>res. sync_rank_loop is_hw ws r c = Some res"
  using assms
proof (induction ws arbitrary: k r c)
  case Nil
  then show ?case
    by (cases c) (simp add: sync_rank_loop.simps sync_keeps_waiting_def)
next
  case (Cons w ws)
  obtain flt status log where c: "c = (flt, status, log)"
    by (metis prod_cases3)
  show ?case
  proof (cases "sync_keeps_waiting r status")
    case False
    then show ?thesis by (simp add: c sync_rank_loop.simps)
  next
    case True
    with Cons.prems obtain k' where "k = Suc k'"
      by (cases k) (auto simp: sync_keeps_waiting_def)
    with Cons True show ?thesis
      by (simp add: c sync_rank_loop.simps [of _ "w # ws"])
  qed
qed

lemma sync_rank_terminates:
  assumes "k \<le> length ws" "nb_dpu_running (run_context (after ws k r)) = 0"
  shows "\<exists>res. dpu_sync_rank H is_hw ws log r = Some res"
proof -
  obtain r1 c1 where "sync_rank_loop is_hw ws r (replicate DPU_MAX_NR_CIS 0, DPU_OK, log) = Some (r1, c1)"
    using sync_loop_terminates [OF assms, of is_hw "(replicate DPU_MAX_NR_CIS 0, DPU_OK, log)"] by auto
  then show ?thesis
    by (auto simp: dpu_sync_rank_def split: prod.splits)
qed

lemma sync_rank_result:
  assumes "steady ws r" and "dpu_sync_rank H is_hw ws log r = Some (st, r', log')"
  shows "\<exists>k \<le> length ws. nb_dpu_running (run_context (after ws k r)) = 0
    \<and> (if \<forall>j \<in> insert k {1..k}. fault_free (after ws j r)
        then (st, r') = dpu_custom_for_rank H DPU_COMMAND_ALL_POSTEXECUTION None (after ws k r) \<and> log' = log
        else st = DPU_ERR_DPU_FAULT \<and> r' = after ws k r)"
proof -
  obtain r1 flt1 st1 log1 where loop:
    "sync_rank_loop is_hw ws r (replicate DPU_MAX_NR_CIS 0, DPU_OK, log) = Some (r1, flt1, st1, log1)"
    using assms(2) by (auto simp: dpu_sync_rank_def split: option.splits)
  have "\<forall>i < unat (nr_of_control_interfaces r). replicate DPU_MAX_NR_CIS (0 :: u8) ! i = 0"
    using assms(1) by (simp add: steady_def)
  with sync_loop_result [OF assms(1) _ _ _ loop] obtain k where
    k: "k \<le> length ws" "r1 = after ws k r" "nb_dpu_running (run_context r1) = 0"
      "length flt1 = DPU_MAX_NR_CIS" "st1 \<in> {DPU_OK, DPU_ERR_DPU_FAULT}"
    and ok: "st1 = DPU_OK \<longleftrightarrow> (\<forall>j \<in> {1..k}. fault_free (after ws j r))"
      "st1 = DPU_OK \<longrightarrow> (\<forall>i < unat (nr_of_control_interfaces r). flt1 ! i = 0) \<and> log1 = log"
    by auto
  obtain flt2 st2 log2 where c: "dpu_check_fault_rank is_hw r1 (flt1, st1, log1) = (flt2, st2, log2)"
    by (metis prod_cases3)
  have nr: "nr_of_control_interfaces r1 = nr_of_control_interfaces r" "poll_status (run_context r1) = DPU_OK"
      "unat (nr_of_control_interfaces r1) \<le> length flt1"
    using assms(1) k by (auto simp: steady_def)
  note chk = check_fault_rank_spec [OF c nr(2,3)]
  have st2: "st2 = DPU_OK \<longleftrightarrow> (\<forall>j \<in> insert k {1..k}. fault_free (after ws j r))"
    using chk(3) ok k(2,5) nr(1) by (auto simp: fault_free_def)
  have log: "st2 = DPU_OK \<Longrightarrow> log2 = log"
    using chk(3,4) ok by (auto split: if_splits)
  have fault: "st2 \<noteq> DPU_OK \<Longrightarrow> st2 = DPU_ERR_DPU_FAULT"
    using chk(3) k(5) by (auto split: if_splits)
  have "(if st2 = DPU_OK then (st, r') = dpu_custom_for_rank H DPU_COMMAND_ALL_POSTEXECUTION None r1 \<and> log' = log2
      else st = st2 \<and> r' = r1)"
    using assms(2) c by (auto simp: dpu_sync_rank_def loop split: prod.splits if_splits)
  with k st2 log fault show ?thesis
    by (intro exI [of _ k]) (auto split: if_splits)
qed

section \<open>One pass of the polling thread\<close>

lemma set_poll_status_sel [simp]:
  "rank_frame (set_poll_status e r) = rank_frame r"
  "nb_dpu_running (run_context (set_poll_status e r)) = nb_dpu_running (run_context r)"
  "dpu_running (run_context (set_poll_status e r)) = dpu_running (run_context r)"
  "dpu_in_fault (run_context (set_poll_status e r)) = dpu_in_fault (run_context r)"
  "poll_status (run_context (set_poll_status e r)) = e"
  "nr_of_control_interfaces (set_poll_status e r) = nr_of_control_interfaces r"
  "enabled_dpus (set_poll_status e r) = enabled_dpus r"
  by (simp_all add: set_poll_status_def)

lemma set_poll_status_inv [simp]: "rc_inv (set_poll_status e r) \<longleftrightarrow> rc_inv r"
  by (simp add: rc_inv_def rank_wf_def run_context_ok_def run_count_def)

lemma polling_thread_rank_cases:
  assumes "polling_thread_rank H t seen r = (running, woken, r')"
  obtains (idle) "nb_dpu_running (run_context seen) = 0" "\<not> running" "\<not> woken" "r' = r"
  | (skipped) "nb_dpu_running (run_context seen) \<noteq> 0" "\<not> t" "running" "\<not> woken" "r' = r"
  | (failed) e r1 where "nb_dpu_running (run_context seen) \<noteq> 0" "t"
      "dpu_poll_rank H (dpu_lock_rank r) = (e, r1)" "e \<noteq> DPU_OK" "\<not> running" "woken"
      "r' = dpu_unlock_rank (set_poll_status e r1)"
  | (polled) r1 where "nb_dpu_running (run_context seen) \<noteq> 0" "t"
      "dpu_poll_rank H (dpu_lock_rank r) = (DPU_OK, r1)" "running = (nb_dpu_running (run_context r') \<noteq> 0)"
      "woken = (nb_dpu_running (run_context r') < nb_dpu_running (run_context seen))"
      "r' = dpu_unlock_rank (set_poll_status DPU_OK r1)"
proof -
  obtain e r1 where p: "dpu_poll_rank H (dpu_lock_rank r) = (e, r1)"
    by fastforce
  show thesis
    using assms that p
    by (cases "nb_dpu_running (run_context seen) = 0"; cases t; cases "e = DPU_OK")
      (simp_all add: polling_thread_rank_def Let_def)
qed

lemma polling_thread_rank_keeps:
  assumes "polling_thread_rank H t seen r = (running, woken, r')"
  shows "rank_frame r' = rank_frame r" "rc_inv r \<Longrightarrow> rc_inv r'"
proof -
  have fr: "rank_frame (dpu_unlock_rank (set_poll_status e r1)) = rank_frame r"
      "rc_inv r \<Longrightarrow> rc_inv (dpu_unlock_rank (set_poll_status e r1))"
    if "dpu_poll_rank H (dpu_lock_rank r) = (e, r1)" for e r1
    using poll_op.frame [of H "dpu_lock_rank r"] run_poll.keeps_inv [of "dpu_lock_rank r" H] that
    by (simp_all add: rank_frame_unlock)
  from assms show "rank_frame r' = rank_frame r"
    by (cases rule: polling_thread_rank_cases) (use fr in auto)
  from assms show "rc_inv r \<Longrightarrow> rc_inv r'"
    by (cases rule: polling_thread_rank_cases) (use fr in auto)
qed

text \<open>A rank on which the polling thread has nothing to do: idle, or its last poll failed.\<close>

definition slot_quiet :: "nat \<Rightarrow> (nat \<times> 'h dpu_rank_t) option \<Rightarrow> bool" where
  "slot_quiet idx slot \<longleftrightarrow> (case slot of None \<Rightarrow> True | Some (q, r) \<Rightarrow>
     q \<noteq> idx \<or> nb_dpu_running (run_context r) = 0 \<or> poll_status (run_context r) \<noteq> DPU_OK)"

lemma polling_loop:
  assumes "n \<le> length ranks"
    and "foldl (polling_slot H idx trylock) (b, ranks) [0..<n] = (b', ranks')"
  shows "length ranks' = length ranks \<and> (\<forall>j \<ge> n. ranks' ! j = ranks ! j)
    \<and> (b' \<or> (\<not> b \<and> (\<forall>j < n. slot_quiet idx (ranks' ! j))))"
  using assms
proof (induction n arbitrary: b' ranks')
  case (Suc n)
  obtain b1 ranks1 where f: "foldl (polling_slot H idx trylock) (b, ranks) [0..<n] = (b1, ranks1)"
    by fastforce
  with Suc have IH: "length ranks1 = length ranks" "\<forall>j \<ge> n. ranks1 ! j = ranks ! j"
      "b1 \<or> (\<not> b \<and> (\<forall>j < n. slot_quiet idx (ranks1 ! j)))"
    by auto
  have step: "polling_slot H idx trylock (b1, ranks1) n = (b', ranks')"
    using Suc.prems(2) f by simp
  show ?case
  proof (cases "ranks1 ! n")
    case None
    with step IH show ?thesis
      by (auto simp: polling_slot_def slot_quiet_def less_Suc_eq)
  next
    case (Some qr)
    obtain q r where qr: "qr = (q, r)"
      by fastforce
    obtain running woken r' where p: "polling_thread_rank H (trylock ! n) r r = (running, woken, r')"
      by (metis prod_cases3)
    from p have quiet: "running \<or> slot_quiet idx (Some (q, r'))"
      by (cases rule: polling_thread_rank_cases) (auto simp: slot_quiet_def)
    have n: "n < length ranks1"
      using Suc.prems(1) IH by simp
    show ?thesis
    proof (cases "q = idx")
      case True
      then have "b' = (b1 \<or> running)" "ranks' = ranks1[n := Some (q, r')]"
        using step Some qr p by (auto simp: polling_slot_def)
      with IH n quiet show ?thesis
        by (auto simp: less_Suc_eq nth_list_update)
    next
      case False
      then have "b' = b1" "ranks' = ranks1" "slot_quiet idx (ranks1 ! n)"
        using step Some qr p by (auto simp: polling_slot_def slot_quiet_def)
      with IH show ?thesis
        by (auto simp: less_Suc_eq)
    qed
  qed
qed auto

section \<open>Properties\<close>

text \<open>
  C6: \<open>dpu_sync_rank\<close>, as long as polls succeed, returns only once no DPU of the rank is counted as
  running. It returns \<^verbatim>\<open>DPU_ERR_DPU_FAULT\<close> exactly when, at one of its wake-ups or at the end, some DPU
  was in fault (a fault that is gone at the end is still reported), and otherwise runs the post-execution
  operation of the backend, returns its status and reports nothing.
\<close>

theorem sync_rank_waits_for_the_end:
  assumes "steady ws r" and "dpu_sync_rank H is_hw ws log r = Some (st, r', log')"
  shows "\<exists>k \<le> length ws. nb_dpu_running (run_context (after ws k r)) = 0
    \<and> (if \<forall>j \<in> insert k {1..k}. fault_free (after ws j r)
        then (st, r') = dpu_custom_for_rank H DPU_COMMAND_ALL_POSTEXECUTION None (after ws k r) \<and> log' = log
        else st = DPU_ERR_DPU_FAULT \<and> r' = after ws k r)"
  by (rule sync_rank_result [OF assms])

text \<open>The polling thread as the environment of a waiting thread: one pass at every wake-up.\<close>

definition poll_pass :: "'h dpu_rank_handler \<Rightarrow> 'h dpu_rank_t \<Rightarrow> 'h dpu_rank_t" where
  "poll_pass H r = snd (snd (polling_thread_rank H True r r))"

lemma sim_busy_sel [simp]:
  "run_context sim_busy = \<lparr>dpu_running = [3, 0, 0, 0, 0, 0, 0, 0], dpu_in_fault = replicate 8 0,
     poll_status = DPU_OK, nb_dpu_running = 2\<rparr>"
  "nr_of_control_interfaces sim_busy = 2" "hw sim_busy = (replicate 8 0, replicate 8 0)"
  "enabled_dpus sim_busy = [3, 1, 0, 0, 0, 0, 0, 0]" "profiling_context sim_busy = profiling_context sim_rank"
  by (simp_all add: sim_busy_def)

lemma sim_busy_pass:
  "run_context (poll_pass sim_handler sim_busy) =
     \<lparr>dpu_running = replicate 8 0, dpu_in_fault = replicate 8 0, poll_status = DPU_OK, nb_dpu_running = 0\<rparr>"
  "nr_of_control_interfaces (poll_pass sim_handler sim_busy) = 2"
  by code_simp+

lemma sim_busy_steady: "steady [poll_pass sim_handler] sim_busy"
  by (simp add: steady_def le_Suc_eq sim_busy_pass all_conj_distrib)

theorem sync_rank_waits_for_the_end_witness:
  "\<exists>k \<le> 1. nb_dpu_running (run_context (after [poll_pass sim_handler] k sim_busy)) = 0"
proof -
  let ?log = "\<lparr>nb_dpu_in_fault = 0, fault_lines = []\<rparr>"
  obtain st r' log' where "dpu_sync_rank sim_handler True [poll_pass sim_handler] ?log sim_busy = Some (st, r', log')"
    using sync_rank_terminates [of 1 "[poll_pass sim_handler]" sim_busy sim_handler True ?log]
    by (auto simp: sim_busy_pass)
  from sync_rank_waits_for_the_end [OF sim_busy_steady this] show ?thesis
    by auto
qed



text \<open>
  C8: the polling thread never goes to sleep while there is something to poll: after a pass over the rank
  table, either the thread will not wait at its next iteration, or every rank of its queue has no
  running DPU or has just failed to be polled. A launch that happens since then (which sets
  \<^verbatim>\<open>is_dpu_running\<close>) also keeps it from waiting.
\<close>

theorem polling_thread_does_not_sleep:
  assumes "polling_iteration H idx trylock b ranks = (b', ranks')"
    and "i < length ranks'" "ranks' ! i = Some (idx, r)"
    and "nb_dpu_running (run_context r) \<noteq> 0" "poll_status (run_context r) = DPU_OK"
  shows "\<not> polling_waits t b'
    \<and> \<not> polling_waits (polling_thread_set_dpu_running [t] 0 ! 0) b"
proof -
  have "length ranks' = length ranks" "b' \<or> (\<forall>j < length ranks. slot_quiet idx (ranks' ! j))"
    using polling_loop [of "length ranks" ranks H idx trylock b b' ranks'] assms(1)
    by (auto simp: polling_iteration_def)
  then have "b' \<or> slot_quiet idx (ranks' ! i)"
    using assms(2) by auto
  with assms(3-5) show ?thesis
    by (auto simp: polling_waits_def slot_quiet_def polling_thread_set_dpu_running_def)
qed

theorem polling_thread_does_not_sleep_witness:
  "\<not> polling_waits \<lparr>is_dpu_running = False, is_running = True\<rparr>
       (fst (polling_iteration sim_handler 2 [False] False [Some (2, sim_busy)]))"
proof -
  have it: "polling_iteration sim_handler 2 [False] False [Some (2, sim_busy)] = (True, [Some (2, sim_busy)])"
    by (simp add: polling_iteration_def polling_slot_def polling_thread_rank_def Let_def)
  show ?thesis
    using polling_thread_does_not_sleep [OF it, of 0 sim_busy] by (simp add: it)
qed



text \<open>
  the check for faults reports every DPU that is newly in fault exactly once, control interface by
  control interface and in increasing order of the DPU id, remembers the new fault bits, and raises
  the status to \<^verbatim>\<open>DPU_ERR_DPU_FAULT\<close> when, and only when, the fault bits of some control interface changed.
\<close>

lemma check_fault_reports_new_faults:
  assumes "dpu_check_fault_rank is_hw r (flt, status, log) = (flt', status', log')"
    and "poll_status (run_context r) = DPU_OK" "unat (nr_of_control_interfaces r) \<le> length flt"
  shows "(\<forall>i < unat (nr_of_control_interfaces r). flt' ! i = dpu_in_fault (run_context r) ! i)
    \<and> status' = (if \<forall>i < unat (nr_of_control_interfaces r). flt ! i = dpu_in_fault (run_context r) ! i
           then status else DPU_ERR_DPU_FAULT)
    \<and> reported (fault_lines log') = reported (fault_lines log) @
        concat (map (\<lambda>ci. map (\<lambda>i. (word_of_nat ci, word_of_nat i))
          (filter (\<lambda>i. i \<in> mask_set (dpu_in_fault (run_context r) ! ci) - mask_set (flt ! ci)) [0..<8]))
            [0..<unat (nr_of_control_interfaces r)])"
proof -
  have "(\<lambda>i. i \<in> mask_set a - mask_set b) = bit (a AND NOT b)" for a b :: u8
    unfolding mask_set_and_not [symmetric] by (auto simp: mask_set_def)
  then show ?thesis
    using check_fault_rank_spec [OF assms] by simp
qed

lemma check_fault_reports_new_faults_witness:
  "reported (fault_lines (snd (snd (dpu_check_fault_rank True
      (sim_rank\<lparr>run_context := (run_context sim_rank)\<lparr>dpu_in_fault := [3, 1, 0, 0, 0, 0, 0, 0]\<rparr>\<rparr>)
      ([1, 0, 0, 0, 0, 0, 0, 0], DPU_OK, \<lparr>nb_dpu_in_fault = 0, fault_lines = []\<rparr>))))) = [(0, 1), (1, 0)]"
proof -
  let ?r = "sim_rank\<lparr>run_context := (run_context sim_rank)\<lparr>dpu_in_fault := [3, 1, 0, 0, 0, 0, 0, 0]\<rparr>\<rparr>"
  let ?c = "([1, 0, 0, 0, 0, 0, 0, 0], DPU_OK, \<lparr>nb_dpu_in_fault = 0, fault_lines = []\<rparr>)"
  obtain flt st log where c: "dpu_check_fault_rank True ?r ?c = (flt, st, log)"
    by (metis prod_cases3)
  show ?thesis
    using check_fault_reports_new_faults [OF c] unfolding c by (simp add: upt_rec mask_set_def)
qed

end
