(* ===== verification/Jobs.thy ===== *)
theory Jobs
  imports Polling
begin

text \<open>
  The asynchronous jobs of the high-level API (\<^verbatim>\<open>api/src/api/dpu_thread_job.c\<close>). Every rank has a
  FIFO of jobs and a list of free job slots; every rank with pending jobs has an entry in one of the
  queues, from which worker threads take the rank to serve.

  Pointers are numbers: a rank is its index in \<^verbatim>\<open>hranks\<close>, a job slot and a sync object their
  address in the two heaps. A critical section is one function on the whole state; the
  broadcasts and signals on condition variables are recorded in a trace. A function that
  dereferences the null pointer \<open>Crashes\<close>, one that waits for ever \<open>Blocks\<close>.
\<close>

section \<open>Structures\<close>

datatype 'a outcome = Done 'a | Blocks | Crashes

datatype dpu_set_t =
    DPU_SET_RANKS "nat list"
  | DPU_SET_DPU nat dpu_t
  | DPU_SET_UNKNOWN

record dpu_thread_job_sync =
  sync_nr_ranks :: u32
  sync_status :: dpu_error_t

record callback_t =
  cb_function :: nat
  cb_args :: nat
  cb_rank_idx :: u32
  cb_dpu_set :: dpu_set_t
  cb_sync :: dpu_thread_job_sync
  master_job :: "nat option"
  slot_owner :: nat
  cb_is_sync :: bool
  cb_is_nonblocking :: bool
  cb_is_single_call :: bool

text \<open>The type of a job, with the member of the union that the type selects.\<close>

datatype dpu_thread_job_body =
    DPU_THREAD_JOB_LAUNCH_RANK
  | DPU_THREAD_JOB_LAUNCH_DPU nat dpu_t
  | DPU_THREAD_JOB_SYNC nat
  | DPU_THREAD_JOB_COPY_WRAM_TO_MATRIX dpu_transfer_matrix
  | DPU_THREAD_JOB_COPY_IRAM_TO_MATRIX dpu_transfer_matrix
  | DPU_THREAD_JOB_COPY_MRAM_TO_MATRIX dpu_transfer_matrix
  | DPU_THREAD_JOB_COPY_WRAM_FROM_MATRIX dpu_transfer_matrix
  | DPU_THREAD_JOB_COPY_IRAM_FROM_MATRIX dpu_transfer_matrix
  | DPU_THREAD_JOB_COPY_MRAM_FROM_MATRIX dpu_transfer_matrix
  | DPU_THREAD_JOB_COPY_WRAM_TO_RANK u32 "u32 list" u32
  | DPU_THREAD_JOB_COPY_IRAM_TO_RANK u32 "u64 list" u32
  | DPU_THREAD_JOB_COPY_MRAM_TO_RANK u32 nat u32
  | DPU_THREAD_JOB_CALLBACK callback_t
  | DPU_THREAD_JOB_LOAD nat

text \<open>The value of the enumeration constant.\<close>

fun job_type_code :: "dpu_thread_job_body \<Rightarrow> u32" where
  "job_type_code DPU_THREAD_JOB_LAUNCH_RANK = 0"
| "job_type_code (DPU_THREAD_JOB_LAUNCH_DPU _ _) = 1"
| "job_type_code (DPU_THREAD_JOB_SYNC _) = 2"
| "job_type_code (DPU_THREAD_JOB_COPY_WRAM_TO_MATRIX _) = 3"
| "job_type_code (DPU_THREAD_JOB_COPY_IRAM_TO_MATRIX _) = 4"
| "job_type_code (DPU_THREAD_JOB_COPY_MRAM_TO_MATRIX _) = 5"
| "job_type_code (DPU_THREAD_JOB_COPY_WRAM_FROM_MATRIX _) = 6"
| "job_type_code (DPU_THREAD_JOB_COPY_IRAM_FROM_MATRIX _) = 7"
| "job_type_code (DPU_THREAD_JOB_COPY_MRAM_FROM_MATRIX _) = 8"
| "job_type_code (DPU_THREAD_JOB_COPY_WRAM_TO_RANK _ _ _) = 9"
| "job_type_code (DPU_THREAD_JOB_COPY_IRAM_TO_RANK _ _ _) = 10"
| "job_type_code (DPU_THREAD_JOB_COPY_MRAM_TO_RANK _ _ _) = 11"
| "job_type_code (DPU_THREAD_JOB_CALLBACK _) = 12"
| "job_type_code (DPU_THREAD_JOB_LOAD _) = 13"

record dpu_thread_job =
  job_body :: dpu_thread_job_body
  job_rank :: nat

text \<open>The rank as the high-level API sees it: the low-level rank and the fields of \<^verbatim>\<open>rank->api\<close>.\<close>

record 'h host_rank =
  low :: "'h dpu_rank_t"
  type_is_hw :: bool
  numa_node :: int
  queue_idx :: nat
  should_stop :: bool
  api_nr_threads :: u32
  api_matrix :: dpu_transfer_matrix
  callback_tid_set :: bool
  callback_matrix :: dpu_transfer_matrix
  api_nr_jobs :: u32
  available_jobs :: "nat list"
  jobs :: "nat list"
  available_jobs_length :: u32
  job_error :: dpu_error_t
  api_abort :: bool

datatype signal =
    QueueBroadcast nat
  | SlotSignal nat
  | SyncSignal nat

record 'h host =
  hranks :: "'h host_rank list"
  queues :: "nat list list"
  job_heap :: "nat \<Rightarrow> dpu_thread_job"
  sync_heap :: "nat \<Rightarrow> dpu_thread_job_sync"
  pollers :: "polling_thread list"
  fault_log_of :: fault_log
  signals :: "signal list"

text \<open>
  What the jobs call outside this file: the backend, MRAM access through a DPU program, the
  loader, and the callbacks of the user, which may do anything to the state. \<open>stack_matrix\<close> is the
  content of the uninitialised local variable of the case \<^verbatim>\<open>DPU_THREAD_JOB_COPY_MRAM_TO_RANK\<close>.
\<close>

record 'h job_env =
  backend :: "'h dpu_rank_handler"
  mram_to_program :: "dpu_transfer_matrix \<Rightarrow> 'h dpu_rank_t op"
  mram_from_program :: "dpu_transfer_matrix \<Rightarrow> 'h dpu_rank_t op"
  load_rank :: "nat \<Rightarrow> 'h dpu_rank_t op"
  user_function :: "nat \<Rightarrow> dpu_set_t \<Rightarrow> u32 \<Rightarrow> nat \<Rightarrow> 'h host op"
  stack_matrix :: dpu_transfer_matrix

definition upd_rank :: "nat \<Rightarrow> ('h host_rank \<Rightarrow> 'h host_rank) \<Rightarrow> 'h host \<Rightarrow> 'h host" where
  "upd_rank rank f w = w\<lparr>hranks := (hranks w)[rank := f (hranks w ! rank)]\<rparr>"

definition upd_low :: "nat \<Rightarrow> ('h dpu_rank_t \<Rightarrow> 'h dpu_rank_t) \<Rightarrow> 'h host \<Rightarrow> 'h host" where
  "upd_low rank f = upd_rank rank (\<lambda>R. R\<lparr>low := f (low R)\<rparr>)"

definition emit :: "signal \<Rightarrow> 'h host \<Rightarrow> 'h host" where
  "emit s w = w\<lparr>signals := signals w @ [s]\<rparr>"

text \<open>A low-level operation on the rank of a job.\<close>

definition low_op :: "nat \<Rightarrow> 'h dpu_rank_t op \<Rightarrow> 'h host op" where
  "low_op rank f w = (case f (low (hranks w ! rank)) of (status, r) \<Rightarrow> (status, upd_low rank (\<lambda>_. r) w))"

section \<open>The job lists\<close>

definition dpu_thread_job_peek_unlocked :: "nat list \<Rightarrow> nat option" where
  "dpu_thread_job_peek_unlocked js = (case js of [] \<Rightarrow> None | j # _ \<Rightarrow> Some j)"

text \<open>\<^verbatim>\<open>STAILQ_REMOVE_HEAD\<close> dereferences the first element.\<close>

definition dpu_thread_job_pop_unlocked :: "nat list \<Rightarrow> (nat \<times> nat list) outcome" where
  "dpu_thread_job_pop_unlocked js = (case js of [] \<Rightarrow> Crashes | j # js \<Rightarrow> Done (j, js))"

definition dpu_thread_release_job_slot_unlocked :: "nat \<Rightarrow> nat \<Rightarrow> 'h host \<Rightarrow> 'h host" where
  "dpu_thread_release_job_slot_unlocked rank job w =
     (let stailq_empty = available_jobs (hranks w ! rank) = [];
          w = upd_rank rank (\<lambda>R. R\<lparr>available_jobs := available_jobs R @ [job],
                available_jobs_length := available_jobs_length R + 1\<rparr>) w
      in if stailq_empty then emit (SlotSignal rank) w else w)"

definition dpu_thread_insert_rank_list :: "nat option \<Rightarrow> nat \<Rightarrow> 'h host \<Rightarrow> 'h host" where
  "dpu_thread_insert_rank_list first_job queue w = (case first_job of
       None \<Rightarrow> w
     | Some job \<Rightarrow> emit (QueueBroadcast queue)
         (w\<lparr>queues := (queues w)[queue := queues w ! queue @ [job]]\<rparr>))"

definition dpu_thread_advance_to_next_job :: "nat \<Rightarrow> 'h host \<Rightarrow> (nat option \<times> 'h host) outcome" where
  "dpu_thread_advance_to_next_job rank w =
     (case dpu_thread_job_pop_unlocked (jobs (hranks w ! rank)) of
        Done (job, js) \<Rightarrow>
          let w = upd_rank rank (\<lambda>R. R\<lparr>jobs := js\<rparr>) w;
              w = dpu_thread_release_job_slot_unlocked rank job w
          in Done (dpu_thread_job_peek_unlocked (jobs (hranks w ! rank)), w)
      | Blocks \<Rightarrow> Blocks
      | Crashes \<Rightarrow> Crashes)"

text \<open>\<^verbatim>\<open>STAILQ_INSERT_TAIL\<close> dereferences the element that it inserts.\<close>

fun global_block_loop ::
  "nat \<Rightarrow> nat list \<Rightarrow> bool list \<Rightarrow> 'h host \<Rightarrow> (bool list \<times> 'h host) outcome" where
  "global_block_loop rank [] queue_is_used w = Done (queue_is_used, w)"
| "global_block_loop rank (other_rank # ranks) queue_is_used w =
     (if other_rank = rank then global_block_loop rank ranks queue_is_used w
      else let queue = queue_idx (hranks w ! other_rank);
               queue_is_used = queue_is_used[queue := True]
           in case dpu_thread_advance_to_next_job other_rank w of
                Done (Some next_rank_job, w) \<Rightarrow>
                  global_block_loop rank ranks queue_is_used
                    (w\<lparr>queues := (queues w)[queue := queues w ! queue @ [next_rank_job]]\<rparr>)
              | Done (None, w) \<Rightarrow> Crashes
              | Blocks \<Rightarrow> Blocks
              | Crashes \<Rightarrow> Crashes)"

definition broadcast_used :: "bool list \<Rightarrow> 'h host \<Rightarrow> 'h host" where
  "broadcast_used used w =
     foldl (\<lambda>w each_queue. if used ! each_queue then emit (QueueBroadcast each_queue) w else w) w [0..<NR_QUEUES]"

definition dpu_thread_handle_global_block :: "nat \<Rightarrow> nat list \<Rightarrow> 'h host \<Rightarrow> 'h host outcome" where
  "dpu_thread_handle_global_block rank ranks w =
     (case global_block_loop rank ranks (replicate NR_QUEUES False) w of
        Done (queue_is_used, w) \<Rightarrow> Done (broadcast_used queue_is_used w)
      | Blocks \<Rightarrow> Blocks
      | Crashes \<Rightarrow> Crashes)"

definition do_sync_job :: "nat \<Rightarrow> 'h host \<Rightarrow> 'h host" where
  "do_sync_job sync w =
     (let s = sync_heap w sync; n = sync_nr_ranks s - 1;
          w = w\<lparr>sync_heap := (sync_heap w)(sync := s\<lparr>sync_nr_ranks := n\<rparr>)\<rparr>
      in if n = 0 then emit (SyncSignal sync) w else w)"

section \<open>Computing a job\<close>

definition set_callback_tid :: "bool \<Rightarrow> nat list \<Rightarrow> 'h host \<Rightarrow> 'h host" where
  "set_callback_tid b ranks w = foldl (\<lambda>w each_rank. upd_rank each_rank (\<lambda>R. R\<lparr>callback_tid_set := b\<rparr>) w) w ranks"

definition lock_ranks :: "nat list \<Rightarrow> 'h host \<Rightarrow> 'h host" where
  "lock_ranks ranks w = foldl (\<lambda>w each_rank. upd_low each_rank dpu_lock_rank w) w ranks"

definition unlock_ranks :: "nat list \<Rightarrow> 'h host \<Rightarrow> 'h host" where
  "unlock_ranks ranks w = foldl (\<lambda>w each_rank. upd_low each_rank dpu_unlock_rank w) w ranks"

definition set_cb_count :: "nat \<Rightarrow> callback_t \<Rightarrow> u32 \<Rightarrow> 'h host \<Rightarrow> 'h host" where
  "set_cb_count master cb n w = w\<lparr>job_heap := (job_heap w)(master := (job_heap w master)
     \<lparr>job_body := DPU_THREAD_JOB_CALLBACK (cb\<lparr>cb_sync := (cb_sync cb)\<lparr>sync_nr_ranks := n\<rparr>\<rparr>)\<rparr>)\<rparr>"

text \<open>
  The case \<^verbatim>\<open>DPU_THREAD_JOB_CALLBACK\<close>, once the master job \<open>master\<close> with the callback \<open>cb\<close> is known.
  The result is the status, the value of \<^verbatim>\<open>keep_job_list\<close> and the new state.
\<close>

definition callback_last ::
  "'h job_env \<Rightarrow> nat \<Rightarrow> nat \<Rightarrow> callback_t \<Rightarrow> bool \<Rightarrow> nat list \<Rightarrow> 'h host \<Rightarrow> (dpu_error_t \<times> bool \<times> 'h host) outcome" where
  "callback_last E rank master cb has_master ranks w =
     (let nonblocking = cb_is_nonblocking cb; single = cb_is_single_call cb
      in case (if nonblocking
               then (case dpu_thread_advance_to_next_job rank (upd_low rank dpu_unlock_rank w) of
                       Done (next, w) \<Rightarrow>
                         Done (dpu_thread_insert_rank_list next (queue_idx (hranks w ! rank)) w)
                     | Blocks \<Rightarrow> Blocks
                     | Crashes \<Rightarrow> Crashes)
               else Done w) of
           Done w \<Rightarrow>
             let w = (if single \<and> \<not> nonblocking then lock_ranks ranks w else w);
                 w = (if \<not> nonblocking then set_callback_tid True ranks w else w);
                 (status, w) = user_function E (cb_function cb) (cb_dpu_set cb) (cb_rank_idx cb) (cb_args cb) w;
                 w = (if \<not> nonblocking then set_callback_tid False ranks w else w);
                 w = (if single \<and> \<not> nonblocking then unlock_ranks ranks w else w)
             in (case (if \<not> nonblocking \<and> single \<and> \<not> cb_is_sync cb
                       then dpu_thread_handle_global_block rank ranks w else Done w) of
                   Done w \<Rightarrow> Done (status, \<not> nonblocking,
                     if has_master then dpu_thread_release_job_slot_unlocked (slot_owner cb) master w else w)
                 | Blocks \<Rightarrow> Blocks
                 | Crashes \<Rightarrow> Crashes)
         | Blocks \<Rightarrow> Blocks
         | Crashes \<Rightarrow> Crashes)"

definition compute_callback ::
  "'h job_env \<Rightarrow> nat \<Rightarrow> nat \<Rightarrow> callback_t \<Rightarrow> bool \<Rightarrow> 'h host \<Rightarrow> (dpu_error_t \<times> bool \<times> 'h host) outcome" where
  "compute_callback E rank master cb has_master w =
     (let n = sync_nr_ranks (cb_sync cb) - 1; w = set_cb_count master cb n w
      in if n = 0
         then (case cb_dpu_set cb of
                 DPU_SET_RANKS ranks \<Rightarrow> callback_last E rank master cb has_master ranks w
               | DPU_SET_DPU r d \<Rightarrow> callback_last E rank master cb has_master [r] w
               | DPU_SET_UNKNOWN \<Rightarrow> Done (DPU_ERR_INTERNAL, True, w))
         else if \<not> cb_is_nonblocking cb \<and> cb_is_single_call cb \<and> \<not> cb_is_sync cb
         then Done (DPU_OK, False, upd_low rank dpu_unlock_rank w)
         else Done (DPU_OK, True, w))"

text \<open>
  The two launch jobs boot, wake the polling thread and wait; during a callback the rank is locked twice
  and one lock is released around the wait. \<open>ws\<close> are the wake-ups of that wait.
\<close>

definition unlock_if_callback :: "nat \<Rightarrow> 'h host \<Rightarrow> 'h host" where
  "unlock_if_callback rank w =
     (if callback_tid_set (hranks w ! rank) then upd_low rank dpu_unlock_rank w else w)"

definition lock_if_callback :: "nat \<Rightarrow> 'h host \<Rightarrow> 'h host" where
  "lock_if_callback rank w =
     (if callback_tid_set (hranks w ! rank) then upd_low rank dpu_lock_rank w else w)"

definition compute_launch ::
  "nat \<Rightarrow> 'h dpu_rank_t op \<Rightarrow> (bool \<Rightarrow> fault_log \<Rightarrow> 'h dpu_rank_t \<Rightarrow> (dpu_error_t \<times> 'h dpu_rank_t \<times> fault_log) option) \<Rightarrow>
     'h host \<Rightarrow> (dpu_error_t \<times> bool \<times> 'h host) outcome" where
  "compute_launch rank boot sync w =
     (case low_op rank boot w of (status, w) \<Rightarrow>
        if status \<noteq> DPU_OK then Done (status, True, w)
        else let w = w\<lparr>pollers := polling_thread_set_dpu_running (pollers w) (queue_idx (hranks w ! rank))\<rparr>;
                 w = unlock_if_callback rank w
             in case sync (type_is_hw (hranks w ! rank)) (fault_log_of w) (low (hranks w ! rank)) of
                  None \<Rightarrow> Blocks
                | Some (status, r, log) \<Rightarrow>
                    Done (status, True,
                      lock_if_callback rank (upd_low rank (\<lambda>_. r) (w\<lparr>fault_log_of := log\<rparr>))))"

definition keep_jobs :: "dpu_error_t \<times> 'h host \<Rightarrow> (dpu_error_t \<times> bool \<times> 'h host) outcome" where
  "keep_jobs m = (case m of (status, w) \<Rightarrow> Done (status, True, w))"

definition dpu_thread_compute_job ::
  "'h job_env \<Rightarrow> 'h wakeups \<Rightarrow> nat \<Rightarrow> nat \<Rightarrow> 'h host \<Rightarrow> (dpu_error_t \<times> bool \<times> 'h host) outcome" where
  "dpu_thread_compute_job E ws rank job w = (let H = backend E in
     case job_body (job_heap w job) of
       DPU_THREAD_JOB_LAUNCH_RANK \<Rightarrow>
         compute_launch rank (dpu_boot_rank H) (\<lambda>is_hw log r. dpu_sync_rank H is_hw ws log r) w
     | DPU_THREAD_JOB_LAUNCH_DPU dpu_rank dpu \<Rightarrow>
         compute_launch dpu_rank (dpu_boot_dpu H dpu) (\<lambda>is_hw log r. dpu_sync_dpu H is_hw ws log dpu r) w
     | DPU_THREAD_JOB_SYNC sync \<Rightarrow> Done (DPU_OK, True, do_sync_job sync w)
     | DPU_THREAD_JOB_COPY_WRAM_TO_MATRIX m \<Rightarrow> keep_jobs (low_op rank (dpu_copy_to_wram_for_matrix H m) w)
     | DPU_THREAD_JOB_COPY_IRAM_TO_MATRIX m \<Rightarrow> keep_jobs (low_op rank (dpu_copy_to_iram_for_matrix H m) w)
     | DPU_THREAD_JOB_COPY_MRAM_TO_MATRIX m \<Rightarrow>
         keep_jobs (low_op rank (dpu_copy_to_mrams H (mram_to_program E) m) w)
     | DPU_THREAD_JOB_COPY_WRAM_FROM_MATRIX m \<Rightarrow> keep_jobs (low_op rank (dpu_copy_from_wram_for_matrix H m) w)
     | DPU_THREAD_JOB_COPY_IRAM_FROM_MATRIX m \<Rightarrow> keep_jobs (low_op rank (dpu_copy_from_iram_for_matrix H m) w)
     | DPU_THREAD_JOB_COPY_MRAM_FROM_MATRIX m \<Rightarrow>
         keep_jobs (low_op rank (dpu_copy_from_mrams H (mram_from_program E) m) w)
     | DPU_THREAD_JOB_COPY_WRAM_TO_RANK address buffer len \<Rightarrow>
         keep_jobs (low_op rank (dpu_copy_to_wram_for_rank H address buffer len) w)
     | DPU_THREAD_JOB_COPY_IRAM_TO_RANK address buffer len \<Rightarrow>
         keep_jobs (low_op rank (dpu_copy_to_iram_for_rank H (ucast address) buffer (ucast len)) w)
     | DPU_THREAD_JOB_COPY_MRAM_TO_RANK address buffer len \<Rightarrow>
         let m = dpu_transfer_matrix_set_all (low (hranks w ! rank)) (stack_matrix E) (Some buffer);
             m = m\<lparr>tm_offset := address, tm_size := len\<rparr>
         in keep_jobs (low_op rank (dpu_copy_to_mrams H (mram_to_program E) m) w)
     | DPU_THREAD_JOB_LOAD info \<Rightarrow> keep_jobs (low_op rank (load_rank E info) w)
     | DPU_THREAD_JOB_CALLBACK cb \<Rightarrow>
         (case master_job cb of
            None \<Rightarrow> compute_callback E rank job cb False w
          | Some master \<Rightarrow>
              (case job_body (job_heap w master) of
                 DPU_THREAD_JOB_CALLBACK mcb \<Rightarrow> compute_callback E rank master mcb True w
               | _ \<Rightarrow> Crashes)))"

section \<open>The error path\<close>

definition async_status :: "dpu_error_t \<Rightarrow> dpu_thread_job_body \<Rightarrow> dpu_error_t" where
  "async_status status body =
     (DPU_ERR_ASYNC_JOBS OR push_bit DPU_ERROR_ASYNC_JOB_TYPE_SHIFT (job_type_code body))
       OR (status AND (push_bit DPU_ERROR_ASYNC_JOB_TYPE_SHIFT 1 - 1))"

text \<open>The loop that empties the FIFO: \<open>js\<close> is the FIFO of the rank.\<close>

definition notify_sync :: "dpu_error_t \<Rightarrow> nat \<Rightarrow> 'h host \<Rightarrow> 'h host" where
  "notify_sync status sync w =
     (let s = sync_heap w sync;
          w = (if sync_status s = DPU_OK
               then w\<lparr>sync_heap := (sync_heap w)(sync := s\<lparr>sync_status := status\<rparr>)\<rparr> else w)
      in do_sync_job sync w)"

fun drain_jobs :: "nat \<Rightarrow> dpu_error_t \<Rightarrow> nat list \<Rightarrow> 'h host \<Rightarrow> 'h host" where
  "drain_jobs rank status [] w = w"
| "drain_jobs rank status (job # js) w =
     (let w = upd_rank rank (\<lambda>R. R\<lparr>jobs := js\<rparr>) w;
          w = (case job_body (job_heap w job) of
                 DPU_THREAD_JOB_SYNC sync \<Rightarrow> notify_sync status sync w
               | _ \<Rightarrow> w)
      in drain_jobs rank status js (dpu_thread_release_job_slot_unlocked rank job w))"

definition dpu_thread_update_status :: "dpu_error_t \<Rightarrow> nat \<Rightarrow> nat \<Rightarrow> 'h host \<Rightarrow> 'h host" where
  "dpu_thread_update_status status rank job w =
     (let status = async_status status (job_body (job_heap w job));
          w = upd_rank rank (\<lambda>R. R\<lparr>job_error := status\<rparr>) w
      in drain_jobs rank status (jobs (hranks w ! rank)) w)"

section \<open>Job slots\<close>

text \<open>
  \<open>waits\<close> are the wake-ups of the successive waits for a free slot, as functions on the state.
\<close>

type_synonym 'h host_wakeups = "('h host \<Rightarrow> 'h host) list"

definition unget_rank_jobs :: "nat \<Rightarrow> nat option list \<Rightarrow> 'h host \<Rightarrow> 'h host" where
  "unget_rank_jobs rank slots w = foldl (\<lambda>w slot. case slot of
       None \<Rightarrow> w
     | Some job \<Rightarrow> upd_rank rank (\<lambda>R. R\<lparr>available_jobs := job # available_jobs R,
                     available_jobs_length := available_jobs_length R + 1\<rparr>) w) w slots"

definition dpu_thread_job_unget_jobs :: "nat list \<Rightarrow> nat \<Rightarrow> nat \<Rightarrow> nat option list \<Rightarrow> 'h host \<Rightarrow> 'h host" where
  "dpu_thread_job_unget_jobs ranks nr_ranks nr_jobs job_list w =
     foldl (\<lambda>w each_rank. unget_rank_jobs (ranks ! each_rank)
        (map (\<lambda>each_job. job_list ! (each_rank * nr_jobs + each_job)) [0..<nr_jobs]) w) w [0..<nr_ranks]"

fun dpu_thread_job_get_job_unlocked ::
  "nat \<Rightarrow> 'h host_wakeups \<Rightarrow> 'h host \<Rightarrow> (dpu_error_t \<times> nat option \<times> 'h host_wakeups \<times> 'h host) outcome" where
  "dpu_thread_job_get_job_unlocked rank waits w =
     (if job_error (hranks w ! rank) \<noteq> DPU_OK then Done (job_error (hranks w ! rank), None, waits, w)
      else case available_jobs (hranks w ! rank) of
          job # js \<Rightarrow>
            Done (DPU_OK, Some job, waits, upd_rank rank (\<lambda>R. R\<lparr>available_jobs := js,
                   available_jobs_length := available_jobs_length R - 1\<rparr>) w)
        | [] \<Rightarrow> (case waits of
              [] \<Rightarrow> Blocks
            | wake # waits \<Rightarrow> dpu_thread_job_get_job_unlocked rank waits (wake w)))"

declare dpu_thread_job_get_job_unlocked.simps [simp del]

text \<open>
  The two nested loops of \<^verbatim>\<open>dpu_thread_job_get_jobs\<close> run over the pairs of a rank index and a job index, in
  order. The result is the status, the list that the caller passed and the state.
\<close>

fun get_jobs_loop ::
  "nat list \<Rightarrow> nat \<Rightarrow> (nat \<times> nat) list \<Rightarrow> 'h host_wakeups \<Rightarrow> nat option list \<Rightarrow> 'h host \<Rightarrow>
     (dpu_error_t \<times> nat option list \<times> 'h host) outcome" where
  "get_jobs_loop ranks nr_jobs [] waits job_list w = Done (DPU_OK, job_list, w)"
| "get_jobs_loop ranks nr_jobs ((each_rank, each_job) # ps) waits job_list w =
     (case dpu_thread_job_get_job_unlocked (ranks ! each_rank) waits w of
        Done (status, job, waits, w) \<Rightarrow>
          if status \<noteq> DPU_OK
          then Done (status, job_list, dpu_thread_job_unget_jobs ranks each_rank nr_jobs job_list w)
          else get_jobs_loop ranks nr_jobs ps waits (job_list[each_rank * nr_jobs + each_job := job]) w
      | Blocks \<Rightarrow> Blocks
      | Crashes \<Rightarrow> Crashes)"

definition dpu_thread_job_get_jobs ::
  "nat list \<Rightarrow> nat \<Rightarrow> 'h host_wakeups \<Rightarrow> nat option list \<Rightarrow> 'h host \<Rightarrow>
     (dpu_error_t \<times> nat option list \<times> 'h host) outcome" where
  "dpu_thread_job_get_jobs ranks nr_jobs waits job_list w =
     get_jobs_loop ranks nr_jobs (List.product [0..<length ranks] [0..<nr_jobs]) waits job_list w"

definition add_rank_jobs ::
  "nat list \<Rightarrow> nat \<Rightarrow> nat list \<Rightarrow> bool list \<times> 'h host \<Rightarrow> nat \<Rightarrow> bool list \<times> 'h host" where
  "add_rank_jobs ranks nr_jobs jobs_to_add = (\<lambda>(signal_queue, w) each_rank.
     let rank = ranks ! each_rank; R = hranks w ! rank; job_id = each_rank * nr_jobs; queue = queue_idx R;
         (signal_queue, w) =
           (if jobs R = []
            then (signal_queue[queue := True],
                  w\<lparr>queues := (queues w)[queue := queues w ! queue @ [jobs_to_add ! job_id]]\<rparr>)
            else (signal_queue, w))
     in (signal_queue, upd_rank rank (\<lambda>R. R\<lparr>jobs := jobs R @
           map (\<lambda>each_job. jobs_to_add ! (job_id + each_job)) [0..<nr_jobs]\<rparr>) w))"

definition dpu_thread_job_add_jobs :: "nat list \<Rightarrow> nat \<Rightarrow> nat list \<Rightarrow> 'h host \<Rightarrow> 'h host" where
  "dpu_thread_job_add_jobs ranks nr_jobs jobs_to_add w =
     (case foldl (add_rank_jobs ranks nr_jobs jobs_to_add) (replicate NR_QUEUES False, w) [0..<length ranks] of
        (signal_queue, w) \<Rightarrow> broadcast_used signal_queue w)"

section \<open>Running jobs\<close>

fun dpu_thread_job_wait_sync_job ::
  "nat \<Rightarrow> 'h host_wakeups \<Rightarrow> 'h host \<Rightarrow> (dpu_error_t \<times> 'h host) outcome" where
  "dpu_thread_job_wait_sync_job sync [] w = Blocks"
| "dpu_thread_job_wait_sync_job sync (wake # waits) w =
     (if sync_nr_ranks (sync_heap (wake w) sync) \<noteq> 0
      then dpu_thread_job_wait_sync_job sync waits (wake w)
      else Done (sync_status (sync_heap (wake w) sync), wake w))"

definition clear_job_errors :: "nat list \<Rightarrow> 'h host \<Rightarrow> 'h host" where
  "clear_job_errors ranks w = foldl (\<lambda>w rank. upd_rank rank (\<lambda>R. R\<lparr>job_error := DPU_OK\<rparr>) w) w ranks"

definition is_sync_job :: "dpu_thread_job_body \<Rightarrow> bool" where
  "is_sync_job body = (case body of DPU_THREAD_JOB_SYNC _ \<Rightarrow> True | _ \<Rightarrow> False)"

definition dpu_thread_job_do_jobs ::
  "'h job_env \<Rightarrow> 'h wakeups \<Rightarrow> 'h host_wakeups \<Rightarrow> nat list \<Rightarrow> nat \<Rightarrow> nat list \<Rightarrow> bool \<Rightarrow> nat \<Rightarrow> 'h host \<Rightarrow>
     (dpu_error_t \<times> 'h host) outcome" where
  "dpu_thread_job_do_jobs E ws waits ranks nr_job_per_rank js synchronous sync w =
     (if synchronous \<and> length ranks = 1 \<and> callback_tid_set (hranks w ! (ranks ! 0))
         \<and> \<not> is_sync_job (job_body (job_heap w (js ! 0)))
      then (case dpu_thread_compute_job E ws (ranks ! 0) (js ! 0) (upd_low (ranks ! 0) dpu_lock_rank w) of
              Done (status, _, w) \<Rightarrow> Done (status, upd_low (ranks ! 0) dpu_unlock_rank w)
            | Blocks \<Rightarrow> Blocks
            | Crashes \<Rightarrow> Crashes)
      else if synchronous
      then (case dpu_thread_job_wait_sync_job sync waits (dpu_thread_job_add_jobs ranks nr_job_per_rank js w) of
              Done (status, w) \<Rightarrow>
                let status = status AND (push_bit DPU_ERROR_ASYNC_JOB_TYPE_SHIFT 1 - 1)
                in Done (status, if status \<noteq> DPU_OK then clear_job_errors ranks w else w)
            | Blocks \<Rightarrow> Blocks
            | Crashes \<Rightarrow> Crashes)
      else Done (DPU_OK, dpu_thread_job_add_jobs ranks nr_job_per_rank js w))"

definition dpu_thread_job_init_sync_job :: "nat \<Rightarrow> u32 \<Rightarrow> 'h host \<Rightarrow> 'h host" where
  "dpu_thread_job_init_sync_job sync nr_ranks w =
     w\<lparr>sync_heap := (sync_heap w)(sync := \<lparr>sync_nr_ranks = nr_ranks, sync_status = DPU_OK\<rparr>)\<rparr>"

text \<open>
  The macros of \<^verbatim>\<open>dpu_thread_job.h\<close>: a synchronous operation takes two jobs per rank, the second one being a sync
  job, unless it is called for one rank from inside a callback, where a job on the stack (at
  the address \<open>static_job\<close>) is run in place.
\<close>

definition runs_in_place :: "nat list \<Rightarrow> bool \<Rightarrow> 'h host \<Rightarrow> bool" where
  "runs_in_place ranks bool_sync w \<longleftrightarrow>
     bool_sync \<and> length ranks = 1 \<and> callback_tid_set (hranks w ! (ranks ! 0))"

definition DPU_THREAD_JOB_GET_JOBS ::
  "nat list \<Rightarrow> nat \<Rightarrow> nat \<Rightarrow> bool \<Rightarrow> 'h host_wakeups \<Rightarrow> 'h host \<Rightarrow>
     (dpu_error_t \<times> nat option list \<times> nat \<times> 'h host) outcome" where
  "DPU_THREAD_JOB_GET_JOBS ranks static_job sync bool_sync waits w =
     (let two = bool_sync \<and> \<not> runs_in_place ranks bool_sync w;
          w = (if two then dpu_thread_job_init_sync_job sync (word_of_nat (length ranks)) w else w);
          nr_jobs_per_rank = (if two then 2 else 1)
      in if runs_in_place ranks bool_sync w then Done (DPU_OK, [Some static_job], nr_jobs_per_rank, w)
         else case dpu_thread_job_get_jobs ranks nr_jobs_per_rank waits
                     (replicate (length ranks * nr_jobs_per_rank) None) w of
                Done (status, js, w) \<Rightarrow> Done (status, js, nr_jobs_per_rank, w)
              | Blocks \<Rightarrow> Blocks
              | Crashes \<Rightarrow> Crashes)"

definition set_job :: "nat \<Rightarrow> dpu_thread_job_body \<Rightarrow> 'h host \<Rightarrow> 'h host" where
  "set_job job body w = w\<lparr>job_heap := (job_heap w)(job := (job_heap w job)\<lparr>job_body := body\<rparr>)\<rparr>"

definition DPU_THREAD_JOB_SET_JOBS ::
  "nat list \<Rightarrow> nat list \<Rightarrow> nat \<Rightarrow> bool \<Rightarrow> (nat \<Rightarrow> dpu_thread_job_body) \<Rightarrow> 'h host \<Rightarrow> 'h host" where
  "DPU_THREAD_JOB_SET_JOBS ranks js sync bool_sync body w =
     (if bool_sync \<and> \<not> runs_in_place ranks bool_sync w
      then foldl (\<lambda>w each_rank. set_job (js ! (2 * each_rank + 1)) (DPU_THREAD_JOB_SYNC sync)
             (set_job (js ! (2 * each_rank)) (body each_rank) w)) w [0..<length ranks]
      else foldl (\<lambda>w each_rank. set_job (js ! each_rank) (body each_rank) w) w [0..<length ranks])"

section \<open>Creation and destruction\<close>

text \<open>
  For every rank, the address of its table of jobs (\<open>None\<close> when the allocation fails) and which of its
  threads can be created are given by the environment.
\<close>

definition numa_queue :: "int \<Rightarrow> nat" where
  "numa_queue node = (if node = - 1 then 0 else nat (node mod 2 ^ 32))"

definition init_rank_jobs :: "nat \<Rightarrow> nat \<Rightarrow> 'h host \<Rightarrow> 'h host" where
  "init_rank_jobs rank table w =
     (let ids = map (\<lambda>i. table + i) [0..<unat (api_nr_jobs (hranks w ! rank))]
      in upd_rank rank (\<lambda>R. R\<lparr>jobs := [], job_error := DPU_OK, available_jobs := rev ids,
             available_jobs_length := api_nr_jobs R, api_matrix := dpu_transfer_matrix_clear_all,
             callback_matrix := dpu_transfer_matrix_clear_all, callback_tid_set := False, should_stop := False,
             queue_idx := numa_queue (numa_node R)\<rparr>)
           (w\<lparr>job_heap := foldl (\<lambda>h i. h(i := (h i)\<lparr>job_rank := rank\<rparr>)) (job_heap w) ids\<rparr>))"

fun create_ranks ::
  "nat list \<Rightarrow> (nat option \<times> bool list) list \<Rightarrow> nat list \<Rightarrow> 'h host \<Rightarrow> dpu_error_t \<times> nat list \<times> 'h host" where
  "create_ranks (rank # ranks) ((table, thread_ok) # outcomes) done_ranks w =
     (case table of
        None \<Rightarrow> (DPU_ERR_SYSTEM, done_ranks, w)
      | Some table \<Rightarrow>
          let w = init_rank_jobs rank table w
          in if queue_idx (hranks w ! rank) \<ge> NR_QUEUES then (DPU_ERR_SYSTEM, done_ranks, w)
             else if \<not> list_all id (take (unat (api_nr_threads (hranks w ! rank))) thread_ok)
             then (DPU_ERR_SYSTEM, done_ranks @ [rank], w)
             else create_ranks ranks outcomes (done_ranks @ [rank]) w)"
| "create_ranks _ _ done_ranks w = (DPU_OK, done_ranks, w)"

definition stop_created :: "nat list \<Rightarrow> 'h host \<Rightarrow> 'h host" where
  "stop_created done_ranks w = foldl (\<lambda>w rank.
     upd_rank rank (\<lambda>R. R\<lparr>api_nr_threads := 0\<rparr>)
       (emit (QueueBroadcast (queue_idx (hranks w ! rank)))
         (upd_rank rank (\<lambda>R. R\<lparr>should_stop := True\<rparr>) w))) w done_ranks"

definition dpu_thread_job_create ::
  "nat list \<Rightarrow> (nat option \<times> bool list) list \<Rightarrow> 'h host op" where
  "dpu_thread_job_create ranks outcomes w =
     (case create_ranks ranks outcomes [] w of (status, done_ranks, w) \<Rightarrow>
        (status, if status \<noteq> DPU_OK then stop_created done_ranks w else w))"

definition dpu_thread_job_free :: "nat list \<Rightarrow> 'h host \<Rightarrow> 'h host" where
  "dpu_thread_job_free ranks w = broadcast_used (replicate NR_QUEUES True)
     (foldl (\<lambda>w rank. upd_rank rank (\<lambda>R. R\<lparr>should_stop := True\<rparr>) w) w ranks)"

section \<open>What the list operations change\<close>

lemma upd_rank_sel [simp]:
  "length (hranks (upd_rank r f w)) = length (hranks w)"
  "queues (upd_rank r f w) = queues w" "job_heap (upd_rank r f w) = job_heap w"
  "sync_heap (upd_rank r f w) = sync_heap w" "pollers (upd_rank r f w) = pollers w"
  "signals (upd_rank r f w) = signals w" "fault_log_of (upd_rank r f w) = fault_log_of w"
  by (simp_all add: upd_rank_def)

lemma nth_upd_rank:
  "s < length (hranks w) \<Longrightarrow> hranks (upd_rank r f w) ! s = (if s = r then f (hranks w ! s) else hranks w ! s)"
  by (simp add: upd_rank_def nth_list_update)

lemma nth_upd_rank_same [simp]:
  "r < length (hranks w) \<Longrightarrow> hranks (upd_rank r f w) ! r = f (hranks w ! r)"
  by (simp add: nth_upd_rank)

lemma nth_upd_rank_other [simp]: "s \<noteq> r \<Longrightarrow> hranks (upd_rank r f w) ! s = hranks w ! s"
  by (simp add: upd_rank_def)

lemma emit_sel [simp]:
  "hranks (emit x w) = hranks w" "queues (emit x w) = queues w" "job_heap (emit x w) = job_heap w"
  "sync_heap (emit x w) = sync_heap w" "pollers (emit x w) = pollers w" "fault_log_of (emit x w) = fault_log_of w"
  by (simp_all add: emit_def)

lemma release_sel [simp]:
  "length (hranks (dpu_thread_release_job_slot_unlocked r j w)) = length (hranks w)"
  "queues (dpu_thread_release_job_slot_unlocked r j w) = queues w"
  "job_heap (dpu_thread_release_job_slot_unlocked r j w) = job_heap w"
  "sync_heap (dpu_thread_release_job_slot_unlocked r j w) = sync_heap w"
  by (simp_all add: dpu_thread_release_job_slot_unlocked_def Let_def)

lemma release_rank:
  assumes "s < length (hranks w)"
  shows "hranks (dpu_thread_release_job_slot_unlocked r j w) ! s =
    (if s = r then (hranks w ! s)\<lparr>available_jobs := available_jobs (hranks w ! s) @ [j],
                available_jobs_length := available_jobs_length (hranks w ! s) + 1\<rparr>
     else hranks w ! s)"
  using assms by (simp add: dpu_thread_release_job_slot_unlocked_def Let_def nth_upd_rank)

lemma advance_spec:
  assumes "r < length (hranks w)" "jobs (hranks w ! r) = j # js"
  obtains w' where "dpu_thread_advance_to_next_job r w = Done (case js of [] \<Rightarrow> None | k # _ \<Rightarrow> Some k, w')"
    "length (hranks w') = length (hranks w)" "queues w' = queues w" "job_heap w' = job_heap w"
    "sync_heap w' = sync_heap w"
    "hranks w' ! r = (hranks w ! r)\<lparr>jobs := js, available_jobs := available_jobs (hranks w ! r) @ [j],
       available_jobs_length := available_jobs_length (hranks w ! r) + 1\<rparr>"
    "\<forall>s < length (hranks w). s \<noteq> r \<longrightarrow> hranks w' ! s = hranks w ! s"
proof -
  define w' where "w' = dpu_thread_release_job_slot_unlocked r j (upd_rank r (\<lambda>R. R\<lparr>jobs := js\<rparr>) w)"
  have "dpu_thread_advance_to_next_job r w = Done (case js of [] \<Rightarrow> None | k # _ \<Rightarrow> Some k, w')"
    using assms by (simp add: dpu_thread_advance_to_next_job_def dpu_thread_job_pop_unlocked_def Let_def
        w'_def release_rank dpu_thread_job_peek_unlocked_def)
  then show thesis
    by (rule that [of w']) (use assms in \<open>simp_all add: w'_def release_rank\<close>)
qed

lemma advance_empty_crashes:
  "jobs (hranks w ! r) = [] \<Longrightarrow> dpu_thread_advance_to_next_job r w = Crashes"
  by (simp add: dpu_thread_advance_to_next_job_def dpu_thread_job_pop_unlocked_def)

lemma broadcast_used_sel:
  "hranks (broadcast_used u w) = hranks w" "queues (broadcast_used u w) = queues w"
  "job_heap (broadcast_used u w) = job_heap w" "sync_heap (broadcast_used u w) = sync_heap w"
  unfolding broadcast_used_def by (intro foldl_invariant, simp)+

section \<open>The error path: no slot and no waiter is lost\<close>

text \<open>How many jobs of a list notify a given sync object.\<close>

definition sync_count :: "(nat \<Rightarrow> dpu_thread_job) \<Rightarrow> nat \<Rightarrow> nat list \<Rightarrow> nat" where
  "sync_count heap sync js = length (filter (\<lambda>j. job_body (heap j) = DPU_THREAD_JOB_SYNC sync) js)"

lemma do_sync_job_sel [simp]:
  "hranks (do_sync_job s w) = hranks w" "queues (do_sync_job s w) = queues w"
  "job_heap (do_sync_job s w) = job_heap w"
  "sync_heap (do_sync_job s w) = (sync_heap w)(s := (sync_heap w s)\<lparr>sync_nr_ranks := sync_nr_ranks (sync_heap w s) - 1\<rparr>)"
  by (simp_all add: do_sync_job_def Let_def)

lemma notify_sync_sel [simp]:
  "hranks (notify_sync st s w) = hranks w" "queues (notify_sync st s w) = queues w"
  "job_heap (notify_sync st s w) = job_heap w"
  "sync_heap (notify_sync st s w) = (sync_heap w)(s := \<lparr>sync_nr_ranks = sync_nr_ranks (sync_heap w s) - 1,
     sync_status = if sync_status (sync_heap w s) = DPU_OK then st else sync_status (sync_heap w s)\<rparr>)"
  by (simp_all add: notify_sync_def Let_def) (cases "sync_heap w s", auto)

lemma drain_jobs_spec:
  assumes "r < length (hranks w)" "jobs (hranks w ! r) = js" "st \<noteq> DPU_OK"
  shows "length (hranks (drain_jobs r st js w)) = length (hranks w)
    \<and> queues (drain_jobs r st js w) = queues w \<and> job_heap (drain_jobs r st js w) = job_heap w
    \<and> hranks (drain_jobs r st js w) ! r = (hranks w ! r)\<lparr>jobs := [],
        available_jobs := available_jobs (hranks w ! r) @ js,
        available_jobs_length := available_jobs_length (hranks w ! r) + word_of_nat (length js)\<rparr>
    \<and> (\<forall>s < length (hranks w). s \<noteq> r \<longrightarrow> hranks (drain_jobs r st js w) ! s = hranks w ! s)
    \<and> (\<forall>x. sync_nr_ranks (sync_heap (drain_jobs r st js w) x) =
            sync_nr_ranks (sync_heap w x) - word_of_nat (sync_count (job_heap w) x js)
          \<and> sync_status (sync_heap (drain_jobs r st js w) x) =
            (if sync_status (sync_heap w x) = DPU_OK \<and> sync_count (job_heap w) x js > 0 then st
             else sync_status (sync_heap w x)))"
  using assms
proof (induction js arbitrary: w)
  case Nil
  have "hranks w ! r = (hranks w ! r)\<lparr>jobs := [], available_jobs := available_jobs (hranks w ! r) @ [],
      available_jobs_length := available_jobs_length (hranks w ! r) + word_of_nat (length ([] :: nat list))\<rparr>"
    using Nil by simp
  then show ?case
    by (simp add: sync_count_def)
next
  case (Cons j js)
  define w1 where "w1 = upd_rank r (\<lambda>R. R\<lparr>jobs := js\<rparr>) w"
  define w2 where "w2 = (case job_body (job_heap w j) of DPU_THREAD_JOB_SYNC s \<Rightarrow> notify_sync st s w1 | _ \<Rightarrow> w1)"
  define w3 where "w3 = dpu_thread_release_job_slot_unlocked r j w2"
  have eq: "drain_jobs r st (j # js) w = drain_jobs r st js w3"
    by (simp add: w2_def w3_def Let_def w1_def [symmetric]) (simp add: w1_def)
  have w2: "hranks w2 = hranks w1" "queues w2 = queues w" "job_heap w2 = job_heap w"
    by (auto simp: w2_def w1_def split: dpu_thread_job_body.split)
  have w2s: "sync_heap w2 = (case job_body (job_heap w j) of
        DPU_THREAD_JOB_SYNC s \<Rightarrow> (sync_heap w)(s := \<lparr>sync_nr_ranks = sync_nr_ranks (sync_heap w s) - 1,
          sync_status = if sync_status (sync_heap w s) = DPU_OK then st else sync_status (sync_heap w s)\<rparr>)
      | _ \<Rightarrow> sync_heap w)"
    by (simp add: w2_def w1_def split: dpu_thread_job_body.split)
  have w3: "length (hranks w3) = length (hranks w)" "queues w3 = queues w" "job_heap w3 = job_heap w"
      "sync_heap w3 = sync_heap w2"
      "hranks w3 ! r = (hranks w ! r)\<lparr>jobs := js, available_jobs := available_jobs (hranks w ! r) @ [j],
         available_jobs_length := available_jobs_length (hranks w ! r) + 1\<rparr>"
      "\<forall>s < length (hranks w). s \<noteq> r \<longrightarrow> hranks w3 ! s = hranks w ! s"
    using Cons.prems(1) by (simp_all add: w3_def w2 w1_def release_rank)
  have "r < length (hranks w3)" "jobs (hranks w3 ! r) = js"
    using Cons.prems(1) by (simp_all add: w3)
  note IH = Cons.IH [OF this Cons.prems(3)]
  have "sync_count (job_heap w) x (j # js) =
      (if job_body (job_heap w j) = DPU_THREAD_JOB_SYNC x then 1 else 0) + sync_count (job_heap w) x js" for x
    by (simp add: sync_count_def)
  then show ?case
    using IH Cons.prems unfolding eq
    by (auto simp: w3 w2s split: dpu_thread_job_body.splits)
qed

lemma code_bits: "bit (job_type_code body) n \<Longrightarrow> n < 4"
proof -
  assume b: "bit (job_type_code body) n"
  have "take_bit 4 (job_type_code body) = job_type_code body"
    by (cases body) simp_all
  with b show ?thesis
    by (metis bit_take_bit_iff)
qed

lemma async_status_bits:
  "bit (async_status st body) n \<longleftrightarrow>
     n = 31 \<or> (16 \<le> n \<and> n < 20 \<and> bit (job_type_code body) (n - 16)) \<or> (n < 16 \<and> bit st n)"
proof -
  have e: "(0x80000000 :: u32) = 2 ^ 31" and m: "push_bit 16 1 - 1 = (mask 16 :: u32)"
    by (simp_all add: mask_eq_exp_minus_1)
  have b31: "bit (0x80000000 :: u32) n \<longleftrightarrow> n = 31"
    unfolding e bit_exp_iff by auto
  show ?thesis
    unfolding async_status_def bit_or_iff bit_and_iff b31 m
    using code_bits [of body "n - 16"] bit_imp_le_length [of st n] by (auto simp: bit_simps)
qed

lemma async_status_nonzero: "async_status st body \<noteq> DPU_OK"
  using async_status_bits [of st body 31] by auto

lemma async_status_low: "async_status st body AND (push_bit 16 1 - 1) = st AND (push_bit 16 1 - 1)"
proof -
  have m: "push_bit 16 1 - 1 = (mask 16 :: u32)"
    by (simp add: mask_eq_exp_minus_1)
  show ?thesis
    unfolding m by (rule bit_eqI) (auto simp: bit_simps async_status_bits)
qed

lemma async_status_type: "drop_bit 16 (async_status st body) AND 0x7FFF = job_type_code body"
proof -
  have m: "(0x7FFF :: u32) = mask 15"
    by (simp add: mask_eq_exp_minus_1)
  show ?thesis
    unfolding m by (rule bit_eqI) (auto simp: bit_simps async_status_bits dest: code_bits)
qed

section \<open>Waking every rank after a blocking callback\<close>

lemma global_block_step:
  assumes "r < length (hranks w)" "jobs (hranks w ! r) = j # k # js" "r \<noteq> rank"
  obtains w' where "global_block_loop rank (r # ranks) used w =
      global_block_loop rank ranks (used[queue_idx (hranks w ! r) := True]) w'"
    "length (hranks w') = length (hranks w)" "jobs (hranks w' ! r) = k # js"
    "\<And>s. s < length (hranks w) \<Longrightarrow> s \<noteq> r \<Longrightarrow> hranks w' ! s = hranks w ! s"
    "queues w' = (queues w)[queue_idx (hranks w ! r) := queues w ! queue_idx (hranks w ! r) @ [k]]"
proof -
  let ?q = "queue_idx (hranks w ! r)"
  obtain w1 where w1: "dpu_thread_advance_to_next_job r w = Done (case k # js of [] \<Rightarrow> None | k # _ \<Rightarrow> Some k, w1)"
    "length (hranks w1) = length (hranks w)" "queues w1 = queues w" "job_heap w1 = job_heap w"
    "sync_heap w1 = sync_heap w"
    "hranks w1 ! r = (hranks w ! r)\<lparr>jobs := k # js, available_jobs := available_jobs (hranks w ! r) @ [j],
       available_jobs_length := available_jobs_length (hranks w ! r) + 1\<rparr>"
    "\<forall>s < length (hranks w). s \<noteq> r \<longrightarrow> hranks w1 ! s = hranks w ! s"
    using advance_spec [OF assms(1,2)] by blast
  show thesis
    by (rule that [of "w1\<lparr>queues := (queues w)[?q := queues w ! ?q @ [k]]\<rparr>"])
      (use assms(3) w1 in \<open>simp_all add: Let_def\<close>)
qed

lemma global_block_frame:
  assumes "global_block_loop rank ranks used w = Done (used', w')" "set ranks \<subseteq> {..<length (hranks w)}"
  shows "length (hranks w') = length (hranks w)
    \<and> (\<forall>s < length (hranks w). s \<notin> set ranks \<longrightarrow> hranks w' ! s = hranks w ! s)"
  using assms
proof (induction ranks arbitrary: used w)
  case (Cons r ranks)
  show ?case
  proof (cases "r = rank")
    case True
    with Cons show ?thesis by auto
  next
    case False
    have r: "r < length (hranks w)"
      using Cons.prems(2) by simp
    obtain j k js where js: "jobs (hranks w ! r) = j # k # js"
    proof (cases "jobs (hranks w ! r)" rule: list.exhaust [case_names Nil Cons])
      case Nil
      then show ?thesis
        using Cons.prems(1) False by (simp add: advance_empty_crashes Let_def)
    next
      case inner: (Cons j js)
      then show ?thesis
        using that Cons.prems(1) False advance_spec [OF r inner] by (cases js) (fastforce simp: Let_def)+
    qed
    obtain w1 where w1: "global_block_loop rank (r # ranks) used w =
        global_block_loop rank ranks (used[queue_idx (hranks w ! r) := True]) w1"
      "length (hranks w1) = length (hranks w)"
      "\<And>s. s < length (hranks w) \<Longrightarrow> s \<noteq> r \<Longrightarrow> hranks w1 ! s = hranks w ! s"
      using global_block_step [OF r js False] by metis
    with Cons.IH [of "used[queue_idx (hranks w ! r) := True]" w1] Cons.prems show ?thesis
      by auto
  qed
qed simp

lemma global_block_outcome:
  assumes "distinct ranks" "set ranks \<subseteq> {..<length (hranks w)}"
    and "\<forall>r \<in> set ranks - {rank}. jobs (hranks w ! r) \<noteq> []"
  shows "(\<exists>used' w'. global_block_loop rank ranks used w = Done (used', w')
           \<and> (\<forall>r \<in> set ranks - {rank}. jobs (hranks w' ! r) = tl (jobs (hranks w ! r))))
           \<and> (\<forall>r \<in> set ranks - {rank}. length (jobs (hranks w ! r)) \<noteq> 1)
       \<or> global_block_loop rank ranks used w = Crashes
           \<and> (\<exists>r \<in> set ranks - {rank}. length (jobs (hranks w ! r)) = 1)"
  using assms
proof (induction ranks arbitrary: used w)
  case Nil
  then show ?case by simp
next
  case (Cons r ranks)
  show ?case
  proof (cases "r = rank")
    case True
    with Cons.IH [of w used] Cons.prems show ?thesis by auto
  next
    case False
    have r: "r < length (hranks w)" "r \<notin> set ranks" "jobs (hranks w ! r) \<noteq> []"
      using Cons.prems False by auto
    then obtain j js where js: "jobs (hranks w ! r) = j # js"
      by (cases "jobs (hranks w ! r)") auto
    show ?thesis
    proof (cases js)
      case Nil
      then have "global_block_loop rank (r # ranks) used w = Crashes"
        using advance_spec [OF r(1) js] False by (fastforce simp: Let_def)
      moreover have "\<exists>s \<in> set (r # ranks) - {rank}. length (jobs (hranks w ! s)) = 1"
        using Nil js False by (intro bexI [of _ r]) auto
      ultimately show ?thesis by blast
    next
      case inner: (Cons k js')
      let ?used = "used[queue_idx (hranks w ! r) := True]"
      obtain w1 where w1: "global_block_loop rank (r # ranks) used w = global_block_loop rank ranks ?used w1"
        "length (hranks w1) = length (hranks w)" "jobs (hranks w1 ! r) = k # js'"
        "\<And>s. s < length (hranks w) \<Longrightarrow> s \<noteq> r \<Longrightarrow> hranks w1 ! s = hranks w ! s"
        using global_block_step [OF r(1) _ False] js inner by metis
      have same: "hranks w1 ! s = hranks w ! s" if "s \<in> set ranks" for s
        using that w1(4) [of s] Cons.prems(2) r(2) by auto
      have keep: "jobs (hranks w2 ! r) = tl (jobs (hranks w ! r))"
        if "global_block_loop rank ranks ?used w1 = Done (u', w2)" for u' w2
        using global_block_frame [OF that] w1(2,3) r(1,2) Cons.prems(2) js inner by auto
      have "distinct ranks" "set ranks \<subseteq> {..<length (hranks w1)}"
        "\<forall>s \<in> set ranks - {rank}. jobs (hranks w1 ! s) \<noteq> []"
        using Cons.prems w1(2) same by auto
      from Cons.IH [OF this, of ?used] consider
        (ok) u' w2 where "global_block_loop rank ranks ?used w1 = Done (u', w2)"
          "\<forall>s \<in> set ranks - {rank}. jobs (hranks w2 ! s) = tl (jobs (hranks w1 ! s))"
          "\<forall>s \<in> set ranks - {rank}. length (jobs (hranks w1 ! s)) \<noteq> 1"
      | (crash) s where "global_block_loop rank ranks ?used w1 = Crashes" "s \<in> set ranks - {rank}"
          "length (jobs (hranks w1 ! s)) = 1"
        by blast
      then show ?thesis
      proof cases
        case ok
        have "\<forall>s \<in> set (r # ranks) - {rank}. jobs (hranks w2 ! s) = tl (jobs (hranks w ! s))"
          using ok(2) same keep [OF ok(1)] by auto
        moreover have "\<forall>s \<in> set (r # ranks) - {rank}. length (jobs (hranks w ! s)) \<noteq> 1"
          using ok(3) same js inner by auto
        ultimately show ?thesis
          unfolding w1(1) using ok(1) by blast
      next
        case crash
        then show ?thesis
          unfolding w1(1) using same by auto
      qed
    qed
  qed
qed

section \<open>Properties\<close>

text \<open>A state to run examples on: two ranks, served by queue 0 and queue 1.\<close>

definition sim_hrank :: "nat \<Rightarrow> nat list \<Rightarrow> nat list \<Rightarrow> sim host_rank" where
  "sim_hrank queue free fifo = \<lparr>low = sim_rank, type_is_hw = False, numa_node = int queue, queue_idx = queue,
     should_stop = False, api_nr_threads = 1, api_matrix = dpu_transfer_matrix_clear_all,
     callback_tid_set = False, callback_matrix = dpu_transfer_matrix_clear_all, api_nr_jobs = 4,
     available_jobs = free, jobs = fifo, available_jobs_length = word_of_nat (length free), job_error = DPU_OK,
     api_abort = False\<rparr>"

definition sim_host :: "nat list \<Rightarrow> nat list \<Rightarrow> nat list list \<Rightarrow> sim host" where
  "sim_host fifo0 fifo1 qs = \<lparr>hranks = [sim_hrank 0 [10, 11] fifo0, sim_hrank 1 [20, 21] fifo1], queues = qs,
     job_heap = (\<lambda>j. \<lparr>job_body = (if j mod 10 = 9 then DPU_THREAD_JOB_SYNC 0 else DPU_THREAD_JOB_LAUNCH_RANK),
       job_rank = (if j < 20 then 0 else 1)\<rparr>),
     sync_heap = (\<lambda>x. \<lparr>sync_nr_ranks = 2, sync_status = DPU_OK\<rparr>),
     pollers = replicate 4 POLLING_THREAD_INITIALIZER, fault_log_of = \<lparr>nb_dpu_in_fault = 0, fault_lines = []\<rparr>,
     signals = []\<rparr>"

lemma sim_host_sel [simp]:
  "hranks (sim_host a b q) = [sim_hrank 0 [10, 11] a, sim_hrank 1 [20, 21] b]" "queues (sim_host a b q) = q"
  "sync_heap (sim_host a b q) = (\<lambda>x. \<lparr>sync_nr_ranks = 2, sync_status = DPU_OK\<rparr>)"
  "jobs (sim_hrank n f a) = a" "available_jobs (sim_hrank n f a) = f" "job_error (sim_hrank n f a) = DPU_OK"
  "callback_tid_set (sim_hrank n f a) = False" "queue_idx (sim_hrank n f a) = n" "low (sim_hrank n f a) = sim_rank"
  by (simp_all add: sim_host_def sim_hrank_def)

text \<open>
  C10: when a job of a rank fails, the whole FIFO of the rank is given up without losing a slot or a
  waiter. Every job of the FIFO goes back to the free list, in order, and the free count grows by as many; the
  rank's job error holds the encoded error; every sync object is counted down once per sync job that was in the
  FIFO, and one that had no error yet and had such a job gets the encoded error. The other ranks are untouched.
\<close>

theorem update_status_drains_the_fifo:
  assumes "r < length (hranks w)" "jobs (hranks w ! r) = js" "w' = dpu_thread_update_status st r job w"
    and "err = async_status st (job_body (job_heap w job))"
  shows "jobs (hranks w' ! r) = [] \<and> available_jobs (hranks w' ! r) = available_jobs (hranks w ! r) @ js
    \<and> available_jobs_length (hranks w' ! r) = available_jobs_length (hranks w ! r) + word_of_nat (length js)
    \<and> job_error (hranks w' ! r) = err
    \<and> (\<forall>s < length (hranks w). s \<noteq> r \<longrightarrow> hranks w' ! s = hranks w ! s) \<and> queues w' = queues w
    \<and> (\<forall>x. sync_nr_ranks (sync_heap w' x) =
            sync_nr_ranks (sync_heap w x) - word_of_nat (sync_count (job_heap w) x js)
          \<and> sync_status (sync_heap w' x) =
            (if sync_status (sync_heap w x) = DPU_OK \<and> sync_count (job_heap w) x js > 0 then err
             else sync_status (sync_heap w x)))"
proof -
  define w1 where "w1 = upd_rank r (\<lambda>R. R\<lparr>job_error := err\<rparr>) w"
  have w1: "r < length (hranks w1)" "jobs (hranks w1 ! r) = js" "err \<noteq> DPU_OK"
    using assms async_status_nonzero by (simp_all add: w1_def)
  have "w' = drain_jobs r err js w1"
    using assms w1(2) by (simp add: dpu_thread_update_status_def Let_def w1_def)
  with drain_jobs_spec [OF w1] assms(1) show ?thesis
    by (simp add: w1_def)
qed

theorem update_status_drains_the_fifo_witness:
  "available_jobs (hranks (dpu_thread_update_status DPU_ERR_DPU_FAULT 0 12
      (sim_host [12, 19] [] [[], [], [], []])) ! 0) = [10, 11, 12, 19]"
  using update_status_drains_the_fifo [of 0 "sim_host [12, 19] [] [[], [], [], []]" "[12, 19]", OF _ _ refl refl]
  by simp

text \<open>
  the error of an asynchronous job can be decoded: the low sixteen bits of the stored status are
  those of the error, the bits above are the type of the job that failed, and the result never is
  \<^verbatim>\<open>DPU_OK\<close>, so that a failed rank is always seen as failed.
\<close>

lemma async_status_decodes:
  "async_status st body AND (push_bit DPU_ERROR_ASYNC_JOB_TYPE_SHIFT 1 - 1) =
     st AND (push_bit DPU_ERROR_ASYNC_JOB_TYPE_SHIFT 1 - 1)
   \<and> drop_bit DPU_ERROR_ASYNC_JOB_TYPE_SHIFT (async_status st body) AND 0x7FFF = job_type_code body
   \<and> async_status st body \<noteq> DPU_OK"
  unfolding async_status_low async_status_type using async_status_nonzero by simp

text \<open>
  C11: waking the ranks after a blocking single-call callback dereferences a null pointer exactly when the
  FIFO of one of the other ranks holds nothing behind the callback job; otherwise the callback job of every
  other rank is removed from its FIFO.
\<close>

theorem global_block_crashes_iff:
  assumes "distinct ranks" "set ranks \<subseteq> {..<length (hranks w)}"
    and "\<forall>r \<in> set ranks - {rank}. jobs (hranks w ! r) \<noteq> []"
  shows "(dpu_thread_handle_global_block rank ranks w = Crashes \<longleftrightarrow>
           (\<exists>r \<in> set ranks - {rank}. length (jobs (hranks w ! r)) = 1))
    \<and> (dpu_thread_handle_global_block rank ranks w \<noteq> Crashes \<longrightarrow>
        (\<exists>w'. dpu_thread_handle_global_block rank ranks w = Done w'
          \<and> (\<forall>r \<in> set ranks - {rank}. jobs (hranks w' ! r) = tl (jobs (hranks w ! r)))))"
proof -
  show ?thesis
    using global_block_outcome [OF assms, of "replicate NR_QUEUES False"]
    by (auto simp: dpu_thread_handle_global_block_def broadcast_used_sel)
qed

theorem global_block_crashes_iff_witness:
  "dpu_thread_handle_global_block 0 [0, 1] (sim_host [12, 13] [22] [[], [], [], []]) = Crashes"
  using global_block_crashes_iff [of "[0, 1]" "sim_host [12, 13] [22] [[], [], [], []]" 0] by simp

text \<open>
  C12: a failure while slots are collected loses slots. When the first slot of a rank has been taken and the
  rank fails while the caller waits for the second one, the state that \<open>dpu_thread_job_get_jobs\<close> leaves is the one it was
  woken in: the slot that it already holds is not given back.
\<close>

theorem get_jobs_loses_a_slot:
  assumes "r < length (hranks w)" "job_error (hranks w ! r) = DPU_OK" "available_jobs (hranks w ! r) = [j]"
    and "w1 = upd_rank r (\<lambda>R. R\<lparr>available_jobs := [], available_jobs_length := available_jobs_length R - 1\<rparr>) w"
    and "job_error (hranks (wake w1) ! r) = e" "e \<noteq> DPU_OK"
  shows "dpu_thread_job_get_jobs [r] 2 [wake] [None, None] w = Done (e, [Some j, None], wake w1)"
proof -
  have pairs: "List.product [0..<length [r]] [0..<2] = [(0, 0), (0, 1)]"
    by (simp add: upt_rec)
  have "dpu_thread_job_get_job_unlocked r [wake] w = Done (DPU_OK, Some j, [wake], w1)"
    using assms by (simp add: dpu_thread_job_get_job_unlocked.simps)
  moreover have "dpu_thread_job_get_job_unlocked r [wake] w1 = Done (e, None, [], wake w1)"
    using assms(1,2,5,6) by (subst dpu_thread_job_get_job_unlocked.simps)
      (simp add: assms(4), simp add: dpu_thread_job_get_job_unlocked.simps)
  ultimately show ?thesis
    unfolding dpu_thread_job_get_jobs_def pairs using assms(6)
    by (simp add: dpu_thread_job_unget_jobs_def)
qed

theorem get_jobs_loses_a_slot_witness:
  "dpu_thread_job_get_jobs [1] 2 [upd_rank 1 (\<lambda>R. R\<lparr>job_error := DPU_ERR_DPU_FAULT\<rparr>)] [None, None]
     (upd_rank 1 (\<lambda>R. R\<lparr>available_jobs := [20], available_jobs_length := 1\<rparr>) (sim_host [] [22] [[], [22], [], []])) =
   Done (DPU_ERR_DPU_FAULT, [Some 20, None],
     upd_rank 1 (\<lambda>R. R\<lparr>job_error := DPU_ERR_DPU_FAULT\<rparr>)
      (upd_rank 1 (\<lambda>R. R\<lparr>available_jobs := [], available_jobs_length := available_jobs_length R - 1\<rparr>)
       (upd_rank 1 (\<lambda>R. R\<lparr>available_jobs := [20], available_jobs_length := 1\<rparr>) (sim_host [] [22] [[], [22], [], []]))))"
  by (rule get_jobs_loses_a_slot [OF _ _ _ refl]) simp_all

text \<open>
  the transfer matrix of a broadcast to MRAM is a local variable whose type is never set: the matrix
  that reaches the MRAM copy has the offset, the size and the buffers of the job, and as its type
  whatever the stack held.
\<close>

lemma mram_broadcast_type_is_unset:
  assumes "job_body (job_heap w job) = DPU_THREAD_JOB_COPY_MRAM_TO_RANK address buffer len"
  shows "\<exists>m. dpu_thread_compute_job E ws rank job w =
        keep_jobs (low_op rank (dpu_copy_to_mrams (backend E) (mram_to_program E) m) w)
      \<and> tm_offset m = address \<and> tm_size m = len \<and> tm_type m = tm_type (stack_matrix E)"
proof -
  let ?m = "(dpu_transfer_matrix_set_all (low (hranks w ! rank)) (stack_matrix E) (Some buffer))
    \<lparr>tm_offset := address, tm_size := len\<rparr>"
  show ?thesis
    by (intro exI [of _ ?m]) (simp add: assms dpu_thread_compute_job_def Let_def set_all_type)
qed

definition sim_env :: "sim job_env" where
  "sim_env = \<lparr>backend = sim_handler, mram_to_program = \<lambda>m r. (DPU_OK, r), mram_from_program = \<lambda>m r. (DPU_OK, r),
     load_rank = \<lambda>i r. (DPU_OK, r), user_function = \<lambda>f s i a w. (DPU_OK, w),
     stack_matrix = \<lparr>ptr = replicate 64 None, tm_offset = 0, tm_size = 0, tm_type = DPU_SG_XFER_MATRIX\<rparr>\<rparr>"

lemma mram_broadcast_type_is_unset_witness:
  "\<exists>m. dpu_thread_compute_job sim_env [] 0 12
         ((sim_host [12] [] [[], [], [], []])\<lparr>job_heap := \<lambda>j. \<lparr>job_body = DPU_THREAD_JOB_COPY_MRAM_TO_RANK 8 64 16, job_rank = 0\<rparr>\<rparr>) =
       keep_jobs (low_op 0 (dpu_copy_to_mrams sim_handler (\<lambda>m r. (DPU_OK, r)) m)
         ((sim_host [12] [] [[], [], [], []])\<lparr>job_heap := \<lambda>j. \<lparr>job_body = DPU_THREAD_JOB_COPY_MRAM_TO_RANK 8 64 16, job_rank = 0\<rparr>\<rparr>))
     \<and> tm_type m = DPU_SG_XFER_MATRIX"
  using mram_broadcast_type_is_unset [of "(sim_host [12] [] [[], [], [], []])\<lparr>job_heap := \<lambda>j.
      \<lparr>job_body = DPU_THREAD_JOB_COPY_MRAM_TO_RANK 8 64 16, job_rank = 0\<rparr>\<rparr>" 12 8 64 16 sim_env "[]" 0]
  by (auto simp: sim_env_def)

end
