(* ===== verification/Workers.thy ===== *)
theory Workers
  imports Jobs "HOL-Library.Multiset"
begin

text \<open>
  The worker threads of \<^verbatim>\<open>api/src/api/dpu_thread_job.c\<close> (\<^verbatim>\<open>dpu_thread_job_fct\<close>) as a step relation over the
  shared state of theory Jobs, with any number of workers and of threads that add jobs. The
  invariant: every rank with pending jobs has exactly one token, which is its entry in a queue or a busy
  worker, and the token points at the head of the rank's FIFO. So a rank is never served by two workers
  at a time and its jobs are computed in the order in which they were added.
\<close>

section \<open>The worker threads\<close>

text \<open>
  A worker serves one queue. It is waiting for a rank, it is busy with a rank and the job at the head of its
  FIFO, or it has stopped. \<open>worker_next\<close> is what \<^verbatim>\<open>dpu_thread_job_fct\<close> does once a job is computed.
\<close>

datatype worker = Idle | Busy nat nat | Stopped

definition worker_take :: "nat \<Rightarrow> bool \<Rightarrow> 'h host \<Rightarrow> (worker \<times> 'h host) option" where
  "worker_take queue stop w =
     (if stop then Some (Stopped, w)
      else case queues w ! queue of
          [] \<Rightarrow> None
        | job # rest \<Rightarrow>
            let rank = job_rank (job_heap w job)
            in Some (Busy rank job, upd_low rank dpu_lock_rank (w\<lparr>queues := (queues w)[queue := rest]\<rparr>)))"

definition worker_next ::
  "'h job_env \<Rightarrow> 'h wakeups \<Rightarrow> nat \<Rightarrow> nat \<Rightarrow> 'h host \<Rightarrow> (worker \<times> 'h host) outcome" where
  "worker_next E ws rank job w =
     (case dpu_thread_compute_job E ws rank job w of
        Done (status, keep_job_list, w) \<Rightarrow>
          if \<not> keep_job_list then Done (Idle, w)
          else if status \<noteq> DPU_OK
          then Done (Idle, upd_low rank dpu_unlock_rank (dpu_thread_update_status status rank job w))
          else (case dpu_thread_advance_to_next_job rank w of
                  Done (Some next, w) \<Rightarrow> Done (Busy rank next, w)
                | Done (None, w) \<Rightarrow> Done (Idle, upd_low rank dpu_unlock_rank w)
                | Blocks \<Rightarrow> Blocks
                | Crashes \<Rightarrow> Crashes)
      | Blocks \<Rightarrow> Blocks
      | Crashes \<Rightarrow> Crashes)"

section \<open>Steps\<close>

record 'h pool =
  host_of :: "'h host"
  workers :: "(nat \<times> worker) list"

text \<open>
  The jobs that a thread adds are slots that it holds: they are in no FIFO, and they belong to
  the rank they are added to.
\<close>

definition addable :: "'h host \<Rightarrow> nat list \<Rightarrow> nat \<Rightarrow> nat list \<Rightarrow> bool" where
  "addable w ranks n js \<longleftrightarrow> distinct ranks \<and> set ranks \<subseteq> {..<length (hranks w)} \<and> 0 < n
     \<and> length js = length ranks * n
     \<and> (\<forall>i < length ranks. \<forall>k < n. job_rank (job_heap w (js ! (i * n + k))) = ranks ! i)"

text \<open>
  A blocking single-call callback parks the ranks it is waiting for: their token is given up until the last
  one of them has run the callback. The steps below are those of pools without such a callback.
\<close>

definition plain_callback :: "callback_t \<Rightarrow> bool" where
  "plain_callback cb \<longleftrightarrow> cb_is_nonblocking cb \<or> \<not> cb_is_single_call cb \<or> cb_is_sync cb"

definition plain_job :: "'h host \<Rightarrow> nat \<Rightarrow> bool" where
  "plain_job w j \<longleftrightarrow> (case job_body (job_heap w j) of
       DPU_THREAD_JOB_CALLBACK cb \<Rightarrow>
         (case master_job cb of
            None \<Rightarrow> plain_callback cb
          | Some m \<Rightarrow> (case job_body (job_heap w m) of
                DPU_THREAD_JOB_CALLBACK mcb \<Rightarrow> plain_callback mcb
              | _ \<Rightarrow> True))
     | _ \<Rightarrow> True)"

inductive pool_step :: "'h job_env \<Rightarrow> 'h pool \<Rightarrow> 'h pool \<Rightarrow> bool" for E :: "'h job_env" where
  step_take: "i < length (workers P) \<Longrightarrow> workers P ! i = (q, Idle) \<Longrightarrow> q < length (queues (host_of P)) \<Longrightarrow>
     worker_take q stop (host_of P) = Some (wk, w') \<Longrightarrow>
     pool_step E P \<lparr>host_of = w', workers = (workers P)[i := (q, wk)]\<rparr>"
| step_work: "i < length (workers P) \<Longrightarrow> workers P ! i = (q, Busy r j) \<Longrightarrow> plain_job (host_of P) j \<Longrightarrow>
     worker_next E ws r j (host_of P) = Done (wk, w') \<Longrightarrow>
     pool_step E P \<lparr>host_of = w', workers = (workers P)[i := (q, wk)]\<rparr>"
| step_add: "addable (host_of P) ranks n js \<Longrightarrow>
     pool_step E P (P\<lparr>host_of := dpu_thread_job_add_jobs ranks n js (host_of P)\<rparr>)"

section \<open>Tokens\<close>

type_synonym token = "nat \<times> nat"

definition head_token :: "nat \<Rightarrow> nat list \<Rightarrow> token multiset" where
  "head_token r js = (case js of [] \<Rightarrow> {#} | j # _ \<Rightarrow> {#(r, j)#})"

definition token_inv :: "token multiset \<Rightarrow> (nat \<Rightarrow> nat list) \<Rightarrow> bool" where
  "token_inv T J \<longleftrightarrow> (\<forall>r. filter_mset (\<lambda>t. fst t = r) T = head_token r (J r))"

lemma head_token_simps [simp]:
  "head_token r [] = {#}" "head_token r (j # js) = {#(r, j)#}"
  by (simp_all add: head_token_def)

lemma filter_head_token: "filter_mset (\<lambda>t. fst t = s) (head_token r js) = (if s = r then head_token r js else {#})"
  by (cases js) auto

lemma token_inv_replace:
  assumes "token_inv T J"
  shows "token_inv (T - head_token r (J r) + head_token r js) (J(r := js))"
  using assms unfolding token_inv_def by (auto simp: filter_head_token)

lemma token_inv_append:
  assumes "token_inv T J" "J r \<noteq> []"
  shows "token_inv T (J(r := J r @ js))"
  using assms unfolding token_inv_def by (cases "J r") (auto simp: head_token_def)

lemma token_inv_member: "token_inv T J \<Longrightarrow> (r, j) \<in># T \<Longrightarrow> \<exists>js. J r = j # js"
proof -
  assume "token_inv T J" and "(r, j) \<in># T"
  then have "(r, j) \<in># head_token r (J r)"
    unfolding token_inv_def by (metis (mono_tags) fst_conv mem_Collect_eq set_mset_filter)
  then show ?thesis
    by (cases "J r") auto
qed

lemma token_inv_count: "token_inv T J \<Longrightarrow> count T (r, j) \<le> 1"
proof -
  assume "token_inv T J"
  then have "count (filter_mset (\<lambda>t. fst t = r) T) (r, j) = count (head_token r (J r)) (r, j)"
    by (simp add: token_inv_def)
  then show ?thesis
    by (cases "J r") auto
qed

section \<open>What the scheduling depends on\<close>

definition view :: "'h host \<Rightarrow> nat list list \<times> (nat list \<times> nat) list \<times> (nat \<Rightarrow> nat)" where
  "view w = (queues w, map (\<lambda>R. (jobs R, queue_idx R)) (hranks w), \<lambda>j. job_rank (job_heap w j))"

definition fifo :: "'h host \<Rightarrow> nat \<Rightarrow> nat list" where
  "fifo w r = (if r < length (hranks w) then jobs (hranks w ! r) else [])"

definition queue_tokens :: "'h host \<Rightarrow> token multiset" where
  "queue_tokens w = image_mset (\<lambda>j. (job_rank (job_heap w j), j)) (mset (concat (queues w)))"

fun busy_token :: "worker \<Rightarrow> token multiset" where
  "busy_token (Busy r j) = {#(r, j)#}"
| "busy_token _ = {#}"

definition busy_tokens :: "(nat \<times> worker) list \<Rightarrow> token multiset" where
  "busy_tokens ws = sum_list (map (\<lambda>(q, wk). busy_token wk) ws)"

definition sched_wf :: "'h host \<Rightarrow> bool" where
  "sched_wf w \<longleftrightarrow> length (queues w) = NR_QUEUES
     \<and> (\<forall>r < length (hranks w). queue_idx (hranks w ! r) < NR_QUEUES
          \<and> (\<forall>j \<in> set (jobs (hranks w ! r)). job_rank (job_heap w j) = r))"

definition pool_inv :: "'h pool \<Rightarrow> bool" where
  "pool_inv P \<longleftrightarrow> sched_wf (host_of P)
     \<and> token_inv (queue_tokens (host_of P) + busy_tokens (workers P)) (fifo (host_of P))"

lemma view_eqD:
  assumes "view w' = view w"
  shows "queues w' = queues w" "length (hranks w') = length (hranks w)"
    "r < length (hranks w) \<Longrightarrow> jobs (hranks w' ! r) = jobs (hranks w ! r)"
    "r < length (hranks w) \<Longrightarrow> queue_idx (hranks w' ! r) = queue_idx (hranks w ! r)"
    "job_rank (job_heap w' j) = job_rank (job_heap w j)"
proof -
  have m: "map (\<lambda>R. (jobs R, queue_idx R)) (hranks w') = map (\<lambda>R. (jobs R, queue_idx R)) (hranks w)"
    using assms by (simp add: view_def)
  show len: "length (hranks w') = length (hranks w)"
    using arg_cong [OF m, of length] by simp
  have "(\<lambda>R. (jobs R, queue_idx R)) (hranks w' ! r) = (\<lambda>R. (jobs R, queue_idx R)) (hranks w ! r)"
    if "r < length (hranks w)"
    using arg_cong [OF m, of "\<lambda>xs. xs ! r"] that len by simp
  then show "r < length (hranks w) \<Longrightarrow> jobs (hranks w' ! r) = jobs (hranks w ! r)"
    "r < length (hranks w) \<Longrightarrow> queue_idx (hranks w' ! r) = queue_idx (hranks w ! r)"
    by simp_all
  show "queues w' = queues w" "job_rank (job_heap w' j) = job_rank (job_heap w j)"
    using assms by (auto simp: view_def fun_eq_iff)
qed

lemma view_cong:
  assumes "view w' = view w"
  shows "fifo w' = fifo w" "queue_tokens w' = queue_tokens w" "sched_wf w' \<longleftrightarrow> sched_wf w"
  using view_eqD [OF assms] by (auto simp: fifo_def queue_tokens_def sched_wf_def fun_eq_iff)

text \<open>Most operations do not touch what the scheduling depends on.\<close>

lemma view_upd_rank:
  assumes "\<And>R. jobs (f R) = jobs R" "\<And>R. queue_idx (f R) = queue_idx R"
  shows "view (upd_rank r f w) = view w"
proof -
  have "map (\<lambda>R. (jobs R, queue_idx R)) ((hranks w)[r := f (hranks w ! r)]) =
      map (\<lambda>R. (jobs R, queue_idx R)) (hranks w)"
    by (cases "r < length (hranks w)")
      (auto simp: map_update assms list_update_same_conv not_less list_update_beyond)
  then show ?thesis
    by (simp add: view_def upd_rank_def)
qed

lemma view_upd_low [simp]: "view (upd_low r f w) = view w"
  by (simp add: upd_low_def view_upd_rank)

lemma view_low_op [simp]: "view (snd (low_op r f w)) = view w"
  by (simp add: low_op_def split: prod.split)

lemma low_opD: "low_op r f w = (st, w') \<Longrightarrow> view w' = view w"
  using view_low_op [of r f w] by (simp only: snd_conv)

lemma view_emit [simp]: "view (emit x w) = view w"
  by (simp add: emit_def view_def)

lemma view_release [simp]: "view (dpu_thread_release_job_slot_unlocked r j w) = view w"
  by (simp add: dpu_thread_release_job_slot_unlocked_def Let_def view_upd_rank)

lemma view_broadcast_used [simp]: "view (broadcast_used u w) = view w"
  unfolding broadcast_used_def by (intro foldl_invariant) simp

lemma view_do_sync_job [simp]: "view (do_sync_job x w) = view w"
  by (simp add: view_def)

lemma view_pollers [simp]: "view (w\<lparr>pollers := p\<rparr>) = view w"
  and view_fault_log [simp]: "view (w\<lparr>fault_log_of := l\<rparr>) = view w"
  by (simp_all add: view_def)

lemma view_set_cb_count [simp]: "view (set_cb_count m cb n w) = view w"
  by (simp add: view_def set_cb_count_def fun_eq_iff)

lemma view_set_callback_tid [simp]: "view (set_callback_tid b ranks w) = view w"
  unfolding set_callback_tid_def by (intro foldl_invariant) (simp add: view_upd_rank)

lemma view_lock_ranks [simp]: "view (lock_ranks ranks w) = view w" "view (unlock_ranks ranks w) = view w"
  unfolding lock_ranks_def unlock_ranks_def by (intro foldl_invariant, simp)+

lemma view_if_callback [simp]: "view (lock_if_callback r w) = view w" "view (unlock_if_callback r w) = view w"
  by (simp_all add: lock_if_callback_def unlock_if_callback_def)

lemma keep_jobs_low_op: "keep_jobs (low_op r f w) = Done (st, keep, w') \<Longrightarrow> view w' = view w \<and> keep"
  by (auto simp: keep_jobs_def split: prod.splits dest: low_opD)

lemma compute_launch_view: "compute_launch r boot sync w = Done (st, keep, w') \<Longrightarrow> view w' = view w \<and> keep"
  by (auto simp: compute_launch_def Let_def split: prod.splits if_splits option.splits dest: low_opD)

text \<open>Moving on to the next job, and handing the rank to its queue.\<close>

definition advance_view :: "nat \<Rightarrow> 'h host \<Rightarrow> 'h host \<Rightarrow> bool" where
  "advance_view r w w' \<longleftrightarrow> length (hranks w') = length (hranks w) \<and> fifo w' = (fifo w)(r := tl (fifo w r))
     \<and> (\<forall>s < length (hranks w). queue_idx (hranks w' ! s) = queue_idx (hranks w ! s))
     \<and> (\<forall>j. job_rank (job_heap w' j) = job_rank (job_heap w j))"

lemma advance_advance_view:
  assumes "dpu_thread_advance_to_next_job r w = Done (nxt, w')" "r < length (hranks w)" "fifo w r \<noteq> []"
  shows "advance_view r w w'" "queues w' = queues w" "nxt = (case tl (fifo w r) of [] \<Rightarrow> None | k # _ \<Rightarrow> Some k)"
proof -
  obtain j js where js: "jobs (hranks w ! r) = j # js"
    using assms(2,3) by (cases "jobs (hranks w ! r)") (auto simp: fifo_def)
  from advance_spec [OF assms(2) js] assms(1)
  have w': "length (hranks w') = length (hranks w)" "queues w' = queues w" "job_heap w' = job_heap w"
    "jobs (hranks w' ! r) = js" "queue_idx (hranks w' ! r) = queue_idx (hranks w ! r)"
    "\<forall>s < length (hranks w). s \<noteq> r \<longrightarrow> hranks w' ! s = hranks w ! s"
    "nxt = (case js of [] \<Rightarrow> None | k # _ \<Rightarrow> Some k)"
    by fastforce+
  then show "queues w' = queues w" "nxt = (case tl (fifo w r) of [] \<Rightarrow> None | k # _ \<Rightarrow> Some k)"
    using assms(2) js by (simp_all add: fifo_def)
  show "advance_view r w w'"
    using w' assms(2) js by (auto simp: advance_view_def fifo_def fun_eq_iff)
qed

lemma advance_view_cong:
  "view w1 = view w \<Longrightarrow> view w2 = view w' \<Longrightarrow> advance_view r w1 w2 \<longleftrightarrow> advance_view r w w'"
  using view_eqD [of w1 w] view_eqD [of w2 w'] view_cong(1) [of w1 w] view_cong(1) [of w2 w']
  unfolding advance_view_def by metis

section \<open>A job, as the scheduling sees it\<close>

text \<open>The user's callbacks leave the queues, the FIFOs and the owners of the slots alone.\<close>

definition callback_local :: "'h job_env \<Rightarrow> bool" where
  "callback_local E \<longleftrightarrow> (\<forall>f s i a w. view (snd (user_function E f s i a w)) = view w)"

definition handoff_view :: "nat \<Rightarrow> 'h host \<Rightarrow> 'h host \<Rightarrow> bool" where
  "handoff_view r w w' \<longleftrightarrow> advance_view r w w'
     \<and> queues w' = (case tl (fifo w r) of
           [] \<Rightarrow> queues w
         | k # _ \<Rightarrow> (queues w)[queue_idx (hranks w ! r) := queues w ! queue_idx (hranks w ! r) @ [k]])"

lemma handoff_view_cong:
  assumes "view w1 = view w" "view w2 = view w'" "r < length (hranks w)"
  shows "handoff_view r w1 w2 \<longleftrightarrow> handoff_view r w w'"
  unfolding handoff_view_def advance_view_cong [OF assms(1,2)] view_eqD(1) [OF assms(1)]
    view_eqD(1) [OF assms(2)] view_eqD(4) [OF assms(1,3)] view_cong(1) [OF assms(1)] ..

lemma insert_rank_list_sel:
  "hranks (dpu_thread_insert_rank_list k q w) = hranks w"
  "job_heap (dpu_thread_insert_rank_list k q w) = job_heap w"
  "queues (dpu_thread_insert_rank_list k q w) =
     (case k of None \<Rightarrow> queues w | Some j \<Rightarrow> (queues w)[q := queues w ! q @ [j]])"
  by (simp_all add: dpu_thread_insert_rank_list_def split: option.split)

lemma user_functionD:
  "callback_local E \<Longrightarrow> user_function E f s i a w = (st, w') \<Longrightarrow> view w' = view w"
  unfolding callback_local_def by (metis snd_conv)

lemma handoff:
  assumes "dpu_thread_advance_to_next_job r w = Done (nxt, w1)" "r < length (hranks w)" "fifo w r \<noteq> []"
  shows "handoff_view r w (dpu_thread_insert_rank_list nxt (queue_idx (hranks w1 ! r)) w1)"
proof -
  note adv = advance_advance_view [OF assms]
  have q: "queue_idx (hranks w1 ! r) = queue_idx (hranks w ! r)"
    using adv(1) assms(2) by (simp add: advance_view_def)
  have "advance_view r w (dpu_thread_insert_rank_list nxt q w1)" for q
  proof -
    have "fifo (dpu_thread_insert_rank_list nxt q w1) = fifo w1"
      by (simp add: fifo_def fun_eq_iff insert_rank_list_sel)
    then show ?thesis
      using adv(1) by (simp add: advance_view_def insert_rank_list_sel)
  qed
  then show ?thesis
    by (simp add: handoff_view_def insert_rank_list_sel adv(2,3) q split: list.split)
qed

lemma callback_last_view:
  assumes "callback_local E" "plain_callback cb" "r < length (hranks w)" "fifo w r \<noteq> []"
    and "callback_last E r master cb has_master ranks w = Done (st, keep, w')"
  shows "(keep \<and> view w' = view w) \<or> (\<not> keep \<and> handoff_view r w w')"
proof (cases "cb_is_nonblocking cb")
  case False
  with assms(2,5) have k: "keep"
    by (auto simp: callback_last_def Let_def plain_callback_def split: prod.splits if_splits outcome.splits)
  moreover have "view w' = view w"
    using False assms(2,5)
    by (auto simp: callback_last_def Let_def plain_callback_def split: prod.splits if_splits
        dest!: user_functionD [OF assms(1)])
  ultimately show ?thesis by simp
next
  case True
  define w0 where "w0 = upd_low r dpu_unlock_rank w"
  have v0: "view w0 = view w"
    by (simp add: w0_def)
  have len: "r < length (hranks w0)" "fifo w0 r \<noteq> []"
    using assms(3,4) view_eqD(2) [OF v0] view_cong(1) [OF v0] by simp_all
  obtain nxt w1 where adv: "dpu_thread_advance_to_next_job r w0 = Done (nxt, w1)"
    using True assms(5) unfolding w0_def
    by (cases "dpu_thread_advance_to_next_job r (upd_low r dpu_unlock_rank w)")
      (auto simp: callback_last_def Let_def)
  define w2 where "w2 = dpu_thread_insert_rank_list nxt (queue_idx (hranks w1 ! r)) w1"
  have "handoff_view r w0 w2"
    unfolding w2_def by (rule handoff [OF adv len])
  moreover have "\<not> keep" "view w' = view w2"
    using True assms(5) adv unfolding w0_def [symmetric] w2_def
    by (auto simp: callback_last_def Let_def w0_def [symmetric] split: prod.splits if_splits
        dest!: user_functionD [OF assms(1)])
  ultimately show ?thesis
    using handoff_view_cong [OF v0 _ assms(3), of w' w2]
      handoff_view_cong [of w0 w w2 w' r] v0 assms(3) by simp
qed

lemma compute_callback_view:
  assumes "callback_local E" "plain_callback cb" "r < length (hranks w)" "fifo w r \<noteq> []"
    and "compute_callback E r master cb has_master w = Done (st, keep, w')"
  shows "(keep \<and> view w' = view w) \<or> (\<not> keep \<and> handoff_view r w w')"
proof -
  define w0 where "w0 = set_cb_count master cb (sync_nr_ranks (cb_sync cb) - 1) w"
  have v0: "view w0 = view w"
    by (simp add: w0_def)
  have len: "r < length (hranks w0)" "fifo w0 r \<noteq> []"
    using assms(3,4) view_eqD(2) [OF v0] view_cong(1) [OF v0] by simp_all
  have "compute_callback E r master cb has_master w =
      (if sync_nr_ranks (cb_sync cb) - 1 = 0
       then (case cb_dpu_set cb of
               DPU_SET_RANKS ranks \<Rightarrow> callback_last E r master cb has_master ranks w0
             | DPU_SET_DPU r' d \<Rightarrow> callback_last E r master cb has_master [r'] w0
             | DPU_SET_UNKNOWN \<Rightarrow> Done (DPU_ERR_INTERNAL, True, w0))
       else Done (DPU_OK, True, w0))"
  proof -
    have "(\<not> cb_is_nonblocking cb \<and> cb_is_single_call cb \<and> \<not> cb_is_sync cb) = False"
      using assms(2) by (auto simp: plain_callback_def)
    then show ?thesis
      unfolding compute_callback_def Let_def w0_def [symmetric] by (simp only: if_False)
  qed
  with assms(5) have "(keep \<and> view w' = view w0) \<or> (\<not> keep \<and> handoff_view r w0 w')"
    using callback_last_view [OF assms(1,2) len] by (auto split: if_splits dpu_set_t.splits)
  then show ?thesis
    using v0 handoff_view_cong [OF v0 refl assms(3)] by auto
qed

lemma compute_job_view:
  assumes "callback_local E" "plain_job w j" "r < length (hranks w)" "fifo w r \<noteq> []"
    and "dpu_thread_compute_job E ws r j w = Done (st, keep, w')"
  shows "(keep \<and> view w' = view w) \<or> (\<not> keep \<and> handoff_view r w w')"
proof (cases "\<exists>cb. job_body (job_heap w j) = DPU_THREAD_JOB_CALLBACK cb")
  case True
  then obtain cb where cb: "job_body (job_heap w j) = DPU_THREAD_JOB_CALLBACK cb"
    by blast
  show ?thesis
  proof (cases "master_job cb")
    case None
    then have "plain_callback cb" "compute_callback E r j cb False w = Done (st, keep, w')"
      using assms(2,5) cb by (simp_all add: plain_job_def dpu_thread_compute_job_def)
    then show ?thesis
      using compute_callback_view [OF assms(1) _ assms(3,4)] by blast
  next
    case (Some m)
    then obtain mcb where "job_body (job_heap w m) = DPU_THREAD_JOB_CALLBACK mcb"
      using assms(5) cb by (auto simp: dpu_thread_compute_job_def split: dpu_thread_job_body.splits)
    then have "plain_callback mcb" "compute_callback E r m mcb True w = Done (st, keep, w')"
      using Some assms(2,5) cb by (simp_all add: plain_job_def dpu_thread_compute_job_def)
    then show ?thesis
      using compute_callback_view [OF assms(1) _ assms(3,4)] by blast
  qed
next
  case False
  with assms(5) have "view w' = view w \<and> keep"
    by (auto simp: dpu_thread_compute_job_def Let_def split: dpu_thread_job_body.splits
        dest!: keep_jobs_low_op compute_launch_view)
  then show ?thesis by simp
qed

section \<open>Every step keeps the invariant\<close>

lemma mset_concat_update:
  assumes "q < length qs"
  shows "mset (concat (qs[q := xs])) + mset (qs ! q) = mset (concat qs) + mset xs"
  using assms
proof (induction qs arbitrary: q)
  case (Cons y qs)
  show ?case
  proof (cases q)
    case 0
    then show ?thesis by (simp add: ac_simps)
  next
    case (Suc k)
    with Cons show ?thesis by (simp add: add.assoc)
  qed
qed simp

lemma busy_tokens_update:
  assumes "i < length ws" "ws ! i = (q, wk)"
  shows "busy_tokens (ws[i := (q, wk')]) + busy_token wk = busy_tokens ws + busy_token wk'"
  using assms
proof (induction ws arbitrary: i)
  case (Cons y ws)
  show ?case
  proof (cases i)
    case 0
    with Cons.prems show ?thesis
      by (simp add: busy_tokens_def ac_simps)
  next
    case (Suc k)
    with Cons have "busy_tokens (ws[k := (q, wk')]) + busy_token wk = busy_tokens ws + busy_token wk'"
      by simp
    with Suc show ?thesis
      by (simp add: busy_tokens_def add.assoc)
  qed
qed simp

lemma busy_token_mem:
  assumes "i < length ws" "ws ! i = (q, Busy r j)"
  shows "(r, j) \<in># busy_tokens ws"
  using assms
proof (induction ws arbitrary: i)
  case (Cons y ws)
  then show ?case
    by (cases i) (auto simp: busy_tokens_def)
qed simp

lemma pool_invD:
  assumes "pool_inv P"
  shows "sched_wf (host_of P)"
    "token_inv (queue_tokens (host_of P) + busy_tokens (workers P)) (fifo (host_of P))"
  using assms by (simp_all add: pool_inv_def)

lemma fifo_nonempty_bound: "fifo w r \<noteq> [] \<Longrightarrow> r < length (hranks w)"
  by (auto simp: fifo_def split: if_splits)

lemma busy_worker_fifo:
  assumes "pool_inv P" "i < length (workers P)" "workers P ! i = (q, Busy r j)"
  shows "\<exists>js. fifo (host_of P) r = j # js" "r < length (hranks (host_of P))"
proof -
  show "\<exists>js. fifo (host_of P) r = j # js"
    using token_inv_member [OF pool_invD(2) [OF assms(1)]] busy_token_mem [OF assms(2,3)] by simp
  then show "r < length (hranks (host_of P))"
    using fifo_nonempty_bound [of "host_of P" r] by auto
qed

lemma queue_tokens_append:
  assumes "q < length (queues w)" "queues w' = (queues w)[q := queues w ! q @ [j]]"
    and "\<forall>j. job_rank (job_heap w' j) = job_rank (job_heap w j)"
  shows "queue_tokens w' = queue_tokens w + {#(job_rank (job_heap w j), j)#}"
proof -
  have "mset (concat (queues w')) + mset (queues w ! q) = mset (concat (queues w)) + mset (queues w ! q @ [j])"
    unfolding assms(2) by (rule mset_concat_update [OF assms(1)])
  then have "mset (concat (queues w')) = mset (concat (queues w)) + {#j#}"
    by simp
  then show ?thesis
    by (simp add: queue_tokens_def assms(3))
qed

text \<open>The worker gives its token back: the rank moves to the next job, on its queue or not at all.\<close>

lemma inv_replace_busy:
  assumes inv: "pool_inv P" and i: "i < length (workers P)" "workers P ! i = (q, Busy r j)"
    and wf: "sched_wf w'" and J: "fifo w' = (fifo (host_of P))(r := js)"
    and T: "queue_tokens w' + busy_token wk = queue_tokens (host_of P) + head_token r js"
  shows "pool_inv \<lparr>host_of = w', workers = (workers P)[i := (q, wk)]\<rparr>"
proof -
  let ?T = "queue_tokens (host_of P) + busy_tokens (workers P)"
  have head: "head_token r (fifo (host_of P) r) = {#(r, j)#}"
    using busy_worker_fifo [OF inv i] by auto
  have mem: "{#(r, j)#} \<subseteq># busy_tokens (workers P)"
    using busy_token_mem [OF i] by simp
  have "busy_tokens ((workers P)[i := (q, wk)]) + {#(r, j)#} = busy_tokens (workers P) + busy_token wk"
    using busy_tokens_update [OF i] by simp
  then have "busy_tokens ((workers P)[i := (q, wk)]) = busy_tokens (workers P) - {#(r, j)#} + busy_token wk"
    using mem by (metis add_diff_cancel_right' subset_mset.add_diff_assoc2)
  then have "queue_tokens w' + busy_tokens ((workers P)[i := (q, wk)]) =
      queue_tokens (host_of P) + head_token r js + (busy_tokens (workers P) - {#(r, j)#})"
    using T by (simp add: ac_simps)
  also have "\<dots> = ?T - {#(r, j)#} + head_token r js"
    using mem by (simp add: subset_mset.add_diff_assoc ac_simps)
  finally show ?thesis
    using token_inv_replace [OF pool_invD(2) [OF inv], of r js] wf
    by (simp add: pool_inv_def J head)
qed

lemma sched_wf_advance:
  assumes "sched_wf w" "advance_view r w w'" "length (queues w') = length (queues w)"
  shows "sched_wf w'"
proof -
  have adv: "length (hranks w') = length (hranks w)" "fifo w' = (fifo w)(r := tl (fifo w r))"
    "\<forall>s < length (hranks w). queue_idx (hranks w' ! s) = queue_idx (hranks w ! s)"
    "\<forall>j. job_rank (job_heap w' j) = job_rank (job_heap w j)"
    using assms(2) by (simp_all add: advance_view_def)
  have "set (jobs (hranks w' ! s)) \<subseteq> set (jobs (hranks w ! s))" if "s < length (hranks w)" for s
    using fun_cong [OF adv(2), of s] that adv(1) by (auto simp: fifo_def split: if_splits dest: in_set_tl)
  then show ?thesis
    using assms(1,3) adv by (simp add: sched_wf_def) blast
qed

lemma update_status_view:
  assumes "r < length (hranks w)" "w' = dpu_thread_update_status st r j w"
  shows "fifo w' = (fifo w)(r := [])" "queue_tokens w' = queue_tokens w" "sched_wf w \<Longrightarrow> sched_wf w'"
proof -
  define err where "err = async_status st (job_body (job_heap w j))"
  define w1 where "w1 = upd_rank r (\<lambda>R. R\<lparr>job_error := err\<rparr>) w"
  have v1: "view w1 = view w"
    by (simp add: w1_def view_upd_rank)
  have js: "r < length (hranks w1)" "jobs (hranks w1 ! r) = jobs (hranks w ! r)" "err \<noteq> DPU_OK"
    using assms(1) async_status_nonzero by (simp_all add: w1_def err_def)
  have "w' = drain_jobs r err (jobs (hranks w ! r)) w1"
    using assms js(2) by (simp add: dpu_thread_update_status_def Let_def w1_def err_def)
  note d = drain_jobs_spec [OF js, folded this]
  note v = view_eqD [OF v1]
  have d': "length (hranks w') = length (hranks w)" "queues w' = queues w"
    "\<And>k. job_rank (job_heap w' k) = job_rank (job_heap w k)" "jobs (hranks w' ! r) = []"
    "\<And>s. s < length (hranks w) \<Longrightarrow> queue_idx (hranks w' ! s) = queue_idx (hranks w ! s)"
    "\<And>s. s < length (hranks w) \<Longrightarrow> s \<noteq> r \<Longrightarrow> jobs (hranks w' ! s) = jobs (hranks w ! s)"
  proof -
    show "queue_idx (hranks w' ! s) = queue_idx (hranks w ! s)" if "s < length (hranks w)" for s
      using d v that by (cases "s = r") auto
  qed (use d v in auto)
  show "fifo w' = (fifo w)(r := [])" "queue_tokens w' = queue_tokens w"
    using d' by (auto simp: fifo_def queue_tokens_def fun_eq_iff)
  show "sched_wf w'" if "sched_wf w"
    unfolding sched_wf_def
  proof (intro conjI allI impI ballI)
    show "length (queues w') = NR_QUEUES"
      using that d' by (simp add: sched_wf_def)
    fix s assume s: "s < length (hranks w')"
    then show "queue_idx (hranks w' ! s) < NR_QUEUES"
      using that d' by (simp add: sched_wf_def)
    show "job_rank (job_heap w' k) = s" if "k \<in> set (jobs (hranks w' ! s))" for k
      using \<open>sched_wf w\<close> that s d' by (cases "s = r") (auto simp: sched_wf_def)
  qed
qed

lemma tl_owner:
  assumes "sched_wf w" "r < length (hranks w)" "tl (fifo w r) = k # js"
  shows "job_rank (job_heap w k) = r"
  using assms in_set_tl [of k "jobs (hranks w ! r)"] by (auto simp: sched_wf_def fifo_def)

lemma worker_next_inv:
  assumes inv: "pool_inv P" and i: "i < length (workers P)" "workers P ! i = (q, Busy r j)"
    and E: "callback_local E" "plain_job (host_of P) j"
    and step: "worker_next E ws r j (host_of P) = Done (wk, w')"
  shows "pool_inv \<lparr>host_of = w', workers = (workers P)[i := (q, wk)]\<rparr>"
proof -
  let ?w = "host_of P"
  note wf = pool_invD(1) [OF inv]
  obtain js where js: "fifo ?w r = j # js" and r: "r < length (hranks ?w)"
    using busy_worker_fifo [OF inv i] by auto
  obtain st keep w1 where c: "dpu_thread_compute_job E ws r j ?w = Done (st, keep, w1)"
    using step by (auto simp: worker_next_def split: outcome.splits)
  have "fifo ?w r \<noteq> []"
    using js by simp
  from compute_job_view [OF E r this c] show ?thesis
  proof (elim disjE conjE)
    assume "\<not> keep" and h: "handoff_view r ?w w1"
    then have "wk = Idle" "w' = w1"
      using step c by (auto simp: worker_next_def)
    have adv: "advance_view r ?w w1"
      using h by (simp add: handoff_view_def)
    have "queue_tokens w1 = queue_tokens ?w + head_token r js"
    proof (cases js)
      case Nil
      then show ?thesis
        using h js by (simp add: handoff_view_def advance_view_def queue_tokens_def)
    next
      case (Cons k js')
      have "queue_idx (hranks ?w ! r) < length (queues ?w)"
        using wf r by (simp add: sched_wf_def)
      then show ?thesis
        using queue_tokens_append [of _ ?w w1 k] h js Cons tl_owner [OF wf r, of k js']
        by (simp add: handoff_view_def advance_view_def)
    qed
    moreover have "sched_wf w1"
      using sched_wf_advance [OF wf adv] h by (simp add: handoff_view_def split: list.splits)
    ultimately show ?thesis
      using inv_replace_busy [OF inv i, of w1 js Idle] adv js \<open>wk = Idle\<close> \<open>w' = w1\<close>
      by (simp add: advance_view_def)
  next
    assume keep and v: "view w1 = view ?w"
    have r1: "r < length (hranks w1)" "fifo w1 r \<noteq> []"
      using view_eqD(2) [OF v] view_cong(1) [OF v] r js by simp_all
    note vc = view_cong [OF v]
    show ?thesis
    proof (cases "st = DPU_OK")
      case False
      define w2 where "w2 = dpu_thread_update_status st r j w1"
      have "wk = Idle" "w' = upd_low r dpu_unlock_rank w2"
        using step c \<open>keep\<close> False by (simp_all add: worker_next_def w2_def)
      moreover have "view w' = view w2"
        using calculation by simp
      note vw = view_cong [OF this]
      ultimately show ?thesis
        using update_status_view [OF r1(1) w2_def] inv_replace_busy [OF inv i, of w' "[]" Idle] vc wf
        by (simp add: vw)
    next
      case True
      obtain nxt w2 where a: "dpu_thread_advance_to_next_job r w1 = Done (nxt, w2)"
        using step c \<open>keep\<close> True by (auto simp: worker_next_def split: outcome.splits)
      note adv = advance_advance_view [OF a r1]
      have "view w' = view w2" "busy_token wk = head_token r js"
        using step c \<open>keep\<close> True a adv(3) js vc(1)
        by (auto simp: worker_next_def split: list.splits)
      note vw = view_cong [OF this(1)] this(2)
      have "queue_tokens w2 = queue_tokens w1"
        using adv(1,2) by (simp add: queue_tokens_def advance_view_def)
      moreover have "sched_wf w2"
        using sched_wf_advance [OF _ adv(1)] adv(2) wf vc(3) by simp
      ultimately show ?thesis
        using inv_replace_busy [OF inv i, of w' js wk] adv(1) js
        by (simp add: vw vc advance_view_def)
    qed
  qed
qed

lemma worker_take_inv:
  assumes inv: "pool_inv P" and i: "i < length (workers P)" "workers P ! i = (q, Idle)"
    and q: "q < length (queues (host_of P))"
    and step: "worker_take q stop (host_of P) = Some (wk, w')"
  shows "pool_inv \<lparr>host_of = w', workers = (workers P)[i := (q, wk)]\<rparr>"
proof (cases stop)
  case True
  then have "wk = Stopped" "w' = host_of P"
    using step by (simp_all add: worker_take_def)
  moreover have "busy_tokens ((workers P)[i := (q, Stopped)]) = busy_tokens (workers P)"
    using busy_tokens_update [OF i, of Stopped] by simp
  ultimately show ?thesis
    using inv by (simp add: pool_inv_def)
next
  case False
  let ?w = "host_of P"
  obtain j rest where q': "queues ?w ! q = j # rest"
    using step False by (auto simp: worker_take_def split: list.splits)
  define w1 where "w1 = ?w\<lparr>queues := (queues ?w)[q := rest]\<rparr>"
  define r where "r = job_rank (job_heap ?w j)"
  have wk: "wk = Busy r j" "w' = upd_low r dpu_lock_rank w1"
    using step False q' by (simp_all add: worker_take_def Let_def w1_def r_def)
  have "view w' = view w1"
    by (simp add: wk)
  note vw = view_cong [OF this]
  have "add_mset j (mset (concat (queues w1))) + mset rest = mset (concat (queues ?w)) + mset rest"
    using mset_concat_update [OF q, of rest] q' by (simp add: w1_def)
  then have "mset (concat (queues ?w)) = add_mset j (mset (concat (queues w1)))"
    by (simp only: add_right_cancel)
  then have "queue_tokens ?w = queue_tokens w1 + {#(r, j)#}"
    by (simp add: queue_tokens_def r_def w1_def)
  moreover have "busy_tokens ((workers P)[i := (q, wk)]) = busy_tokens (workers P) + {#(r, j)#}"
    using busy_tokens_update [OF i, of wk] wk by simp
  moreover have "sched_wf w1" "fifo w1 = fifo ?w"
    using pool_invD(1) [OF inv] by (simp_all add: sched_wf_def w1_def fifo_def fun_eq_iff)
  ultimately show ?thesis
    using pool_invD(2) [OF inv] by (simp add: pool_inv_def vw ac_simps)
qed

text \<open>Adding jobs, one rank at a time.\<close>

definition host_inv :: "token multiset \<Rightarrow> 'h host \<Rightarrow> bool" where
  "host_inv B w \<longleftrightarrow> sched_wf w \<and> token_inv (queue_tokens w + B) (fifo w)"

lemma add_rank_jobs_inv:
  assumes inv: "host_inv B w" and n: "0 < n" and e: "e < length ranks" "ranks ! e < length (hranks w)"
    and own: "\<forall>k < n. job_rank (job_heap w (js ! (e * n + k))) = ranks ! e"
    and step: "add_rank_jobs ranks n js (u, w) e = (u', w')"
  shows "host_inv B w'" "length (hranks w') = length (hranks w)" "job_heap w' = job_heap w"
proof -
  let ?r = "ranks ! e" and ?new = "map (\<lambda>k. js ! (e * n + k)) [0..<n]"
  let ?q = "queue_idx (hranks w ! ?r)" and ?R = "hranks w ! ?r"
  define w1 where "w1 = (if jobs ?R = []
    then w\<lparr>queues := (queues w)[?q := queues w ! ?q @ [js ! (e * n)]]\<rparr> else w)"
  have w': "w' = upd_rank ?r (\<lambda>R. R\<lparr>jobs := jobs R @ ?new\<rparr>) w1"
    using step by (auto simp: add_rank_jobs_def Let_def w1_def split: if_splits)
  have w1: "hranks w1 = hranks w" "job_heap w1 = job_heap w"
    by (simp_all add: w1_def)
  show "length (hranks w') = length (hranks w)" "job_heap w' = job_heap w"
    by (simp_all add: w' w1)
  have J: "fifo w' = (fifo w)(?r := fifo w ?r @ ?new)"
    using e(2) by (auto simp: fifo_def fun_eq_iff w' w1 nth_upd_rank)
  have wf: "sched_wf w" and tok: "token_inv (queue_tokens w + B) (fifo w)"
    using inv by (simp_all add: host_inv_def)
  have q: "?q < length (queues w)"
    using wf e(2) by (simp add: sched_wf_def)
  have "sched_wf w'"
    unfolding sched_wf_def
  proof (intro conjI allI impI ballI)
    show "length (queues w') = NR_QUEUES"
      using wf by (simp add: sched_wf_def w' w1_def)
    fix s assume s: "s < length (hranks w')"
    then show "queue_idx (hranks w' ! s) < NR_QUEUES"
      using wf by (simp add: sched_wf_def w' w1 nth_upd_rank)
    fix k assume "k \<in> set (jobs (hranks w' ! s))"
    then show "job_rank (job_heap w' k) = s"
      using wf s own by (cases "s = ?r") (auto simp: sched_wf_def w' w1 nth_upd_rank)
  qed
  moreover have "token_inv (queue_tokens w' + B) (fifo w')"
  proof (cases "jobs ?R = []")
    case True
    have qw': "queues w' = (queues w)[?q := queues w ! ?q @ [js ! (e * n)]]"
      using True by (simp add: w' w1_def)
    have own0: "job_rank (job_heap w (js ! (e * n))) = ?r"
      using own n by (metis add_0_right)
    have "queue_tokens w' = queue_tokens w + {#(?r, js ! (e * n))#}"
      using queue_tokens_append [OF q qw'] own0 by (simp add: w' w1)
    moreover have f0: "fifo w ?r = []"
      using True by (simp add: fifo_def)
    moreover have "head_token ?r ?new = {#(?r, js ! (e * n))#}"
      using n by (cases n) (simp_all add: upt_conv_Cons del: upt_Suc)
    ultimately show ?thesis
      using token_inv_replace [OF tok, of ?r ?new] by (simp add: J ac_simps)
  next
    case False
    then have "fifo w ?r \<noteq> []"
      using e(2) by (simp add: fifo_def)
    moreover have "queue_tokens w' = queue_tokens w"
      using False by (simp add: queue_tokens_def w' w1_def)
    ultimately show ?thesis
      using token_inv_append [OF tok] by (simp add: J)
  qed
  ultimately show "host_inv B w'"
    by (simp add: host_inv_def)
qed

lemma add_jobs_inv:
  assumes "host_inv B w" "addable w ranks n js"
  shows "host_inv B (dpu_thread_job_add_jobs ranks n js w)"
proof -
  have "host_inv B (snd (foldl (add_rank_jobs ranks n js) (u, w) es))"
    if "set es \<subseteq> {..<length ranks}" "host_inv B w" "addable w ranks n js" for u w es
    using that
  proof (induction es arbitrary: u w)
    case (Cons e es)
    obtain u' w' where s: "add_rank_jobs ranks n js (u, w) e = (u', w')"
      by fastforce
    have e: "e < length ranks" "ranks ! e < length (hranks w)"
      "\<forall>k < n. job_rank (job_heap w (js ! (e * n + k))) = ranks ! e" "0 < n"
      using Cons.prems by (auto simp: addable_def subset_iff)
    note a = add_rank_jobs_inv [OF Cons.prems(2) e(4,1,2,3) s]
    have "addable w' ranks n js"
      using Cons.prems(3) a(2,3) by (simp add: addable_def)
    with Cons.IH [of w' u'] Cons.prems a(1) s show ?case
      by simp
  qed simp
  from this [of "[0..<length ranks]" w "replicate NR_QUEUES False"] assms
  have "host_inv B (snd (foldl (add_rank_jobs ranks n js) (replicate NR_QUEUES False, w) [0..<length ranks]))"
    by (simp add: atLeast0LessThan)
  then show ?thesis
    by (auto simp: dpu_thread_job_add_jobs_def host_inv_def view_cong [OF view_broadcast_used] split: prod.splits)
qed

lemma pool_step_inv:
  assumes "pool_step E P P'" "callback_local E" "pool_inv P"
  shows "pool_inv P'"
  using assms
proof (induction rule: pool_step.induct)
  case (step_take i P q stop wk w')
  then show ?case by (intro worker_take_inv)
next
  case (step_work i P q r j ws wk w')
  then show ?case by (intro worker_next_inv)
next
  case (step_add P ranks n js)
  then show ?case
    using add_jobs_inv [of "busy_tokens (workers P)" "host_of P"] by (simp add: pool_inv_def host_inv_def)
qed

section \<open>Properties\<close>

inductive pool_reachable :: "'h job_env \<Rightarrow> 'h pool \<Rightarrow> 'h pool \<Rightarrow> bool" for E :: "'h job_env" where
  pool_refl: "pool_reachable E P P"
| pool_more: "pool_reachable E P P' \<Longrightarrow> pool_step E P' P'' \<Longrightarrow> pool_reachable E P P''"

lemma pool_reachable_inv:
  "pool_reachable E P P' \<Longrightarrow> callback_local E \<Longrightarrow> pool_inv P \<Longrightarrow> pool_inv P'"
  by (induction rule: pool_reachable.induct) (auto intro: pool_step_inv)

lemma busy_tokenD: "(r, j) \<in># busy_token wk \<Longrightarrow> wk = Busy r j"
  by (cases wk) auto

lemma busy_two:
  assumes "i < length ws" "k < length ws" "i \<noteq> k" "ws ! i = (q, Busy r j)" "ws ! k = (q', Busy r j')"
  shows "{#(r, j), (r, j')#} \<subseteq># busy_tokens ws"
proof -
  let ?ws = "ws[i := (q, Idle)]"
  have "busy_tokens ?ws + {#(r, j)#} = busy_tokens ws"
    using busy_tokens_update [OF assms(1,4), of Idle] by simp
  moreover have "(r, j') \<in># busy_tokens ?ws"
    using assms by (intro busy_token_mem [of k _ q']) simp_all
  ultimately show ?thesis
    by (metis add_mset_add_single insert_subset_eq_iff mset_subset_eq_single union_commute
        mset_subset_eq_mono_add_right_cancel)
qed

lemma token_inv_single:
  assumes "token_inv T J" "{#(r, j), (r, j')#} \<subseteq># T"
  shows False
proof -
  have "filter_mset (\<lambda>t. fst t = r) {#(r, j), (r, j')#} \<subseteq># filter_mset (\<lambda>t. fst t = r) T"
    using assms(2) by (rule multiset_filter_mono)
  then have "size {#(r, j), (r, j')#} \<le> size (head_token r (J r))"
    using assms(1) size_mset_mono by (fastforce simp: token_inv_def)
  then show False
    by (cases "J r") auto
qed



definition sim_pool :: "sim pool" where
  "sim_pool = \<lparr>host_of = sim_host [] [] [[], [], [], []], workers = [(0, Idle), (1, Idle)]\<rparr>"

lemma sim_pool_inv: "pool_inv sim_pool"
  by (simp add: pool_inv_def sim_pool_def sched_wf_def token_inv_def queue_tokens_def busy_tokens_def fifo_def
      less_Suc_eq)

lemma sim_env_local: "callback_local sim_env"
  by (simp add: callback_local_def sim_env_def)

lemma sim_pool_added:
  "pool_reachable sim_env sim_pool (sim_pool\<lparr>host_of := dpu_thread_job_add_jobs [0] 2 [12, 19] (host_of sim_pool)\<rparr>)"
proof (rule pool_more [OF pool_refl step_add])
  show "addable (host_of sim_pool) [0] 2 [12, 19]"
    by (simp add: addable_def sim_pool_def sim_host_def less_2_cases_iff)
qed

lemma sim_added_jobs:
  "jobs (hranks (dpu_thread_job_add_jobs [0] 2 [12, 19] (host_of sim_pool)) ! 0) = [12, 19]"
  "length (hranks (dpu_thread_job_add_jobs [0] 2 [12, 19] (host_of sim_pool))) = 2"
  by code_simp+


definition sim_busy_pool :: "sim pool" where
  "sim_busy_pool = \<lparr>host_of = snd (the (worker_take 0 False (dpu_thread_job_add_jobs [0] 2 [12, 19] (host_of sim_pool)))),
     workers = [(0, Busy 0 12), (1, Idle)]\<rparr>"

lemma sim_busy_reachable: "pool_reachable sim_env sim_pool sim_busy_pool"
proof -
  let ?w = "dpu_thread_job_add_jobs [0] 2 [12, 19] (host_of sim_pool)"
  have "map_option fst (worker_take 0 False ?w) = Some (Busy 0 12)" "0 < length (queues ?w)"
    by code_simp+
  then have "worker_take 0 False ?w = Some (Busy 0 12, host_of sim_busy_pool)"
    by (auto simp: sim_busy_pool_def)
  moreover have "sim_busy_pool = \<lparr>host_of = host_of sim_busy_pool, workers = (workers sim_pool)[0 := (0, Busy 0 12)]\<rparr>"
    by (simp add: sim_busy_pool_def sim_pool_def)
  ultimately show ?thesis
    using pool_more [OF sim_pool_added step_take [of 0 _ 0 False "Busy 0 12" "host_of sim_busy_pool"]]
      \<open>0 < length (queues ?w)\<close> by (simp add: sim_pool_def)
qed


end
