(* ===== verification/Submit.thy ===== *)
theory Submit
  imports Workers
begin

text \<open>
  The way in which the operations of the high-level API hand work to the ranks: get job slots, fill them, add the jobs
  to the FIFOs and, for a synchronous call, wait. \<^verbatim>\<open>dpu_launch\<close> and its variants, the copies of
  \<^verbatim>\<open>api/src/api/dpu_memory.c\<close> and \<^verbatim>\<open>dpu_callback\<close> all have this shape; it is defined and proved once here.
\<close>

section \<open>Submission\<close>

fun set_ranks :: "dpu_set_t \<Rightarrow> nat list" where
  "set_ranks (DPU_SET_RANKS ranks) = ranks"
| "set_ranks (DPU_SET_DPU rank dpu) = [rank]"
| "set_ranks DPU_SET_UNKNOWN = []"

text \<open>
  The wake-ups and addresses that a call meets: \<open>c_slots\<close> for the waits for free slots, \<open>c_waits\<close> for the wait
  for the sync object at \<open>c_sync\<close> (a local variable, as is the job at \<open>c_static\<close>), \<open>c_polls\<close> for a job
  run in place. The preemption thread reads \<^verbatim>\<open>dpu_set->list.ranks\<close> also when the set is one DPU, where
  that member of the union is not the one that was written: \<open>c_union\<close> is what it reads then.
\<close>

record 'h call_env =
  c_env :: "'h job_env"
  c_static :: nat
  c_sync :: nat
  c_slots :: "'h host_wakeups"
  c_waits :: "'h host_wakeups"
  c_polls :: "'h wakeups"
  c_union :: "nat list"

text \<open>
  \<open>body\<close> gives the job for each rank, in the state where the slots are filled. \<open>thread\<close> is what is done between the
  filling of the slots and the submission: the launches with preemption start a thread, whose action then is among
  the wake-ups. The boolean tells whether the jobs were submitted: \<^verbatim>\<open>DPU_THREAD_JOB_GET_JOBS\<close> returns from the caller
  when a slot cannot be taken.
\<close>

definition submit_jobs ::
  "'h call_env \<Rightarrow> nat list \<Rightarrow> bool \<Rightarrow> ('h host \<Rightarrow> nat \<Rightarrow> dpu_thread_job_body) \<Rightarrow>
     ('h host \<Rightarrow> 'h host_wakeups \<Rightarrow> 'h host_wakeups) \<Rightarrow> 'h host \<Rightarrow> (dpu_error_t \<times> bool \<times> 'h host) outcome" where
  "submit_jobs C ranks bool_sync body thread w =
     (case DPU_THREAD_JOB_GET_JOBS ranks (c_static C) (c_sync C) bool_sync (c_slots C) w of
        Done (status, js, n, w) \<Rightarrow>
          if status \<noteq> DPU_OK then Done (status, False, w)
          else let js = map the js;
                   w = DPU_THREAD_JOB_SET_JOBS ranks js (c_sync C) bool_sync (body w) w
               in (case dpu_thread_job_do_jobs (c_env C) (c_polls C) (thread w (c_waits C)) ranks n js bool_sync
                          (c_sync C) w of
                     Done (status, w) \<Rightarrow> Done (status, True, w)
                   | Blocks \<Rightarrow> Blocks
                   | Crashes \<Rightarrow> Crashes)
      | Blocks \<Rightarrow> Blocks
      | Crashes \<Rightarrow> Crashes)"

section \<open>Getting the slots\<close>

definition take_slot :: "nat \<Rightarrow> 'h host \<Rightarrow> 'h host" where
  "take_slot rank = upd_rank rank (\<lambda>R. R\<lparr>available_jobs := tl (available_jobs R),
     available_jobs_length := available_jobs_length R - 1\<rparr>)"

definition has_slot :: "'h host \<Rightarrow> nat \<Rightarrow> bool" where
  "has_slot w r \<longleftrightarrow> job_error (hranks w ! r) = DPU_OK \<and> available_jobs (hranks w ! r) \<noteq> []"

abbreviation (input) first_slot :: "'h host \<Rightarrow> nat \<Rightarrow> nat" where
  "first_slot w r \<equiv> hd (available_jobs (hranks w ! r))"

lemma get_job_has_slot:
  assumes "has_slot w r"
  shows "dpu_thread_job_get_job_unlocked r waits w = Done (DPU_OK, Some (first_slot w r), waits, take_slot r w)"
  using assms
  by (cases "available_jobs (hranks w ! r)")
    (simp_all add: has_slot_def take_slot_def upd_rank_def dpu_thread_job_get_job_unlocked.simps)

lemma take_slot_other [simp]: "s \<noteq> r \<Longrightarrow> hranks (take_slot r w) ! s = hranks w ! s"
  by (simp add: take_slot_def)

lemma take_slot_sel [simp]:
  "job_heap (take_slot r w) = job_heap w" "length (hranks (take_slot r w)) = length (hranks w)"
  by (simp_all add: take_slot_def)

lemma take_slot_rank [simp]:
  "s < length (hranks w) \<Longrightarrow> jobs (hranks (take_slot r w) ! s) = jobs (hranks w ! s)"
  "s < length (hranks w) \<Longrightarrow> queue_idx (hranks (take_slot r w) ! s) = queue_idx (hranks w ! s)"
  by (auto simp: take_slot_def nth_upd_rank)

lemma get_jobs_loop_slots:
  assumes "distinct (drop k ranks)" "\<forall>r \<in> set (drop k ranks). has_slot w r" "k \<le> length ranks"
    and "length jl = length ranks"
  shows "get_jobs_loop ranks 1 (map (\<lambda>i. (i, 0)) [k..<length ranks]) waits jl w =
    Done (DPU_OK, take k jl @ map (\<lambda>r. Some (first_slot w r)) (drop k ranks), foldl (\<lambda>w r. take_slot r w) w (drop k ranks))"
  using assms
proof (induction "length ranks - k" arbitrary: k jl w)
  case (Suc m)
  let ?r = "ranks ! k"
  have k: "k < length ranks" and d: "drop k ranks = ?r # drop (Suc k) ranks"
    using Suc.hyps(2) by (simp_all add: Cons_nth_drop_Suc)
  have u: "[k..<length ranks] = k # [Suc k..<length ranks]"
    using k by (simp add: upt_rec)
  have new: "r \<noteq> ?r" if "r \<in> set (drop (Suc k) ranks)" for r
    using Suc.prems(1) d that by auto
  have slots: "map (\<lambda>r. Some (first_slot (take_slot ?r w) r)) (drop (Suc k) ranks) =
      map (\<lambda>r. Some (first_slot w r)) (drop (Suc k) ranks)"
    using new by simp
  have "get_jobs_loop ranks 1 (map (\<lambda>i. (i, 0)) [Suc k..<length ranks]) waits
      (jl[k := Some (first_slot w ?r)]) (take_slot ?r w) =
    Done (DPU_OK, take (Suc k) (jl[k := Some (first_slot w ?r)])
      @ map (\<lambda>r. Some (first_slot (take_slot ?r w) r)) (drop (Suc k) ranks),
      foldl (\<lambda>w r. take_slot r w) (take_slot ?r w) (drop (Suc k) ranks))"
    using Suc.prems k d new by (intro Suc.hyps(1)) (use Suc.hyps(2) in \<open>auto simp: has_slot_def\<close>)
  moreover have "has_slot w ?r"
    using Suc.prems(2) d by simp
  ultimately show ?case
    using k Suc.prems(4) unfolding d u slots
    by (simp add: get_job_has_slot take_Suc_conv_app_nth del: upt_Suc)
qed simp

lemma get_jobs_slots:
  assumes "distinct ranks" "\<forall>r \<in> set ranks. has_slot w r"
  shows "DPU_THREAD_JOB_GET_JOBS ranks static sync False waits w =
    Done (DPU_OK, map (\<lambda>r. Some (first_slot w r)) ranks, 1, foldl (\<lambda>w r. take_slot r w) w ranks)"
proof -
  have "List.product [0..<length ranks] [0..<1] = map (\<lambda>i. (i, 0)) [0..<length ranks]"
    by (induction "[0..<length ranks]" arbitrary: ranks) (simp_all add: product_concat_map)
  then show ?thesis
    using get_jobs_loop_slots [of 0 ranks w "replicate (length ranks) None" waits] assms
    by (simp add: DPU_THREAD_JOB_GET_JOBS_def runs_in_place_def dpu_thread_job_get_jobs_def)
qed


lemma take_slots_spec:
  assumes "distinct ranks" "set ranks \<subseteq> {..<length (hranks w)}" "w' = foldl (\<lambda>w r. take_slot r w) w ranks"
  shows "length (hranks w') = length (hranks w) \<and> job_heap w' = job_heap w
    \<and> (\<forall>r < length (hranks w). hranks w' ! r =
        (if r \<in> set ranks then (hranks w ! r)\<lparr>available_jobs := tl (available_jobs (hranks w ! r)),
             available_jobs_length := available_jobs_length (hranks w ! r) - 1\<rparr>
         else hranks w ! r))"
  using assms
proof (induction ranks arbitrary: w)
  case (Cons r ranks)
  from Cons.IH [of "take_slot r w"] Cons.prems show ?case
    by (auto simp: take_slot_def nth_upd_rank)
qed simp

section \<open>Filling the slots and adding the jobs\<close>

lemma set_jobs_spec:
  assumes "distinct js" "n \<le> length js" "w' = foldl (\<lambda>w i. set_job (js ! i) (body i) w) w [0..<n]"
  shows "hranks w' = hranks w \<and> (\<forall>i < n. job_body (job_heap w' (js ! i)) = body i)
    \<and> (\<forall>j. j \<notin> set (take n js) \<longrightarrow> job_heap w' j = job_heap w j)"
  using assms
proof (induction n arbitrary: w')
  case (Suc n)
  have "js ! i \<noteq> js ! n" if "i < n" for i
    using Suc.prems(1,2) that by (simp add: nth_eq_iff_index_eq)
  with Suc show ?case
    by (auto simp: set_job_def less_Suc_eq take_Suc_conv_app_nth)
qed simp

lemma add_jobs_fold_spec:
  assumes "distinct ranks" "n \<le> length ranks" "set ranks \<subseteq> {..<length (hranks w)}"
    and "foldl (add_rank_jobs ranks 1 js) (u, w) [0..<n] = (u', w')"
  shows "length (hranks w') = length (hranks w) \<and> job_heap w' = job_heap w
    \<and> (\<forall>i < n. hranks w' ! (ranks ! i) =
        (hranks w ! (ranks ! i))\<lparr>jobs := jobs (hranks w ! (ranks ! i)) @ [js ! i]\<rparr>)
    \<and> (\<forall>r < length (hranks w). r \<notin> set (take n ranks) \<longrightarrow> hranks w' ! r = hranks w ! r)"
  using assms
proof (induction n arbitrary: u' w')
  case (Suc n)
  obtain u1 w1 where w1: "foldl (add_rank_jobs ranks 1 js) (u, w) [0..<n] = (u1, w1)"
    by fastforce
  then have step: "hranks w' = (hranks w1)[ranks ! n := (hranks w1 ! (ranks ! n))\<lparr>jobs := jobs (hranks w1 ! (ranks ! n)) @ [js ! n]\<rparr>]"
      "job_heap w' = job_heap w1"
    using Suc.prems(4) by (auto simp: add_rank_jobs_def Let_def upd_rank_def split: if_splits)
  note IH = Suc.IH [OF Suc.prems(1) _ Suc.prems(3) w1]
  have n: "n < length ranks" "ranks ! n < length (hranks w)"
    using Suc.prems by (auto simp: subset_iff)
  have new: "ranks ! n \<notin> set (take n ranks)"
    using Suc.prems(1) n(1) by (metis distinct_take id_take_nth_drop not_distinct_conv_prefix take_Suc_conv_app_nth)
  have other: "ranks ! n \<noteq> ranks ! i" if "i < n" for i
    using Suc.prems(1) n(1) that by (simp add: nth_eq_iff_index_eq)
  show ?case
    using IH n new other by (auto simp: step less_Suc_eq take_Suc_conv_app_nth)
qed simp

lemma add_jobs_spec:
  assumes "distinct ranks" "set ranks \<subseteq> {..<length (hranks w)}" "w' = dpu_thread_job_add_jobs ranks 1 js w"
  shows "job_heap w' = job_heap w \<and> length (hranks w') = length (hranks w)
    \<and> (\<forall>i < length ranks. hranks w' ! (ranks ! i) =
        (hranks w ! (ranks ! i))\<lparr>jobs := jobs (hranks w ! (ranks ! i)) @ [js ! i]\<rparr>)
    \<and> (\<forall>r < length (hranks w). r \<notin> set ranks \<longrightarrow> hranks w' ! r = hranks w ! r)"
proof -
  obtain u1 w1 where f: "foldl (add_rank_jobs ranks 1 js) (replicate NR_QUEUES False, w) [0..<length ranks] = (u1, w1)"
    by fastforce
  have w': "hranks w' = hranks w1" "job_heap w' = job_heap w1"
    using assms(3) f by (simp_all add: dpu_thread_job_add_jobs_def broadcast_used_sel)
  show ?thesis
    using add_jobs_fold_spec [OF assms(1) order_refl assms(2) f] unfolding w' by simp
qed

lemma async_submit:
  assumes "distinct ranks" "set ranks \<subseteq> {..<length (hranks w)}" "\<forall>r \<in> set ranks. has_slot w r"
    and "distinct (map (\<lambda>r. first_slot w r) ranks)"
  shows "\<exists>w'. submit_jobs C ranks False body thread w = Done (DPU_OK, True, w')
    \<and> (\<forall>i < length ranks. job_body (job_heap w' (first_slot w (ranks ! i))) =
         body (foldl (\<lambda>w r. take_slot r w) w ranks) i)
    \<and> (\<forall>r \<in> set ranks. hranks w' ! r = (hranks w ! r)\<lparr>
         available_jobs := tl (available_jobs (hranks w ! r)),
         available_jobs_length := available_jobs_length (hranks w ! r) - 1,
         jobs := jobs (hranks w ! r) @ [first_slot w r]\<rparr>)
    \<and> (\<forall>r < length (hranks w). r \<notin> set ranks \<longrightarrow> hranks w' ! r = hranks w ! r)
    \<and> length (hranks w') = length (hranks w)"
proof -
  define js where "js = map (\<lambda>r. first_slot w r) ranks"
  define w1 where "w1 = foldl (\<lambda>w r. take_slot r w) w ranks"
  define w2 where "w2 = foldl (\<lambda>w' i. set_job (js ! i) (body w1 i) w') w1 [0..<length ranks]"
  define w3 where "w3 = dpu_thread_job_add_jobs ranks 1 js w2"
  have "map the (map (\<lambda>r. Some (first_slot w r)) ranks) = js"
    by (simp add: js_def)
  then have r: "submit_jobs C ranks False body thread w = Done (DPU_OK, True, w3)"
    using get_jobs_slots [OF assms(1,3), of "c_static C" "c_sync C" "c_slots C"]
    by (simp add: submit_jobs_def DPU_THREAD_JOB_SET_JOBS_def dpu_thread_job_do_jobs_def w1_def w2_def w3_def)
  note one = take_slots_spec [OF assms(1,2) w1_def]
  have js: "distinct js" "length js = length ranks"
    using assms(4) by (simp_all add: js_def)
  have two: "hranks w2 = hranks w1" "\<forall>i < length ranks. job_body (job_heap w2 (js ! i)) = body w1 i"
    using set_jobs_spec [OF js(1) _ w2_def] js(2) by simp_all
  have three: "job_heap w3 = job_heap w2"
      "\<forall>i < length ranks. hranks w3 ! (ranks ! i) =
        (hranks w1 ! (ranks ! i))\<lparr>jobs := jobs (hranks w1 ! (ranks ! i)) @ [js ! i]\<rparr>"
      "\<forall>r < length (hranks w). r \<notin> set ranks \<longrightarrow> hranks w3 ! r = hranks w1 ! r"
    using add_jobs_spec [OF assms(1) _ w3_def] assms(2) two(1) one by simp_all
  have "hranks w3 ! r = (hranks w ! r)\<lparr>available_jobs := tl (available_jobs (hranks w ! r)),
      available_jobs_length := available_jobs_length (hranks w ! r) - 1,
      jobs := jobs (hranks w ! r) @ [first_slot w r]\<rparr>" if r: "r \<in> set ranks" for r
  proof -
    obtain i where i: "i < length ranks" "r = ranks ! i"
      using r by (auto simp: in_set_conv_nth)
    have "r < length (hranks w)"
      using assms(2) r by auto
    then show ?thesis
      using three(2) i one r by (simp add: js_def)
  qed
  moreover have "\<forall>r < length (hranks w). r \<notin> set ranks \<longrightarrow> hranks w3 ! r = hranks w ! r"
    using three(3) one by simp
  moreover have "\<forall>i < length ranks. job_body (job_heap w3 (first_slot w (ranks ! i))) = body w1 i"
    using two(2) three(1) by (simp add: js_def)
  moreover have "length (hranks w3) = length (hranks w)"
    using add_jobs_spec [OF assms(1) _ w3_def] assms(2) two(1) one by simp
  ultimately show ?thesis
    using r unfolding w1_def by blast
qed

section \<open>Properties\<close>

text \<open>
  C20: an asynchronous operation on ranks that have no error and have a free slot each succeeds without waiting: the
  first free slot of each rank leaves the free list, holds the job of the operation, and is appended to the FIFO of the
  rank; nothing else of these ranks changes, and the other ranks are untouched.
\<close>

theorem asynchronous_submission:
  assumes "distinct ranks" "set ranks \<subseteq> {..<length (hranks w)}" "\<forall>r \<in> set ranks. has_slot w r"
    and "distinct (map (\<lambda>r. first_slot w r) ranks)"
  shows "\<exists>w'. submit_jobs C ranks False body thread w = Done (DPU_OK, True, w')
    \<and> (\<forall>i < length ranks. job_body (job_heap w' (first_slot w (ranks ! i))) =
         body (foldl (\<lambda>w r. take_slot r w) w ranks) i)
    \<and> (\<forall>r \<in> set ranks. hranks w' ! r = (hranks w ! r)\<lparr>
         available_jobs := tl (available_jobs (hranks w ! r)),
         available_jobs_length := available_jobs_length (hranks w ! r) - 1,
         jobs := jobs (hranks w ! r) @ [first_slot w r]\<rparr>)
    \<and> (\<forall>r < length (hranks w). r \<notin> set ranks \<longrightarrow> hranks w' ! r = hranks w ! r)"
  using async_submit [OF assms] by blast

definition sim_call :: "'a host_wakeups \<Rightarrow> 'a job_env \<Rightarrow> 'a call_env" where
  "sim_call waits E = \<lparr>c_env = E, c_static = 50, c_sync = 0, c_slots = [], c_waits = waits, c_polls = [], c_union = []\<rparr>"

theorem asynchronous_submission_witness:
  "\<exists>w'. submit_jobs (sim_call [] sim_env) [0, 1] False (\<lambda>_ _. DPU_THREAD_JOB_LAUNCH_RANK) (\<lambda>_ ws. ws)
       (sim_host [] [22] [[], [22], [], []]) = Done (DPU_OK, True, w')
     \<and> jobs (hranks w' ! 0) = [10] \<and> jobs (hranks w' ! 1) = [22, 20]"
  using asynchronous_submission [of "[0, 1]" "sim_host [] [22] [[], [22], [], []]" "sim_call [] sim_env"
      "\<lambda>_ _. DPU_THREAD_JOB_LAUNCH_RANK" "\<lambda>_ ws. ws"]
  by (auto simp: has_slot_def)

end
