(* ===== verification/Preempt.thy ===== *)
theory Preempt
  imports Submit "HOL-Library.Signed_Division"
begin

text \<open>
  The launch functions of the high-level API and the lazy preemption of struggling ranks
  (\<^verbatim>\<open>api/src/api/dpu_runner.c\<close>), and \<^verbatim>\<open>dpu_sync\<close> (\<^verbatim>\<open>api/src/api/dpu_polling.c\<close>). While the jobs of a launch
  run, a thread looks at the ranks every 50 ms; once enough of them are done it aborts the others, by a reset
  of the rank or, in advance mode, by declaring that no DPU of it runs.

  Times are in microseconds. The two \<^verbatim>\<open>double\<close> computations are modelled by the exact numbers: for
  durations below \<open>2 ^ 40\<close> ms the rounding cannot change the truncated milliseconds nor the comparison.
\<close>

section \<open>The state of the preemption thread\<close>

text \<open>
  The members of \<^verbatim>\<open>struct preempt_info\<close> that the code reads back. The set is represented by its ranks, the host function
  is an argument of the functions that call it, \<^verbatim>\<open>check_interval\<close> is a constant of the sleep and \<^verbatim>\<open>prev_done\<close> is only read by
  the unused \<^verbatim>\<open>each_rank_status_2\<close>. All ranks of a round are looked at with one time stamp.
\<close>

record timeval =
  tv_sec :: int
  tv_usec :: int

record preempt_info =
  p_ranks :: "nat list"
  avg_execution_dur :: int
  nr_rank :: int
  nr_rank_threshold :: int
  rank_done :: "int list"
  execution_times :: "int list"
  startTime :: timeval
  num_done :: int
  p_abort :: "int list"

text \<open>\<^verbatim>\<open>(long long)((s1 - s0) * 1000.0 + (u1 - u0) / 1000.0)\<close>\<close>

definition getElaspedTime :: "timeval \<Rightarrow> timeval \<Rightarrow> int" where
  "getElaspedTime start now =
     ((tv_sec now - tv_sec start) * 1000000 + (tv_usec now - tv_usec start)) sdiv 1000"

text \<open>\<^verbatim>\<open>elapsed * (1 + 0.2) > avg_execution_dur\<close>\<close>

definition determine_struggle_dpu :: "timeval \<Rightarrow> preempt_info \<Rightarrow> bool" where
  "determine_struggle_dpu now p \<longleftrightarrow>
     (if num_done p < nr_rank_threshold p then False
      else 6 * getElaspedTime (startTime p) now > 5 * avg_execution_dur p)"

text \<open>One rank of \<^verbatim>\<open>each_rank_status\<close>; \<open>now\<close> is the time when the rank is examined.\<close>

definition record_done :: "int \<Rightarrow> nat \<Rightarrow> preempt_info \<Rightarrow> preempt_info" where
  "record_done elapsedTime i p =
     (let p = p\<lparr>rank_done := (rank_done p)[i := 1], execution_times := (execution_times p)[i := elapsedTime]\<rparr>;
          p = p\<lparr>avg_execution_dur := avg_execution_dur p * num_done p + elapsedTime, num_done := num_done p + 1\<rparr>
      in p\<lparr>avg_execution_dur := avg_execution_dur p sdiv num_done p\<rparr>)"

definition rank_status :: "timeval \<Rightarrow> preempt_info \<times> 'h host \<Rightarrow> nat \<Rightarrow> preempt_info \<times> 'h host" where
  "rank_status now = (\<lambda>(p, w) i.
     let rank = p_ranks p ! i;
         ((done, fault), status, r) = dpu_status_rank (low (hranks w ! rank));
         w = upd_low rank (\<lambda>_. r) w;
         w = (if status \<noteq> DPU_OK then upd_rank rank (\<lambda>R. R\<lparr>api_abort := True\<rparr>) w else w)
     in if done
        then (if rank_done p ! i = 0
              then (record_done (getElaspedTime (startTime p) now) i p,
                    upd_rank rank (\<lambda>R. R\<lparr>api_abort := False\<rparr>) w)
              else (p, w))
        else if fault then (p\<lparr>rank_done := (rank_done p)[i := 2]\<rparr>, w)
        else (p, w))"

definition each_rank_status :: "timeval \<Rightarrow> preempt_info \<Rightarrow> 'h host \<Rightarrow> preempt_info \<times> 'h host" where
  "each_rank_status now p w = foldl (rank_status now) (p, w) [0..<nat (nr_rank p)]"

section \<open>Aborting\<close>

text \<open>\<open>host_func\<close> is the function of the user that computes the work of the aborted rank on the host.\<close>

definition mark_aborted :: "nat \<Rightarrow> 'h host \<Rightarrow> 'h host" where
  "mark_aborted rank = upd_rank rank (\<lambda>R. R\<lparr>should_stop := True, api_abort := True\<rparr>)"

definition abort_struggling_dpu ::
  "'h dpu_rank_handler \<Rightarrow> (nat \<Rightarrow> 'h host \<Rightarrow> 'h host) option \<Rightarrow> preempt_info \<Rightarrow> nat \<Rightarrow> 'h host \<Rightarrow> 'h host" where
  "abort_struggling_dpu H host_func p i w =
     (let rank = p_ranks p ! i;
          w = snd (low_op rank (dpu_reset_rank H) (mark_aborted rank w))
      in case host_func of None \<Rightarrow> w | Some f \<Rightarrow> f i w)"

text \<open>
  The loop of the advance mode. After each iteration another thread may have changed the rank: \<open>ws\<close> are these
  changes; when they are exhausted nobody interferes any more.
\<close>

definition clear_nb_running :: "'h dpu_rank_t \<Rightarrow> 'h dpu_rank_t" where
  "clear_nb_running r = r\<lparr>run_context := (run_context r)\<lparr>nb_dpu_running := 0\<rparr>\<rparr>"

fun abort_advance_loop :: "'h wakeups \<Rightarrow> 'h dpu_rank_t \<Rightarrow> 'h dpu_rank_t" where
  "abort_advance_loop [] r = (if nb_dpu_running (run_context r) = 0 then r else clear_nb_running r)"
| "abort_advance_loop (w # ws) r =
     (if nb_dpu_running (run_context r) = 0 then r else abort_advance_loop ws (w (clear_nb_running r)))"

definition abort_struggling_dpu_advance :: "'h wakeups \<Rightarrow> preempt_info \<Rightarrow> nat \<Rightarrow> 'h host \<Rightarrow> 'h host" where
  "abort_struggling_dpu_advance ws p i w =
     (let rank = p_ranks p ! i in upd_low rank (abort_advance_loop ws) (mark_aborted rank w))"

definition abort_loop ::
  "(preempt_info \<Rightarrow> nat \<Rightarrow> 'h host \<Rightarrow> 'h host) \<Rightarrow> preempt_info \<Rightarrow> 'h host \<Rightarrow> preempt_info \<times> 'h host" where
  "abort_loop abort_one p w = foldl (\<lambda>(p, w) i.
     if rank_done p ! i = 0 then (p\<lparr>p_abort := (p_abort p)[i := 1]\<rparr>, abort_one p i w)
     else (p\<lparr>p_abort := (p_abort p)[i := 0]\<rparr>, w)) (p, w) [0..<nat (nr_rank p)]"

definition abort_struggling_dpus ::
  "'h dpu_rank_handler \<Rightarrow> (nat \<Rightarrow> 'h host \<Rightarrow> 'h host) option \<Rightarrow> preempt_info \<Rightarrow> 'h host \<Rightarrow>
     preempt_info \<times> 'h host" where
  "abort_struggling_dpus H host_func p w = abort_loop (abort_struggling_dpu H host_func) p w"

definition abort_struggling_dpus_advance ::
  "(nat \<Rightarrow> 'h wakeups) \<Rightarrow> preempt_info \<Rightarrow> 'h host \<Rightarrow> preempt_info \<times> 'h host" where
  "abort_struggling_dpus_advance ws p w = abort_loop (\<lambda>p i. abort_struggling_dpu_advance (ws i) p i) p w"

section \<open>The polling loop\<close>

text \<open>
  A round of the loop: the value of \<^verbatim>\<open>stop_polling\<close> at its beginning, what the other threads do during
  the sleep, and the time at which the thread looks at the ranks and decides. The loop still runs (\<open>None\<close>) when the
  rounds are exhausted.
\<close>

record 'h round =
  rd_stop :: bool
  rd_others :: "'h host \<Rightarrow> 'h host"
  rd_now :: timeval

fun poll_loop :: "'h round list \<Rightarrow> preempt_info \<Rightarrow> 'h host \<Rightarrow> (bool \<times> preempt_info \<times> 'h host \<times> timeval) option" where
  "poll_loop [] p w = None"
| "poll_loop (rd # rds) p w =
     (if rd_stop rd then Some (False, p, w, rd_now rd)
      else case each_rank_status (rd_now rd) p (rd_others rd w) of (p, w) \<Rightarrow>
        if determine_struggle_dpu (rd_now rd) p then Some (True, p, w, rd_now rd)
        else poll_loop rds p w)"

definition dpu_poll_status ::
  "'h dpu_rank_handler \<Rightarrow> (nat \<Rightarrow> 'h host \<Rightarrow> 'h host) option \<Rightarrow> timeval \<Rightarrow> 'h round list \<Rightarrow> preempt_info \<Rightarrow>
     'h host \<Rightarrow> (bool \<times> preempt_info \<times> 'h host) option" where
  "dpu_poll_status H host_func start rounds p w =
     (case poll_loop rounds (p\<lparr>startTime := start\<rparr>) w of
        None \<Rightarrow> None
      | Some (abort, p, w, _) \<Rightarrow>
          Some (if abort then (True, abort_struggling_dpus H host_func p w) else (False, p, w)))"

definition dpu_poll_status_advance ::
  "(nat \<Rightarrow> 'h wakeups) \<Rightarrow> timeval \<Rightarrow> 'h round list \<Rightarrow> preempt_info \<Rightarrow> 'h host \<Rightarrow>
     (bool \<times> preempt_info \<times> 'h host) option" where
  "dpu_poll_status_advance ws start rounds p w =
     (case poll_loop rounds (p\<lparr>startTime := start\<rparr>) w of
        None \<Rightarrow> None
      | Some (abort, p, w, _) \<Rightarrow>
          Some (if abort then (True, abort_struggling_dpus_advance ws p w) else (False, p, w)))"

text \<open>
  \<^verbatim>\<open>nr_rank_threshold = RANK_THRESHOLD * nr_rank\<close> is a product of \<^verbatim>\<open>double\<close>s, truncated. \<open>abort_arg\<close> is the
  array of the caller.
\<close>

definition init_preempt :: "nat list \<Rightarrow> u32 \<Rightarrow> int list \<Rightarrow> preempt_info" where
  "init_preempt ranks sync_nr abort_arg =
     (let n = int (unat sync_nr)
      in \<lparr>p_ranks = ranks, avg_execution_dur = 0, nr_rank = n, nr_rank_threshold = (2 * n) sdiv 5,
          rank_done = replicate (nat n) 0, execution_times = replicate (nat n) 0,
          startTime = \<lparr>tv_sec = 0, tv_usec = 0\<rparr>, num_done = 0, p_abort = abort_arg\<rparr>)"

definition clean_preempt :: "nat \<Rightarrow> 'h host \<Rightarrow> 'h host" where
  "clean_preempt sync w = w\<lparr>sync_heap := (sync_heap w)(sync := (sync_heap w sync)\<lparr>sync_nr_ranks := 0\<rparr>)\<rparr>"

section \<open>Launching\<close>

datatype dpu_launch_policy_t = DPU_ASYNCHRONOUS | DPU_SYNCHRONOUS

fun launch_job :: "dpu_set_t \<Rightarrow> dpu_thread_job_body" where
  "launch_job (DPU_SET_DPU rank dpu) = DPU_THREAD_JOB_LAUNCH_DPU rank dpu"
| "launch_job _ = DPU_THREAD_JOB_LAUNCH_RANK"

text \<open>
  A launch with preemption starts the preemption thread between the filling of the slots and the submission of the
  jobs. The thread acts while the caller waits: its action is the wake-up number \<open>pe_at\<close>, with the times and
  the interferences of the other threads in \<open>pe_rounds\<close> and \<open>pe_advance\<close>. A thread that does not decide to abort before
  the jobs have ended is a schedule whose last round sees \<^verbatim>\<open>stop_polling\<close>. When the call returns the thread has been
  joined.
\<close>

record 'h preempt_env =
  pe_at :: nat
  pe_start :: timeval
  pe_rounds :: "'h round list"
  pe_advance :: "nat \<Rightarrow> 'h wakeups"

definition list_ranks :: "'h call_env \<Rightarrow> dpu_set_t \<Rightarrow> nat list" where
  "list_ranks C dpu_set = (case dpu_set of DPU_SET_RANKS ranks \<Rightarrow> ranks | _ \<Rightarrow> c_union C)"

definition with_thread ::
  "nat \<Rightarrow> (preempt_info \<Rightarrow> 'h host \<Rightarrow> (bool \<times> preempt_info \<times> 'h host) option) \<Rightarrow> preempt_info \<Rightarrow> 'h host_wakeups \<Rightarrow>
     'h host_wakeups" where
  "with_thread k run p waits =
     take k waits @ (\<lambda>w. case run p w of Some (_, _, w') \<Rightarrow> w' | None \<Rightarrow> w) # drop k waits"

definition launch_with ::
  "('h host \<Rightarrow> 'h host_wakeups \<Rightarrow> 'h host_wakeups) \<Rightarrow> ('h host \<Rightarrow> 'h host) \<Rightarrow> 'h call_env \<Rightarrow> dpu_set_t \<Rightarrow>
     dpu_launch_policy_t \<Rightarrow> 'h host \<Rightarrow> (dpu_error_t \<times> 'h host) outcome" where
  "launch_with thread clean C dpu_set policy w =
     (if dpu_set = DPU_SET_UNKNOWN then Done (DPU_ERR_INTERNAL, w)
      else case submit_jobs C (set_ranks dpu_set) (policy = DPU_SYNCHRONOUS) (\<lambda>_ _. launch_job dpu_set) thread w of
             Done (status, submitted, w) \<Rightarrow> Done (status, if submitted then clean w else w)
           | Blocks \<Rightarrow> Blocks
           | Crashes \<Rightarrow> Crashes)"

definition dpu_launch ::
  "'h call_env \<Rightarrow> dpu_set_t \<Rightarrow> dpu_launch_policy_t \<Rightarrow> 'h host \<Rightarrow> (dpu_error_t \<times> 'h host) outcome" where
  "dpu_launch = launch_with (\<lambda>_ waits. waits) (\<lambda>w. w)"

definition dpu_launch_preempt_restart ::
  "(nat \<Rightarrow> 'h host \<Rightarrow> 'h host) option \<Rightarrow> int list \<Rightarrow> 'h preempt_env \<Rightarrow> 'h call_env \<Rightarrow> dpu_set_t \<Rightarrow> dpu_launch_policy_t \<Rightarrow>
     'h host \<Rightarrow> (dpu_error_t \<times> 'h host) outcome" where
  "dpu_launch_preempt_restart host_func abort_arg P C dpu_set =
     launch_with (\<lambda>w. with_thread (pe_at P) (dpu_poll_status (backend (c_env C)) host_func (pe_start P) (pe_rounds P))
         (init_preempt (list_ranks C dpu_set) (sync_nr_ranks (sync_heap w (c_sync C))) abort_arg))
       (clean_preempt (c_sync C)) C dpu_set"

definition dpu_launch_preempt ::
  "int list \<Rightarrow> 'h preempt_env \<Rightarrow> 'h call_env \<Rightarrow> dpu_set_t \<Rightarrow> dpu_launch_policy_t \<Rightarrow> 'h host \<Rightarrow>
     (dpu_error_t \<times> 'h host) outcome" where
  "dpu_launch_preempt abort_arg P C dpu_set =
     launch_with (\<lambda>w. with_thread (pe_at P) (dpu_poll_status (backend (c_env C)) None (pe_start P) (pe_rounds P))
         (init_preempt (list_ranks C dpu_set) (sync_nr_ranks (sync_heap w (c_sync C))) abort_arg))
       (clean_preempt (c_sync C)) C dpu_set"

definition dpu_launch_preempt_advance ::
  "int list \<Rightarrow> 'h preempt_env \<Rightarrow> 'h call_env \<Rightarrow> dpu_set_t \<Rightarrow> dpu_launch_policy_t \<Rightarrow> 'h host \<Rightarrow>
     (dpu_error_t \<times> 'h host) outcome" where
  "dpu_launch_preempt_advance abort_arg P C dpu_set =
     launch_with (\<lambda>w. with_thread (pe_at P) (dpu_poll_status_advance (pe_advance P) (pe_start P) (pe_rounds P))
         (init_preempt (list_ranks C dpu_set) (sync_nr_ranks (sync_heap w (c_sync C))) abort_arg))
       (clean_preempt (c_sync C)) C dpu_set"

section \<open>Synchronisation and status\<close>

definition dpu_sync :: "'h call_env \<Rightarrow> dpu_set_t \<Rightarrow> 'h host \<Rightarrow> (dpu_error_t \<times> 'h host) outcome" where
  "dpu_sync C dpu_set w =
     (if dpu_set = DPU_SET_UNKNOWN then Done (DPU_ERR_INTERNAL, w)
      else let ranks = set_ranks dpu_set;
               w = dpu_thread_job_init_sync_job (c_sync C) (word_of_nat (length ranks)) w
           in case DPU_THREAD_JOB_GET_JOBS ranks (c_static C) (c_sync C) False (c_slots C) w of
                Done (status, js, n, w) \<Rightarrow>
                  if status \<noteq> DPU_OK then Done (status, w)
                  else let js = map the js;
                           w = foldl (\<lambda>w each_rank. set_job (js ! each_rank) (DPU_THREAD_JOB_SYNC (c_sync C)) w) w
                                 [0..<length ranks]
                       in dpu_thread_job_do_jobs (c_env C) (c_polls C) (c_waits C) ranks n js True (c_sync C) w
              | Blocks \<Rightarrow> Blocks
              | Crashes \<Rightarrow> Crashes)"

text \<open>\<^verbatim>\<open>dpu_status\<close> ignores the result of \<^verbatim>\<open>dpu_sync\<close>.\<close>

fun status_ranks :: "nat list \<Rightarrow> bool \<times> bool \<Rightarrow> 'h host \<Rightarrow> (bool \<times> bool) \<times> dpu_error_t \<times> 'h host" where
  "status_ranks [] df w = (df, DPU_OK, w)"
| "status_ranks (rank # ranks) (done, fault) w =
     (case dpu_status_rank (low (hranks w ! rank)) of
        ((this_done, this_fault), status, r) \<Rightarrow>
          let w = upd_low rank (\<lambda>_. r) w
          in if status \<noteq> DPU_OK then ((done, fault), status, w)
             else status_ranks ranks (done \<and> this_done, fault \<or> this_fault) w)"

definition dpu_status ::
  "'h call_env \<Rightarrow> dpu_set_t \<Rightarrow> 'h host \<Rightarrow> ((bool \<times> bool) option \<times> dpu_error_t \<times> 'h host) outcome" where
  "dpu_status C dpu_set w =
     (case dpu_sync C dpu_set w of
        Done (_, w) \<Rightarrow>
          (case dpu_set of
             DPU_SET_RANKS ranks \<Rightarrow> (case status_ranks ranks (True, False) w of (df, st, w) \<Rightarrow> Done (Some df, st, w))
           | DPU_SET_DPU rank dpu \<Rightarrow>
               (case dpu_status_dpu dpu (low (hranks w ! rank)) of
                  (df, st, r) \<Rightarrow> Done (df, st, upd_low rank (\<lambda>_. r) w))
           | DPU_SET_UNKNOWN \<Rightarrow> Done (None, DPU_ERR_INTERNAL, w))
      | Blocks \<Rightarrow> Blocks
      | Crashes \<Rightarrow> Crashes)"

section \<open>The book-keeping of the preemption thread\<close>

text \<open>
  \<open>T\<close> bounds the elapsed times seen so far. \<open>num_done\<close> never exceeds the number of ranks that are marked, and the
  average stays between zero and \<open>T\<close> in spite of the truncated divisions.
\<close>

definition pinv :: "int \<Rightarrow> preempt_info \<Rightarrow> bool" where
  "pinv T p \<longleftrightarrow> 0 \<le> avg_execution_dur p \<and> avg_execution_dur p \<le> T \<and> 0 \<le> num_done p
     \<and> num_done p \<le> int (length (filter (\<lambda>x. x \<noteq> 0) (rank_done p)))
     \<and> length (rank_done p) = nat (nr_rank p) \<and> length (execution_times p) = nat (nr_rank p)"

definition same_setup :: "preempt_info \<Rightarrow> preempt_info \<Rightarrow> bool" where
  "same_setup p p' \<longleftrightarrow> startTime p' = startTime p \<and> nr_rank p' = nr_rank p \<and> p_ranks p' = p_ranks p
     \<and> nr_rank_threshold p' = nr_rank_threshold p \<and> p_abort p' = p_abort p \<and> num_done p \<le> num_done p'"

lemma sdiv_nonneg: "0 \<le> a \<Longrightarrow> 0 < b \<Longrightarrow> a sdiv b = a div (b :: int)"
  by (cases "a = 0") (simp_all add: signed_divide_int_def)

lemma average_bounds:
  fixes a n e T :: int
  assumes "0 \<le> a" "a \<le> T" "0 \<le> n" "0 \<le> e" "e \<le> T"
  shows "0 \<le> (a * n + e) sdiv (n + 1)" "(a * n + e) sdiv (n + 1) \<le> T"
proof -
  have "a * n + e \<le> T * (n + 1)"
    using mult_right_mono [OF assms(2,3)] assms(5) by (simp add: algebra_simps)
  then have "(a * n + e) div (n + 1) \<le> T * (n + 1) div (n + 1)"
    using assms(3) by (intro zdiv_mono1) auto
  then show "(a * n + e) sdiv (n + 1) \<le> T"
    using assms by (simp add: sdiv_nonneg)
  show "0 \<le> (a * n + e) sdiv (n + 1)"
    using assms by (simp add: sdiv_nonneg pos_imp_zdiv_nonneg_iff)
qed

lemma filter_nonzero_update:
  assumes "i < length xs" "v \<noteq> (0 :: int)"
  shows "length (filter (\<lambda>x. x \<noteq> 0) (xs[i := v])) =
    length (filter (\<lambda>x. x \<noteq> 0) xs) + (if xs ! i = 0 then 1 else 0)"
  using assms
proof (induction xs arbitrary: i)
  case (Cons x xs)
  then show ?case by (cases i) auto
qed simp

lemma record_done_inv:
  assumes "pinv T p" "T \<le> e" "0 \<le> e" "i < nat (nr_rank p)" "rank_done p ! i = 0"
  shows "pinv e (record_done e i p)" "same_setup p (record_done e i p)"
proof -
  have "pinv e p"
    using assms(1,2) by (simp add: pinv_def)
  then show "pinv e (record_done e i p)"
    using average_bounds [of "avg_execution_dur p" e "num_done p" e] assms(3-5)
      filter_nonzero_update [of i "rank_done p" 1]
    by (simp add: pinv_def record_done_def Let_def)
  show "same_setup p (record_done e i p)"
    by (simp add: same_setup_def record_done_def Let_def)
qed

lemma rank_status_inv:
  assumes "pinv T p" "T \<le> e" "0 \<le> e" "e = getElaspedTime (startTime p) now" "i < nat (nr_rank p)"
    and "rank_status now (p, w) i = (p', w')"
  shows "pinv e p' \<and> same_setup p p'"
proof -
  let ?r = "low (hranks w ! (p_ranks p ! i))"
  obtain dn flt st r where s: "dpu_status_rank ?r = ((dn, flt), st, r)"
    by (metis surj_pair)
  have e: "pinv e p" "same_setup p p"
    using assms(1,2) by (simp_all add: pinv_def same_setup_def)
  have two: "pinv e (p\<lparr>rank_done := (rank_done p)[i := 2]\<rparr>)"
      "same_setup p (p\<lparr>rank_done := (rank_done p)[i := 2]\<rparr>)"
    using e(1) assms(5) filter_nonzero_update [of i "rank_done p" 2] by (auto simp: pinv_def same_setup_def)
  have "p' = (if dn then if rank_done p ! i = 0 then record_done e i p else p
      else if flt then p\<lparr>rank_done := (rank_done p)[i := 2]\<rparr> else p)"
    using assms(4,6) s by (auto simp: rank_status_def Let_def split: if_splits)
  then show ?thesis
    using record_done_inv [OF assms(1-3,5)] e two by simp
qed

lemma each_rank_status_inv:
  assumes "pinv T p" "T \<le> e" "0 \<le> e" "e = getElaspedTime (startTime p) now"
    and "each_rank_status now p w = (p', w')"
  shows "pinv e p' \<and> same_setup p p'"
proof -
  have "pinv e p' \<and> same_setup p p'"
    if "foldl (rank_status now) (p, w) xs = (p', w')" "set xs \<subseteq> {..<nat (nr_rank p)}" "pinv e p"
      "e = getElaspedTime (startTime p) now" for xs p w
    using that
  proof (induction xs arbitrary: p w)
    case Nil
    then show ?case by (simp add: same_setup_def)
  next
    case (Cons x xs)
    obtain p1 w1 where s: "rank_status now (p, w) x = (p1, w1)"
      by fastforce
    have p1: "pinv e p1" "same_setup p p1"
      using rank_status_inv [OF Cons.prems(3) _ assms(3) Cons.prems(4) _ s] Cons.prems(2) by auto
    have eqs: "startTime p1 = startTime p" "nr_rank p1 = nr_rank p"
      using p1(2) by (simp_all add: same_setup_def)
    have "pinv e p' \<and> same_setup p1 p'"
    proof (rule Cons.IH [OF _ _ p1(1)])
      show "foldl (rank_status now) (p1, w1) xs = (p', w')"
        using Cons.prems(1) s by simp
      show "set xs \<subseteq> {..<nat (nr_rank p1)}"
        using Cons.prems(2) eqs by simp
      show "e = getElaspedTime (startTime p1) now"
        unfolding eqs by (rule Cons.prems(4))
    qed
    with p1(2) show ?case
      by (auto simp: same_setup_def)
  qed
  note loop = this [of p w "[0..<nat (nr_rank p)]"]
  have "pinv e p"
    using assms(1,2) by (simp add: pinv_def)
  with loop assms(4,5) show ?thesis
    by (simp add: each_rank_status_def atLeast0LessThan)
qed

text \<open>The clock of a sequence of rounds does not run backwards.\<close>

fun monotone_clock :: "timeval \<Rightarrow> int \<Rightarrow> 'h round list \<Rightarrow> bool" where
  "monotone_clock start T [] \<longleftrightarrow> True"
| "monotone_clock start T (rd # rds) \<longleftrightarrow>
     T \<le> getElaspedTime start (rd_now rd) \<and> monotone_clock start (getElaspedTime start (rd_now rd)) rds"

lemma determine_iff_threshold:
  assumes "pinv e p" "e = getElaspedTime (startTime p) now" "0 < e"
  shows "determine_struggle_dpu now p \<longleftrightarrow> num_done p \<ge> nr_rank_threshold p"
  using assms by (auto simp: determine_struggle_dpu_def pinv_def)

lemma decision_by_threshold:
  assumes "pinv T p" "T \<le> getElaspedTime (startTime p) now" "0 < getElaspedTime (startTime p) now"
    and "each_rank_status now p w = (p', w')"
  shows "determine_struggle_dpu now p' \<longleftrightarrow> num_done p' \<ge> nr_rank_threshold p'"
proof -
  let ?e = "getElaspedTime (startTime p) now"
  have inv: "pinv ?e p' \<and> same_setup p p'"
    by (rule each_rank_status_inv [OF assms(1,2) _ refl assms(4)]) (use assms(3) in linarith)
  then have "?e = getElaspedTime (startTime p') now"
    unfolding same_setup_def by metis
  then show ?thesis
    using determine_iff_threshold [OF conjunct1 [OF inv]] assms(3) by blast
qed

lemma poll_loop_decision:
  assumes "pinv T p" "0 \<le> T" "monotone_clock (startTime p) T rounds"
    and "poll_loop rounds p w = Some (abort, p', w', now)"
  shows "same_setup p p' \<and> (abort \<longrightarrow> num_done p' \<ge> nr_rank_threshold p' \<and> num_done p' \<le> max 0 (nr_rank p')
      \<and> pinv (getElaspedTime (startTime p') now) p')"
  using assms
proof (induction rounds arbitrary: p w T)
  case (Cons rd rds)
  show ?case
  proof (cases "rd_stop rd")
    case True
    with Cons.prems show ?thesis by (simp add: same_setup_def)
  next
    case False
    let ?e = "getElaspedTime (startTime p) (rd_now rd)"
    obtain p1 w1 where s: "each_rank_status (rd_now rd) p (rd_others rd w) = (p1, w1)"
      by fastforce
    have e: "T \<le> ?e" "0 \<le> ?e"
      using Cons.prems(2,3) by simp_all
    have p1: "pinv ?e p1" "same_setup p p1"
      using each_rank_status_inv [OF Cons.prems(1) e refl s] by simp_all
    show ?thesis
    proof (cases "determine_struggle_dpu (rd_now rd) p1")
      case True
      then have "p' = p1" "now = rd_now rd" "nr_rank_threshold p1 \<le> num_done p1"
        using Cons.prems(4) False s by (auto simp: determine_struggle_dpu_def split: if_splits)
      moreover have "num_done p1 \<le> max 0 (nr_rank p1)"
        using p1(1) length_filter_le [of "\<lambda>x. x \<noteq> 0" "rank_done p1"] unfolding pinv_def by linarith
      ultimately show ?thesis
        using p1 by (simp add: same_setup_def)
    next
      case nd: False
      have "startTime p1 = startTime p"
        using p1(2) by (simp add: same_setup_def)
      with Cons.IH [OF p1(1) e(2), of w1] Cons.prems(3,4) False nd s
      have "same_setup p1 p' \<and> (abort \<longrightarrow> num_done p' \<ge> nr_rank_threshold p' \<and> num_done p' \<le> max 0 (nr_rank p')
          \<and> pinv (getElaspedTime (startTime p') now) p')"
        by simp
      with p1(2) show ?thesis
        by (auto simp: same_setup_def)
    qed
  qed
qed simp

section \<open>Aborting: which ranks\<close>

lemma upd_rank_compose: "upd_rank r f (upd_rank r g w) = upd_rank r (\<lambda>R. f (g R)) w"
  by (cases "r < length (hranks w)") (simp_all add: upd_rank_def list_update_beyond)

lemma low_op_upd_rank: "snd (low_op r f w) = upd_rank r (\<lambda>R. R\<lparr>low := snd (f (low R))\<rparr>) w"
  by (simp add: low_op_def upd_low_def upd_rank_def split: prod.split)

definition reset_aborted :: "'h dpu_rank_handler \<Rightarrow> 'h host_rank \<Rightarrow> 'h host_rank" where
  "reset_aborted H R = R\<lparr>should_stop := True, api_abort := True, low := snd (dpu_reset_rank H (low R))\<rparr>"

definition advance_aborted :: "'h wakeups \<Rightarrow> 'h host_rank \<Rightarrow> 'h host_rank" where
  "advance_aborted ws R = R\<lparr>should_stop := True, api_abort := True, low := abort_advance_loop ws (low R)\<rparr>"

lemma abort_one_reset: "abort_struggling_dpu H None p i w = upd_rank (p_ranks p ! i) (reset_aborted H) w"
  by (simp add: abort_struggling_dpu_def mark_aborted_def Let_def low_op_upd_rank upd_rank_compose
      reset_aborted_def [abs_def])

lemma abort_one_advance:
  "abort_struggling_dpu_advance ws p i w = upd_rank (p_ranks p ! i) (advance_aborted ws) w"
  by (simp add: abort_struggling_dpu_advance_def mark_aborted_def Let_def upd_low_def upd_rank_compose
      advance_aborted_def [abs_def])

lemma abort_loop_spec:
  assumes "distinct rs" "n \<le> length rs" "set rs \<subseteq> {..<length (hranks w)}" "n \<le> length (p_abort p)"
    and "p_ranks p = rs"
  shows "\<exists>p' w'. foldl (\<lambda>(p, w) i.
       if rank_done p ! i = 0 then (p\<lparr>p_abort := (p_abort p)[i := 1]\<rparr>, upd_rank (p_ranks p ! i) (g i) w)
       else (p\<lparr>p_abort := (p_abort p)[i := 0]\<rparr>, w)) (p, w) [0..<n] = (p', w')
     \<and> rank_done p' = rank_done p \<and> p_ranks p' = rs \<and> length (p_abort p') = length (p_abort p)
     \<and> length (hranks w') = length (hranks w)
     \<and> (\<forall>i < n. p_abort p' ! i = (if rank_done p ! i = 0 then 1 else 0))
     \<and> (\<forall>i < n. hranks w' ! (rs ! i) =
          (if rank_done p ! i = 0 then g i (hranks w ! (rs ! i)) else hranks w ! (rs ! i)))
     \<and> (\<forall>r < length (hranks w). r \<notin> set (take n rs) \<longrightarrow> hranks w' ! r = hranks w ! r)"
  using assms
proof (induction n)
  case (Suc n)
  then obtain p1 w1 where IH: "foldl (\<lambda>(p, w) i.
       if rank_done p ! i = 0 then (p\<lparr>p_abort := (p_abort p)[i := 1]\<rparr>, upd_rank (p_ranks p ! i) (g i) w)
       else (p\<lparr>p_abort := (p_abort p)[i := 0]\<rparr>, w)) (p, w) [0..<n] = (p1, w1)"
    "rank_done p1 = rank_done p" "p_ranks p1 = rs" "length (p_abort p1) = length (p_abort p)"
    "length (hranks w1) = length (hranks w)"
    "\<forall>i < n. p_abort p1 ! i = (if rank_done p ! i = 0 then 1 else 0)"
    "\<forall>i < n. hranks w1 ! (rs ! i) =
          (if rank_done p ! i = 0 then g i (hranks w ! (rs ! i)) else hranks w ! (rs ! i))"
    "\<forall>r < length (hranks w). r \<notin> set (take n rs) \<longrightarrow> hranks w1 ! r = hranks w ! r"
    by auto
  have n: "n < length rs" "rs ! n < length (hranks w)"
    using Suc.prems by (auto simp: subset_iff)
  have new: "rs ! n \<notin> set (take n rs)"
    using Suc.prems(1) n(1) by (metis distinct_take id_take_nth_drop not_distinct_conv_prefix take_Suc_conv_app_nth)
  have other: "rs ! i \<noteq> rs ! n" if "i < n" for i
    using Suc.prems(1) n(1) that by (simp add: nth_eq_iff_index_eq)
  show ?case
  proof (cases "rank_done p ! n = 0")
    case True
    show ?thesis
      using IH n new other Suc.prems(4) True
      by (auto simp: less_Suc_eq nth_list_update take_Suc_conv_app_nth nth_upd_rank)
  next
    case False
    show ?thesis
      using IH n new other Suc.prems(4) False
      by (auto simp: less_Suc_eq nth_list_update take_Suc_conv_app_nth)
  qed
qed simp

section \<open>Properties\<close>

definition sim_time :: "int \<Rightarrow> timeval" where
  "sim_time us = \<lparr>tv_sec = us div 1000000, tv_usec = us mod 1000000\<rparr>"

definition sim_round :: "int \<Rightarrow> sim round" where
  "sim_round us = \<lparr>rd_stop = False, rd_others = (\<lambda>w. w), rd_now = sim_time us\<rparr>"

definition sim_hard :: "sim host" where
  "sim_hard = upd_low 1 (\<lambda>_. sim_busy) (sim_host [] [22, 29] [[], [22], [], []])"


lemma sim_hard_poll:
  "map_option fst (poll_loop [sim_round 50000] ((init_preempt [0, 1] 2 [0, 0])\<lparr>startTime := sim_time 0\<rparr>) sim_hard) =
     Some True"
  by code_simp




text \<open>
  with one or two ranks the threshold is zero: the first round of the preemption thread aborts every rank
  that has not finished yet, although no other rank needs to have finished.
\<close>

lemma small_sets_are_always_preempted:
  assumes "n \<le> 2" "\<not> rd_stop rd" "0 < getElaspedTime start (rd_now rd)"
  shows "\<exists>p w'. poll_loop (rd # rds) ((init_preempt ranks n flags)\<lparr>startTime := start\<rparr>) w =
    Some (True, p, w', rd_now rd)"
proof -
  let ?p0 = "(init_preempt ranks n flags)\<lparr>startTime := start\<rparr>"
  have "uint n \<le> 2"
    using assms(1) by (simp add: word_le_def)
  then have "2 * uint n div 5 = 0"
    by (intro div_pos_pos_trivial) auto
  then have zero: "nr_rank_threshold ?p0 = 0"
    by (simp add: init_preempt_def Let_def sdiv_nonneg)
  have inv: "pinv 0 ?p0"
    by (simp add: pinv_def init_preempt_def Let_def)
  obtain p w' where s: "each_rank_status (rd_now rd) ?p0 (rd_others rd w) = (p, w')"
    by fastforce
  have start: "startTime ?p0 = start"
    by simp
  have "0 \<le> getElaspedTime (startTime ?p0) (rd_now rd)" "0 < getElaspedTime (startTime ?p0) (rd_now rd)"
    using assms(3) by simp_all
  then have "determine_struggle_dpu (rd_now rd) p \<longleftrightarrow> num_done p \<ge> nr_rank_threshold p"
      and p: "pinv (getElaspedTime (startTime ?p0) (rd_now rd)) p \<and> same_setup ?p0 p"
    using decision_by_threshold [OF inv _ _ s] each_rank_status_inv [OF inv _ _ refl s] by blast+
  moreover have "num_done p \<ge> 0" "nr_rank_threshold p = 0"
    using p zero unfolding pinv_def same_setup_def by simp_all
  ultimately have "determine_struggle_dpu (rd_now rd) p"
    by simp
  then show ?thesis
    using assms(2) s by simp
qed

lemma small_sets_are_always_preempted_witness:
  "\<exists>p w'. poll_loop [sim_round 50000] ((init_preempt [1] 1 [0])\<lparr>startTime := sim_time 0\<rparr>) sim_hard =
     Some (True, p, w', sim_time 50000)"
proof -
  have "0 < getElaspedTime (sim_time 0) (rd_now (sim_round 50000))"
    by code_simp
  then show ?thesis
    using small_sets_are_always_preempted [of 1 "sim_round 50000" "sim_time 0" "[]" "[1]" "[0]" sim_hard]
    by (simp add: sim_round_def)
qed





text \<open>
  C19: the status of a set of ranks is that of its ranks: when the synchronisation returns, \<open>dpu_status\<close> answers done
  exactly when every rank of the set is done and fault exactly when one of them is in fault, succeeds, and leaves
  the state as the synchronisation left it.
\<close>

theorem status_of_a_set:
  assumes "dpu_sync C (DPU_SET_RANKS ranks) w = Done (st, w')"
  shows "\<exists>done fault. dpu_status C (DPU_SET_RANKS ranks) w = Done (Some (done, fault), DPU_OK, w')
    \<and> (done \<longleftrightarrow> (\<forall>r \<in> set ranks. fst (fst (dpu_status_rank (low (hranks w' ! r))))))
    \<and> (fault \<longleftrightarrow> (\<exists>r \<in> set ranks. snd (fst (dpu_status_rank (low (hranks w' ! r))))))"
proof -
  have same: "upd_low r (\<lambda>_. low (hranks w' ! r)) w' = w'" for r
    by (simp add: upd_low_def upd_rank_def)
  have "status_ranks ranks (d, f) w' =
      ((d \<and> (\<forall>r \<in> set ranks. fst (fst (dpu_status_rank (low (hranks w' ! r))))),
        f \<or> (\<exists>r \<in> set ranks. snd (fst (dpu_status_rank (low (hranks w' ! r)))))), DPU_OK, w')" for d f
    by (induction ranks arbitrary: d f) (simp_all add: status_rank_eq same)
  then show ?thesis
    using assms by (simp add: dpu_status_def)
qed

definition sim_worker :: "sim host \<Rightarrow> sim host" where
  "sim_worker w = (case worker_take 0 False w of
     Some (Busy r j, w1) \<Rightarrow> (case worker_next sim_env [] r j w1 of Done (_, w2) \<Rightarrow> w2 | _ \<Rightarrow> w1) | _ \<Rightarrow> w)"

lemma sim_sync_returns:
  "(case dpu_sync (sim_call [sim_worker] sim_env) (DPU_SET_RANKS [0]) (sim_host [] [] [[], [], [], []]) of Done (st, _) \<Rightarrow> st = DPU_OK | _ \<Rightarrow> False)"
  by code_simp

theorem status_of_a_set_witness:
  "\<exists>done fault w'. dpu_status (sim_call [sim_worker] sim_env) (DPU_SET_RANKS [0]) (sim_host [] [] [[], [], [], []]) =
     Done (Some (done, fault), DPU_OK, w')"
proof -
  obtain st w' where "dpu_sync (sim_call [sim_worker] sim_env) (DPU_SET_RANKS [0]) (sim_host [] [] [[], [], [], []]) = Done (st, w')"
    using sim_sync_returns by (auto split: outcome.splits)
  from status_of_a_set [OF this] show ?thesis
    by blast
qed

text \<open>
  a rank whose launch has not started yet is counted as finished: when the preemption thread looks at a
  consistent rank on which no DPU runs, it records the rank as done with the elapsed time, even though the
  launch job is still waiting in the FIFO of the rank.
\<close>

lemma pending_launch_counts_as_done:
  assumes "r = p_ranks p ! i" "rc_inv (low (hranks w ! r))" "nb_dpu_running (run_context (low (hranks w ! r))) = 0"
    and "rank_done p ! i = 0" "i < length (rank_done p)" "r < length (hranks w)"
    and "job_body (job_heap w (hd (jobs (hranks w ! r)))) = DPU_THREAD_JOB_LAUNCH_RANK"
  shows "rank_done (fst (rank_status now (p, w) i)) ! i = 1
    \<and> num_done (fst (rank_status now (p, w) i)) = num_done p + 1
    \<and> jobs (hranks (snd (rank_status now (p, w) i)) ! r) = jobs (hranks w ! r)"
proof -
  have "fst (fst (dpu_status_rank (low (hranks w ! r))))"
    using nb_running_zero_iff [OF assms(2)] assms(3) by (simp add: status_rank_eq)
  then show ?thesis
    using assms(1,4-6) by (simp add: rank_status_def Let_def status_rank_eq record_done_def upd_low_def)
qed

lemma pending_launch_counts_as_done_witness:
  "rank_done (fst (rank_status (sim_time 0) (init_preempt [0] 1 [0], sim_host [12] [] [[12], [], [], []]) 0)) ! 0 = 1"
  using pending_launch_counts_as_done [of 0 "init_preempt [0] 1 [0]" 0 "sim_host [12] [] [[12], [], [], []]" "sim_time 0"]
    sim_rank_inv
  by (simp add: init_preempt_def Let_def) (simp add: sim_host_def)

end
