(* ===== verification/Bytes.thy ===== *)
theory Bytes
  imports Prelude
begin

text \<open>
  Memories as functions from addresses to bytes, at any width of the address: reading a range into a list, writing a list
  over a range (addresses wrap around), and the algebra of the two that the accesses to MRAM and to the region of a rank
  share.
\<close>

section \<open>Ranges of a memory\<close>

definition read_bytes :: "('a::len word \<Rightarrow> 'v) \<Rightarrow> 'a word \<Rightarrow> nat \<Rightarrow> 'v list" where
  "read_bytes m a n = map (\<lambda>i. m (a + of_nat i)) [0..<n]"

definition write_bytes :: "('a::len word \<Rightarrow> 'v) \<Rightarrow> 'a word \<Rightarrow> 'v list \<Rightarrow> 'a word \<Rightarrow> 'v" where
  "write_bytes m a bs = (\<lambda>x. if unat (x - a) < length bs then bs ! unat (x - a) else m x)"

lemma length_read_bytes [simp]: "length (read_bytes m a n) = n"
  by (simp add: read_bytes_def)

lemma nth_read_bytes [simp]: "i < n \<Longrightarrow> read_bytes m a n ! i = m (a + of_nat i)"
  by (simp add: read_bytes_def)

lemma read_bytes_add: "read_bytes m a (k + n) = read_bytes m a k @ read_bytes m (a + of_nat k) n"
  by (rule nth_equalityI) (auto simp: nth_append algebra_simps)

lemma read_bytes_Suc: "read_bytes m a (Suc n) = m a # read_bytes m (a + 1) n"
  using read_bytes_add [of m a 1 n] by (simp add: read_bytes_def)

lemma write_bytes_Nil [simp]: "write_bytes m a [] = m"
  by (simp add: write_bytes_def)

lemma unat_minus_add:
  fixes x a :: "'a::len word"
  assumes "k < 2 ^ LENGTH('a)"
  shows "unat (x - (a + of_nat k)) =
    (if k \<le> unat (x - a) then unat (x - a) - k else 2 ^ LENGTH('a) + unat (x - a) - k)"
proof -
  have "unat (of_nat k :: 'a word) = k"
    using assms by (simp add: unat_of_nat)
  then have "unat (x - a - of_nat k) =
      (if k \<le> unat (x - a) then unat (x - a) - k else unat (x - a) + 2 ^ LENGTH('a) - k)"
    using unat_sub_if' [of "x - a" "of_nat k"] by simp
  then show ?thesis
    by (simp add: algebra_simps)
qed

lemma write_bytes_append:
  fixes m :: "'a::len word \<Rightarrow> 'v"
  assumes "length xs + length ys < 2 ^ LENGTH('a)"
  shows "write_bytes (write_bytes m a xs) (a + of_nat (length xs)) ys = write_bytes m a (xs @ ys)"
proof
  fix x
  have "unat (x - (a + of_nat (length xs))) =
      (if length xs \<le> unat (x - a) then unat (x - a) - length xs else 2 ^ LENGTH('a) + unat (x - a) - length xs)"
    using assms by (intro unat_minus_add) simp
  then show "write_bytes (write_bytes m a xs) (a + of_nat (length xs)) ys x = write_bytes m a (xs @ ys) x"
    using assms by (auto simp: write_bytes_def nth_append)
qed

text \<open>Patching the bytes of a word that was read and writing it back is writing the new bytes.\<close>

lemma write_bytes_patch:
  fixes m :: "'a::len word \<Rightarrow> 'v"
  assumes "s + length bs \<le> n" "n < 2 ^ LENGTH('a)"
  shows "write_bytes m a (take s (read_bytes m a n) @ bs @ drop (s + length bs) (read_bytes m a n))
       = write_bytes m (a + of_nat s) bs"
proof
  fix x
  have u: "unat (x - (a + of_nat s)) =
      (if s \<le> unat (x - a) then unat (x - a) - s else 2 ^ LENGTH('a) + unat (x - a) - s)"
    using assms by (intro unat_minus_add) simp
  have "m (a + of_nat (unat (x - a))) = m x"
    by simp
  with u show "write_bytes m a (take s (read_bytes m a n) @ bs @ drop (s + length bs) (read_bytes m a n)) x
       = write_bytes m (a + of_nat s) bs x"
    using assms by (auto simp: write_bytes_def nth_append)
qed

lemma read_after_write:
  fixes m :: "'a::len word \<Rightarrow> 'v"
  assumes "n \<le> length bs" "length bs < 2 ^ LENGTH('a)"
  shows "read_bytes (write_bytes m a bs) a n = take n bs"
  using assms by (intro nth_equalityI) (auto simp: write_bytes_def unat_of_nat)

section \<open>Disjoint ranges\<close>

text \<open>Two ranges are disjoint when no address lies in both.\<close>

definition in_range :: "'a::len word \<Rightarrow> nat \<Rightarrow> 'a word \<Rightarrow> bool" where
  "in_range a n x \<longleftrightarrow> unat (x - a) < n"

definition disjoint_ranges :: "'a::len word \<Rightarrow> nat \<Rightarrow> 'a word \<Rightarrow> nat \<Rightarrow> bool" where
  "disjoint_ranges a k b n \<longleftrightarrow> (\<forall>x. \<not> (in_range a k x \<and> in_range b n x))"

lemma in_range_add:
  assumes "i < n" "n \<le> 2 ^ LENGTH('a)"
  shows "in_range a n (a + of_nat i :: 'a::len word)"
  using assms by (simp add: in_range_def unat_of_nat)

lemma write_bytes_outside: "\<not> in_range a (length bs) x \<Longrightarrow> write_bytes m a bs x = m x"
  by (simp add: write_bytes_def in_range_def)

lemma read_write_disjoint:
  fixes m :: "'a::len word \<Rightarrow> 'v"
  assumes "disjoint_ranges a (length bs) b n" "n \<le> 2 ^ LENGTH('a)"
  shows "read_bytes (write_bytes m a bs) b n = read_bytes m b n"
proof (rule nth_equalityI)
  fix i assume "i < length (read_bytes (write_bytes m a bs) b n)"
  then have "i < n" by simp
  then have "\<not> in_range a (length bs) (b + of_nat i)"
    using assms in_range_add [of i n b] by (auto simp: disjoint_ranges_def)
  then show "read_bytes (write_bytes m a bs) b n ! i = read_bytes m b n ! i"
    using \<open>i < n\<close> by (simp add: write_bytes_outside)
qed simp

lemma write_write_disjoint:
  assumes "disjoint_ranges a (length xs) b (length ys)"
  shows "write_bytes (write_bytes m a xs) b ys = write_bytes (write_bytes m b ys) a xs"
  using assms by (auto simp: fun_eq_iff write_bytes_def disjoint_ranges_def in_range_def)

lemma disjoint_ranges_sym: "disjoint_ranges a k b n \<longleftrightarrow> disjoint_ranges b n a k"
  by (auto simp: disjoint_ranges_def)

text \<open>Ranges that do not wrap around relatively to a common base are disjoint when their offsets are.\<close>

lemma disjoint_ranges_offsets:
  fixes base :: "'a::len word"
  assumes "i + k \<le> j \<or> j + n \<le> i" "i + k \<le> 2 ^ LENGTH('a)" "j + n \<le> 2 ^ LENGTH('a)"
  shows "disjoint_ranges (base + of_nat i) k (base + of_nat j) n"
  unfolding disjoint_ranges_def in_range_def
proof (intro allI notI)
  fix x
  assume r: "unat (x - (base + of_nat i)) < k \<and> unat (x - (base + of_nat j)) < n"
  then have "i < 2 ^ LENGTH('a)" "j < 2 ^ LENGTH('a)"
    using assms by auto
  then show False
    using r assms unat_minus_add [of i x base] unat_minus_add [of j x base]
    by (auto split: if_splits)
qed

end
