(* ===== verification/Interleave.thy ===== *)
theory Interleave
  imports Bytes
begin

text \<open>
  The byte interleaving of the hardware backend (\<^verbatim>\<open>hw/src/mappings/xeon_sp/xeon_sp_translation.c\<close>). A DIMM stripes the eight
  bytes of a 64-bit word over its eight chips, so that the 8x8 matrix of bytes of eight words, one for each control interface,
  is transposed before it is written to and after it is read from the region of a rank. The theory has the portable routine,
  its vector implementations over the instructions that they use, and the accesses to the control interfaces.

  A vector register is the list of its bytes, the least significant byte first, as the load and store instructions see it;
  a block of eight words is a list of 64 bytes. The definitions only move bytes, except for the zeros of a byte shuffle, and
  are stated for any type of the elements with a zero: a routine is then determined by where it moves each position.
\<close>

section \<open>The portable routine\<close>

definition NB_ELEM_MATRIX :: nat where "NB_ELEM_MATRIX = 8"

text \<open>The two loops, over the output buffer: byte \<open>j\<close> of word \<open>i\<close> is byte \<open>i\<close> of word \<open>j\<close> of the input.\<close>

definition byte_interleave :: "'a list \<Rightarrow> 'a list \<Rightarrow> 'a list" where
  "byte_interleave input output =
     foldl (\<lambda>output i. foldl (\<lambda>output j. output[8 * i + j := input ! (8 * j + i)]) output [0..<8]) output [0..<NB_ELEM_MATRIX]"

section \<open>The vector instructions\<close>

text \<open>Element \<open>i\<close> of a register that holds elements of \<open>w\<close> bytes.\<close>

definition elem :: "nat \<Rightarrow> 'a list \<Rightarrow> nat \<Rightarrow> 'a list" where
  "elem w a i = take w (drop (w * i) a)"

definition bytes_of_u64 :: "u64 \<Rightarrow> u8 list" where
  "bytes_of_u64 x = map (\<lambda>i. ucast (drop_bit (8 * i) x)) [0..<8]"

text \<open>The arguments of the \<open>set\<close> instructions are the elements from the most to the least significant one.\<close>

definition mm_set_epi8 :: "u8 list \<Rightarrow> u8 list" where
  "mm_set_epi8 es = rev es"

definition mm_set_epi64 :: "u64 list \<Rightarrow> u8 list" where
  "mm_set_epi64 es = concat (map bytes_of_u64 (rev es))"

definition mm_setr_epi64 :: "u64 list \<Rightarrow> u8 list" where
  "mm_setr_epi64 es = concat (map bytes_of_u64 es)"

text \<open>
  \<^verbatim>\<open>PSHUFB\<close>: within each group of 16 bytes, byte \<open>i\<close> is the byte that the low four bits of the control byte select, or zero
  if its top bit is set.
\<close>

definition mm_shuffle_epi8 :: "'a::zero list \<Rightarrow> u8 list \<Rightarrow> 'a list" where
  "mm_shuffle_epi8 a b =
     map (\<lambda>i. if bit (b ! i) 7 then 0 else a ! (16 * (i div 16) + unat (b ! i AND 15))) [0..<length a]"

text \<open>\<^verbatim>\<open>SHUFPS\<close> and \<^verbatim>\<open>BLENDPS\<close>, on four elements of four bytes.\<close>

definition mm_shuffle_ps :: "'a list \<Rightarrow> 'a list \<Rightarrow> nat \<Rightarrow> 'a list" where
  "mm_shuffle_ps a b imm =
     elem 4 a (imm mod 4) @ elem 4 a (imm div 4 mod 4) @ elem 4 b (imm div 16 mod 4) @ elem 4 b (imm div 64 mod 4)"

definition mm_blend_ps :: "'a list \<Rightarrow> 'a list \<Rightarrow> nat \<Rightarrow> 'a list" where
  "mm_blend_ps a b imm = concat (map (\<lambda>i. elem 4 (if bit imm i then b else a) i) [0..<4])"

text \<open>\<^verbatim>\<open>VPGATHERDD\<close> with scale 1, from the block that starts at \<open>base\<close>.\<close>

definition mm_i32gather_epi32 :: "'a list \<Rightarrow> nat list \<Rightarrow> 'a list" where
  "mm_i32gather_epi32 base vindex = concat (map (\<lambda>v. take 4 (drop v base)) vindex)"

text \<open>\<^verbatim>\<open>VPERMD\<close> and \<^verbatim>\<open>VPERMB\<close>: element \<open>i\<close> is the one that index \<open>i\<close> selects in the whole register.\<close>

definition mm_permutexvar_epi32 :: "nat list \<Rightarrow> 'a list \<Rightarrow> 'a list" where
  "mm_permutexvar_epi32 idx a = concat (map (\<lambda>k. elem 4 a (k mod (length a div 4))) idx)"

definition mm_permutexvar_epi8 :: "u8 list \<Rightarrow> 'a list \<Rightarrow> 'a list" where
  "mm_permutexvar_epi8 idx a = map (\<lambda>k. a ! (unat k mod length a)) idx"

section \<open>The vector implementations\<close>

definition pshufbcnst :: "u8 list list" where
  "pshufbcnst =
     [mm_set_epi8 [15, 7, 11, 3, 13, 5, 9, 1, 14, 6, 10, 2, 12, 4, 8, 0],
      mm_set_epi8 [13, 5, 9, 1, 15, 7, 11, 3, 12, 4, 8, 0, 14, 6, 10, 2],
      mm_set_epi8 [11, 3, 15, 7, 9, 1, 13, 5, 10, 2, 14, 6, 8, 0, 12, 4],
      mm_set_epi8 [9, 1, 13, 5, 11, 3, 15, 7, 8, 0, 12, 4, 10, 2, 14, 6]]"

definition byte_interleave_sse4_1 :: "'a::zero list \<Rightarrow> 'a list" where
  "byte_interleave_sse4_1 A =
     (let B0 = elem 16 A 0; B1 = elem 16 A 1; B2 = elem 16 A 2; B3 = elem 16 A 3;
          B1 = mm_shuffle_ps B1 B1 0b10110001;
          B3 = mm_shuffle_ps B3 B3 0b10110001;
          T0 = mm_blend_ps B0 B1 0b1010;
          T1 = mm_blend_ps B2 B3 0b1010;
          T2 = mm_blend_ps B0 B1 0b0101;
          T3 = mm_blend_ps B2 B3 0b0101;
          B0 = mm_shuffle_epi8 T0 (pshufbcnst ! 0);
          B1 = mm_shuffle_epi8 T1 (pshufbcnst ! 1);
          B2 = mm_shuffle_epi8 T2 (pshufbcnst ! 2);
          B3 = mm_shuffle_epi8 T3 (pshufbcnst ! 3);
          T0 = mm_blend_ps B0 B1 0b1010;
          T1 = mm_blend_ps B0 B1 0b0101;
          T2 = mm_blend_ps B2 B3 0b1010;
          T3 = mm_blend_ps B2 B3 0b0101;
          T1 = mm_shuffle_ps T1 T1 0b10110001;
          T3 = mm_shuffle_ps T3 T3 0b10110001
      in T0 @ T1 @ T2 @ T3)"

definition byte_interleave_avx2 :: "'a::zero list \<Rightarrow> 'a list" where
  "byte_interleave_avx2 src1 =
     (let tm = mm_set_epi8 [15, 11, 7, 3, 14, 10, 6, 2, 13, 9, 5, 1, 12, 8, 4, 0,
                            15, 11, 7, 3, 14, 10, 6, 2, 13, 9, 5, 1, 12, 8, 4, 0];
          vindex = [0, 8, 16, 24, 32, 40, 48, 56];
          perm = [0, 4, 1, 5, 2, 6, 3, 7];
          load0 = mm_i32gather_epi32 src1 vindex;
          load1 = mm_i32gather_epi32 (drop 4 src1) vindex;
          transpose0 = mm_shuffle_epi8 load0 tm;
          transpose1 = mm_shuffle_epi8 load1 tm;
          final0 = mm_permutexvar_epi32 perm transpose0;
          final1 = mm_permutexvar_epi32 perm transpose1
      in final0 @ final1)"

definition trans8x8shuf :: "u8 list" where
  "trans8x8shuf = mm_set_epi64
     [0x0f0b07030e0a0602, 0x0d0905010c080400, 0x0f0b07030e0a0602, 0x0d0905010c080400,
      0x0f0b07030e0a0602, 0x0d0905010c080400, 0x0f0b07030e0a0602, 0x0d0905010c080400]"

definition byte_interleave_avx512 :: "'a::zero list \<Rightarrow> 'a list" where
  "byte_interleave_avx512 input =
     (let vindex = [0, 8, 16, 24, 32, 40, 48, 56, 4, 12, 20, 28, 36, 44, 52, 60];
          perm = [0, 4, 1, 5, 2, 6, 3, 7, 8, 12, 9, 13, 10, 14, 11, 15];
          load = mm_i32gather_epi32 input vindex;
          transpose = mm_shuffle_epi8 load trans8x8shuf
      in mm_permutexvar_epi32 perm transpose)"

definition byte_interleave_avx512vbmi :: "'a list \<Rightarrow> 'a list" where
  "byte_interleave_avx512vbmi src = mm_permutexvar_epi8 trans8x8shuf src"

section \<open>Blocks of control interfaces\<close>

text \<open>The helpers that store or load a block as it is.\<close>

definition write_block_sse4_1 :: "u64 list \<Rightarrow> u8 list" where
  "write_block_sse4_1 data =
     mm_set_epi64 [data ! 0, data ! 1] @ mm_set_epi64 [data ! 2, data ! 3] @
     mm_set_epi64 [data ! 4, data ! 5] @ mm_set_epi64 [data ! 6, data ! 7]"

definition write_block_avx512 :: "u64 list \<Rightarrow> u8 list" where
  "write_block_avx512 data =
     mm_setr_epi64 [data ! 0, data ! 1, data ! 2, data ! 3, data ! 4, data ! 5, data ! 6, data ! 7]"

section \<open>Proofs\<close>

text \<open>Every routine is compared with the transposition of the matrix.\<close>

definition transposed :: "'a list \<Rightarrow> 'a list" where
  "transposed xs = map (\<lambda>k. xs ! (8 * (k mod 8) + k div 8)) [0..<64]"

lemma update_row:
  assumes "b + m \<le> length ys"
  shows "foldl (\<lambda>ys j. ys[b + j := h j]) ys [0..<m] = take b ys @ map h [0..<m] @ drop (b + m) ys"
  using assms
proof (induction m)
  case (Suc m)
  then show ?case
    by (simp add: list_update_append list_update.simps Cons_nth_drop_Suc [symmetric, of "b + m"])
qed simp

lemma update_rows:
  assumes "w * n \<le> length ys"
  shows "foldl (\<lambda>ys i. foldl (\<lambda>ys j. ys[w * i + j := h i j]) ys [0..<w]) ys [0..<n]
    = concat (map (\<lambda>i. map (h i) [0..<w]) [0..<n]) @ drop (w * n) ys"
  using assms
proof (induction n)
  case (Suc n)
  have len: "length (concat (map (\<lambda>i. map (h i) [0..<w]) [0..<n])) = w * n"
    by (induction n) simp_all
  have "w * n + w \<le> length (concat (map (\<lambda>i. map (h i) [0..<w]) [0..<n]) @ drop (w * n) ys)"
    using len Suc.prems by (simp del: length_concat)
  from update_row [OF this, of "h n"] Suc show ?case
    by (simp add: len add.commute [of w "w * n"] del: length_concat)
qed simp

lemma byte_interleave_eq:
  assumes "length output = 64"
  shows "byte_interleave input output = transposed input"
proof -
  have "[0..<64] = concat (map (\<lambda>i. map (\<lambda>j. 8 * i + j) [0..<8]) [0..<8::nat])"
    by code_simp
  then show ?thesis
    using assms by (simp add: byte_interleave_def NB_ELEM_MATRIX_def update_rows transposed_def map_concat o_def)
      (intro arg_cong [where f = concat] map_cong refl, simp)
qed

text \<open>The vector instructions move elements by their position only.\<close>

lemma elem_map: "elem w (map g a) i = map g (elem w a i)"
  by (simp add: elem_def take_map drop_map)

lemma shuffle_epi8_map:
  assumes "g 0 = 0" "16 dvd length a"
  shows "mm_shuffle_epi8 (map g a) b = map g (mm_shuffle_epi8 a b)"
proof -
  have "16 * (i div 16) + unat (b ! i AND 15) < length a" if "i < length a" for i
  proof -
    have "unat (b ! i AND 15) \<le> 15"
      using word_and_le1 [of "b ! i" 15] by (simp add: word_le_nat_alt)
    moreover have "16 * (i div 16) + 15 < length a"
    proof -
      obtain k where "length a = k * 16"
        using assms(2) by (auto elim: dvdE)
      moreover from this that have "i div 16 < k"
        by (intro less_mult_imp_div_less) simp
      ultimately show ?thesis by linarith
    qed
    ultimately show ?thesis by linarith
  qed
  then show ?thesis
    by (simp add: mm_shuffle_epi8_def assms(1))
qed

lemma shuffle_ps_map: "mm_shuffle_ps (map g a) (map g b) imm = map g (mm_shuffle_ps a b imm)"
  by (simp add: mm_shuffle_ps_def elem_map)

lemma blend_ps_map: "mm_blend_ps (map g a) (map g b) imm = map g (mm_blend_ps a b imm)"
  by (simp add: mm_blend_ps_def map_concat o_def if_distrib [of "map g"] elem_map [symmetric] cong: if_cong)

lemma gather_map: "mm_i32gather_epi32 (map g base) vindex = map g (mm_i32gather_epi32 base vindex)"
  by (simp add: mm_i32gather_epi32_def map_concat o_def take_map drop_map)

lemma permutexvar_epi32_map: "mm_permutexvar_epi32 idx (map g a) = map g (mm_permutexvar_epi32 idx a)"
  by (simp add: mm_permutexvar_epi32_def map_concat o_def elem_map)

lemma transposed_map:
  assumes "length xs = 64"
  shows "transposed (map g xs) = map g (transposed xs)"
  using assms by (simp add: transposed_def)

text \<open>
  A routine that commutes with maps is determined by its value on the positions: the elements of a block are the image of
  the positions \<open>1\<close> to \<open>64\<close>, by a function that keeps the zero.
\<close>

lemma transposed_by_positions:
  fixes xs :: "'a::zero list"
  assumes nat: "\<And>g :: nat \<Rightarrow> 'a. g 0 = 0 \<Longrightarrow> r (map g [1..<65]) = map g (q [1..<65])"
    and val: "q [1..<65] = transposed [1..<65]"
    and len: "length xs = 64"
  shows "r xs = transposed xs"
proof -
  define g where "g = (\<lambda>k. if k = 0 then 0 else xs ! (k - 1))"
  have "xs = map g [1..<65]"
    using len by (intro nth_equalityI) (auto simp: g_def)
  moreover have "r (map g [1..<65]) = map g (transposed [1..<65])"
    using nat [of g] val by (simp add: g_def)
  ultimately show ?thesis
    using transposed_map [of "[1..<65]" g] by simp
qed

lemma length_gather:
  "list_all (\<lambda>v. v + 4 \<le> length base) vindex \<Longrightarrow> length (mm_i32gather_epi32 base vindex) = 4 * length vindex"
  by (induction vindex) (auto simp: mm_i32gather_epi32_def min_def)

lemma length_elem_4: "length a = 16 \<Longrightarrow> i < 4 \<Longrightarrow> length (elem 4 a i) = 4"
  by (simp add: elem_def)

lemma length_shuffle_ps: "length a = 16 \<Longrightarrow> length b = 16 \<Longrightarrow> length (mm_shuffle_ps a b imm) = 16"
  by (simp add: mm_shuffle_ps_def length_elem_4)

lemma length_blend_ps: "length a = 16 \<Longrightarrow> length b = 16 \<Longrightarrow> length (mm_blend_ps a b imm) = 16"
  by (simp add: mm_blend_ps_def elem_def upt_rec)

lemma length_elem_16: "length xs = 64 \<Longrightarrow> i < 4 \<Longrightarrow> length (elem 16 xs i) = 16"
  by (simp add: elem_def)

lemma sse4_1_map:
  assumes "g 0 = 0" "length xs = 64"
  shows "byte_interleave_sse4_1 (map g xs) = map g (byte_interleave_sse4_1 xs)"
  using assms
  by (simp add: byte_interleave_sse4_1_def Let_def elem_map shuffle_ps_map blend_ps_map shuffle_epi8_map
      length_shuffle_ps length_blend_ps length_elem_16)

lemma avx2_map:
  assumes "g 0 = 0" "length xs = 64"
  shows "byte_interleave_avx2 (map g xs) = map g (byte_interleave_avx2 xs)"
  using assms
  by (simp add: byte_interleave_avx2_def Let_def gather_map drop_map shuffle_epi8_map permutexvar_epi32_map length_gather)

lemma avx512_map:
  assumes "g 0 = 0" "length xs = 64"
  shows "byte_interleave_avx512 (map g xs) = map g (byte_interleave_avx512 xs)"
  using assms
  by (simp add: byte_interleave_avx512_def Let_def gather_map shuffle_epi8_map permutexvar_epi32_map length_gather)

lemma byte_interleave_avx512_eq: "length xs = 64 \<Longrightarrow> byte_interleave_avx512 xs = transposed xs"
  by (rule transposed_by_positions [where q = byte_interleave_avx512]) (simp add: avx512_map, code_simp, simp)

lemma byte_interleave_avx2_eq: "length xs = 64 \<Longrightarrow> byte_interleave_avx2 xs = transposed xs"
  by (rule transposed_by_positions [where q = byte_interleave_avx2]) (simp add: avx2_map, code_simp, simp)

lemma byte_interleave_sse4_1_eq: "length xs = 64 \<Longrightarrow> byte_interleave_sse4_1 xs = transposed xs"
  by (rule transposed_by_positions [where q = byte_interleave_sse4_1]) (simp add: sse4_1_map, code_simp, simp)

lemma transposed_transposed:
  assumes "length xs = 64"
  shows "transposed (transposed xs) = xs"
proof (rule nth_equalityI)
  fix k assume "k < length (transposed (transposed xs))"
  then have k: "k < 64"
    by (simp add: transposed_def)
  define r where "r = k mod 8"
  define c where "c = k div 8"
  have "k = 8 * c + r" "r < 8" "c < 8"
    using k by (auto simp: r_def c_def)
  then show "transposed (transposed xs) ! k = xs ! k"
    by (simp add: transposed_def)
qed (simp add: transposed_def assms)

lemma length_transposed [simp]: "length (transposed xs) = 64"
  by (simp add: transposed_def)

text \<open>
  C26: The vector implementations of the byte interleaving (SSE4.1, AVX2 and AVX-512) compute, on every block of 64 bytes, the
  block that the portable double loop computes whatever the output buffer held before; and the interleaving is its own
  inverse, so that AVX-512 on the way to a rank and AVX2 on the way back cancel out.
\<close>

theorem interleavings_agree:
  assumes "length xs = 64" "length output = 64"
  shows "byte_interleave_sse4_1 xs = byte_interleave xs output
     \<and> byte_interleave_avx2 xs = byte_interleave xs output
     \<and> byte_interleave_avx512 xs = byte_interleave xs output
     \<and> byte_interleave_avx2 (byte_interleave_avx512 xs) = xs"
  using assms by (simp add: byte_interleave_eq byte_interleave_sse4_1_eq byte_interleave_avx2_eq byte_interleave_avx512_eq
      transposed_transposed)

theorem interleavings_agree_witness:
  "byte_interleave_sse4_1 (map of_nat [0..<64]) = byte_interleave (map of_nat [0..<64]) (replicate 64 (7 :: u8))
     \<and> byte_interleave_avx2 (map of_nat [0..<64]) = byte_interleave (map of_nat [0..<64]) (replicate 64 (7 :: u8))
     \<and> byte_interleave_avx512 (map of_nat [0..<64]) = byte_interleave (map of_nat [0..<64]) (replicate 64 (7 :: u8))
     \<and> byte_interleave_avx2 (byte_interleave_avx512 (map of_nat [0..<64])) = (map of_nat [0..<64] :: u8 list)"
  by (rule interleavings_agree) simp_all

text \<open>
  The VBMI variant, which is compiled where the processor has \<^verbatim>\<open>VPERMB\<close>, uses the control bytes of the shuffle within groups
  of 16 bytes as positions in the whole block: it repeats four times the first 16 bytes of the block and drops the others.
\<close>

lemma avx512vbmi_repeats_first_bytes:
  assumes "length xs = 64"
  shows "byte_interleave_avx512vbmi xs =
    concat (replicate 4 (map (nth xs) [0, 4, 8, 12, 1, 5, 9, 13, 2, 6, 10, 14, 3, 7, 11, 15]))"
proof -
  have "map (\<lambda>k. unat k mod 64) trans8x8shuf =
      concat (replicate 4 [0, 4, 8, 12, 1, 5, 9, 13, 2, 6, 10, 14, 3, 7, 11, 15])"
    by code_simp
  then have "map (nth xs) (map (\<lambda>k. unat k mod 64) trans8x8shuf) =
      concat (replicate 4 (map (nth xs) [0, 4, 8, 12, 1, 5, 9, 13, 2, 6, 10, 14, 3, 7, 11, 15]))"
    by (simp only: map_concat map_replicate)
  then show ?thesis
    by (simp add: byte_interleave_avx512vbmi_def mm_permutexvar_epi8_def assms o_def)
qed

text \<open>
  The SSE helper that stores a block as it is swaps the two words of each pair, unlike the AVX-512 one: its instruction takes
  the most significant word first.
\<close>

lemma write_blocks_swap_pairs:
  assumes "length data = 8"
  shows "write_block_sse4_1 data =
    write_block_avx512 [data ! 1, data ! 0, data ! 3, data ! 2, data ! 5, data ! 4, data ! 7, data ! 6]"
  by (simp add: write_block_sse4_1_def write_block_avx512_def mm_set_epi64_def mm_setr_epi64_def)

end
