(* ===== verification/Transfers.thy ===== *)
theory Transfers
  imports Submit
begin

text \<open>
  The memory operations of the high-level API (\<^verbatim>\<open>api/src/api/dpu_memory.c\<close>): symbols and programs, the decoding of
  an address into a memory and an offset in it, copies and broadcasts to a symbol, and the prepared
  transfers (\<^verbatim>\<open>dpu_prepare_xfer\<close>, \<^verbatim>\<open>dpu_push_xfer\<close>). Every operation ends in the submission of one job per rank.
  Scatter/gather transfers are not modelled.
\<close>

section \<open>Addresses and symbols\<close>

abbreviation (input) DPU_ERR_INVALID_SYMBOL_ACCESS :: dpu_error_t where "DPU_ERR_INVALID_SYMBOL_ACCESS \<equiv> 11"
abbreviation (input) DPU_ERR_NO_PROGRAM_LOADED :: dpu_error_t where "DPU_ERR_NO_PROGRAM_LOADED \<equiv> 14"
abbreviation (input) DPU_ERR_DIFFERENT_DPU_PROGRAMS :: dpu_error_t where "DPU_ERR_DIFFERENT_DPU_PROGRAMS \<equiv> 15"
abbreviation (input) DPU_ERR_INVALID_MEMORY_TRANSFER :: dpu_error_t where "DPU_ERR_INVALID_MEMORY_TRANSFER \<equiv> 19"
abbreviation (input) DPU_ERR_UNKNOWN_SYMBOL :: dpu_error_t where "DPU_ERR_UNKNOWN_SYMBOL \<equiv> 27"

abbreviation (input) IRAM_MASK :: u32 where "IRAM_MASK \<equiv> 0x80000000"
abbreviation (input) MRAM_MASK :: u32 where "MRAM_MASK \<equiv> 0x08000000"
abbreviation (input) IRAM_ALIGN :: nat where "IRAM_ALIGN \<equiv> 3"
abbreviation (input) WRAM_ALIGN :: nat where "WRAM_ALIGN \<equiv> 2"

datatype memory = IRAM | MRAM | WRAM

definition MEMORY_SWITCH :: "u32 \<Rightarrow> memory" where
  "MEMORY_SWITCH address =
     (if address AND IRAM_MASK = IRAM_MASK then IRAM
      else if address AND MRAM_MASK = MRAM_MASK then MRAM
      else WRAM)"

definition UPDATE_COPY_PARAMETERS :: "u32 \<Rightarrow> u64 \<Rightarrow> u32 \<times> u64" where
  "UPDATE_COPY_PARAMETERS address len = (case MEMORY_SWITCH address of
       IRAM \<Rightarrow> (drop_bit IRAM_ALIGN (address AND NOT IRAM_MASK), drop_bit IRAM_ALIGN len)
     | MRAM \<Rightarrow> (address AND NOT MRAM_MASK, len)
     | WRAM \<Rightarrow> (drop_bit WRAM_ALIGN address, drop_bit WRAM_ALIGN len))"

record dpu_symbol_t =
  symbol_address :: u32
  symbol_size :: u32

text \<open>
  The length is a \<^verbatim>\<open>size_t\<close>: the sum with the offset is computed in 64 bits, the address in 32. The result is the
  status with which the macro returns, \<^verbatim>\<open>DPU_OK\<close> when it does not return.
\<close>

definition CHECK_SYMBOL :: "dpu_symbol_t \<Rightarrow> u32 \<Rightarrow> u64 \<Rightarrow> dpu_error_t" where
  "CHECK_SYMBOL symbol symbol_offset len =
     (let address = symbol_address symbol + symbol_offset
      in if ucast symbol_offset + len > ucast (symbol_size symbol) then DPU_ERR_INVALID_SYMBOL_ACCESS
         else case MEMORY_SWITCH address of
                IRAM \<Rightarrow> if address AND 7 \<noteq> 0 then DPU_ERR_INVALID_IRAM_ACCESS
                        else if len AND 7 \<noteq> 0 then DPU_ERR_INVALID_IRAM_ACCESS
                        else DPU_OK
              | MRAM \<Rightarrow> DPU_OK
              | WRAM \<Rightarrow> if address AND 3 \<noteq> 0 then DPU_ERR_INVALID_WRAM_ACCESS
                        else if len AND 3 \<noteq> 0 then DPU_ERR_INVALID_WRAM_ACCESS
                        else DPU_OK)"

section \<open>Programs\<close>

text \<open>
  The program of a DPU is a pointer (\<open>program_at\<close>, by rank, slice and member), under which the table of symbols of the
  program is found.
\<close>

record programs =
  program_at :: "nat \<Rightarrow> u8 \<Rightarrow> u8 \<Rightarrow> nat option"
  symbols_of :: "nat \<Rightarrow> dpu_elf_symbol_t list"

definition dpu_get_program :: "programs \<Rightarrow> nat \<Rightarrow> dpu_t \<Rightarrow> nat option" where
  "dpu_get_program P rank dpu = program_at P rank (slice_id dpu) (dpu_id dpu)"

text \<open>The DPUs that the three nested loops visit, in order, without the disabled ones.\<close>

definition rank_dpus :: "'h dpu_rank_t \<Rightarrow> dpu_t list" where
  "rank_dpus rank = map (\<lambda>(each_ci, each_dpu). dpus rank ! DPU_INDEX rank each_ci each_dpu)
     (List.product [0..<unat (nr_of_control_interfaces rank)] [0..<unat (nr_of_dpus_per_control_interface rank)])"

definition enabled_of_ranks :: "nat list \<Rightarrow> 'h host \<Rightarrow> (nat \<times> dpu_t) list" where
  "enabled_of_ranks ranks w =
     concat (map (\<lambda>r. map (Pair r) (filter enabled (rank_dpus (low (hranks w ! r))))) ranks)"

fun common_program :: "programs \<Rightarrow> nat option \<Rightarrow> (nat \<times> dpu_t) list \<Rightarrow> dpu_error_t \<times> nat option" where
  "common_program P the_program [] = (DPU_OK, the_program)"
| "common_program P the_program ((rank, dpu) # ds) =
     (let dpu_program = dpu_get_program P rank dpu;
          the_program = (if the_program = None then dpu_program else the_program)
      in if the_program \<noteq> dpu_program then (DPU_ERR_DIFFERENT_DPU_PROGRAMS, None)
         else common_program P the_program ds)"

definition dpu_get_common_program :: "programs \<Rightarrow> dpu_set_t \<Rightarrow> 'h host \<Rightarrow> dpu_error_t \<times> nat option" where
  "dpu_get_common_program P dpu_set w =
     (let (status, the_program) =
        (case dpu_set of
           DPU_SET_RANKS ranks \<Rightarrow> common_program P None (enabled_of_ranks ranks w)
         | DPU_SET_DPU rank dpu \<Rightarrow> (DPU_OK, dpu_get_program P rank dpu)
         | DPU_SET_UNKNOWN \<Rightarrow> (DPU_ERR_INTERNAL, None))
      in if status \<noteq> DPU_OK then (status, None)
         else if the_program = None then (DPU_ERR_NO_PROGRAM_LOADED, None)
         else (DPU_OK, the_program))"

fun find_symbol :: "dpu_elf_symbol_t list \<Rightarrow> string \<Rightarrow> dpu_symbol_t option" where
  "find_symbol [] symbol_name = None"
| "find_symbol (elf_symbol # symbols) symbol_name =
     (if symbol_name = sym_name elf_symbol
      then Some \<lparr>symbol_address = sym_value elf_symbol, symbol_size = sym_size elf_symbol\<rparr>
      else find_symbol symbols symbol_name)"

definition dpu_get_symbol :: "programs \<Rightarrow> nat \<Rightarrow> string \<Rightarrow> dpu_error_t \<times> dpu_symbol_t option" where
  "dpu_get_symbol P program symbol_name = (case find_symbol (symbols_of P program) symbol_name of
       Some symbol \<Rightarrow> (DPU_OK, Some symbol)
     | None \<Rightarrow> (DPU_ERR_UNKNOWN_SYMBOL, None))"

section \<open>Copies and broadcasts\<close>

datatype dpu_xfer_t = DPU_XFER_TO_DPU | DPU_XFER_FROM_DPU | DPU_XFER_UNKNOWN

abbreviation (input) DPU_XFER_DEFAULT :: u32 where "DPU_XFER_DEFAULT \<equiv> 0"
abbreviation (input) DPU_XFER_NO_RESET :: u32 where "DPU_XFER_NO_RESET \<equiv> 1"
abbreviation (input) DPU_XFER_ASYNC :: u32 where "DPU_XFER_ASYNC \<equiv> 2"

definition SYNCHRONOUS_FLAGS :: "u32 \<Rightarrow> bool" where
  "SYNCHRONOUS_FLAGS flags \<longleftrightarrow> DPU_XFER_ASYNC AND flags = 0"

definition DPU_COPY_MATRIX_SET_JOB_TYPE :: "dpu_xfer_t \<Rightarrow> memory \<Rightarrow> (dpu_transfer_matrix \<Rightarrow> dpu_thread_job_body) option" where
  "DPU_COPY_MATRIX_SET_JOB_TYPE xfer mem = (case xfer of
       DPU_XFER_TO_DPU \<Rightarrow> Some (case mem of
           IRAM \<Rightarrow> DPU_THREAD_JOB_COPY_IRAM_TO_MATRIX
         | MRAM \<Rightarrow> DPU_THREAD_JOB_COPY_MRAM_TO_MATRIX
         | WRAM \<Rightarrow> DPU_THREAD_JOB_COPY_WRAM_TO_MATRIX)
     | DPU_XFER_FROM_DPU \<Rightarrow> Some (case mem of
           IRAM \<Rightarrow> DPU_THREAD_JOB_COPY_IRAM_FROM_MATRIX
         | MRAM \<Rightarrow> DPU_THREAD_JOB_COPY_MRAM_FROM_MATRIX
         | WRAM \<Rightarrow> DPU_THREAD_JOB_COPY_WRAM_FROM_MATRIX)
     | DPU_XFER_UNKNOWN \<Rightarrow> None)"

text \<open>
  A host buffer that is broadcast: its address and its content, read as words and as instructions.
\<close>

record host_buffer =
  buf_addr :: nat
  buf_words :: "u32 list"
  buf_instrs :: "u64 list"

definition DPU_BROADCAST_SET_JOB_TYPE :: "memory \<Rightarrow> u32 \<Rightarrow> host_buffer \<Rightarrow> u32 \<Rightarrow> dpu_thread_job_body" where
  "DPU_BROADCAST_SET_JOB_TYPE mem address src len = (case mem of
       IRAM \<Rightarrow> DPU_THREAD_JOB_COPY_IRAM_TO_RANK address (buf_instrs src) len
     | MRAM \<Rightarrow> DPU_THREAD_JOB_COPY_MRAM_TO_RANK address (buf_addr src) len
     | WRAM \<Rightarrow> DPU_THREAD_JOB_COPY_WRAM_TO_RANK address (buf_words src) len)"

definition drop_flag :: "(dpu_error_t \<times> bool \<times> 'h host) outcome \<Rightarrow> (dpu_error_t \<times> 'h host) outcome" where
  "drop_flag out = (case out of
       Done (status, submitted, w) \<Rightarrow> Done (status, w)
     | Blocks \<Rightarrow> Blocks
     | Crashes \<Rightarrow> Crashes)"

definition dpu_copy_symbol_dpu ::
  "'h call_env \<Rightarrow> nat \<Rightarrow> dpu_t \<Rightarrow> dpu_symbol_t \<Rightarrow> u32 \<Rightarrow> nat option \<Rightarrow> u64 \<Rightarrow> dpu_xfer_t \<Rightarrow> u32 \<Rightarrow> 'h host \<Rightarrow>
     (dpu_error_t \<times> 'h host) outcome" where
  "dpu_copy_symbol_dpu C rank dpu symbol symbol_offset buffer len xfer flags w =
     (if \<not> enabled dpu then Done (DPU_ERR_DPU_DISABLED, w)
      else if CHECK_SYMBOL symbol symbol_offset len \<noteq> DPU_OK
      then Done (CHECK_SYMBOL symbol symbol_offset len, w)
      else let address = symbol_address symbol + symbol_offset;
               (address', len') = UPDATE_COPY_PARAMETERS address len
           in case DPU_COPY_MATRIX_SET_JOB_TYPE xfer (MEMORY_SWITCH address) of
                None \<Rightarrow> Done (DPU_ERR_INVALID_MEMORY_TRANSFER, w)
              | Some job_type \<Rightarrow> drop_flag (submit_jobs C [rank] (SYNCHRONOUS_FLAGS flags)
                  (\<lambda>w _. job_type ((dpu_transfer_matrix_add_dpu (low (hranks w ! rank)) dpu dpu_transfer_matrix_clear_all buffer)
                     \<lparr>tm_offset := address', tm_size := ucast len'\<rparr>))
                  (\<lambda>_ waits. waits) w))"

definition dpu_broadcast_to_symbol_for_ranks ::
  "'h call_env \<Rightarrow> nat list \<Rightarrow> dpu_symbol_t \<Rightarrow> u32 \<Rightarrow> host_buffer \<Rightarrow> u64 \<Rightarrow> u32 \<Rightarrow> 'h host \<Rightarrow>
     (dpu_error_t \<times> 'h host) outcome" where
  "dpu_broadcast_to_symbol_for_ranks C ranks symbol symbol_offset src len flags w =
     (if CHECK_SYMBOL symbol symbol_offset len \<noteq> DPU_OK
      then Done (CHECK_SYMBOL symbol symbol_offset len, w)
      else let address = symbol_address symbol + symbol_offset;
               (address', len') = UPDATE_COPY_PARAMETERS address len
           in drop_flag (submit_jobs C ranks (SYNCHRONOUS_FLAGS flags)
                (\<lambda>_ _. DPU_BROADCAST_SET_JOB_TYPE (MEMORY_SWITCH address) address' src (ucast len'))
                (\<lambda>_ waits. waits) w))"

definition dpu_broadcast_to_symbol ::
  "'h call_env \<Rightarrow> dpu_set_t \<Rightarrow> dpu_symbol_t \<Rightarrow> u32 \<Rightarrow> host_buffer \<Rightarrow> u64 \<Rightarrow> u32 \<Rightarrow> 'h host \<Rightarrow>
     (dpu_error_t \<times> 'h host) outcome" where
  "dpu_broadcast_to_symbol C dpu_set symbol symbol_offset src len flags w = (case dpu_set of
       DPU_SET_RANKS ranks \<Rightarrow> dpu_broadcast_to_symbol_for_ranks C ranks symbol symbol_offset src len flags w
     | DPU_SET_DPU rank dpu \<Rightarrow>
         dpu_copy_symbol_dpu C rank dpu symbol symbol_offset (Some (buf_addr src)) len DPU_XFER_TO_DPU flags w
     | DPU_SET_UNKNOWN \<Rightarrow> Done (DPU_ERR_INTERNAL, w))"

text \<open>The operations that name the symbol look it up in the common program of the set.\<close>

definition with_symbol ::
  "programs \<Rightarrow> dpu_set_t \<Rightarrow> string \<Rightarrow> (dpu_symbol_t \<Rightarrow> 'h host \<Rightarrow> (dpu_error_t \<times> 'h host) outcome) \<Rightarrow> 'h host \<Rightarrow>
     (dpu_error_t \<times> 'h host) outcome" where
  "with_symbol P dpu_set symbol_name k w =
     (case dpu_get_common_program P dpu_set w of
        (status, None) \<Rightarrow> Done (status, w)
      | (status, Some program) \<Rightarrow>
          (case dpu_get_symbol P program symbol_name of
             (status, None) \<Rightarrow> Done (status, w)
           | (status, Some symbol) \<Rightarrow> k symbol w))"

definition dpu_broadcast_to ::
  "programs \<Rightarrow> 'h call_env \<Rightarrow> dpu_set_t \<Rightarrow> string \<Rightarrow> u32 \<Rightarrow> host_buffer \<Rightarrow> u64 \<Rightarrow> u32 \<Rightarrow> 'h host \<Rightarrow>
     (dpu_error_t \<times> 'h host) outcome" where
  "dpu_broadcast_to P C dpu_set symbol_name symbol_offset src len flags =
     with_symbol P dpu_set symbol_name (\<lambda>symbol. dpu_broadcast_to_symbol C dpu_set symbol symbol_offset src len flags)"

definition dpu_copy_to ::
  "programs \<Rightarrow> 'h call_env \<Rightarrow> dpu_set_t \<Rightarrow> string \<Rightarrow> u32 \<Rightarrow> host_buffer \<Rightarrow> u64 \<Rightarrow> 'h host \<Rightarrow>
     (dpu_error_t \<times> 'h host) outcome" where
  "dpu_copy_to P C dpu_set symbol_name symbol_offset src len =
     with_symbol P dpu_set symbol_name
       (\<lambda>symbol. dpu_broadcast_to_symbol C dpu_set symbol symbol_offset src len DPU_XFER_DEFAULT)"

definition dpu_copy_to_symbol ::
  "'h call_env \<Rightarrow> dpu_set_t \<Rightarrow> dpu_symbol_t \<Rightarrow> u32 \<Rightarrow> host_buffer \<Rightarrow> u64 \<Rightarrow> 'h host \<Rightarrow> (dpu_error_t \<times> 'h host) outcome" where
  "dpu_copy_to_symbol C dpu_set symbol symbol_offset src len =
     dpu_broadcast_to_symbol C dpu_set symbol symbol_offset src len DPU_XFER_DEFAULT"

definition dpu_copy_from_symbol ::
  "'h call_env \<Rightarrow> dpu_set_t \<Rightarrow> dpu_symbol_t \<Rightarrow> u32 \<Rightarrow> nat option \<Rightarrow> u64 \<Rightarrow> 'h host \<Rightarrow> (dpu_error_t \<times> 'h host) outcome" where
  "dpu_copy_from_symbol C dpu_set symbol symbol_offset dst len w = (case dpu_set of
       DPU_SET_DPU rank dpu \<Rightarrow>
         dpu_copy_symbol_dpu C rank dpu symbol symbol_offset dst len DPU_XFER_FROM_DPU DPU_XFER_DEFAULT w
     | DPU_SET_RANKS _ \<Rightarrow> Done (DPU_ERR_INVALID_DPU_SET, w)
     | DPU_SET_UNKNOWN \<Rightarrow> Done (DPU_ERR_INTERNAL, w))"

definition dpu_copy_from ::
  "programs \<Rightarrow> 'h call_env \<Rightarrow> dpu_set_t \<Rightarrow> string \<Rightarrow> u32 \<Rightarrow> nat option \<Rightarrow> u64 \<Rightarrow> 'h host \<Rightarrow>
     (dpu_error_t \<times> 'h host) outcome" where
  "dpu_copy_from P C dpu_set symbol_name symbol_offset dst len w = (case dpu_set of
       DPU_SET_DPU rank dpu \<Rightarrow>
         (case dpu_get_program P rank dpu of
            None \<Rightarrow> Done (DPU_ERR_NO_PROGRAM_LOADED, w)
          | Some program \<Rightarrow>
              (case dpu_get_symbol P program symbol_name of
                 (status, None) \<Rightarrow> Done (status, w)
               | (status, Some symbol) \<Rightarrow>
                   dpu_copy_symbol_dpu C rank dpu symbol symbol_offset dst len DPU_XFER_FROM_DPU DPU_XFER_DEFAULT w))
     | DPU_SET_RANKS _ \<Rightarrow> Done (DPU_ERR_INVALID_DPU_SET, w)
     | DPU_SET_UNKNOWN \<Rightarrow> Done (DPU_ERR_INTERNAL, w))"

section \<open>Prepared transfers\<close>

text \<open>
  \<open>self r\<close> tells whether the calling thread is the one that runs the callback of the rank
  (\<^verbatim>\<open>callback_tid == pthread_self()\<close>).
\<close>

definition dpu_get_transfer_matrix :: "bool \<Rightarrow> 'h host_rank \<Rightarrow> dpu_transfer_matrix" where
  "dpu_get_transfer_matrix self R =
     (if callback_tid_set R \<and> self then callback_matrix R else api_matrix R)"

definition upd_matrix ::
  "(nat \<Rightarrow> bool) \<Rightarrow> nat \<Rightarrow> ('h dpu_rank_t \<Rightarrow> dpu_transfer_matrix \<Rightarrow> dpu_transfer_matrix) \<Rightarrow> 'h host \<Rightarrow> 'h host" where
  "upd_matrix self rank f = upd_rank rank (\<lambda>R.
     if callback_tid_set R \<and> self rank then R\<lparr>callback_matrix := f (low R) (callback_matrix R)\<rparr>
     else R\<lparr>api_matrix := f (low R) (api_matrix R)\<rparr>)"

definition dpu_prepare_xfer :: "(nat \<Rightarrow> bool) \<Rightarrow> dpu_set_t \<Rightarrow> nat option \<Rightarrow> 'h host op" where
  "dpu_prepare_xfer self dpu_set buffer w = (case dpu_set of
       DPU_SET_RANKS ranks \<Rightarrow>
         (DPU_OK, foldl (\<lambda>w rank. foldl (\<lambda>w dpu.
              if \<not> enabled dpu then w
              else upd_matrix self rank (\<lambda>r m. dpu_transfer_matrix_add_dpu r dpu m buffer) w)
            w (rank_dpus (low (hranks w ! rank)))) w ranks)
     | DPU_SET_DPU rank dpu \<Rightarrow>
         if \<not> enabled dpu then (DPU_ERR_DPU_DISABLED, w)
         else (DPU_OK, upd_matrix self rank (\<lambda>r m. dpu_transfer_matrix_add_dpu r dpu m buffer) w)
     | DPU_SET_UNKNOWN \<Rightarrow> (DPU_ERR_INTERNAL, w))"

definition reset_matrices :: "(nat \<Rightarrow> bool) \<Rightarrow> nat list \<Rightarrow> 'h host \<Rightarrow> 'h host" where
  "reset_matrices self ranks w = foldl (\<lambda>w rank. upd_matrix self rank (\<lambda>_ _. dpu_transfer_matrix_clear_all) w) w ranks"

definition push_ranks ::
  "(nat \<Rightarrow> bool) \<Rightarrow> 'h call_env \<Rightarrow> nat list \<Rightarrow> dpu_xfer_t \<Rightarrow> dpu_symbol_t \<Rightarrow> u32 \<Rightarrow> u64 \<Rightarrow> u32 \<Rightarrow> 'h host \<Rightarrow>
     (dpu_error_t \<times> bool \<times> 'h host) outcome" where
  "push_ranks self C ranks xfer symbol symbol_offset len flags w =
     (if CHECK_SYMBOL symbol symbol_offset len \<noteq> DPU_OK
      then Done (CHECK_SYMBOL symbol symbol_offset len, False, w)
      else let address = symbol_address symbol + symbol_offset;
               (address', len') = UPDATE_COPY_PARAMETERS address len
           in case DPU_COPY_MATRIX_SET_JOB_TYPE xfer (MEMORY_SWITCH address) of
                None \<Rightarrow> Done (DPU_ERR_INVALID_MEMORY_TRANSFER, False, w)
              | Some job_type \<Rightarrow> submit_jobs C ranks (SYNCHRONOUS_FLAGS flags)
                  (\<lambda>w i. job_type ((dpu_get_transfer_matrix (self (ranks ! i)) (hranks w ! (ranks ! i)))
                     \<lparr>tm_offset := address', tm_size := ucast len'\<rparr>))
                  (\<lambda>_ waits. waits) w)"

definition dpu_push_xfer_symbol ::
  "(nat \<Rightarrow> bool) \<Rightarrow> 'h call_env \<Rightarrow> dpu_set_t \<Rightarrow> dpu_xfer_t \<Rightarrow> dpu_symbol_t \<Rightarrow> u32 \<Rightarrow> u64 \<Rightarrow> u32 \<Rightarrow> 'h host \<Rightarrow>
     (dpu_error_t \<times> 'h host) outcome" where
  "dpu_push_xfer_symbol self C dpu_set xfer symbol symbol_offset len flags w = (case dpu_set of
       DPU_SET_RANKS ranks \<Rightarrow>
         (case push_ranks self C ranks xfer symbol symbol_offset len flags w of
            Done (status, submitted, w) \<Rightarrow>
              Done (status, if submitted \<and> flags \<noteq> DPU_XFER_NO_RESET then reset_matrices self ranks w else w)
          | Blocks \<Rightarrow> Blocks
          | Crashes \<Rightarrow> Crashes)
     | DPU_SET_DPU rank dpu \<Rightarrow>
         (let R = hranks w ! rank;
              index = unat (get_transfer_matrix_index (low R) (slice_id dpu) (dpu_id dpu));
              buffer = ptr (dpu_get_transfer_matrix (self rank) R) ! index
          in case dpu_copy_symbol_dpu C rank dpu symbol symbol_offset buffer len xfer flags w of
               Done (status, w) \<Rightarrow>
                 Done (status, if flags \<noteq> DPU_XFER_NO_RESET
                               then upd_matrix self rank (\<lambda>r. dpu_transfer_matrix_clear_dpu r dpu) w else w)
             | Blocks \<Rightarrow> Blocks
             | Crashes \<Rightarrow> Crashes)
     | DPU_SET_UNKNOWN \<Rightarrow> Done (DPU_ERR_INTERNAL, w))"

definition dpu_push_xfer ::
  "programs \<Rightarrow> (nat \<Rightarrow> bool) \<Rightarrow> 'h call_env \<Rightarrow> dpu_set_t \<Rightarrow> dpu_xfer_t \<Rightarrow> string \<Rightarrow> u32 \<Rightarrow> u64 \<Rightarrow> u32 \<Rightarrow> 'h host \<Rightarrow>
     (dpu_error_t \<times> 'h host) outcome" where
  "dpu_push_xfer P self C dpu_set xfer symbol_name symbol_offset len flags =
     with_symbol P dpu_set symbol_name (\<lambda>symbol. dpu_push_xfer_symbol self C dpu_set xfer symbol symbol_offset len flags)"

section \<open>Decoding of addresses\<close>

lemma not_bit_below:
  fixes x :: u32
  assumes "unat x < 2 ^ k" "k \<le> n"
  shows "\<not> bit x n"
proof -
  have "unat x < 2 ^ n"
    using assms by (meson le_less_trans less_le_trans one_le_numeral power_increasing not_less)
  then have "\<not> bit (unat x) n"
    by (simp add: bit_iff_odd)
  then show ?thesis
    by (simp add: bit_unsigned_iff)
qed

lemma and_power_eq:
  fixes x :: u32
  assumes "n < 32"
  shows "x AND 2 ^ n = 2 ^ n \<longleftrightarrow> bit x n"
proof
  assume "x AND 2 ^ n = 2 ^ n"
  then have "bit (x AND 2 ^ n) n = bit (2 ^ n :: u32) n"
    by simp
  then show "bit x n"
    using assms by (simp add: bit_simps)
next
  assume "bit x n"
  then show "x AND 2 ^ n = 2 ^ n"
    by (intro bit_word_eqI) (auto simp: bit_simps)
qed

lemma memory_switch_bits:
  "MEMORY_SWITCH x = (if bit x 31 then IRAM else if bit x 27 then MRAM else WRAM)"
  using and_power_eq [of 31 x] and_power_eq [of 27 x] by (simp add: MEMORY_SWITCH_def)

lemma memory_switch_wram: "unat x < 2 ^ 27 \<Longrightarrow> MEMORY_SWITCH x = WRAM"
  by (simp add: memory_switch_bits not_bit_below [of _ 27])

lemma power_or:
  fixes x :: u32
  assumes "\<forall>m \<ge> n. \<not> bit x m"
  shows "2 ^ n + x = 2 ^ n OR x" "(2 ^ n OR x) AND NOT (2 ^ n) = x"
proof -
  have "2 ^ n AND x = 0"
    using assms by (intro bit_word_eqI) (auto simp: bit_simps)
  then show "2 ^ n + x = 2 ^ n OR x"
    by (rule disjunctive_add_eq_or)
  show "(2 ^ n OR x) AND NOT (2 ^ n) = x"
    using assms by (intro bit_word_eqI) (auto simp: bit_simps)
qed

lemma mram_address:
  fixes x :: u32
  assumes "unat x < 2 ^ 27"
  shows "MEMORY_SWITCH (MRAM_MASK + x) = MRAM" "(MRAM_MASK + x) AND NOT MRAM_MASK = x"
proof -
  have nb: "\<forall>m \<ge> 27. \<not> bit x m"
    using not_bit_below [OF assms] by blast
  have "MRAM_MASK + x = 2 ^ 27 OR x"
    using power_or(1) [OF nb] by simp
  moreover have "bit (2 ^ 27 OR x) 27" "\<not> bit (2 ^ 27 OR x) 31"
    unfolding bit_or_iff bit_exp_iff using nb by simp_all
  ultimately show "MEMORY_SWITCH (MRAM_MASK + x) = MRAM"
    by (simp add: memory_switch_bits)
  show "(MRAM_MASK + x) AND NOT MRAM_MASK = x"
    using power_or [OF nb] by simp
qed

lemma and_three: "unat (x AND 3) = unat (x :: 'a::len word) mod 4"
proof -
  have "x AND 3 = take_bit 2 x"
    by (simp add: take_bit_eq_mask mask_eq_exp_minus_1)
  then have "unat (x AND 3) = take_bit 2 (unat x)"
    by (simp only: unsigned_take_bit_eq)
  then show ?thesis
    by (simp add: take_bit_eq_mod)
qed

lemma aligned_four: "x AND 3 = 0 \<longleftrightarrow> unat (x :: 'a::len word) mod 4 = 0"
  by (metis and_three unat_eq_zero)

lemma unat_shift_two: "unat (drop_bit 2 x) = unat (x :: 'a::len word) div 4"
proof -
  have "unat (drop_bit 2 x) = drop_bit 2 (unat x)"
    by (rule unat_drop_bit_eq)
  then show ?thesis
    by (simp add: drop_bit_eq_div)
qed

lemma unat_ucast_small: "unat (l :: u64) < 2 ^ 32 \<Longrightarrow> unat (ucast l :: u32) = unat l"
  by (simp add: unsigned_ucast_eq take_bit_nat_eq_self)

lemma unat_less_32: "unat (x :: u32) < 2 ^ 32"
  using unsigned_less [where 'a = nat, of x] by simp

lemma unat_ucast_up: "unat (ucast x :: u64) = unat (x :: u32)"
  using unat_less_32 [of x] by (simp add: unsigned_ucast_eq take_bit_nat_eq_self)

text \<open>The sum of an offset and a length below \<open>2 ^ 32\<close> is exact.\<close>

lemma symbol_range:
  assumes "CHECK_SYMBOL s offs len = DPU_OK" "unat len < 2 ^ 32"
  shows "unat offs + unat len \<le> unat (symbol_size s)"
proof -
  have "\<not> ucast offs + len > (ucast (symbol_size s) :: u64)"
    using assms(1) by (auto simp: CHECK_SYMBOL_def Let_def split: if_splits)
  moreover have "unat (ucast offs :: u64) + unat len < 2 ^ 64"
    using assms(2) unat_less_32 [of offs] by (simp add: unat_ucast_up)
  ultimately show ?thesis
    using add_le_iff_no_wrap [of "ucast offs :: u64" len "ucast (symbol_size s)"] by (simp add: unat_ucast_up)
qed

section \<open>Common program\<close>

lemma common_program_some:
  "common_program P (Some p) ds =
    (if \<forall>(r, d) \<in> set ds. dpu_get_program P r d = Some p then (DPU_OK, Some p) else (DPU_ERR_DIFFERENT_DPU_PROGRAMS, None))"
proof (induction ds)
  case (Cons d ds)
  then show ?case
    by (cases d) (fastforce simp: Let_def)
qed simp

lemma common_program_none:
  "common_program P None ds = (DPU_OK, Some p) \<longleftrightarrow>
    (\<exists>k m. map (\<lambda>(r, d). dpu_get_program P r d) ds = replicate k None @ replicate (Suc m) (Some p))"
proof (induction ds)
  case (Cons d ds)
  obtain r e where d: "d = (r, e)"
    by fastforce
  show ?case
  proof (cases "dpu_get_program P r e")
    case None
    have "(\<exists>k m. None # xs = replicate k None @ replicate (Suc m) (Some p)) \<longleftrightarrow>
        (\<exists>k m. xs = replicate k None @ replicate (Suc m) (Some p))" for xs :: "nat option list"
    proof
      assume "\<exists>k m. None # xs = replicate k None @ replicate (Suc m) (Some p)"
      then obtain k m where "None # xs = replicate k None @ replicate (Suc m) (Some p)"
        by blast
      then show "\<exists>k m. xs = replicate k None @ replicate (Suc m) (Some p)"
        by (cases k) auto
    next
      assume "\<exists>k m. xs = replicate k None @ replicate (Suc m) (Some p)"
      then obtain k m where "xs = replicate k None @ replicate (Suc m) (Some p)"
        by blast
      then have "None # xs = replicate (Suc k) None @ replicate (Suc m) (Some p)"
        by simp
      then show "\<exists>k m. None # xs = replicate k None @ replicate (Suc m) (Some p)"
        by blast
    qed
    then show ?thesis
      using None Cons.IH d by (simp add: Let_def)
  next
    case (Some q)
    have "(\<exists>k m. Some q # xs = replicate k None @ replicate (Suc m) (Some p)) \<longleftrightarrow>
        q = p \<and> (\<forall>x \<in> set xs. x = Some p)" for xs :: "nat option list"
    proof
      assume "\<exists>k m. Some q # xs = replicate k None @ replicate (Suc m) (Some p)"
      then obtain k m where "Some q # xs = replicate k None @ replicate (Suc m) (Some p)"
        by blast
      then show "q = p \<and> (\<forall>x \<in> set xs. x = Some p)"
        by (cases k) auto
    next
      assume "q = p \<and> (\<forall>x \<in> set xs. x = Some p)"
      then have "Some q # xs = replicate 0 None @ replicate (Suc (length xs)) (Some p)"
        by (simp add: replicate_length_same)
      then show "\<exists>k m. Some q # xs = replicate k None @ replicate (Suc m) (Some p)"
        by blast
    qed
    then show ?thesis
      using Some d by (auto simp: Let_def common_program_some split_beta)
  qed
qed simp

section \<open>The prepared buffers\<close>

lemma upd_matrix_sel [simp]:
  "job_heap (upd_matrix self r f w) = job_heap w" "length (hranks (upd_matrix self r f w)) = length (hranks w)"
  "s \<noteq> r \<Longrightarrow> hranks (upd_matrix self r f w) ! s = hranks w ! s"
  by (simp_all add: upd_matrix_def)

lemma upd_matrix_get:
  "r < length (hranks w) \<Longrightarrow>
    dpu_get_transfer_matrix (self r) (hranks (upd_matrix self r f w) ! r) =
      f (low (hranks w ! r)) (dpu_get_transfer_matrix (self r) (hranks w ! r))"
  "jobs (hranks (upd_matrix self r f w) ! s) = jobs (hranks w ! s)"
  by (simp add: upd_matrix_def dpu_get_transfer_matrix_def)
    (cases "r < length (hranks w)"; cases "s = r"; simp add: upd_matrix_def upd_rank_def list_update_beyond)

lemma reset_matrices_spec:
  assumes "distinct ranks" "set ranks \<subseteq> {..<length (hranks w)}" "w' = reset_matrices self ranks w"
  shows "job_heap w' = job_heap w
    \<and> (\<forall>r \<in> set ranks. dpu_get_transfer_matrix (self r) (hranks w' ! r) = dpu_transfer_matrix_clear_all
         \<and> jobs (hranks w' ! r) = jobs (hranks w ! r))
    \<and> (\<forall>r. r \<notin> set ranks \<longrightarrow> hranks w' ! r = hranks w ! r)"
  using assms
proof (induction ranks arbitrary: w)
  case (Cons r ranks)
  let ?w = "upd_matrix self r (\<lambda>_ _. dpu_transfer_matrix_clear_all) w"
  have "w' = reset_matrices self ranks ?w"
    using Cons.prems(3) by (simp add: reset_matrices_def)
  from Cons.IH [OF _ _ this] Cons.prems show ?case
    by (auto simp: upd_matrix_get)
qed (simp add: reset_matrices_def)

lemma async_flags: "\<not> SYNCHRONOUS_FLAGS flags \<Longrightarrow> flags \<noteq> DPU_XFER_NO_RESET"
  by (auto simp: SYNCHRONOUS_FLAGS_def)

lemma take_slots_matrix:
  assumes "distinct ranks" "set ranks \<subseteq> {..<length (hranks w)}" "r \<in> set ranks"
  shows "dpu_get_transfer_matrix b (hranks (foldl (\<lambda>w r. take_slot r w) w ranks) ! r) =
    dpu_get_transfer_matrix b (hranks w ! r)"
  using take_slots_spec [OF assms(1,2) refl] assms(2,3) by (auto simp: dpu_get_transfer_matrix_def)

section \<open>Properties\<close>

text \<open>
  an access that passes the check of the symbol stays in the memory of the symbol. For a WRAM symbol that
  lies in WRAM, the job that is submitted addresses, in words, exactly the bytes asked for, and the low-level copy
  does not refuse it.
\<close>

lemma wram_symbol_access:
  assumes "CHECK_SYMBOL s offs len = DPU_OK" "unat len < 2 ^ 32"
    and "unat (symbol_address s) + unat (symbol_size s) \<le> 4 * unat (wram_size r)" "4 * unat (wram_size r) < 2 ^ 27"
    and "UPDATE_COPY_PARAMETERS (symbol_address s + offs) len = (a, l)"
  shows "MEMORY_SWITCH (symbol_address s + offs) = WRAM
    \<and> 4 * unat a = unat (symbol_address s) + unat offs \<and> 4 * unat (ucast l :: u32) = unat len
    \<and> verify_wram_access a (ucast l) k r = (if len = 0 then (DPU_OK, r) else k r)"
proof -
  let ?x = "symbol_address s + offs" and ?l = "ucast l :: u32"
  have range: "unat offs + unat len \<le> unat (symbol_size s)"
    by (rule symbol_range [OF assms(1,2)])
  have x: "unat ?x = unat (symbol_address s) + unat offs"
    using range assms(3,4) by (intro unat_add_no_wrap) simp
  then have w: "MEMORY_SWITCH ?x = WRAM"
    using range assms(3,4) by (intro memory_switch_wram) simp
  then have aligned: "unat ?x mod 4 = 0" "unat len mod 4 = 0"
    using assms(1) by (auto simp: CHECK_SYMBOL_def Let_def aligned_four split: if_splits)
  have al: "a = drop_bit 2 ?x" "l = drop_bit 2 len"
    using assms(5) w by (simp_all add: UPDATE_COPY_PARAMETERS_def)
  have l: "unat ?l = unat len div 4"
    using unat_shift_two [of len] assms(2) unfolding al(2) by (subst unat_ucast_small) simp_all
  have four: "4 * unat a = unat ?x" "4 * unat ?l = unat len"
    using aligned unat_shift_two [of ?x] l unfolding al(1) by presburger+
  have "unat a + unat ?l \<le> unat (wram_size r)"
    using four x range assms(3) by linarith
  moreover have "len = 0 \<longleftrightarrow> ?l = 0"
    using four(2) by (metis mult_eq_0_iff unat_eq_zero zero_neq_numeral)
  ultimately have "verify_wram_access a ?l k r = (if len = 0 then (DPU_OK, r) else k r)"
    using unat_less_32 [of "wram_size r"] add_le_iff_no_wrap [of a ?l "wram_size r"]
    by (auto simp: verify_wram_access_def word_le_nat_alt unat_eq_0 [symmetric] simp del: unat_eq_0)
  then show ?thesis
    using w four x by simp
qed

lemma wram_symbol_access_witness:
  "verify_wram_access 4 2 (\<lambda>r. (7, r)) sim_rank = (7, sim_rank)"
proof -
  have "UPDATE_COPY_PARAMETERS 16 8 = (4, 2)" "4 * unat (wram_size sim_rank) = 65536"
      "CHECK_SYMBOL \<lparr>symbol_address = 8, symbol_size = 16\<rparr> 8 8 = DPU_OK"
    by (simp_all add: UPDATE_COPY_PARAMETERS_def CHECK_SYMBOL_def MEMORY_SWITCH_def sim_rank_def)
  then show ?thesis
    using wram_symbol_access [of "\<lparr>symbol_address = 8, symbol_size = 16\<rparr>" 8 8 sim_rank 4 2 "\<lambda>r. (7, r)"] by simp
qed

text \<open>
  an access to an MRAM symbol that passes the check of the symbol and that lies in MRAM addresses exactly the bytes
  asked for; the low-level check then refuses it only when its offset or its length is not a multiple of eight, an
  alignment that the check of the symbol does not look at.
\<close>

lemma mram_symbol_access:
  assumes "CHECK_SYMBOL s offs len = DPU_OK" "unat len < 2 ^ 32" "len \<noteq> 0"
    and "symbol_address s = MRAM_MASK + x" "unat x + unat (symbol_size s) \<le> unat (mram_size r)"
    and "unat (mram_size r) \<le> 2 ^ 27"
    and "UPDATE_COPY_PARAMETERS (symbol_address s + offs) len = (a, l)"
  shows "MEMORY_SWITCH (symbol_address s + offs) = MRAM \<and> a = x + offs \<and> unat a = unat x + unat offs \<and> l = len
    \<and> verify_mram_access_offset_and_size a (ucast l) k r =
        (if unat a mod 8 \<noteq> 0 \<or> unat len mod 8 \<noteq> 0 then (DPU_ERR_INVALID_MRAM_ACCESS, r) else k r)"
proof -
  let ?l = "ucast len :: u32"
  have range: "unat offs + unat len \<le> unat (symbol_size s)"
    by (rule symbol_range [OF assms(1,2)])
  have "unat len \<noteq> 0"
    using assms(3) by (metis unat_eq_zero)
  then have xo: "unat (x + offs) = unat x + unat offs" "unat (x + offs) < 2 ^ 27"
      "unat (x + offs) + unat len \<le> unat (mram_size r)"
    using range assms(5,6) by (simp_all add: unat_add_no_wrap)
  have s: "symbol_address s + offs = MRAM_MASK + (x + offs)"
    using assms(4) by simp
  have m: "MEMORY_SWITCH (symbol_address s + offs) = MRAM" "a = x + offs" "l = len"
    using assms(7) mram_address [OF xo(2)] unfolding s by (simp_all add: UPDATE_COPY_PARAMETERS_def)
  have l: "unat ?l = unat len"
    using assms(2) by (rule unat_ucast_small)
  have mod8: "y mod 8 \<noteq> 0 \<longleftrightarrow> unat y mod 8 \<noteq> 0" for y :: u32
    using unat_mod_distrib [of y 8] unat_eq_zero [of "y mod 8"] by simp
  have "\<not> a \<ge> mram_size r" "\<not> a + ?l > mram_size r"
    using xo(3) l m(2) \<open>unat len \<noteq> 0\<close> unat_less_32 [of "mram_size r"] add_le_iff_no_wrap [of a ?l "mram_size r"]
    by (simp_all add: word_le_nat_alt)
  then show ?thesis
    using m xo(1) l mod8 [of a] mod8 [of ?l]
    by (auto simp: verify_mram_access_offset_and_size_def)
qed

lemma mram_symbol_access_witness:
  "verify_mram_access_offset_and_size 4 8 (\<lambda>r. (7, r)) sim_rank = (DPU_ERR_INVALID_MRAM_ACCESS, sim_rank)"
proof -
  have "UPDATE_COPY_PARAMETERS 0x08000004 8 = (4, 8)" "unat (mram_size sim_rank) \<ge> 16" "unat (mram_size sim_rank) \<le> 134217728"
      "CHECK_SYMBOL \<lparr>symbol_address = 0x08000000, symbol_size = 16\<rparr> 4 8 = DPU_OK"
    by (simp_all add: UPDATE_COPY_PARAMETERS_def CHECK_SYMBOL_def MEMORY_SWITCH_def sim_rank_def)
  then show ?thesis
    using mram_symbol_access [of "\<lparr>symbol_address = 0x08000000, symbol_size = 16\<rparr>" 4 8 0 sim_rank 4 8 "\<lambda>r. (7, r)"] by simp
qed

text \<open>
  \<open>dpu_get_common_program\<close> finds the program \<open>p\<close> exactly when the enabled DPUs of the set, in the order of the set,
  are some DPUs without a program followed by at least one DPU, all of them with the program \<open>p\<close>: DPUs without a program
  are not noticed as long as they come first.
\<close>

lemma common_program_found:
  "dpu_get_common_program P (DPU_SET_RANKS ranks) w = (DPU_OK, Some p) \<longleftrightarrow>
     (\<exists>k m. map (\<lambda>(r, d). dpu_get_program P r d) (enabled_of_ranks ranks w) =
        replicate k None @ replicate (Suc m) (Some p))"
  unfolding common_program_none [symmetric]
  by (auto simp: dpu_get_common_program_def Let_def split: prod.splits if_splits)

text \<open>
  C21: an asynchronous push of a prepared transfer submits to each rank one job that carries the buffers prepared for that
  rank, at the decoded offset and length, and then forgets the prepared buffers. It forgets them also when the flags
  ask for \<^verbatim>\<open>DPU_XFER_NO_RESET\<close> together with \<^verbatim>\<open>DPU_XFER_ASYNC\<close>.
\<close>

theorem asynchronous_push:
  assumes "distinct ranks" "set ranks \<subseteq> {..<length (hranks w)}" "\<forall>r \<in> set ranks. has_slot w r"
    and "distinct (map (\<lambda>r. hd (available_jobs (hranks w ! r))) ranks)"
    and "CHECK_SYMBOL s offs len = DPU_OK" "\<not> SYNCHRONOUS_FLAGS flags"
    and "DPU_COPY_MATRIX_SET_JOB_TYPE xfer (MEMORY_SWITCH (symbol_address s + offs)) = Some job_type"
    and "UPDATE_COPY_PARAMETERS (symbol_address s + offs) len = (a, l)"
  shows "\<exists>w'. dpu_push_xfer_symbol self C (DPU_SET_RANKS ranks) xfer s offs len flags w = Done (DPU_OK, w')
    \<and> (\<forall>r \<in> set ranks. jobs (hranks w' ! r) = jobs (hranks w ! r) @ [hd (available_jobs (hranks w ! r))]
        \<and> job_body (job_heap w' (hd (available_jobs (hranks w ! r)))) =
            job_type ((dpu_get_transfer_matrix (self r) (hranks w ! r))\<lparr>tm_offset := a, tm_size := ucast l\<rparr>)
        \<and> dpu_get_transfer_matrix (self r) (hranks w' ! r) = dpu_transfer_matrix_clear_all)"
proof -
  let ?body = "\<lambda>w i. job_type ((dpu_get_transfer_matrix (self (ranks ! i)) (hranks w ! (ranks ! i)))
    \<lparr>tm_offset := a, tm_size := ucast l\<rparr>)"
  obtain w1 where w1: "submit_jobs C ranks False ?body (\<lambda>_ waits. waits) w = Done (DPU_OK, True, w1)"
      "\<forall>i < length ranks. job_body (job_heap w1 (hd (available_jobs (hranks w ! (ranks ! i))))) =
         ?body (foldl (\<lambda>w r. take_slot r w) w ranks) i"
      "\<forall>r \<in> set ranks. hranks w1 ! r = (hranks w ! r)\<lparr>
         available_jobs := tl (available_jobs (hranks w ! r)),
         available_jobs_length := available_jobs_length (hranks w ! r) - 1,
         jobs := jobs (hranks w ! r) @ [hd (available_jobs (hranks w ! r))]\<rparr>"
      "length (hranks w1) = length (hranks w)"
    using async_submit [OF assms(1-4), of C ?body "\<lambda>_ waits. waits"] by blast
  define w2 where "w2 = reset_matrices self ranks w1"
  have "dpu_push_xfer_symbol self C (DPU_SET_RANKS ranks) xfer s offs len flags w = Done (DPU_OK, w2)"
    using assms(5-8) w1(1) async_flags [OF assms(6)]
    by (simp add: dpu_push_xfer_symbol_def push_ranks_def w2_def Let_def)
  moreover have w2: "job_heap w2 = job_heap w1"
      "\<forall>r \<in> set ranks. dpu_get_transfer_matrix (self r) (hranks w2 ! r) = dpu_transfer_matrix_clear_all
         \<and> jobs (hranks w2 ! r) = jobs (hranks w1 ! r)"
    using reset_matrices_spec [OF assms(1) _ w2_def] assms(2) w1(4) by simp_all
  moreover have "job_body (job_heap w2 (hd (available_jobs (hranks w ! r)))) =
      job_type ((dpu_get_transfer_matrix (self r) (hranks w ! r))\<lparr>tm_offset := a, tm_size := ucast l\<rparr>)"
    if r: "r \<in> set ranks" for r
  proof -
    obtain i where i: "i < length ranks" "r = ranks ! i"
      using r by (auto simp: in_set_conv_nth)
    then show ?thesis
      using w1(2) w2(1) take_slots_matrix [OF assms(1,2) r] by simp
  qed
  ultimately show ?thesis
    using w1(3) by (intro exI [of _ w2]) simp
qed

theorem asynchronous_push_witness:
  "\<exists>w'. dpu_push_xfer_symbol (\<lambda>_. False) (sim_call [] sim_env) (DPU_SET_RANKS [0, 1]) DPU_XFER_TO_DPU
       \<lparr>symbol_address = 0x08000000, symbol_size = 16\<rparr> 8 8 3 (sim_host [] [22] [[], [22], [], []]) = Done (DPU_OK, w')
     \<and> job_body (job_heap w' 20) =
         DPU_THREAD_JOB_COPY_MRAM_TO_MATRIX (dpu_transfer_matrix_clear_all\<lparr>tm_offset := 8, tm_size := 8\<rparr>)"
proof -
  have c: "UPDATE_COPY_PARAMETERS 0x08000008 8 = (8, 8)" "\<not> SYNCHRONOUS_FLAGS 3"
      "CHECK_SYMBOL \<lparr>symbol_address = 0x08000000, symbol_size = 16\<rparr> 8 8 = DPU_OK"
      "DPU_COPY_MATRIX_SET_JOB_TYPE DPU_XFER_TO_DPU (MEMORY_SWITCH 0x08000008) = Some DPU_THREAD_JOB_COPY_MRAM_TO_MATRIX"
    by (simp_all add: UPDATE_COPY_PARAMETERS_def CHECK_SYMBOL_def MEMORY_SWITCH_def SYNCHRONOUS_FLAGS_def
        DPU_COPY_MATRIX_SET_JOB_TYPE_def)
  have m: "dpu_get_transfer_matrix False (sim_hrank q f j) = dpu_transfer_matrix_clear_all" for q f j
    by (simp add: dpu_get_transfer_matrix_def sim_hrank_def)
  show ?thesis
    using asynchronous_push [of "[0, 1]" "sim_host [] [22] [[], [22], [], []]"
        "\<lparr>symbol_address = 0x08000000, symbol_size = 16\<rparr>" 8 8 3 DPU_XFER_TO_DPU DPU_THREAD_JOB_COPY_MRAM_TO_MATRIX 8 8
        "\<lambda>_. False" "sim_call [] sim_env"] c m
    by (auto simp: has_slot_def)
qed

end
