(* ===== verification/Sets.thy ===== *)
theory Sets
  imports Transfers
begin

text \<open>
  Sets of DPUs (\<^verbatim>\<open>api/src/api/dpu_set.c\<close>): the numbers of ranks and DPUs, the iterators behind \<^verbatim>\<open>DPU_RANK_FOREACH\<close> and
  \<^verbatim>\<open>DPU_FOREACH\<close>, the table of the allocated sets, and the choice of the DPUs that are disabled
  when more DPUs are allocated than were asked for. \<^verbatim>\<open>dpu_disable_one_dpu\<close> is in \<^verbatim>\<open>api/src/dpu_internals.c\<close>.
\<close>

section \<open>Counting\<close>

definition get_nr_of_dpus_in_rank :: "'h dpu_rank_t \<Rightarrow> u32" where
  "get_nr_of_dpus_in_rank rank = foldl (\<lambda>count each_ci.
     if all_dpus_are_enabled rank ! each_ci then count + ucast (nr_of_dpus_per_control_interface rank)
     else count + dpu_mask_count (enabled_dpus rank ! each_ci)) 0 [0..<unat (nr_of_control_interfaces rank)]"

definition dpu_get_nr_ranks :: "dpu_set_t \<Rightarrow> dpu_error_t \<times> u32 option" where
  "dpu_get_nr_ranks dpu_set = (case dpu_set of
       DPU_SET_RANKS ranks \<Rightarrow> (DPU_OK, Some (word_of_nat (length ranks)))
     | DPU_SET_DPU _ _ \<Rightarrow> (DPU_OK, Some 1)
     | DPU_SET_UNKNOWN \<Rightarrow> (DPU_ERR_INTERNAL, None))"

definition dpu_get_nr_dpus :: "dpu_set_t \<Rightarrow> 'h host \<Rightarrow> dpu_error_t \<times> u32 option" where
  "dpu_get_nr_dpus dpu_set w = (case dpu_set of
       DPU_SET_RANKS ranks \<Rightarrow>
         (DPU_OK, Some (foldl (\<lambda>nr_dpus rank. nr_dpus + get_nr_of_dpus_in_rank (low (hranks w ! rank))) 0 ranks))
     | DPU_SET_DPU _ _ \<Rightarrow> (DPU_OK, Some 1)
     | DPU_SET_UNKNOWN \<Rightarrow> (DPU_ERR_INTERNAL, None))"

section \<open>Iterators\<close>

text \<open>
  \<^verbatim>\<open>next.list.ranks\<close> of a rank iterator points into the array of ranks of the set: \<open>ri_pos\<close> is its position there.
  The counters never exceed the number of ranks or of DPUs, and are natural numbers here.
\<close>

record dpu_set_rank_iterator_t =
  ri_set :: dpu_set_t
  ri_count :: nat
  ri_next_idx :: nat
  ri_has_next :: bool
  ri_pos :: nat

definition dpu_set_rank_iterator_from :: "dpu_set_t \<Rightarrow> dpu_set_rank_iterator_t" where
  "dpu_set_rank_iterator_from dpu_set =
     \<lparr>ri_set = dpu_set, ri_count = 0, ri_next_idx = 1,
      ri_has_next = (case dpu_set of DPU_SET_RANKS ranks \<Rightarrow> length ranks \<noteq> 0 | DPU_SET_DPU _ _ \<Rightarrow> True | DPU_SET_UNKNOWN \<Rightarrow> False),
      ri_pos = 0\<rparr>"

definition dpu_set_rank_iterator_next :: "dpu_set_rank_iterator_t \<Rightarrow> dpu_set_rank_iterator_t" where
  "dpu_set_rank_iterator_next iterator =
     (let iterator = iterator\<lparr>ri_count := ri_count iterator + 1\<rparr>
      in if \<not> ri_has_next iterator then iterator
         else case ri_set iterator of
                DPU_SET_RANKS ranks \<Rightarrow>
                  if ri_next_idx iterator < length ranks
                  then iterator\<lparr>ri_pos := ri_next_idx iterator, ri_next_idx := ri_next_idx iterator + 1\<rparr>
                  else iterator\<lparr>ri_has_next := False\<rparr>
              | _ \<Rightarrow> iterator\<lparr>ri_has_next := False\<rparr>)"

record dpu_set_dpu_iterator_t =
  rank_iterator :: dpu_set_rank_iterator_t
  di_count :: nat
  di_next_idx :: nat
  di_has_next :: bool
  di_next :: dpu_set_t

function next_enabled :: "dpu_t list \<Rightarrow> nat \<Rightarrow> nat \<Rightarrow> nat option" where
  "next_enabled ds dpu_idx nr_dpus =
     (if dpu_idx < nr_dpus
      then if enabled (ds ! dpu_idx) then Some dpu_idx else next_enabled ds (dpu_idx + 1) nr_dpus
      else None)"
  by pat_completeness auto
termination by (relation "measure (\<lambda>(ds, i, n). n - i)") auto

declare next_enabled.simps [simp del]

definition iterator_rank :: "dpu_set_rank_iterator_t \<Rightarrow> nat" where
  "iterator_rank iterator = (case ri_set iterator of DPU_SET_RANKS ranks \<Rightarrow> ranks ! ri_pos iterator | _ \<Rightarrow> 0)"

function advance_to_next_dpu ::
  "'h host \<Rightarrow> nat \<Rightarrow> dpu_set_dpu_iterator_t \<Rightarrow> dpu_set_dpu_iterator_t" where
  "advance_to_next_dpu w dpu_idx iterator =
     (let rank = iterator_rank (rank_iterator iterator);
          r = low (hranks w ! rank);
          nr_dpus = unat (nr_of_control_interfaces r) * unat (nr_of_dpus_per_control_interface r)
      in case next_enabled (dpus r) dpu_idx nr_dpus of
           Some i \<Rightarrow> iterator\<lparr>di_has_next := True, di_next_idx := i + 1, di_next := DPU_SET_DPU rank (dpus r ! i)\<rparr>
         | None \<Rightarrow>
             let ri = dpu_set_rank_iterator_next (rank_iterator iterator);
                 iterator' = iterator\<lparr>rank_iterator := ri\<rparr>
             in if ri_has_next ri then advance_to_next_dpu w 0 iterator'
                else iterator'\<lparr>di_has_next := False\<rparr>)"
  by pat_completeness auto
termination
  by (relation "measure (\<lambda>(w, i, it). case ri_set (rank_iterator it) of
        DPU_SET_RANKS ranks \<Rightarrow> length ranks - ri_next_idx (rank_iterator it) | _ \<Rightarrow> 0)")
    (auto simp: dpu_set_rank_iterator_next_def Let_def split: dpu_set_t.splits if_splits)

declare advance_to_next_dpu.simps [simp del]

definition advance_to_next_dpu_in_rank_list ::
  "'h host \<Rightarrow> dpu_set_dpu_iterator_t \<Rightarrow> dpu_set_dpu_iterator_t" where
  "advance_to_next_dpu_in_rank_list w iterator = advance_to_next_dpu w (di_next_idx iterator) iterator"

text \<open>The members that are not initialised are the \<open>0\<close> and the unknown set here.\<close>

definition dpu_set_dpu_iterator_from :: "'h host \<Rightarrow> dpu_set_t \<Rightarrow> dpu_set_dpu_iterator_t" where
  "dpu_set_dpu_iterator_from w dpu_set =
     (let iterator = \<lparr>rank_iterator = dpu_set_rank_iterator_from dpu_set, di_count = 0, di_next_idx = 0, di_has_next = False,
                      di_next = DPU_SET_UNKNOWN\<rparr>
      in if \<not> ri_has_next (rank_iterator iterator) then iterator\<lparr>di_has_next := False\<rparr>
         else case dpu_set of
                DPU_SET_RANKS _ \<Rightarrow> advance_to_next_dpu_in_rank_list w (iterator\<lparr>di_next_idx := 0\<rparr>)
              | DPU_SET_DPU _ _ \<Rightarrow> iterator\<lparr>di_has_next := True, di_next := dpu_set\<rparr>
              | DPU_SET_UNKNOWN \<Rightarrow> iterator\<lparr>di_has_next := False\<rparr>)"

definition dpu_set_dpu_iterator_next :: "'h host \<Rightarrow> dpu_set_dpu_iterator_t \<Rightarrow> dpu_set_dpu_iterator_t" where
  "dpu_set_dpu_iterator_next w iterator =
     (let iterator = iterator\<lparr>di_count := di_count iterator + 1\<rparr>
      in if \<not> di_has_next iterator then iterator
         else case ri_set (rank_iterator iterator) of
                DPU_SET_RANKS _ \<Rightarrow> advance_to_next_dpu_in_rank_list w iterator
              | _ \<Rightarrow> iterator\<lparr>di_has_next := False\<rparr>)"

text \<open>
  The loop of \<^verbatim>\<open>DPU_FOREACH\<close>: the sets that it visits with their index. \<open>None\<close> when the loop has not ended after the
  given number of iterations.
\<close>

fun DPU_FOREACH :: "nat \<Rightarrow> 'h host \<Rightarrow> dpu_set_dpu_iterator_t \<Rightarrow> (nat \<times> dpu_set_t) list option" where
  "DPU_FOREACH 0 w it = None"
| "DPU_FOREACH (Suc fuel) w it =
     (if \<not> di_has_next it then Some []
      else map_option ((#) (di_count it, di_next it)) (DPU_FOREACH fuel w (dpu_set_dpu_iterator_next w it)))"

section \<open>The table of the allocated sets\<close>

text \<open>
  The table is an array of \<open>capacity\<close> entries of which the first \<open>size\<close> are used. Sets are compared byte by byte
  (\<^verbatim>\<open>memcmp\<close>): \<open>'a\<close> is the content of a \<^verbatim>\<open>struct dpu_set_t\<close>. \<open>realloc_ok\<close> tells whether the allocation succeeds.
  Writing after the end of the array \<open>Crashes\<close>.
\<close>

record 'a set_allocator =
  set_allocator_sets :: "'a option list"
  set_allocator_size :: nat
  set_allocator_capacity :: nat

definition set_allocator_register :: "bool \<Rightarrow> 'a \<Rightarrow> 'a set_allocator \<Rightarrow> (dpu_error_t \<times> 'a set_allocator) outcome" where
  "set_allocator_register realloc_ok the_set A =
     (let full = (set_allocator_size A = set_allocator_capacity A);
          A = (if full then A\<lparr>set_allocator_capacity := 2 * set_allocator_capacity A + 2\<rparr> else A)
      in if full \<and> \<not> realloc_ok then Done (DPU_ERR_SYSTEM, A)
         else let A = (if full
                       then A\<lparr>set_allocator_sets := set_allocator_sets A @
                              replicate (set_allocator_capacity A - length (set_allocator_sets A)) None\<rparr>
                       else A)
              in if set_allocator_size A < length (set_allocator_sets A)
                 then Done (DPU_OK, A\<lparr>set_allocator_sets := (set_allocator_sets A)[set_allocator_size A := Some the_set],
                              set_allocator_size := set_allocator_size A + 1\<rparr>)
                 else Crashes)"

definition registered :: "'a set_allocator \<Rightarrow> 'a option list" where
  "registered A = take (set_allocator_size A) (set_allocator_sets A)"

fun find_set :: "'a option list \<Rightarrow> nat \<Rightarrow> 'a \<Rightarrow> nat option" where
  "find_set [] i the_set = None"
| "find_set (s # ss) i the_set = (if s = Some the_set then Some i else find_set ss (Suc i) the_set)"

definition set_allocator_find :: "'a \<Rightarrow> 'a set_allocator \<Rightarrow> nat option" where
  "set_allocator_find the_set A = find_set (registered A) 0 the_set"

definition set_allocator_unregister :: "'a \<Rightarrow> 'a set_allocator \<Rightarrow> dpu_error_t \<times> 'a set_allocator" where
  "set_allocator_unregister the_set A = (case set_allocator_find the_set A of
       None \<Rightarrow> (DPU_ERR_INVALID_DPU_SET, A)
     | Some idx \<Rightarrow>
         let sets = set_allocator_sets A; size = set_allocator_size A;
             sets = (if idx \<noteq> size - 1
                     then take idx sets @ take (size - 1 - idx) (drop (idx + 1) sets) @ drop (size - 1) sets
                     else sets)
         in (DPU_OK, A\<lparr>set_allocator_sets := sets, set_allocator_size := size - 1\<rparr>))"

section \<open>Disabling DPUs\<close>

text \<open>\<^verbatim>\<open>dpu_disable_one_dpu\<close>: the DPU is given by its index in the array of DPUs of the rank.\<close>

definition dpu_disable_one_dpu :: "'h dpu_rank_handler \<Rightarrow> nat \<Rightarrow> 'h dpu_rank_t op" where
  "dpu_disable_one_dpu H i rank =
     (let dpu = dpus rank ! i
      in if \<not> enabled dpu then (DPU_ERR_DPU_DISABLED, rank)
         else FF (RANK_FEATURE (disable_dpu H dpu) rank) (\<lambda>rank.
           let slice = unat (slice_id dpu)
           in (DPU_OK, rank\<lparr>
                enabled_dpus := (enabled_dpus rank)[slice :=
                  enabled_dpus rank ! slice AND NOT (push_bit (unat (dpu_id dpu)) 1)],
                all_dpus_are_enabled := (all_dpus_are_enabled rank)[slice := False],
                dpus := (dpus rank)[i := dpu\<lparr>enabled := False\<rparr>]\<rparr>)))"

record line_scan =
  count_disabled_on_line :: nat
  ci_enabled :: nat
  one_enabled_on_line :: bool

definition scan_line :: "'h dpu_rank_t \<Rightarrow> nat \<Rightarrow> line_scan" where
  "scan_line rank line = foldl (\<lambda>s ci.
     if enabled (dpus rank ! DPU_INDEX rank ci line) then s\<lparr>ci_enabled := ci, one_enabled_on_line := True\<rparr>
     else s\<lparr>count_disabled_on_line := count_disabled_on_line s + 1\<rparr>)
     \<lparr>count_disabled_on_line = 0, ci_enabled = 0, one_enabled_on_line = False\<rparr> [0..<unat (nr_of_control_interfaces rank)]"

text \<open>The three targets are \<open>None\<close> while they have the initial values that the assertions look for.\<close>

record disable_target =
  target :: "(nat \<times> nat \<times> nat) option"
  max_disabled_dpus_on_line :: nat
  max_enabled_dpus_on_rank :: nat

definition consider_line :: "nat \<Rightarrow> nat \<Rightarrow> 'h dpu_rank_t \<Rightarrow> disable_target \<Rightarrow> nat \<Rightarrow> disable_target" where
  "consider_line k enabled_dpus_on_rank rank t line =
     (let s = scan_line rank line
      in if one_enabled_on_line s
            \<and> (count_disabled_on_line s > max_disabled_dpus_on_line t
               \<or> count_disabled_on_line s = max_disabled_dpus_on_line t
                 \<and> enabled_dpus_on_rank \<ge> max_enabled_dpus_on_rank t)
         then \<lparr>target = Some (k, ci_enabled s, line), max_disabled_dpus_on_line = count_disabled_on_line s,
               max_enabled_dpus_on_rank = enabled_dpus_on_rank\<rparr>
         else t)"

definition consider_rank :: "'h dpu_rank_t list \<Rightarrow> disable_target \<Rightarrow> nat \<Rightarrow> disable_target" where
  "consider_rank ranks t k =
     (let rank = ranks ! k; enabled_dpus_on_rank = unat (get_nr_of_dpus_in_rank rank)
      in if enabled_dpus_on_rank = 1 then t
         else foldl (consider_line k enabled_dpus_on_rank rank) t [0..<unat (nr_of_dpus_per_control_interface rank)])"

definition find_target :: "'h dpu_rank_t list \<Rightarrow> (nat \<times> nat \<times> nat) option" where
  "find_target ranks = target (foldl (consider_rank ranks)
     \<lparr>target = None, max_disabled_dpus_on_line = 0, max_enabled_dpus_on_rank = 0\<rparr> [0..<length ranks])"

definition disable_one_dpu ::
  "'h dpu_rank_handler \<Rightarrow> 'h dpu_rank_t list \<Rightarrow> (dpu_error_t \<times> 'h dpu_rank_t list) outcome" where
  "disable_one_dpu H ranks = (case find_target ranks of
       None \<Rightarrow> Crashes
     | Some (k, ci, line) \<Rightarrow>
         (case dpu_disable_one_dpu H (DPU_INDEX (ranks ! k) ci line) (ranks ! k) of
            (status, rank) \<Rightarrow> Done (status, ranks[k := rank])))"

fun disable_dpus_loop ::
  "'h dpu_rank_handler \<Rightarrow> nat \<Rightarrow> 'h dpu_rank_t list \<Rightarrow> (dpu_error_t \<times> 'h dpu_rank_t list) outcome" where
  "disable_dpus_loop H 0 ranks = Done (DPU_OK, ranks)"
| "disable_dpus_loop H (Suc n) ranks = (case disable_one_dpu H ranks of
       Done (status, ranks) \<Rightarrow> if status \<noteq> DPU_OK then Done (status, ranks) else disable_dpus_loop H n ranks
     | Blocks \<Rightarrow> Blocks
     | Crashes \<Rightarrow> Crashes)"

definition disable_unused_dpus ::
  "'h dpu_rank_handler \<Rightarrow> nat \<Rightarrow> nat \<Rightarrow> 'h dpu_rank_t list \<Rightarrow> (dpu_error_t \<times> 'h dpu_rank_t list) outcome" where
  "disable_unused_dpus H current_nr_of_dpus nr_dpus current_ranks =
     (if length current_ranks = 0 \<or> current_nr_of_dpus < nr_dpus then Crashes
      else disable_dpus_loop H (current_nr_of_dpus - nr_dpus) current_ranks)"

section \<open>The DPUs that the iterator visits\<close>

text \<open>The DPUs of a rank in the order of its array.\<close>

lemma product_index:
  "map (\<lambda>(c, d). xs ! (m * c + d)) (List.product [0..<n] [0..<m]) = map ((!) xs) [0..<n * m]"
proof (induction n)
  case (Suc n)
  have "[0..<n * m + m] = [0..<n * m] @ [n * m..<n * m + m]"
    by (rule upt_add_eq_append) simp
  then have "[0..<Suc n * m] = [0..<n * m] @ map (\<lambda>d. m * n + d) [0..<m]"
    by (simp add: map_add_upt [of "m * n" m] mult.commute add.commute)
  then show ?case
    using Suc.IH by (simp add: product_concat_map comp_def)
qed simp

lemma rank_dpus_array:
  "rank_dpus r = map ((!) (dpus r)) [0..<unat (nr_of_control_interfaces r) * unat (nr_of_dpus_per_control_interface r)]"
  unfolding rank_dpus_def DPU_INDEX_def by (rule product_index)

definition enabled_from :: "nat \<Rightarrow> 'h dpu_rank_t \<Rightarrow> dpu_t list" where
  "enabled_from i r = filter enabled (map ((!) (dpus r))
     [i..<unat (nr_of_control_interfaces r) * unat (nr_of_dpus_per_control_interface r)])"

lemma next_enabled_spec:
  "case next_enabled ds i n of
     None \<Rightarrow> filter enabled (map ((!) ds) [i..<n]) = []
   | Some j \<Rightarrow> i \<le> j \<and> j < n \<and> filter enabled (map ((!) ds) [i..<n]) = ds ! j # filter enabled (map ((!) ds) [Suc j..<n])"
proof (induction ds i n rule: next_enabled.induct)
  case (1 ds i n)
  show ?case
  proof (cases "i < n")
    case True
    then have u: "[i..<n] = i # [Suc i..<n]"
      by (simp add: upt_rec)
    show ?thesis
    proof (cases "enabled (ds ! i)")
      case e: True
      with True show ?thesis
        by (subst next_enabled.simps) (simp add: u)
    next
      case e: False
      have "next_enabled ds i n = next_enabled ds (Suc i) n"
        using True e by (subst next_enabled.simps) simp
      then show ?thesis
        using 1 [OF True e] e by (auto simp: u split: option.splits)
    qed
  qed (simp add: next_enabled.simps)
qed

text \<open>
  \<open>visiting rs k i it\<close>: the iterator \<open>it\<close> over the ranks \<open>rs\<close> stands in the rank number \<open>k\<close>, before its DPU number \<open>i\<close>.
  \<open>to_visit\<close> are the DPUs that are still ahead.
\<close>

definition visiting :: "nat list \<Rightarrow> nat \<Rightarrow> dpu_set_dpu_iterator_t \<Rightarrow> bool" where
  "visiting rs k it \<longleftrightarrow> ri_set (rank_iterator it) = DPU_SET_RANKS rs \<and> ri_pos (rank_iterator it) = k
     \<and> ri_next_idx (rank_iterator it) = Suc k \<and> ri_has_next (rank_iterator it) \<and> k < length rs"

definition to_visit :: "'h host \<Rightarrow> nat list \<Rightarrow> nat \<Rightarrow> nat \<Rightarrow> (nat \<times> dpu_t) list" where
  "to_visit w rs k i = map (Pair (rs ! k)) (enabled_from i (low (hranks w ! (rs ! k)))) @ enabled_of_ranks (drop (Suc k) rs) w"

lemma to_visit_next: "k < length rs \<Longrightarrow> to_visit w rs k 0 = enabled_of_ranks (drop k rs) w"
  by (simp add: to_visit_def enabled_from_def enabled_of_ranks_def rank_dpus_array Cons_nth_drop_Suc [symmetric])

lemma advance_to_next_dpu_spec:
  assumes "visiting rs k it" "to_visit w rs k i = ds" "it' = advance_to_next_dpu w i it"
  shows "(ds = [] \<longrightarrow> \<not> di_has_next it')
    \<and> (\<forall>r d ds'. ds = (r, d) # ds' \<longrightarrow> di_has_next it' \<and> di_next it' = DPU_SET_DPU r d \<and> di_count it' = di_count it
         \<and> (\<exists>k'. visiting rs k' it' \<and> to_visit w rs k' (di_next_idx it') = ds'))"
  using assms
proof (induction "length rs - k" arbitrary: k i it ds rule: less_induct)
  case less
  let ?r = "low (hranks w ! (rs ! k))"
  let ?n = "unat (nr_of_control_interfaces ?r) * unat (nr_of_dpus_per_control_interface ?r)"
  have k: "iterator_rank (rank_iterator it) = rs ! k"
    using less.prems(1) by (simp add: visiting_def iterator_rank_def)
  note find = next_enabled_spec [of "dpus ?r" i ?n]
  show ?case
  proof (cases "next_enabled (dpus ?r) i ?n")
    case (Some j)
    then have it': "it' = it\<lparr>di_has_next := True, di_next_idx := j + 1, di_next := DPU_SET_DPU (rs ! k) (dpus ?r ! j)\<rparr>"
      using less.prems(3) k by (subst (asm) advance_to_next_dpu.simps) (simp add: Let_def)
    have "ds = (rs ! k, dpus ?r ! j) # to_visit w rs k (Suc j)"
      using Some find less.prems(2) by (auto simp: to_visit_def enabled_from_def)
    moreover have "visiting rs k it'"
      using less.prems(1) by (simp add: it' visiting_def)
    ultimately show ?thesis
      by (auto simp: it')
  next
    case None
    let ?ri = "dpu_set_rank_iterator_next (rank_iterator it)"
    have ds: "ds = enabled_of_ranks (drop (Suc k) rs) w"
      using None find less.prems(2) by (simp add: to_visit_def enabled_from_def)
    have it': "it' = (if ri_has_next ?ri then advance_to_next_dpu w 0 (it\<lparr>rank_iterator := ?ri\<rparr>)
        else it\<lparr>rank_iterator := ?ri, di_has_next := False\<rparr>)"
      using None less.prems(3) k by (subst (asm) advance_to_next_dpu.simps) (simp add: Let_def)
    show ?thesis
    proof (cases "Suc k < length rs")
      case True
      then have v: "visiting rs (Suc k) (it\<lparr>rank_iterator := ?ri\<rparr>)" "ri_has_next ?ri"
        using less.prems(1) by (simp_all add: visiting_def dpu_set_rank_iterator_next_def Let_def)
      have "to_visit w rs (Suc k) 0 = ds"
        using True ds by (simp add: to_visit_next)
      from less.hyps [OF _ v(1) this] True v(2) it' show ?thesis
        by simp
    next
      case False
      then have "\<not> ri_has_next ?ri"
        using less.prems(1) by (simp add: visiting_def dpu_set_rank_iterator_next_def Let_def)
      moreover have "ds = []"
        using False ds by (simp add: enabled_of_ranks_def)
      ultimately show ?thesis
        using it' by simp
    qed
  qed
qed

lemma foreach_visits:
  assumes "length ds < fuel" "ds = [] \<longrightarrow> \<not> di_has_next it"
    and "\<forall>r d ds'. ds = (r, d) # ds' \<longrightarrow> di_has_next it \<and> di_next it = DPU_SET_DPU r d
      \<and> (\<exists>k. visiting rs k it \<and> to_visit w rs k (di_next_idx it) = ds')"
  shows "DPU_FOREACH fuel w it = Some (map (\<lambda>(i, r, d). (i, DPU_SET_DPU r d)) (enumerate (di_count it) ds))"
  using assms
proof (induction ds arbitrary: fuel it)
  case Nil
  then show ?case by (cases fuel) auto
next
  case (Cons p ds)
  obtain r d where p: "p = (r, d)"
    by fastforce
  obtain f where f: "fuel = Suc f"
    using Cons.prems(1) by (cases fuel) auto
  obtain k where it: "di_has_next it" "di_next it = DPU_SET_DPU r d" "visiting rs k it"
      "to_visit w rs k (di_next_idx it) = ds"
    using Cons.prems(3) p by blast
  let ?it = "it\<lparr>di_count := di_count it + 1\<rparr>"
  have next_it: "dpu_set_dpu_iterator_next w it = advance_to_next_dpu w (di_next_idx it) ?it"
    using it(1,3)
    by (simp add: dpu_set_dpu_iterator_next_def visiting_def advance_to_next_dpu_in_rank_list_def Let_def)
  have "visiting rs k ?it"
    using it(3) by (simp add: visiting_def)
  note a = advance_to_next_dpu_spec [OF this it(4) refl]
  have count: "ds \<noteq> [] \<Longrightarrow> di_count (advance_to_next_dpu w (di_next_idx it) ?it) = Suc (di_count it)"
    using a by (cases ds) auto
  have "DPU_FOREACH f w (advance_to_next_dpu w (di_next_idx it) ?it) =
      Some (map (\<lambda>(i, r, d). (i, DPU_SET_DPU r d)) (enumerate (di_count (advance_to_next_dpu w (di_next_idx it) ?it)) ds))"
    using Cons.IH [of f "advance_to_next_dpu w (di_next_idx it) ?it"] Cons.prems(1) a f by fastforce
  then show ?case
    using it(1,2) count p by (cases "ds = []") (auto simp: f next_it)
qed

section \<open>Enabled DPUs\<close>

text \<open>
  The flag of a DPU, its bit in the mask of its control interface and \<^verbatim>\<open>all_dpus_are_enabled\<close> agree.
\<close>

abbreviation nr_cis :: "'h dpu_rank_t \<Rightarrow> nat" where
  "nr_cis r \<equiv> unat (nr_of_control_interfaces r)"

abbreviation nr_lines :: "'h dpu_rank_t \<Rightarrow> nat" where
  "nr_lines r \<equiv> unat (nr_of_dpus_per_control_interface r)"

definition enabled_ok :: "'h dpu_rank_t \<Rightarrow> bool" where
  "enabled_ok r \<longleftrightarrow> topology_wf r \<and> nr_cis r \<le> length (enabled_dpus r) \<and> nr_cis r \<le> length (all_dpus_are_enabled r)
     \<and> nr_cis r * nr_lines r \<le> length (dpus r)
     \<and> (\<forall>ci < nr_cis r. mask_set (enabled_dpus r ! ci) = {d. d < nr_lines r \<and> enabled (dpus r ! DPU_INDEX r ci d)})
     \<and> (\<forall>ci < nr_cis r. all_dpus_are_enabled r ! ci \<longrightarrow> (\<forall>d < nr_lines r. enabled (dpus r ! DPU_INDEX r ci d)))"

definition nr_enabled :: "'h dpu_rank_t \<Rightarrow> nat" where
  "nr_enabled r = length (filter enabled (rank_dpus r))"

lemma enabled_okD:
  assumes "enabled_ok r"
  shows "topology_wf r" "nr_cis r \<le> 8" "nr_lines r \<le> 8" "nr_cis r * nr_lines r \<le> length (dpus r)"
    "nr_cis r \<le> length (enabled_dpus r)" "nr_cis r \<le> length (all_dpus_are_enabled r)"
    "ci < nr_cis r \<Longrightarrow> mask_set (enabled_dpus r ! ci) = {d. d < nr_lines r \<and> enabled (dpus r ! DPU_INDEX r ci d)}"
    "ci < nr_cis r \<Longrightarrow> all_dpus_are_enabled r ! ci \<Longrightarrow> d < nr_lines r \<Longrightarrow> enabled (dpus r ! DPU_INDEX r ci d)"
  using assms by (auto simp: enabled_ok_def topology_wf_def)

lemma dpu_index_bound:
  assumes "ci < nr_cis r" "d < nr_lines r"
  shows "DPU_INDEX r ci d < nr_cis r * nr_lines r"
proof -
  have "nr_lines r * ci + d < nr_lines r * Suc ci"
    using assms(2) by simp
  also have "\<dots> \<le> nr_lines r * nr_cis r"
    using assms(1) by (intro mult_le_mono2) simp
  finally show ?thesis
    by (simp add: DPU_INDEX_def mult.commute)
qed

lemma dpu_index_inj:
  assumes "d < nr_lines r" "d' < nr_lines r" "DPU_INDEX r ci d = DPU_INDEX r ci' d'"
  shows "ci = ci' \<and> d = d'"
proof -
  have "(nr_lines r * ci + d) div nr_lines r = ci" "(nr_lines r * ci' + d') div nr_lines r = ci'"
    using assms(1,2) by simp_all
  then show ?thesis
    using assms(3) by (auto simp: DPU_INDEX_def)
qed

lemma nr_enabled_card: "nr_enabled r = card {i. i < nr_cis r * nr_lines r \<and> enabled (dpus r ! i)}"
  unfolding nr_enabled_def rank_dpus_array length_filter_conv_card
  by (rule arg_cong [where f = card]) auto

lemma nr_enabled_sum:
  "nr_enabled r = sum_list (map (\<lambda>ci. card {d. d < nr_lines r \<and> enabled (dpus r ! DPU_INDEX r ci d)}) [0..<nr_cis r])"
proof -
  have "length (filter enabled (map (\<lambda>d. dpus r ! DPU_INDEX r ci d) [0..<nr_lines r])) =
      card {d. d < nr_lines r \<and> enabled (dpus r ! DPU_INDEX r ci d)}" for ci
    unfolding length_filter_conv_card by (rule arg_cong [where f = card]) auto
  then show ?thesis
    by (simp add: nr_enabled_def rank_dpus_def product_concat_map filter_concat length_concat map_concat comp_def)
qed

lemma unat_foldl_sum:
  fixes f :: "nat \<Rightarrow> u32"
  assumes "unat a + sum_list (map (\<lambda>x. unat (f x)) xs) < 2 ^ 32"
  shows "unat (foldl (\<lambda>c x. c + f x) a xs) = unat a + sum_list (map (\<lambda>x. unat (f x)) xs)"
  using assms
proof (induction xs arbitrary: a)
  case (Cons x xs)
  then have "unat (a + f x) = unat a + unat (f x)"
    by (intro unat_add_no_wrap) simp
  with Cons show ?case
    by simp
qed simp

lemma sum_list_le_const: "(\<And>x. x \<in> set xs \<Longrightarrow> f x \<le> (c :: nat)) \<Longrightarrow> sum_list (map f xs) \<le> length xs * c"
  by (induction xs) (simp_all add: add_mono)

lemma count_rank:
  assumes "enabled_ok r"
  shows "unat (get_nr_of_dpus_in_rank r) = nr_enabled r" "nr_enabled r \<le> 64"
proof -
  let ?f = "\<lambda>ci. if all_dpus_are_enabled r ! ci then ucast (nr_of_dpus_per_control_interface r) :: u32
    else dpu_mask_count (enabled_dpus r ! ci)"
  let ?e = "\<lambda>ci. {d. d < nr_lines r \<and> enabled (dpus r ! DPU_INDEX r ci d)}"
  note ok = enabled_okD [OF assms]
  have up: "unat (ucast (nr_of_dpus_per_control_interface r) :: u32) = nr_lines r"
    using ok(3) by (simp add: unsigned_ucast_eq take_bit_nat_eq_self_iff)
  have all: "all_dpus_are_enabled r ! ci \<Longrightarrow> ?e ci = {..<nr_lines r}" if "ci < nr_cis r" for ci
    using ok(8) [OF that] by auto
  have f: "unat (?f ci) = card (?e ci)" if "ci < nr_cis r" for ci
    using ok(7) [OF that] all [OF that] by (simp add: up unat_dpu_mask_count popcount_card)
  have le: "card (?e ci) \<le> 8" for ci
  proof -
    have "card (?e ci) \<le> card {..<nr_lines r}"
      by (rule card_mono) auto
    then show ?thesis
      using ok(3) by simp
  qed
  have "sum_list (map (\<lambda>ci. card (?e ci)) [0..<nr_cis r]) \<le> length [0..<nr_cis r] * 8"
    by (rule sum_list_le_const) (rule le)
  then show bound: "nr_enabled r \<le> 64"
    using ok(2) by (simp add: nr_enabled_sum)
  have eq: "map (\<lambda>ci. unat (?f ci)) [0..<nr_cis r] = map (\<lambda>ci. card (?e ci)) [0..<nr_cis r]"
    using f by (intro map_cong) auto
  have "get_nr_of_dpus_in_rank r = foldl (\<lambda>c ci. c + ?f ci) 0 [0..<nr_cis r]"
    unfolding get_nr_of_dpus_in_rank_def by (rule foldl_cong) auto
  then show "unat (get_nr_of_dpus_in_rank r) = nr_enabled r"
    using unat_foldl_sum [of 0 ?f "[0..<nr_cis r]"] bound unfolding eq by (simp add: nr_enabled_sum)
qed

section \<open>Choosing and disabling a DPU\<close>

lemma scan_line_spec:
  "(one_enabled_on_line (scan_line r line) \<longleftrightarrow> (\<exists>ci < nr_cis r. enabled (dpus r ! DPU_INDEX r ci line)))
   \<and> (one_enabled_on_line (scan_line r line) \<longrightarrow>
        ci_enabled (scan_line r line) < nr_cis r \<and> enabled (dpus r ! DPU_INDEX r (ci_enabled (scan_line r line)) line))"
proof -
  have "(one_enabled_on_line s' \<longleftrightarrow> (\<exists>ci < n. enabled (dpus r ! DPU_INDEX r ci line)))
     \<and> (one_enabled_on_line s' \<longrightarrow> ci_enabled s' < n \<and> enabled (dpus r ! DPU_INDEX r (ci_enabled s') line))"
    if "s' = foldl (\<lambda>s ci.
     if enabled (dpus r ! DPU_INDEX r ci line) then s\<lparr>ci_enabled := ci, one_enabled_on_line := True\<rparr>
     else s\<lparr>count_disabled_on_line := count_disabled_on_line s + 1\<rparr>)
     \<lparr>count_disabled_on_line = 0, ci_enabled = 0, one_enabled_on_line = False\<rparr> [0..<n]" for s' n
    using that
  proof (induction n arbitrary: s')
    case (Suc n)
    then show ?case
      by (auto simp: less_Suc_eq)
  qed simp
  from this [OF scan_line_def] show ?thesis .
qed

text \<open>What holds of the target while the ranks before \<open>n\<close> have been considered.\<close>

definition target_ok :: "'h dpu_rank_t list \<Rightarrow> disable_target \<Rightarrow> bool" where
  "target_ok ranks t \<longleftrightarrow>
     (target t = None \<longrightarrow> max_disabled_dpus_on_line t = 0 \<and> max_enabled_dpus_on_rank t = 0)
     \<and> (\<forall>k ci line. target t = Some (k, ci, line) \<longrightarrow> k < length ranks \<and> ci < nr_cis (ranks ! k)
          \<and> line < nr_lines (ranks ! k) \<and> enabled (dpus (ranks ! k) ! DPU_INDEX (ranks ! k) ci line)
          \<and> unat (get_nr_of_dpus_in_rank (ranks ! k)) \<noteq> 1)"

lemma consider_line_ok:
  assumes "target_ok ranks t" "k < length ranks" "line < nr_lines (ranks ! k)"
    and "e = unat (get_nr_of_dpus_in_rank (ranks ! k))" "e \<noteq> 1"
  shows "target_ok ranks (consider_line k e (ranks ! k) t line)"
    "target t \<noteq> None \<or> one_enabled_on_line (scan_line (ranks ! k) line) \<Longrightarrow>
       target (consider_line k e (ranks ! k) t line) \<noteq> None"
  using assms scan_line_spec [of "ranks ! k" line] by (auto simp: target_ok_def consider_line_def Let_def)

lemma consider_lines_ok:
  assumes "target_ok ranks t" "k < length ranks" "set ls \<subseteq> {..<nr_lines (ranks ! k)}"
    and "e = unat (get_nr_of_dpus_in_rank (ranks ! k))" "e \<noteq> 1"
  shows "target_ok ranks (foldl (consider_line k e (ranks ! k)) t ls)
    \<and> (target t \<noteq> None \<or> (\<exists>l \<in> set ls. one_enabled_on_line (scan_line (ranks ! k) l)) \<longrightarrow>
       target (foldl (consider_line k e (ranks ! k)) t ls) \<noteq> None)"
  using assms(1,3)
proof (induction ls arbitrary: t)
  case (Cons l ls)
  note c = consider_line_ok [OF Cons.prems(1) assms(2) _ assms(4,5), of l]
  from Cons.IH [of "consider_line k e (ranks ! k) t l"] Cons.prems c show ?case
    by auto
qed simp

lemma some_line_enabled:
  assumes "0 < nr_enabled r"
  shows "\<exists>l < nr_lines r. one_enabled_on_line (scan_line r l)"
proof -
  obtain i where i: "i < nr_cis r * nr_lines r" "enabled (dpus r ! i)"
    using assms unfolding nr_enabled_card by (auto simp: card_gt_0_iff)
  then have "0 < nr_lines r"
    by (cases "nr_lines r") auto
  then have "i div nr_lines r < nr_cis r" "i mod nr_lines r < nr_lines r" "DPU_INDEX r (i div nr_lines r) (i mod nr_lines r) = i"
    using i(1) by (simp_all add: less_mult_imp_div_less DPU_INDEX_def)
  with i(2) show ?thesis
    using scan_line_spec [of r "i mod nr_lines r"] by metis
qed

lemma consider_ranks_ok:
  assumes "\<forall>r \<in> set ranks. enabled_ok r" "set ks \<subseteq> {..<length ranks}" "target_ok ranks t"
  shows "target_ok ranks (foldl (consider_rank ranks) t ks)
    \<and> (target t \<noteq> None \<or> (\<exists>k \<in> set ks. 2 \<le> nr_enabled (ranks ! k)) \<longrightarrow> target (foldl (consider_rank ranks) t ks) \<noteq> None)"
  using assms(2,3)
proof (induction ks arbitrary: t)
  case (Cons k ks)
  let ?e = "unat (get_nr_of_dpus_in_rank (ranks ! k))"
  have k: "k < length ranks" "?e = nr_enabled (ranks ! k)"
    using Cons.prems(1) assms(1) count_rank(1) [of "ranks ! k"] by auto
  have "target_ok ranks (consider_rank ranks t k)
    \<and> (target t \<noteq> None \<or> 2 \<le> nr_enabled (ranks ! k) \<longrightarrow> target (consider_rank ranks t k) \<noteq> None)"
  proof (cases "?e = 1")
    case True
    then show ?thesis
      using Cons.prems(2) k(2) by (simp add: consider_rank_def Let_def)
  next
    case False
    have "0 < nr_enabled (ranks ! k) \<Longrightarrow>
        \<exists>l \<in> set [0..<nr_lines (ranks ! k)]. one_enabled_on_line (scan_line (ranks ! k) l)"
      using some_line_enabled [of "ranks ! k"] by auto
    then show ?thesis
      using consider_lines_ok [OF Cons.prems(2) k(1) _ refl False, of "[0..<nr_lines (ranks ! k)]"] False
      by (auto simp: consider_rank_def Let_def atLeast0LessThan)
  qed
  with Cons.IH [of "consider_rank ranks t k"] Cons.prems show ?case
    by auto
qed simp

lemma find_target_spec:
  assumes "\<forall>r \<in> set ranks. enabled_ok r" "r \<in> set ranks" "2 \<le> nr_enabled r"
  shows "\<exists>k ci line. find_target ranks = Some (k, ci, line) \<and> k < length ranks \<and> ci < nr_cis (ranks ! k)
    \<and> line < nr_lines (ranks ! k) \<and> enabled (dpus (ranks ! k) ! DPU_INDEX (ranks ! k) ci line)
    \<and> nr_enabled (ranks ! k) \<noteq> 1"
proof -
  let ?init = "\<lparr>target = None, max_disabled_dpus_on_line = 0, max_enabled_dpus_on_rank = 0\<rparr>"
  let ?t = "foldl (consider_rank ranks) ?init [0..<length ranks]"
  have "target_ok ranks ?init"
    by (simp add: target_ok_def)
  then have t: "target_ok ranks ?t" "target ?t \<noteq> None"
    using consider_ranks_ok [OF assms(1), of "[0..<length ranks]" ?init] assms(2,3)
    by (auto simp: atLeast0LessThan in_set_conv_nth)
  then obtain k ci line where "target ?t = Some (k, ci, line)"
    by (metis not_None_eq prod_cases3)
  then show ?thesis
    using t(1) assms(1) count_rank(1) [of "ranks ! k"] by (auto simp: target_ok_def find_target_def)
qed

lemma disable_dpu_effect:
  assumes "enabled_ok r" "ci < nr_cis r" "line < nr_lines r" "enabled (dpus r ! DPU_INDEX r ci line)"
    and "\<forall>d h. fst (disable_dpu H d h) = DPU_OK"
  shows "\<exists>r'. dpu_disable_one_dpu H (DPU_INDEX r ci line) r = (DPU_OK, r') \<and> enabled_ok r'
    \<and> nr_enabled r' + 1 = nr_enabled r"
proof -
  let ?i = "DPU_INDEX r ci line" and ?b = "enabled_dpus r ! ci AND NOT (push_bit line 1)"
  note ok = enabled_okD [OF assms(1)]
  have i: "?i < nr_cis r * nr_lines r"
    by (rule dpu_index_bound [OF assms(2,3)])
  then have il: "?i < length (dpus r)"
    using ok(4) by simp
  have ids: "unat (slice_id (dpus r ! ?i)) = ci" "unat (dpu_id (dpus r ! ?i)) = line"
    using ok(1) assms(2,3) by (auto simp: topology_wf_def)
  obtain h where h: "disable_dpu H (dpus r ! ?i) (hw r) = (DPU_OK, h)"
    using assms(5) by (metis prod.collapse)
  define r' where "r' = r\<lparr>hw := h, enabled_dpus := (enabled_dpus r)[ci := ?b],
    all_dpus_are_enabled := (all_dpus_are_enabled r)[ci := False],
    dpus := (dpus r)[?i := (dpus r ! ?i)\<lparr>enabled := False\<rparr>]\<rparr>"
  have run: "dpu_disable_one_dpu H ?i r = (DPU_OK, r')"
    using h assms(4) ids by (simp add: dpu_disable_one_dpu_def Let_def RANK_FEATURE_def FF_def r'_def)
  have idx: "DPU_INDEX r' = DPU_INDEX r" "nr_cis r' = nr_cis r" "nr_lines r' = nr_lines r"
    by (auto simp: DPU_INDEX_def r'_def fun_eq_iff)
  have dp: "dpus r' ! j = (if j = ?i then (dpus r ! ?i)\<lparr>enabled := False\<rparr> else dpus r ! j)" for j
    using il by (simp add: r'_def)
  have same: "slice_id (dpus r' ! j) = slice_id (dpus r ! j)" "dpu_id (dpus r' ! j) = dpu_id (dpus r ! j)" for j
    by (simp_all add: dp)
  have en: "enabled (dpus r' ! j) \<longleftrightarrow> enabled (dpus r ! j) \<and> j \<noteq> ?i" for j
    by (simp add: dp)
  have mask: "mask_set (enabled_dpus r' ! c) = {d. d < nr_lines r \<and> enabled (dpus r' ! DPU_INDEX r c d)}" if c: "c < nr_cis r" for c
  proof (cases "c = ci")
    case True
    have "mask_set (push_bit line 1 :: dpu_bitfield_t) = {line}"
      using assms(3) ok(3) mask_set_one [of "word_of_nat line"]
      by (simp add: dpu_mask_one_def unat_of_nat take_bit_nat_eq_self_iff)
    then have "mask_set ?b = {d. d < nr_lines r \<and> enabled (dpus r ! DPU_INDEX r ci d)} - {line}"
      using ok(7) [OF assms(2)] by (simp add: mask_set_and_not)
    moreover have "{d. d < nr_lines r \<and> enabled (dpus r ! DPU_INDEX r ci d)} - {line} =
        {d. d < nr_lines r \<and> enabled (dpus r' ! DPU_INDEX r ci d)}"
      using dpu_index_inj [of _ r line ci ci] assms(3) by (auto simp: en)
    ultimately show ?thesis
      using True ok(5) assms(2) by (simp add: r'_def)
  next
    case False
    then have "DPU_INDEX r c d \<noteq> ?i" if "d < nr_lines r" for d
      using dpu_index_inj [OF that assms(3), of c ci] by auto
    then show ?thesis
      using False ok(7) [OF c] by (auto simp: en) (simp_all add: r'_def)
  qed
  have all: "d < nr_lines r \<Longrightarrow> enabled (dpus r' ! DPU_INDEX r c d)" if "c < nr_cis r" "all_dpus_are_enabled r' ! c" for c d
  proof -
    assume d: "d < nr_lines r"
    have "c \<noteq> ci" "all_dpus_are_enabled r ! c"
      using that ok(6) assms(2) by (auto simp: r'_def nth_list_update split: if_splits)
    then show ?thesis
      using ok(8) [OF that(1) _ d] dpu_index_inj [OF d assms(3), of c ci] by (auto simp: en)
  qed
  have "topology_wf r'"
    using ok(1) unfolding topology_wf_def idx by (simp add: same)
  then have "enabled_ok r'"
    using mask all ok(4-6) unfolding enabled_ok_def idx by (simp add: r'_def)
  moreover have "{j. j < nr_cis r * nr_lines r \<and> enabled (dpus r ! j)} =
      insert ?i {j. j < nr_cis r' * nr_lines r' \<and> enabled (dpus r' ! j)}"
    using i assms(4) by (auto simp: idx en)
  then have "nr_enabled r' + 1 = nr_enabled r"
    unfolding nr_enabled_card by (simp add: en)
  ultimately show ?thesis
    using run by blast
qed

lemma disable_one_dpu_spec:
  assumes "\<forall>r \<in> set ranks. enabled_ok r" "length ranks < sum_list (map nr_enabled ranks)"
    and "\<forall>d h. fst (disable_dpu H d h) = DPU_OK"
  shows "\<exists>ranks'. disable_one_dpu H ranks = Done (DPU_OK, ranks') \<and> length ranks' = length ranks
    \<and> (\<forall>r \<in> set ranks'. enabled_ok r) \<and> sum_list (map nr_enabled ranks') + 1 = sum_list (map nr_enabled ranks)
    \<and> (\<forall>k < length ranks. 0 < nr_enabled (ranks ! k) \<longrightarrow> 0 < nr_enabled (ranks' ! k))"
proof -
  obtain r where "r \<in> set ranks" "2 \<le> nr_enabled r"
    using sum_list_le_const [of ranks nr_enabled 1] assms(2) by fastforce
  then obtain k ci line where t: "find_target ranks = Some (k, ci, line)" "k < length ranks" "ci < nr_cis (ranks ! k)"
      "line < nr_lines (ranks ! k)" "enabled (dpus (ranks ! k) ! DPU_INDEX (ranks ! k) ci line)" "nr_enabled (ranks ! k) \<noteq> 1"
    using find_target_spec [OF assms(1)] by blast
  then obtain r' where r': "dpu_disable_one_dpu H (DPU_INDEX (ranks ! k) ci line) (ranks ! k) = (DPU_OK, r')" "enabled_ok r'"
      "nr_enabled r' + 1 = nr_enabled (ranks ! k)"
    using disable_dpu_effect [OF _ t(3-5) assms(3)] assms(1) by auto
  have "sum_list (map nr_enabled (ranks[k := r'])) + 1 = sum_list (map nr_enabled ranks)"
    using t(2) r'(3) elem_le_sum_list [of k "map nr_enabled ranks"]
    by (simp add: map_update sum_list_update)
  moreover have "\<forall>r \<in> set (ranks[k := r']). enabled_ok r"
    using assms(1) r'(2) set_update_subset_insert [of ranks k r'] by auto
  moreover have "disable_one_dpu H ranks = Done (DPU_OK, ranks[k := r'])"
    using t(1) r'(1) by (simp add: disable_one_dpu_def)
  moreover have "0 < nr_enabled r'"
    using r'(3) t(6) by simp
  ultimately show ?thesis
    by (intro exI [of _ "ranks[k := r']"]) (simp add: nth_list_update t(2))
qed

lemma disable_loop_spec:
  assumes "\<forall>r \<in> set ranks. enabled_ok r" "length ranks + n \<le> sum_list (map nr_enabled ranks)"
    and "\<forall>d h. fst (disable_dpu H d h) = DPU_OK"
  shows "\<exists>ranks'. disable_dpus_loop H n ranks = Done (DPU_OK, ranks') \<and> length ranks' = length ranks
    \<and> (\<forall>r \<in> set ranks'. enabled_ok r) \<and> sum_list (map nr_enabled ranks') + n = sum_list (map nr_enabled ranks)
    \<and> (\<forall>k < length ranks. 0 < nr_enabled (ranks ! k) \<longrightarrow> 0 < nr_enabled (ranks' ! k))"
  using assms(1,2)
proof (induction n arbitrary: ranks)
  case (Suc n)
  then obtain r1 where r1: "disable_one_dpu H ranks = Done (DPU_OK, r1)" "length r1 = length ranks"
      "\<forall>r \<in> set r1. enabled_ok r" "sum_list (map nr_enabled r1) + 1 = sum_list (map nr_enabled ranks)"
      "\<forall>k < length ranks. 0 < nr_enabled (ranks ! k) \<longrightarrow> 0 < nr_enabled (r1 ! k)"
    using disable_one_dpu_spec [OF _ _ assms(3), of ranks] by auto
  from Suc.IH [OF r1(3)] Suc.prems(2) r1 show ?case
    by fastforce
qed simp

section \<open>The table of sets implements a list\<close>

text \<open>
  The contract of the table, as the allocation of sets relies on it: \<open>elems\<close> are the sets that are registered, oldest
  first. Registering appends, unregistering removes the first occurrence or reports an error.
\<close>

locale set_table =
  fixes reg :: "'a \<Rightarrow> 't \<Rightarrow> (dpu_error_t \<times> 't) outcome"
    and unreg :: "'a \<Rightarrow> 't \<Rightarrow> dpu_error_t \<times> 't"
    and elems :: "'t \<Rightarrow> 'a list"
    and inv :: "'t \<Rightarrow> bool"
  assumes reg: "inv T \<Longrightarrow> \<exists>T'. reg x T = Done (DPU_OK, T') \<and> inv T' \<and> elems T' = elems T @ [x]"
    and unreg: "inv T \<Longrightarrow> x \<in> set (elems T) \<Longrightarrow>
      \<exists>T'. unreg x T = (DPU_OK, T') \<and> inv T' \<and> elems T' = remove1 x (elems T)"
    and unreg_unknown: "inv T \<Longrightarrow> x \<notin> set (elems T) \<Longrightarrow> unreg x T = (DPU_ERR_INVALID_DPU_SET, T)"
begin

lemma reg_unreg:
  assumes "inv T" "x \<notin> set (elems T)" "reg x T = Done (st, T1)" "unreg x T1 = (st', T2)"
  shows "st = DPU_OK \<and> st' = DPU_OK \<and> inv T2 \<and> elems T2 = elems T \<and> unreg x T2 = (DPU_ERR_INVALID_DPU_SET, T2)"
proof -
  obtain T' where "reg x T = Done (DPU_OK, T')" "inv T'" "elems T' = elems T @ [x]"
    using reg [OF assms(1)] by blast
  then have t1: "st = DPU_OK" "inv T1" "elems T1 = elems T @ [x]"
    using assms(3) by auto
  have mem: "x \<in> set (elems T1)"
    using t1(3) by simp
  have t2: "st' = DPU_OK" "inv T2" "elems T2 = elems T"
    using unreg [OF t1(2) mem] assms(2,4) t1(3) by (auto simp: remove1_append)
  then show ?thesis
    using t1(1) unreg_unknown [OF t2(2)] assms(2) by simp
qed

end

definition set_allocator_inv :: "'a set_allocator \<Rightarrow> bool" where
  "set_allocator_inv A \<longleftrightarrow> length (set_allocator_sets A) = set_allocator_capacity A
     \<and> set_allocator_size A \<le> set_allocator_capacity A \<and> (\<forall>s \<in> set (registered A). s \<noteq> None)"

definition allocated_sets :: "'a set_allocator \<Rightarrow> 'a list" where
  "allocated_sets A = map the (registered A)"

lemma register_spec:
  assumes "set_allocator_inv A"
  shows "\<exists>A'. set_allocator_register True x A = Done (DPU_OK, A') \<and> set_allocator_inv A'
    \<and> allocated_sets A' = allocated_sets A @ [x]"
proof -
  let ?n = "set_allocator_size A"
  have "take (Suc ?n) (xs[?n := Some x]) = take ?n xs @ [Some x]" if "?n < length xs" for xs
    using that by (simp add: take_Suc_conv_app_nth)
  then show ?thesis
    using assms
    by (auto simp: set_allocator_register_def set_allocator_inv_def allocated_sets_def registered_def Let_def)
qed

lemma find_set_spec:
  "case find_set ss i x of
     None \<Rightarrow> Some x \<notin> set ss
   | Some j \<Rightarrow> i \<le> j \<and> j - i < length ss \<and> Some x \<in> set ss
       \<and> remove1 (Some x) ss = take (j - i) ss @ drop (Suc (j - i)) ss"
proof (induction ss i x rule: find_set.induct)
  case (2 s ss i x)
  then show ?case
    by (cases "find_set ss (Suc i) x") (auto simp: Suc_diff_le Suc_diff_Suc take_Cons' drop_Cons' split: option.splits nat.splits)
qed simp

lemma map_the_remove1:
  "\<forall>s \<in> set ss. s \<noteq> None \<Longrightarrow> map the (remove1 (Some x) ss) = remove1 x (map the ss)"
  by (induction ss) auto

lemma unregister_spec:
  assumes "set_allocator_inv A" "set_allocator_unregister x A = (st, A')"
  shows "if x \<in> set (allocated_sets A)
    then st = DPU_OK \<and> set_allocator_inv A' \<and> allocated_sets A' = remove1 x (allocated_sets A)
    else st = DPU_ERR_INVALID_DPU_SET \<and> A' = A"
proof -
  let ?n = "set_allocator_size A" and ?ss = "set_allocator_sets A"
  have mem: "x \<in> set (allocated_sets A) \<longleftrightarrow> Some x \<in> set (registered A)"
    using assms(1) by (force simp: allocated_sets_def set_allocator_inv_def)
  note find = find_set_spec [of x "registered A" 0]
  show ?thesis
  proof (cases "find_set (registered A) 0 x")
    case None
    then show ?thesis
      using find assms(2) mem by (simp add: set_allocator_unregister_def set_allocator_find_def)
  next
    case (Some j)
    then have j: "j < ?n" "Some x \<in> set (registered A)" "remove1 (Some x) (registered A) = take j (registered A) @ drop (Suc j) (registered A)"
      using find by (simp_all add: registered_def)
    define ss' where "ss' = (if j \<noteq> ?n - 1 then take j ?ss @ take (?n - 1 - j) (drop (j + 1) ?ss) @ drop (?n - 1) ?ss else ?ss)"
    have A': "st = DPU_OK" "A' = A\<lparr>set_allocator_sets := ss', set_allocator_size := ?n - 1\<rparr>"
      using Some assms(2) by (simp_all add: set_allocator_unregister_def set_allocator_find_def Let_def ss'_def)
    have n: "?n \<le> length ?ss"
      using assms(1) by (simp add: set_allocator_inv_def)
    have reg: "registered A' = remove1 (Some x) (registered A)" "length ss' = length ?ss"
      using j n unfolding j(3) by (auto simp: registered_def A'(2) ss'_def drop_take min_def)
    then have "set_allocator_inv A'"
      using assms(1) set_remove1_subset [of "Some x" "registered A"]
      by (auto simp: set_allocator_inv_def A'(2))
    moreover have "allocated_sets A' = remove1 x (allocated_sets A)"
      using assms(1) by (simp add: allocated_sets_def reg(1) map_the_remove1 set_allocator_inv_def)
    ultimately show ?thesis
      using A'(1) mem j(2) by simp
  qed
qed

interpretation sets: set_table "set_allocator_register True" set_allocator_unregister allocated_sets set_allocator_inv
proof (unfold_locales, goal_cases)
  case (1 T x)
  then show ?case by (rule register_spec)
next
  case (2 T x)
  obtain st T' where "set_allocator_unregister x T = (st, T')"
    by fastforce
  with unregister_spec [OF 2(1) this] 2(2) show ?case
    by auto
next
  case (3 T x)
  obtain st T' where "set_allocator_unregister x T = (st, T')"
    by fastforce
  with unregister_spec [OF 3(1) this] 3(2) show ?case
    by auto
qed

section \<open>Properties\<close>



text \<open>
  C23: disabling the superfluous DPUs of consistent ranks never fails an assertion and leaves exactly the number of DPUs
  asked for, provided that the backend accepts and that at least one DPU per rank is asked for (the condition under
  which \<^verbatim>\<open>dpu_alloc\<close> stops allocating ranks). No rank loses its last DPU, and the flags, the masks and the counts
  still agree.
\<close>

theorem disable_unused_dpus_exact:
  assumes "\<forall>r \<in> set ranks. enabled_ok r" "\<forall>d h. fst (disable_dpu H d h) = DPU_OK"
    and "ranks \<noteq> []" "current = (\<Sum>r\<leftarrow>ranks. unat (get_nr_of_dpus_in_rank r))"
    and "length ranks \<le> nr" "nr \<le> current"
  shows "\<exists>ranks'. disable_unused_dpus H current nr ranks = Done (DPU_OK, ranks') \<and> length ranks' = length ranks
    \<and> (\<forall>r \<in> set ranks'. enabled_ok r) \<and> (\<Sum>r\<leftarrow>ranks'. unat (get_nr_of_dpus_in_rank r)) = nr
    \<and> (\<forall>k < length ranks. 0 < get_nr_of_dpus_in_rank (ranks ! k) \<longrightarrow> 0 < get_nr_of_dpus_in_rank (ranks' ! k))"
proof -
  have count: "map (\<lambda>r. unat (get_nr_of_dpus_in_rank r)) rs = map nr_enabled rs" if "\<forall>r \<in> set rs. enabled_ok r" for rs :: "'a dpu_rank_t list"
    using that count_rank(1) by (intro map_cong) auto
  have pos: "0 < get_nr_of_dpus_in_rank r \<longleftrightarrow> 0 < nr_enabled r" if "enabled_ok r" for r :: "'a dpu_rank_t"
    using count_rank(1) [OF that] by (metis gr_zeroI unat_eq_zero word_gt_0 less_irrefl)
  have cur: "current = sum_list (map nr_enabled ranks)"
    using assms(4) count [OF assms(1)] by simp
  have room: "length ranks + (current - nr) \<le> sum_list (map nr_enabled ranks)"
    using assms(5,6) cur by linarith
  obtain ranks' where r: "disable_dpus_loop H (current - nr) ranks = Done (DPU_OK, ranks')" "length ranks' = length ranks"
      "\<forall>r \<in> set ranks'. enabled_ok r" "sum_list (map nr_enabled ranks') + (current - nr) = sum_list (map nr_enabled ranks)"
      "\<forall>k < length ranks. 0 < nr_enabled (ranks ! k) \<longrightarrow> 0 < nr_enabled (ranks' ! k)"
    using disable_loop_spec [OF assms(1) room assms(2)] by blast
  have "disable_unused_dpus H current nr ranks = Done (DPU_OK, ranks')"
    using r(1) assms(3,6) by (simp add: disable_unused_dpus_def)
  moreover have "(\<Sum>r\<leftarrow>ranks'. unat (get_nr_of_dpus_in_rank r)) = nr"
    unfolding count [OF r(3)] using r(4) cur assms(6) by linarith
  moreover have "\<forall>k < length ranks. 0 < get_nr_of_dpus_in_rank (ranks ! k) \<longrightarrow> 0 < get_nr_of_dpus_in_rank (ranks' ! k)"
    using r(2,3,5) assms(1) pos by simp
  ultimately show ?thesis
    using r(2,3) by blast
qed

lemma sim_rank_enabled_ok: "enabled_ok sim_rank"
proof -
  have masks: "mask_set 3 = {0, 1}" "mask_set 1 = {0}"
    by (auto simp: mask_set_def bit_numeral_rec numeral_One bit_1_iff gr0_conv_Suc split: nat.splits)
  have all2: "(\<forall>i < 2. Q i) \<longleftrightarrow> Q 0 \<and> Q 1" for Q :: "nat \<Rightarrow> bool"
    by (auto simp: less_2_cases_iff)
  have set2: "{d. d < 2 \<and> Q d} = (if Q 0 then {0} else {}) \<union> (if Q 1 then {1} else {})" for Q :: "nat \<Rightarrow> bool"
    using less_2_cases by (force split: if_splits)
  have dims: "nr_cis sim_rank = 2" "nr_lines sim_rank = 2"
    by (simp_all add: sim_rank_def)
  show ?thesis
    unfolding enabled_ok_def topology_wf_def dims all2 set2
    by (simp add: DPU_INDEX_def sim_rank_def sim_dpu_def masks insert_commute)
qed

theorem disable_unused_dpus_exact_witness:
  "\<exists>ranks'. disable_unused_dpus sim_handler 6 2 [sim_rank, sim_rank] = Done (DPU_OK, ranks') \<and> length ranks' = 2"
proof -
  have "6 = (\<Sum>r\<leftarrow>[sim_rank, sim_rank]. unat (get_nr_of_dpus_in_rank r))"
    by code_simp
  then show ?thesis
    using disable_unused_dpus_exact [of "[sim_rank, sim_rank]" sim_handler 6 2] sim_rank_enabled_ok
    by (auto simp: sim_handler_def)
qed

text \<open>
  registering a set that is not in the table and unregistering it again succeeds, whether or not the table has to
  grow, and leaves the sets of the table as they were; unregistering it a second time is refused.
\<close>

lemma set_table_roundtrip:
  assumes "set_allocator_inv A" "s \<notin> set (allocated_sets A)"
    and "set_allocator_register True s A = Done (st, A1)" "set_allocator_unregister s A1 = (st', A2)"
  shows "st = DPU_OK \<and> st' = DPU_OK \<and> set_allocator_inv A2 \<and> allocated_sets A2 = allocated_sets A
    \<and> set_allocator_unregister s A2 = (DPU_ERR_INVALID_DPU_SET, A2)"
  by (rule sets.reg_unreg [OF assms])

definition sim_table :: "nat set_allocator" where
  "sim_table = \<lparr>set_allocator_sets = [Some 7, Some 8], set_allocator_size = 2, set_allocator_capacity = 2\<rparr>"

lemma sim_table_inv: "set_allocator_inv sim_table" "allocated_sets sim_table = [7, 8]"
  by (simp_all add: set_allocator_inv_def sim_table_def registered_def allocated_sets_def)

lemma set_table_roundtrip_witness:
  "\<exists>A1 A2. set_allocator_register True 9 sim_table = Done (DPU_OK, A1) \<and> set_allocator_unregister 9 A1 = (DPU_OK, A2)
     \<and> allocated_sets A2 = [7, 8]"
proof -
  obtain A1 where "set_allocator_register True 9 sim_table = Done (DPU_OK, A1)"
    using register_spec [OF sim_table_inv(1)] by blast
  moreover obtain st A2 where "set_allocator_unregister 9 A1 = (st, A2)"
    by fastforce
  ultimately show ?thesis
    using set_table_roundtrip [OF sim_table_inv(1), of 9 DPU_OK A1 st A2] by (auto simp: sim_table_inv(2))
qed

text \<open>
  when the table cannot grow, the recorded capacity has already been doubled: the call reports the error, and the
  next registration writes after the end of the array.
\<close>

lemma failed_growth_corrupts_the_table:
  assumes "set_allocator_inv A" "set_allocator_size A = set_allocator_capacity A"
  shows "\<exists>A'. set_allocator_register False s A = Done (DPU_ERR_SYSTEM, A') \<and> \<not> set_allocator_inv A'
    \<and> set_allocator_register ok s' A' = Crashes"
  using assms by (auto simp: set_allocator_register_def set_allocator_inv_def Let_def)

lemma failed_growth_corrupts_the_table_witness:
  "\<exists>A'. set_allocator_register False 9 sim_table = Done (DPU_ERR_SYSTEM, A') \<and> set_allocator_register True 5 A' = Crashes"
proof -
  have "set_allocator_size sim_table = set_allocator_capacity sim_table"
    by (simp add: sim_table_def)
  from failed_growth_corrupts_the_table [OF sim_table_inv(1) this] show ?thesis
    by blast
qed

end
