(* ===== verification/ScatterGather.thy ===== *)
theory ScatterGather
  imports Interleave Sets
begin

text \<open>
  Scatter-gather transfers. The API collects, for every DPU of a rank, the blocks that a callback of the application gives
  (\<^verbatim>\<open>sg_xfer_rank_handler\<close> of \<^verbatim>\<open>api/src/api/dpu_memory.c\<close> over the pool of buffers of the rank), and the backend walks through
  the blocks eight bytes at a time (the iterators of \<^verbatim>\<open>xeon_sp_translation.c\<close>).

  A block is an address of the host memory and a length; the arrays of a buffer are lists with one entry more than the
  maximal number of blocks, which the backend uses for its zero padding. A pointer to an entry of the pool is its index.
\<close>

section \<open>Buffers and the collection of blocks\<close>

record sg_xfer_buffer =
  max_nr_blocks :: u32
  blocks_addr :: "u64 list"
  blocks_length :: "u32 list"
  nr_blocks :: u32

abbreviation (input) DPU_ERR_SG_TOO_MANY_BLOCKS :: dpu_error_t where "DPU_ERR_SG_TOO_MANY_BLOCKS \<equiv> 37"
abbreviation (input) DPU_ERR_SG_LENGTH_MISMATCH :: dpu_error_t where "DPU_ERR_SG_LENGTH_MISMATCH \<equiv> 38"
abbreviation (input) DPU_ERR_SG_NOT_ACTIVATED :: dpu_error_t where "DPU_ERR_SG_NOT_ACTIVATED \<equiv> 39"
abbreviation (input) DPU_ERR_SG_NOT_MRAM_SYMBOL :: dpu_error_t where "DPU_ERR_SG_NOT_MRAM_SYMBOL \<equiv> 40"

text \<open>The entries of one rank that \<^verbatim>\<open>sg_buffer_pool_create\<close> sets up; \<^verbatim>\<open>malloc\<close> leaves the arrays with any contents.\<close>

definition sg_buffer_pool_create :: "u32 \<Rightarrow> (nat \<Rightarrow> u64 list \<times> u32 list) \<Rightarrow> sg_xfer_buffer list" where
  "sg_buffer_pool_create dpu_max_nr_blocks arrays =
     map (\<lambda>dpu_index. \<lparr>max_nr_blocks = dpu_max_nr_blocks, blocks_addr = fst (arrays dpu_index),
        blocks_length = snd (arrays dpu_index), nr_blocks = 0\<rparr>) [0..<MAX_NR_DPUS_PER_RANK]"

text \<open>\<open>None\<close>: the null pointer is dereferenced.\<close>

definition dpu_transfer_matrix_add_dpu_block ::
  "nat \<Rightarrow> dpu_transfer_matrix \<Rightarrow> u64 \<Rightarrow> u32 \<Rightarrow> sg_xfer_buffer list \<Rightarrow> (dpu_error_t \<times> sg_xfer_buffer list) option" where
  "dpu_transfer_matrix_add_dpu_block idx transfer_matrix buffer len pool =
     (if tm_type transfer_matrix = DPU_SG_XFER_MATRIX
      then case ptr transfer_matrix ! idx of
             None \<Rightarrow> None
           | Some k \<Rightarrow>
               let sg_ptr = pool ! k
               in if nr_blocks sg_ptr \<ge> max_nr_blocks sg_ptr then Some (DPU_ERR_INTERNAL, pool)
                  else Some (DPU_OK,
                    pool[k := sg_ptr\<lparr>blocks_addr := (blocks_addr sg_ptr)[unat (nr_blocks sg_ptr) := buffer],
                                      blocks_length := (blocks_length sg_ptr)[unat (nr_blocks sg_ptr) := len],
                                      nr_blocks := nr_blocks sg_ptr + 1\<rparr>])
      else Some (DPU_ERR_INTERNAL, pool))"

text \<open>
  The callback \<^verbatim>\<open>get_block_info->f\<close> of the application is a function of the index of the DPU and of the block: the block, or
  \<open>None\<close> when there are no more.
\<close>

record sg_xfer_callback_args =
  get_block :: "u32 \<Rightarrow> u32 \<Rightarrow> (u64 \<times> u32) option"
  sg_xfer :: dpu_xfer_t
  sg_symbol_addr :: u32
  sg_length :: u64
  sg_flags :: u32

definition check_length :: "sg_xfer_callback_args \<Rightarrow> bool" where
  "check_length args \<longleftrightarrow> sg_flags args AND 4 = 0"

text \<open>
  The body of \<^verbatim>\<open>while (1)\<close> for one DPU: \<open>idx\<close> is its index in the matrix, \<open>max_nr\<close> the maximal number of blocks of its buffer. The
  result is the status with which the handler returns, or \<^verbatim>\<open>DPU_OK\<close> to go on with the next DPU; \<open>None\<close> is a null pointer.
\<close>

function add_blocks ::
  "sg_xfer_callback_args \<Rightarrow> nat \<Rightarrow> u32 \<Rightarrow> u32 \<Rightarrow> u32 \<Rightarrow> u32 \<Rightarrow> dpu_transfer_matrix \<Rightarrow> sg_xfer_buffer list \<Rightarrow>
     (dpu_error_t \<times> dpu_transfer_matrix \<times> sg_xfer_buffer list) option" where
  "add_blocks args idx dpu_index max_nr block_index dpu_nr_bytes_to_transfer transfer_matrix pool =
     (case get_block args dpu_index block_index of
        None \<Rightarrow>
          if check_length args \<and> ucast dpu_nr_bytes_to_transfer \<noteq> sg_length args
          then Some (DPU_ERR_SG_LENGTH_MISMATCH, transfer_matrix, pool)
          else Some (DPU_OK, transfer_matrix, pool)
      | Some (addr, len) \<Rightarrow>
          if block_index \<ge> max_nr then Some (DPU_ERR_SG_TOO_MANY_BLOCKS, transfer_matrix, pool)
          else if len \<noteq> 0 \<and> check_length args \<and> ucast dpu_nr_bytes_to_transfer \<ge> sg_length args
          then Some (DPU_ERR_SG_LENGTH_MISMATCH, transfer_matrix, pool)
          else if len \<noteq> 0
          then if sg_xfer args = DPU_XFER_UNKNOWN
               then Some (DPU_ERR_INVALID_MEMORY_TRANSFER, transfer_matrix, pool)
               else let transfer_matrix =
                          (if ptr transfer_matrix ! idx = None
                           then transfer_matrix\<lparr>ptr := (ptr transfer_matrix)[idx := Some idx]\<rparr> else transfer_matrix)
                    in case dpu_transfer_matrix_add_dpu_block idx transfer_matrix addr len pool of
                         None \<Rightarrow> None
                       | Some (status, pool) \<Rightarrow>
                           if status \<noteq> DPU_OK then Some (status, transfer_matrix, pool)
                           else add_blocks args idx dpu_index max_nr (block_index + 1) (dpu_nr_bytes_to_transfer + len)
                                  transfer_matrix pool
          else add_blocks args idx dpu_index max_nr (block_index + 1) dpu_nr_bytes_to_transfer transfer_matrix pool)"
  by auto

termination
proof -
  have dec: "unat max_nr - unat (b + 1) < unat max_nr - unat b" if "\<not> max_nr \<le> b" for max_nr b :: u32
  proof -
    have "b < max_nr" using that by simp
    then have "unat (b + 1) = unat b + 1" "unat b < unat max_nr"
      using unsigned_less [where 'a = nat, of max_nr] by (auto simp: word_less_nat_alt unat_word_ariths)
    then show ?thesis by linarith
  qed
  show ?thesis
    by (relation "measure (\<lambda>(args, idx, i, max_nr, b, n, m, pool). unat max_nr - unat b)") (use dec in auto)
qed

declare add_blocks.simps [simp del]

text \<open>The loop over the DPUs of the rank, in the order of \<^verbatim>\<open>DPU_FOREACH\<close>: the pairs of the index of a DPU in the set and in the matrix.\<close>

fun add_all_blocks ::
  "sg_xfer_callback_args \<Rightarrow> (u32 \<times> nat) list \<Rightarrow> dpu_transfer_matrix \<Rightarrow> sg_xfer_buffer list \<Rightarrow>
     (dpu_error_t \<times> dpu_transfer_matrix \<times> sg_xfer_buffer list) option" where
  "add_all_blocks args [] transfer_matrix pool = Some (DPU_OK, transfer_matrix, pool)"
| "add_all_blocks args ((dpu_index, idx) # visited) transfer_matrix pool =
     (case add_blocks args idx dpu_index (max_nr_blocks (pool ! idx)) 0 0 transfer_matrix pool of
        None \<Rightarrow> None
      | Some (status, transfer_matrix, pool) \<Rightarrow>
          if status \<noteq> DPU_OK then Some (status, transfer_matrix, pool)
          else add_all_blocks args visited transfer_matrix pool)"

definition reset_sg_buffer_pool :: "(u32 \<times> nat) list \<Rightarrow> sg_xfer_buffer list \<Rightarrow> sg_xfer_buffer list" where
  "reset_sg_buffer_pool visited pool = foldl (\<lambda>pool (_, idx). pool[idx := (pool ! idx)\<lparr>nr_blocks := 0\<rparr>]) pool visited"

text \<open>The counter of the ranks that still use the arguments, and whether the arguments have been freed.\<close>

definition free_cb_args :: "u32 \<times> bool \<Rightarrow> u32 \<times> bool" where
  "free_cb_args cb = (let freeing_refcpt = fst cb - 1 in (freeing_refcpt, snd cb \<or> freeing_refcpt = 0))"

record 'h sg_state =
  sg_rank :: "'h dpu_rank_t"
  sg_pool :: "sg_xfer_buffer list"
  sg_cb :: "u32 \<times> bool"

definition sg_dpus :: "'h dpu_rank_t \<Rightarrow> u32 \<Rightarrow> (u32 \<times> nat) list" where
  "sg_dpus rank dpu_offset =
     map (\<lambda>(i, dpu). (of_nat i + dpu_offset, transfer_matrix_index rank dpu)) (enumerate 0 (enabled_from 0 rank))"

text \<open>
  The handler of one rank, over \<^verbatim>\<open>dpu_copy_to_mrams\<close> and \<^verbatim>\<open>dpu_copy_from_mrams\<close> with the backend \<open>H\<close>, which reads the pool through the
  pointers of the matrix. \<^verbatim>\<open>args->length\<close> is a \<^verbatim>\<open>size_t\<close> that the matrix holds in 32 bits.
\<close>

definition sg_xfer_rank_handler ::
  "(sg_xfer_buffer list \<Rightarrow> 'h dpu_rank_handler) \<Rightarrow> (dpu_transfer_matrix \<Rightarrow> 'h dpu_rank_t op) \<Rightarrow> bool \<Rightarrow> u32 \<Rightarrow>
     sg_xfer_callback_args \<Rightarrow> 'h sg_state \<Rightarrow> (dpu_error_t \<times> 'h sg_state) option" where
  "sg_xfer_rank_handler H using_dpu_program sg_xfer_enabled dpu_offset args s =
     (let visited = sg_dpus (sg_rank s) dpu_offset;
          transfer_matrix = dpu_transfer_matrix_clear_all
            \<lparr>tm_type := DPU_SG_XFER_MATRIX, tm_size := ucast (sg_length args),
             tm_offset := sg_symbol_addr args AND NOT MRAM_MASK\<rparr>
      in if \<not> sg_xfer_enabled then Some (DPU_ERR_SG_NOT_ACTIVATED, s)
         else case add_all_blocks args visited transfer_matrix (sg_pool s) of
                None \<Rightarrow> None
              | Some (status, transfer_matrix, pool) \<Rightarrow>
                  let s = s\<lparr>sg_pool := pool\<rparr>
                  in if status \<noteq> DPU_OK then Some (status, s)
                     else if sg_xfer args = DPU_XFER_UNKNOWN then Some (DPU_ERR_INVALID_MEMORY_TRANSFER, s)
                     else case (if sg_xfer args = DPU_XFER_TO_DPU
                                then dpu_copy_to_mrams (H pool) using_dpu_program transfer_matrix (sg_rank s)
                                else dpu_copy_from_mrams (H pool) using_dpu_program transfer_matrix (sg_rank s)) of
                            (status, rank) \<Rightarrow>
                              let s = s\<lparr>sg_rank := rank\<rparr>
                              in if status \<noteq> DPU_OK then Some (status, s)
                                 else Some (DPU_OK, s\<lparr>sg_pool := reset_sg_buffer_pool visited pool,
                                                        sg_cb := free_cb_args (sg_cb s)\<rparr>))"

text \<open>
  \<^verbatim>\<open>dpu_push_sg_xfer_symbol\<close> up to the submission of the handler to the ranks (\<^verbatim>\<open>dpu_callback\<close>, in the theory of the submission):
  the status that it returns at once, or the arguments of the handlers and their counter.
\<close>

definition dpu_push_sg_xfer_symbol ::
  "dpu_set_t \<Rightarrow> dpu_xfer_t \<Rightarrow> dpu_symbol_t \<Rightarrow> u32 \<Rightarrow> u64 \<Rightarrow> (u32 \<Rightarrow> u32 \<Rightarrow> (u64 \<times> u32) option) \<Rightarrow> u32 \<Rightarrow>
     dpu_error_t + sg_xfer_callback_args \<times> u32" where
  "dpu_push_sg_xfer_symbol dpu_set xfer symbol symbol_offset len get_block_info flags =
     (case dpu_set of
        DPU_SET_RANKS ranks \<Rightarrow>
          let symbol_addr = symbol_address symbol + symbol_offset
          in if symbol_addr AND MRAM_MASK \<noteq> MRAM_MASK then Inl DPU_ERR_SG_NOT_MRAM_SYMBOL
             else Inr (\<lparr>get_block = get_block_info, sg_xfer = xfer, sg_symbol_addr = symbol_addr, sg_length = len,
                        sg_flags = flags\<rparr>, of_nat (length ranks))
      | _ \<Rightarrow> Inl DPU_ERR_INTERNAL)"

section \<open>The iterator of the backend\<close>

text \<open>
  The pointers into the arrays are positions: \<open>it_pos\<close> is \<^verbatim>\<open>blocks_addr_ptr\<close> (and \<^verbatim>\<open>blocks_length_ptr\<close>, which moves with it),
  \<open>it_end\<close> is \<^verbatim>\<open>blocks_addr_ptr_end\<close>. \<open>zeros\<close> is the address of the static page of zeros.
\<close>

record sg_xfer_buffer_iterator =
  it_addr :: "u64 list"
  it_length :: "u32 list"
  current_block_length :: u32
  current_block_addr :: u64
  current_block_index :: u32
  it_pos :: nat
  it_end :: nat

definition init_sg_xfer_buffer_iterator :: "u64 \<Rightarrow> sg_xfer_buffer \<Rightarrow> sg_xfer_buffer_iterator \<times> sg_xfer_buffer" where
  "init_sg_xfer_buffer_iterator zeros sg_buff =
     (let n = unat (nr_blocks sg_buff);
          lengths = (blocks_length sg_buff)[n := 4096];
          addrs = (blocks_addr sg_buff)[n := zeros]
      in (\<lparr>it_addr = addrs, it_length = lengths,
           current_block_length = blocks_length sg_buff ! 0, current_block_addr = blocks_addr sg_buff ! 0,
           current_block_index = 0, it_pos = 0, it_end = n\<rparr>,
          sg_buff\<lparr>blocks_length := lengths, blocks_addr := addrs\<rparr>))"

definition go_to_next_block :: "sg_xfer_buffer_iterator \<Rightarrow> sg_xfer_buffer_iterator" where
  "go_to_next_block sg_it =
     (let sg_it = sg_it\<lparr>current_block_index := 0\<rparr>
      in if it_end sg_it = it_pos sg_it then sg_it
         else let pos = it_pos sg_it + 1
              in sg_it\<lparr>it_pos := pos, current_block_addr := it_addr sg_it ! pos,
                       current_block_length := it_length sg_it ! pos\<rparr>)"

definition get_next_byte :: "sg_xfer_buffer_iterator \<Rightarrow> u64 \<times> sg_xfer_buffer_iterator" where
  "get_next_byte sg_it =
     (let byte = current_block_addr sg_it + ucast (current_block_index sg_it);
          sg_it = sg_it\<lparr>current_block_index := current_block_index sg_it + 1\<rparr>
      in (byte,
          if current_block_index sg_it = current_block_length sg_it
          then if it_pos sg_it \<noteq> it_end sg_it then go_to_next_block sg_it else sg_it\<lparr>current_block_index := 0\<rparr>
          else sg_it))"

text \<open>The addresses of the next \<open>n\<close> bytes.\<close>

fun next_addresses :: "nat \<Rightarrow> sg_xfer_buffer_iterator \<Rightarrow> u64 list \<times> sg_xfer_buffer_iterator" where
  "next_addresses 0 sg_it = ([], sg_it)"
| "next_addresses (Suc n) sg_it =
     (case get_next_byte sg_it of
        (byte, sg_it) \<Rightarrow> (case next_addresses n sg_it of (bs, sg_it) \<Rightarrow> (byte # bs, sg_it)))"

text \<open>The eight bytes that the backend sends next.\<close>

definition get_next_eight_bytes :: "(u64 \<Rightarrow> u8) \<Rightarrow> sg_xfer_buffer_iterator \<Rightarrow> u8 list \<times> sg_xfer_buffer_iterator" where
  "get_next_eight_bytes mem sg_it =
     (let len = current_block_length sg_it;
          current = current_block_index sg_it;
          addr = current_block_addr sg_it + ucast (current_block_index sg_it)
      in if len > 8 + current
         then (read_bytes mem addr 8, sg_it\<lparr>current_block_index := current_block_index sg_it + 8\<rparr>)
         else if len = 8 + current
         then (read_bytes mem addr 8, go_to_next_block sg_it)
         else case next_addresses 8 sg_it of (bytes, sg_it) \<Rightarrow> (map mem bytes, sg_it))"

text \<open>The byte loop of \<^verbatim>\<open>write_next_eight_bytes\<close>.\<close>

fun write_next_bytes :: "u8 list \<Rightarrow> (u64 \<Rightarrow> u8) \<times> sg_xfer_buffer_iterator \<Rightarrow> (u64 \<Rightarrow> u8) \<times> sg_xfer_buffer_iterator" where
  "write_next_bytes [] s = s"
| "write_next_bytes (b # bs) (mem, sg_it) =
     (case get_next_byte sg_it of (byte, sg_it) \<Rightarrow> write_next_bytes bs (mem(byte := b), sg_it))"

definition write_next_eight_bytes ::
  "u8 list \<Rightarrow> (u64 \<Rightarrow> u8) \<times> sg_xfer_buffer_iterator \<Rightarrow> (u64 \<Rightarrow> u8) \<times> sg_xfer_buffer_iterator" where
  "write_next_eight_bytes in_buffer s =
     (case s of (mem, sg_it) \<Rightarrow>
        if it_pos sg_it = it_end sg_it then (mem, sg_it)
        else let len = current_block_length sg_it;
                 current = current_block_index sg_it;
                 addr = current_block_addr sg_it + ucast (current_block_index sg_it)
             in if len > 8 + current
                then (write_bytes mem addr in_buffer, sg_it\<lparr>current_block_index := current_block_index sg_it + 8\<rparr>)
                else if len = 8 + current
                then (write_bytes mem addr in_buffer, go_to_next_block sg_it)
                else write_next_bytes in_buffer (mem, sg_it))"

section \<open>Walking through the blocks\<close>

text \<open>The addresses of the bytes of a block, and of the bytes of the blocks that an iterator has still to visit.\<close>

definition block_addresses :: "u64 \<Rightarrow> u32 \<Rightarrow> u64 list" where
  "block_addresses a n = map (\<lambda>i. a + of_nat i) [0..<unat n]"

definition blocks_from :: "nat \<Rightarrow> sg_xfer_buffer_iterator \<Rightarrow> u64 list" where
  "blocks_from k sg_it = concat (map (\<lambda>k. block_addresses (it_addr sg_it ! k) (it_length sg_it ! k)) [k..<it_end sg_it])"

definition remaining :: "sg_xfer_buffer_iterator \<Rightarrow> u64 list" where
  "remaining sg_it = drop (unat (current_block_index sg_it)) (blocks_from (it_pos sg_it) sg_it)"

text \<open>The invariant: the iterator stands inside the block at its position, which is the page of zeros at the end.\<close>

definition iterator_inv :: "u64 \<Rightarrow> sg_xfer_buffer_iterator \<Rightarrow> bool" where
  "iterator_inv zeros sg_it \<longleftrightarrow>
     it_pos sg_it \<le> it_end sg_it
     \<and> current_block_addr sg_it = it_addr sg_it ! it_pos sg_it
     \<and> current_block_length sg_it = it_length sg_it ! it_pos sg_it
     \<and> current_block_index sg_it < current_block_length sg_it
     \<and> (\<forall>k < it_end sg_it. 0 < it_length sg_it ! k \<and> unat (it_length sg_it ! k) + 8 < 2 ^ 32)
     \<and> it_addr sg_it ! it_end sg_it = zeros \<and> it_length sg_it ! it_end sg_it = 4096"

definition zero_page :: "u64 \<Rightarrow> u64 set" where
  "zero_page zeros = set (block_addresses zeros 4096)"

lemma length_block_addresses [simp]: "length (block_addresses a n) = unat n"
  by (simp add: block_addresses_def)

lemma nth_block_addresses: "i < unat n \<Longrightarrow> block_addresses a n ! i = a + of_nat i"
  by (simp add: block_addresses_def)

lemma blocks_from_step:
  "k < it_end sg_it \<Longrightarrow>
     blocks_from k sg_it = block_addresses (it_addr sg_it ! k) (it_length sg_it ! k) @ blocks_from (Suc k) sg_it"
  by (simp add: blocks_from_def upt_rec)

lemma blocks_from_end [simp]: "blocks_from (it_end sg_it) sg_it = []"
  by (simp add: blocks_from_def)

lemma blocks_from_update [simp]:
  "blocks_from k (sg_it\<lparr>current_block_index := i\<rparr>) = blocks_from k sg_it"
  "blocks_from k (sg_it\<lparr>it_pos := p\<rparr>) = blocks_from k sg_it"
  "blocks_from k (sg_it\<lparr>current_block_addr := a\<rparr>) = blocks_from k sg_it"
  "blocks_from k (sg_it\<lparr>current_block_length := n\<rparr>) = blocks_from k sg_it"
  by (simp_all add: blocks_from_def)

lemma unat_Suc_less:
  fixes x :: "'a::len word"
  assumes "x < y"
  shows "unat (x + 1) = Suc (unat x)"
proof -
  have "Suc (unat x) < 2 ^ LENGTH('a)"
    using assms unsigned_less [where 'a = nat, of y] unfolding word_less_nat_alt by linarith
  then show ?thesis
    by (simp add: unat_word_ariths)
qed

text \<open>One byte: the next one of the blocks that are left, or one of the page of zeros.\<close>

lemma get_next_byte_spec:
  assumes inv: "iterator_inv zeros sg_it" and nb: "get_next_byte sg_it = (a, sg_it')"
  shows "iterator_inv zeros sg_it' \<and> remaining sg_it' = tl (remaining sg_it)
    \<and> (if remaining sg_it = [] then a \<in> zero_page zeros else a = hd (remaining sg_it))"
proof -
  let ?i = "current_block_index sg_it" and ?n = "current_block_length sg_it" and ?p = "it_pos sg_it"
  have lt: "?i < ?n" and i: "unat ?i < unat ?n"
    using inv by (auto simp: iterator_inv_def word_less_nat_alt)
  have suc: "unat (?i + 1) = Suc (unat ?i)"
    using lt by (rule unat_Suc_less)
  have a: "a = current_block_addr sg_it + of_nat (unat ?i)"
    using nb by (simp add: get_next_byte_def Let_def)
  have inner: "?i + 1 < ?n" if "?i + 1 \<noteq> ?n"
    using that suc i by (simp add: word_less_nat_alt word_unat_eq_iff)
  show ?thesis
  proof (cases "?p = it_end sg_it")
    case True
    then have z: "current_block_addr sg_it = zeros" "?n = 4096"
      using inv by (simp_all add: iterator_inv_def)
    then have "a \<in> zero_page zeros"
      using i a nth_mem [of "unat ?i" "block_addresses zeros 4096"] by (simp add: zero_page_def nth_block_addresses)
    moreover have "iterator_inv zeros sg_it'"
    proof (cases "?i + 1 = ?n")
      case True
      then have "sg_it' = sg_it\<lparr>current_block_index := 0\<rparr>"
        using nb \<open>?p = it_end sg_it\<close> by (auto simp: get_next_byte_def Let_def)
      then show ?thesis
        using inv z by (simp add: iterator_inv_def)
    next
      case no: False
      then have "sg_it' = sg_it\<lparr>current_block_index := ?i + 1\<rparr>"
        using nb by (auto simp: get_next_byte_def Let_def)
      then show ?thesis
        using inv inner [OF no] by (simp add: iterator_inv_def)
    qed
    moreover have "remaining sg_it = []" "remaining sg_it' = []"
      using nb True by (auto simp: remaining_def get_next_byte_def Let_def blocks_from_def split: if_splits)
    ultimately show ?thesis by simp
  next
    case False
    then have p: "?p < it_end sg_it"
      using inv by (simp add: iterator_inv_def)
    have cur: "current_block_addr sg_it = it_addr sg_it ! ?p" "?n = it_length sg_it ! ?p"
      using inv by (simp_all add: iterator_inv_def)
    let ?b = "block_addresses (it_addr sg_it ! ?p) (it_length sg_it ! ?p)"
    have rest: "remaining sg_it = drop (unat ?i) ?b @ blocks_from (Suc ?p) sg_it"
      using i cur p by (simp add: remaining_def blocks_from_step)
    also have "drop (unat ?i) ?b = a # drop (Suc (unat ?i)) ?b"
      using i cur a by (simp add: Cons_nth_drop_Suc [symmetric] nth_block_addresses)
    finally have rest: "remaining sg_it = a # drop (Suc (unat ?i)) ?b @ blocks_from (Suc ?p) sg_it"
      by simp
    show ?thesis
    proof (cases "?i + 1 = ?n")
      case True
      then have it: "sg_it' = sg_it\<lparr>current_block_index := 0, it_pos := Suc ?p,
          current_block_addr := it_addr sg_it ! Suc ?p, current_block_length := it_length sg_it ! Suc ?p\<rparr>"
        using nb False by (auto simp: get_next_byte_def go_to_next_block_def Let_def)
      have "unat ?n = Suc (unat ?i)"
        using True suc by simp
      then have "remaining sg_it' = tl (remaining sg_it)"
        using it rest cur by (simp add: remaining_def)
      moreover have "iterator_inv zeros sg_it'"
        using inv it p by (cases "Suc ?p = it_end sg_it") (auto simp: iterator_inv_def)
      ultimately show ?thesis
        using rest by simp
    next
      case no: False
      then have it: "sg_it' = sg_it\<lparr>current_block_index := ?i + 1\<rparr>"
        using nb by (auto simp: get_next_byte_def Let_def)
      have "iterator_inv zeros sg_it'"
        using inv it inner [OF no] by (simp add: iterator_inv_def)
      moreover have "remaining sg_it' = tl (remaining sg_it)"
        using it rest cur suc p i
        by (simp add: remaining_def blocks_from_step)
      ultimately show ?thesis
        using rest by simp
    qed
  qed
qed

text \<open>Several bytes: those that are left, then bytes of the page of zeros.\<close>

lemma next_addresses_spec:
  assumes "iterator_inv zeros sg_it" "next_addresses n sg_it = (as, sg_it')"
  shows "iterator_inv zeros sg_it' \<and> remaining sg_it' = drop n (remaining sg_it) \<and> length as = n
    \<and> take (length (remaining sg_it)) as = take n (remaining sg_it)
    \<and> set (drop (length (remaining sg_it)) as) \<subseteq> zero_page zeros"
  using assms
proof (induction n arbitrary: sg_it as)
  case (Suc n)
  obtain a mid where m: "get_next_byte sg_it = (a, mid)"
    by (cases "get_next_byte sg_it")
  obtain bs where bs: "next_addresses n mid = (bs, sg_it')" and as: "as = a # bs"
    using Suc.prems(2) m by (cases "next_addresses n mid") auto
  note step = get_next_byte_spec [OF Suc.prems(1) m]
  then have IH: "iterator_inv zeros sg_it' \<and> remaining sg_it' = drop n (tl (remaining sg_it)) \<and> length bs = n
    \<and> take (length (tl (remaining sg_it))) bs = take n (tl (remaining sg_it))
    \<and> set (drop (length (tl (remaining sg_it))) bs) \<subseteq> zero_page zeros"
    using Suc.IH [of mid bs] bs by metis
  show ?case
  proof (cases "remaining sg_it")
    case Nil
    then show ?thesis
      using IH step as by auto
  next
    case (Cons x xs)
    then show ?thesis
      using IH step as by auto
  qed
qed simp

text \<open>The fast paths of eight bytes within a block are the byte loop.\<close>

lemma next_addresses_add:
  "next_addresses (m + n) sg_it =
     (case next_addresses m sg_it of (as, mid) \<Rightarrow> case next_addresses n mid of (bs, sg_it') \<Rightarrow> (as @ bs, sg_it'))"
  by (induction m arbitrary: sg_it) (simp_all split: prod.splits)

lemma next_addresses_within:
  assumes "unat (current_block_index sg_it) + n < unat (current_block_length sg_it)"
  shows "next_addresses n sg_it =
    (map (\<lambda>i. current_block_addr sg_it + ucast (current_block_index sg_it) + of_nat i) [0..<n],
     sg_it\<lparr>current_block_index := current_block_index sg_it + of_nat n\<rparr>)"
  using assms
proof (induction n)
  case (Suc n)
  let ?i = "current_block_index sg_it"
  have b: "unat ?i + Suc n < 2 ^ 32"
    using Suc.prems unsigned_less [where 'a = nat, of "current_block_length sg_it"] by (simp add: order_less_trans)
  then have u: "unat (?i + of_nat n) = unat ?i + n"
    by (simp add: unat_word_ariths unat_of_nat)
  have u': "unat (?i + of_nat n + 1) = Suc (unat ?i + n)"
    using b u by (simp add: unat_word_ariths)
  then have "?i + of_nat n + 1 \<noteq> current_block_length sg_it"
    using Suc.prems by auto
  moreover have "ucast (?i + of_nat n) = (ucast ?i + of_nat n :: u64)"
  proof -
    have "(ucast (?i + of_nat n) :: u64) = of_nat (unat ?i + n)"
      by (simp flip: u)
    then show ?thesis by simp
  qed
  ultimately have "get_next_byte (sg_it\<lparr>current_block_index := ?i + of_nat n\<rparr>) =
      (current_block_addr sg_it + ucast ?i + of_nat n, sg_it\<lparr>current_block_index := ?i + of_nat n + 1\<rparr>)"
    by (simp add: get_next_byte_def Let_def)
  then show ?case
    using Suc next_addresses_add [of n 1 sg_it] by (simp add: algebra_simps)
qed simp

lemma next_addresses_8:
  assumes "unat (current_block_index sg_it) + 8 \<le> unat (current_block_length sg_it)"
  shows "next_addresses 8 sg_it =
    (map (\<lambda>i. current_block_addr sg_it + ucast (current_block_index sg_it) + of_nat i) [0..<8],
     if unat (current_block_index sg_it) + 8 = unat (current_block_length sg_it) then go_to_next_block sg_it
     else sg_it\<lparr>current_block_index := current_block_index sg_it + 8\<rparr>)"
proof (cases "unat (current_block_index sg_it) + 8 = unat (current_block_length sg_it)")
  case True
  let ?i = "current_block_index sg_it"
  have "unat ?i + 8 < 2 ^ 32"
    using True unsigned_less [where 'a = nat, of "current_block_length sg_it"] by simp
  then have u: "unat (?i + 7) = unat ?i + 7" "unat (?i + 8) = unat ?i + 8"
    by (simp_all add: unat_word_ariths)
  have "(ucast (?i + 7) :: u64) = of_nat (unat (?i + 7))"
    by simp
  then have c: "(ucast (?i + 7) :: u64) = ucast ?i + 7"
    unfolding u by simp
  have "?i + 8 = current_block_length sg_it"
    using True u by (simp add: word_unat_eq_iff)
  then have "get_next_byte (sg_it\<lparr>current_block_index := ?i + 7\<rparr>) =
      (current_block_addr sg_it + ucast ?i + 7, go_to_next_block sg_it)"
    by (simp add: get_next_byte_def go_to_next_block_def Let_def c add.commute [of 8])
  moreover have "next_addresses 7 sg_it = (map (\<lambda>i. current_block_addr sg_it + ucast ?i + of_nat i) [0..<7],
      sg_it\<lparr>current_block_index := ?i + 7\<rparr>)"
    using next_addresses_within [of sg_it 7] True by simp
  moreover have "[0..<8] = [0..<7] @ [7::nat]"
    by (simp add: upt_rec)
  ultimately show ?thesis
    using True next_addresses_add [of 7 1 sg_it] by (simp del: upt_rec_numeral)
next
  case False
  then show ?thesis
    using assms next_addresses_within [of sg_it 8] by simp
qed

lemma iterator_index_bound:
  assumes "iterator_inv zeros sg_it"
  shows "unat (8 + current_block_index sg_it) = 8 + unat (current_block_index sg_it)"
    and "current_block_index sg_it < current_block_length sg_it"
proof -
  have "it_pos sg_it < it_end sg_it \<or> it_pos sg_it = it_end sg_it"
    using assms by (auto simp: iterator_inv_def)
  then have "unat (current_block_length sg_it) + 8 < 2 ^ 32"
    using assms by (auto simp: iterator_inv_def)
  moreover show lt: "current_block_index sg_it < current_block_length sg_it"
    using assms unfolding iterator_inv_def by blast
  ultimately show "unat (8 + current_block_index sg_it) = 8 + unat (current_block_index sg_it)"
    by (simp add: unat_word_ariths word_less_nat_alt)
qed

lemma get_next_eight_bytes_eq:
  assumes "iterator_inv zeros sg_it"
  shows "get_next_eight_bytes mem sg_it = (case next_addresses 8 sg_it of (as, sg_it') \<Rightarrow> (map mem as, sg_it'))"
proof -
  note b = iterator_index_bound(1) [OF assms]
  have "read_bytes mem a 8 = map mem (map (\<lambda>i. a + of_nat i) [0..<8])" for a
    by (simp add: read_bytes_def)
  then show ?thesis
    using next_addresses_8 [of sg_it] b
    by (auto simp: get_next_eight_bytes_def Let_def word_less_nat_alt word_unat_eq_iff add.commute simp del: map_map)
qed

text \<open>Storing a list of bytes at a list of addresses.\<close>

fun store_at :: "u64 list \<Rightarrow> u8 list \<Rightarrow> (u64 \<Rightarrow> u8) \<Rightarrow> u64 \<Rightarrow> u8" where
  "store_at (a # as) (b # bs) mem = store_at as bs (mem(a := b))"
| "store_at _ _ mem = mem"

lemma store_at_append:
  "length as = length bs \<Longrightarrow> store_at (as @ as') (bs @ bs') mem = store_at as' bs' (store_at as bs mem)"
  by (induction as bs mem rule: store_at.induct) auto

lemma write_next_bytes_eq:
  "write_next_bytes bs (mem, sg_it) =
     (case next_addresses (length bs) sg_it of (as, sg_it') \<Rightarrow> (store_at as bs mem, sg_it'))"
  by (induction bs arbitrary: mem sg_it) (simp_all split: prod.splits)

lemma write_bytes_Cons:
  fixes mem :: "'a::len word \<Rightarrow> 'v"
  assumes "Suc (length bs) < 2 ^ LENGTH('a)"
  shows "write_bytes mem a (b # bs) = write_bytes (mem(a := b)) (a + 1) bs"
proof -
  have "write_bytes mem a [b] = mem(a := b)"
    by (auto simp: write_bytes_def fun_eq_iff unat_eq_0)
  then show ?thesis
    using write_bytes_append [of "[b]" bs mem a] assms by simp
qed

lemma store_at_range:
  "length bs < 2 ^ 64 \<Longrightarrow> store_at (map (\<lambda>i. a + of_nat i) [0..<length bs]) bs mem = write_bytes mem a bs"
proof (induction bs arbitrary: a mem)
  case (Cons b bs)
  have "map (\<lambda>i. a + of_nat i) [0..<length (b # bs)] = a # map (\<lambda>i. a + 1 + of_nat i) [0..<length bs]"
    by (simp add: upt_conv_Cons map_Suc_upt [symmetric] add.assoc del: upt_Suc)
  then show ?case
    using Cons by (simp add: write_bytes_Cons)
qed simp

lemma write_next_eight_bytes_eq:
  assumes "iterator_inv zeros sg_it" "it_pos sg_it \<noteq> it_end sg_it" "length bs = 8"
  shows "write_next_eight_bytes bs (mem, sg_it) =
    (case next_addresses 8 sg_it of (as, sg_it') \<Rightarrow> (store_at as bs mem, sg_it'))"
proof -
  note b = iterator_index_bound(1) [OF assms(1)]
  have "write_bytes mem a bs = store_at (map (\<lambda>i. a + of_nat i) [0..<8]) bs mem" for a
    using store_at_range [of bs a mem] assms(3) by simp
  then show ?thesis
    using next_addresses_8 [of sg_it] b assms write_next_bytes_eq [of bs mem sg_it]
    by (auto simp: write_next_eight_bytes_def Let_def word_less_nat_alt word_unat_eq_iff add.commute)
qed

section \<open>The streams of bytes\<close>

text \<open>The words that the backend takes from a buffer one after the other, and those that it stores into one.\<close>

fun sg_words :: "nat \<Rightarrow> (u64 \<Rightarrow> u8) \<Rightarrow> sg_xfer_buffer_iterator \<Rightarrow> u8 list \<times> sg_xfer_buffer_iterator" where
  "sg_words 0 mem sg_it = ([], sg_it)"
| "sg_words (Suc n) mem sg_it =
     (case get_next_eight_bytes mem sg_it of
        (w, sg_it) \<Rightarrow> (case sg_words n mem sg_it of (ws, sg_it) \<Rightarrow> (w @ ws, sg_it)))"

definition sg_buffer_wf :: "sg_xfer_buffer \<Rightarrow> bool" where
  "sg_buffer_wf b \<longleftrightarrow>
     length (blocks_addr b) = Suc (unat (max_nr_blocks b)) \<and> length (blocks_length b) = Suc (unat (max_nr_blocks b))
     \<and> 0 < nr_blocks b \<and> nr_blocks b \<le> max_nr_blocks b
     \<and> list_all (\<lambda>n. 0 < n \<and> unat n + 8 < 2 ^ 32) (take (unat (nr_blocks b)) (blocks_length b))"

definition buffer_addresses :: "sg_xfer_buffer \<Rightarrow> u64 list" where
  "buffer_addresses b =
     concat (map (\<lambda>k. block_addresses (blocks_addr b ! k) (blocks_length b ! k)) [0..<unat (nr_blocks b)])"

lemma init_iterator:
  assumes "sg_buffer_wf b"
  shows "iterator_inv zeros (fst (init_sg_xfer_buffer_iterator zeros b))"
    and "remaining (fst (init_sg_xfer_buffer_iterator zeros b)) = buffer_addresses b"
proof -
  let ?n = "unat (nr_blocks b)"
  have n: "0 < ?n" "?n < length (blocks_addr b)" "?n < length (blocks_length b)"
    using assms by (auto simp: sg_buffer_wf_def word_le_nat_alt unat_gt_0)
  have len: "0 < blocks_length b ! k \<and> unat (blocks_length b ! k) + 8 < 2 ^ 32" if "k < ?n" for k
    using assms that n by (simp add: sg_buffer_wf_def list_all_length)
  show "iterator_inv zeros (fst (init_sg_xfer_buffer_iterator zeros b))"
    using n len by (simp add: iterator_inv_def init_sg_xfer_buffer_iterator_def Let_def)
  have "map (\<lambda>k. block_addresses ((blocks_addr b)[?n := zeros] ! k) ((blocks_length b)[?n := 4096] ! k)) [0..<?n]
      = map (\<lambda>k. block_addresses (blocks_addr b ! k) (blocks_length b ! k)) [0..<?n]"
    by (rule map_cong) simp_all
  from arg_cong [OF this, of concat] show "remaining (fst (init_sg_xfer_buffer_iterator zeros b)) = buffer_addresses b"
    by (simp add: remaining_def blocks_from_def buffer_addresses_def init_sg_xfer_buffer_iterator_def Let_def)
qed

lemma sg_words_eq:
  assumes "iterator_inv zeros sg_it"
  shows "sg_words n mem sg_it = (case next_addresses (8 * n) sg_it of (as, sg_it') \<Rightarrow> (map mem as, sg_it'))"
  using assms
proof (induction n arbitrary: sg_it)
  case (Suc n)
  obtain as mid where m: "next_addresses 8 sg_it = (as, mid)"
    by (cases "next_addresses 8 sg_it")
  then have "iterator_inv zeros mid"
    using next_addresses_spec [OF Suc.prems] by blast
  then show ?case
    using Suc m get_next_eight_bytes_eq [OF Suc.prems, of mem] next_addresses_add [of 8 "8 * n" sg_it]
    by (simp split: prod.splits)
qed simp

lemma next_addresses_map:
  assumes "iterator_inv zeros sg_it" "next_addresses n sg_it = (as, sg_it')"
    and "\<And>a. a \<in> zero_page zeros \<Longrightarrow> mem a = 0"
  shows "map mem as = take n (map mem (remaining sg_it) @ replicate n 0)"
proof -
  let ?r = "remaining sg_it" and ?k = "length (remaining sg_it)"
  note sp = next_addresses_spec [OF assms(1,2)]
  have "map mem (drop ?k as) = replicate (n - ?k) 0"
    using sp assms(3) by (intro replicate_eqI) auto
  moreover have "map mem (take ?k as) = take n (map mem ?r)"
    using sp by (simp add: take_map)
  ultimately have "map mem (take ?k as @ drop ?k as) = take n (map mem ?r) @ replicate (n - ?k) 0"
    by (simp only: map_append)
  then show ?thesis
    by (simp add: min_def)
qed

lemma at_end_iff:
  assumes "iterator_inv zeros sg_it"
  shows "it_pos sg_it = it_end sg_it \<longleftrightarrow> remaining sg_it = []"
proof (cases "it_pos sg_it = it_end sg_it")
  case False
  then have "it_pos sg_it < it_end sg_it"
    using assms by (simp add: iterator_inv_def)
  then have "unat (current_block_index sg_it) < length (blocks_from (it_pos sg_it) sg_it)"
    using iterator_index_bound(2) [OF assms] assms
    by (auto simp: blocks_from_step iterator_inv_def word_less_nat_alt intro: trans_less_add1)
  then show ?thesis
    using False by (simp add: remaining_def)
qed (simp add: remaining_def blocks_from_def)

lemma store_at_Nil2 [simp]: "store_at as [] mem = mem"
  by (cases as) simp_all

lemma store_at_short:
  assumes "8 \<le> length as" "length w = 8"
  shows "store_at as (w @ ws) mem = store_at (drop 8 as) ws (store_at (take 8 as) w mem)"
  using store_at_append [of "take 8 as" w "drop 8 as" ws mem] assms by simp

lemma gather_words:
  assumes "iterator_inv zeros sg_it" "8 dvd length (remaining sg_it)" "\<forall>w \<in> set ws. length w = 8"
  shows "fst (foldl (\<lambda>s w. write_next_eight_bytes w s) (mem, sg_it) ws) = store_at (remaining sg_it) (concat ws) mem"
  using assms
proof (induction ws arbitrary: mem sg_it)
  case (Cons w ws)
  have w: "length w = 8"
    using Cons.prems by simp
  show ?case
  proof (cases "remaining sg_it = []")
    case True
    then have "write_next_eight_bytes w (mem, sg_it) = (mem, sg_it)"
      using at_end_iff [OF Cons.prems(1)] by (simp add: write_next_eight_bytes_def)
    then show ?thesis
      using Cons True by simp
  next
    case False
    obtain as mid where m: "next_addresses 8 sg_it = (as, mid)"
      by (cases "next_addresses 8 sg_it")
    note sp = next_addresses_spec [OF Cons.prems(1) m]
    have 8: "8 \<le> length (remaining sg_it)"
      using False Cons.prems(2) by (simp add: dvd_imp_le)
    with sp have as: "as = take 8 (remaining sg_it)"
      by (metis take_all_iff)
    have "write_next_eight_bytes w (mem, sg_it) = (store_at as w mem, mid)"
      using write_next_eight_bytes_eq [OF Cons.prems(1) _ w] False at_end_iff [OF Cons.prems(1)] m by simp
    moreover have "8 dvd length (remaining mid)"
      using sp Cons.prems(2) by (auto simp: dvd_minus_self)
    ultimately show ?thesis
      using Cons.IH [of mid "store_at as w mem"] sp Cons.prems(3) as store_at_short [OF 8 w] by simp
  qed
qed simp


definition sim_buffer :: sg_xfer_buffer where
  "sim_buffer = \<lparr>max_nr_blocks = 2, blocks_addr = [100, 200, 0], blocks_length = [3, 5, 0], nr_blocks = 2\<rparr>"

definition sim_memory :: "u64 \<Rightarrow> u8" where
  "sim_memory a = (if a < 1000 then ucast a else 0)"

lemma sim_buffer_addresses: "buffer_addresses sim_buffer = [100, 101, 102, 200, 201, 202, 203, 204]"
  by code_simp

lemma sim_memory_zeros: "\<forall>a \<in> zero_page 8192. sim_memory a = 0"
proof
  fix a assume "a \<in> zero_page 8192"
  then obtain i where "i < 4096" "a = 8192 + of_nat i"
    by (auto simp: zero_page_def block_addresses_def)
  then have "unat a = 8192 + i"
    by (simp add: unat_word_ariths unat_of_nat)
  then show "sim_memory a = 0"
    by (simp add: sim_memory_def word_less_nat_alt)
qed


text \<open>
  When the blocks do not hold a multiple of eight bytes, the last word of a gather is completed on the page of zeros: the
  bytes that are left over are stored there, and the padding of later scatter transfers of the process is no longer zero.
\<close>

lemma gather_dirties_the_zeros:
  assumes "iterator_inv zeros sg_it" "0 < length (remaining sg_it)" "length (remaining sg_it) < 8" "length bs = 8"
  shows "\<exists>zs. set zs \<subseteq> zero_page zeros \<and> length zs = 8 - length (remaining sg_it)
    \<and> fst (write_next_eight_bytes bs (mem, sg_it)) = store_at (remaining sg_it @ zs) bs mem"
proof -
  obtain as sg_it' where as: "next_addresses 8 sg_it = (as, sg_it')"
    by (cases "next_addresses 8 sg_it")
  have "it_pos sg_it \<noteq> it_end sg_it"
    using assms(2) at_end_iff [OF assms(1)] by auto
  then have "fst (write_next_eight_bytes bs (mem, sg_it)) = store_at as bs mem"
    using write_next_eight_bytes_eq [OF assms(1) _ assms(4)] as by simp
  moreover have "take (length (remaining sg_it)) as = remaining sg_it" "length as = 8"
    "set (drop (length (remaining sg_it)) as) \<subseteq> zero_page zeros"
    using next_addresses_spec [OF assms(1) as] assms(3) by simp_all
  ultimately show ?thesis
    by (intro exI [of _ "drop (length (remaining sg_it)) as"]) (metis append_take_drop_id length_drop)
qed

section \<open>The collection of the blocks\<close>

text \<open>An entry of the pool holds a list of blocks.\<close>

definition holds :: "sg_xfer_buffer \<Rightarrow> (u64 \<times> u32) list \<Rightarrow> bool" where
  "holds b bs \<longleftrightarrow>
     length (blocks_addr b) = Suc (unat (max_nr_blocks b)) \<and> length (blocks_length b) = Suc (unat (max_nr_blocks b))
     \<and> unat (nr_blocks b) = length bs \<and> length bs \<le> unat (max_nr_blocks b)
     \<and> take (length bs) (blocks_addr b) = map fst bs \<and> take (length bs) (blocks_length b) = map snd bs"

definition nonempty :: "(u64 \<times> u32) list \<Rightarrow> (u64 \<times> u32) list" where
  "nonempty bs = filter (\<lambda>(a, n). n \<noteq> 0) bs"

definition total_bytes :: "(u64 \<times> u32) list \<Rightarrow> nat" where
  "total_bytes bs = sum_list (map (\<lambda>(a, n). unat n) bs)"

text \<open>What the callback gives for a DPU.\<close>

definition gives :: "sg_xfer_callback_args \<Rightarrow> u32 \<Rightarrow> (u64 \<times> u32) list \<Rightarrow> bool" where
  "gives args dpu_index bs \<longleftrightarrow>
     (\<forall>k \<le> length bs. get_block args dpu_index (of_nat k) = (if k < length bs then Some (bs ! k) else None))"

lemma take_Suc_update: "n < length xs \<Longrightarrow> take (Suc n) (xs[n := x]) = take n xs @ [x]"
  by (simp add: take_Suc_conv_app_nth)

lemma holds_add:
  assumes "holds b bs" "length bs < unat (max_nr_blocks b)"
  shows "holds (b\<lparr>blocks_addr := (blocks_addr b)[unat (nr_blocks b) := a],
      blocks_length := (blocks_length b)[unat (nr_blocks b) := n], nr_blocks := nr_blocks b + 1\<rparr>) (bs @ [(a, n)])"
proof -
  have "nr_blocks b < max_nr_blocks b"
    using assms by (simp add: holds_def word_less_nat_alt)
  then have "unat (nr_blocks b + 1) = Suc (length bs)"
    using assms(1) unat_Suc_less [of "nr_blocks b" "max_nr_blocks b"] by (simp add: holds_def)
  then show ?thesis
    using assms by (auto simp: holds_def take_Suc_update)
qed

lemma unat_ucast_u32_u64: "unat (ucast (n :: u32) :: u64) = unat n"
proof -
  have "unat n < 2 ^ 64"
    using unsigned_less [where 'a = nat, of n] by simp
  then show ?thesis
    by (simp add: unsigned_ucast_eq take_bit_nat_eq_self)
qed

text \<open>
  The blocks of a DPU are appended to those that its entry holds; what is missing to the length of the transfer is an error
  that is found after the last block.
\<close>

lemma add_blocks_appends:
  assumes "gives args dpu_index bs" "k \<le> length bs" "length bs \<le> unat max_nr"
    and "holds (pool ! idx) held" "max_nr_blocks (pool ! idx) = max_nr"
    and "length held + length (nonempty (drop k bs)) \<le> unat max_nr"
    and "idx < length pool" "idx < length (ptr m)" "tm_type m = DPU_SG_XFER_MATRIX"
    and "ptr m ! idx = None \<or> ptr m ! idx = Some idx"
    and "sg_xfer args \<noteq> DPU_XFER_UNKNOWN"
    and "unat n + total_bytes (drop k bs) < 2 ^ 32"
    and "check_length args \<Longrightarrow> unat n + total_bytes (drop k bs) \<le> unat (sg_length args)"
  shows "\<exists>b. add_blocks args idx dpu_index max_nr (of_nat k) n m pool =
      Some (if check_length args \<and> unat n + total_bytes (drop k bs) \<noteq> unat (sg_length args)
            then DPU_ERR_SG_LENGTH_MISMATCH else DPU_OK,
        m\<lparr>ptr := (ptr m)[idx := if nonempty (drop k bs) = [] then ptr m ! idx else Some idx]\<rparr>, pool[idx := b])
    \<and> holds b (held @ nonempty (drop k bs)) \<and> max_nr_blocks b = max_nr"
  using assms(2-)
proof (induction "length bs - k" arbitrary: k held n m pool)
  case 0
  then have "get_block args dpu_index (of_nat k) = None" "drop k bs = []"
    using assms(1) by (auto simp: gives_def)
  moreover have "(ucast n = sg_length args) \<longleftrightarrow> unat n = unat (sg_length args)"
    by (simp add: word_unat_eq_iff unat_ucast_u32_u64)
  ultimately show ?case
    using 0 by (intro exI [of _ "pool ! idx"])
      (simp add: add_blocks.simps [of args idx dpu_index max_nr "of_nat k"] nonempty_def total_bytes_def)
next
  case (Suc d)
  then have k: "k < length bs" "Suc k \<le> length bs" by auto
  obtain a l where al: "bs ! k = (a, l)"
    by (cases "bs ! k")
  then have g: "get_block args dpu_index (of_nat k) = Some (a, l)"
    using assms(1) k by (simp add: gives_def)
  have d: "drop k bs = (a, l) # drop (Suc k) bs"
    using k al by (simp add: Cons_nth_drop_Suc [symmetric])
  have "k < 2 ^ 32"
    using k Suc.prems(2) unsigned_less [where 'a = nat, of max_nr] by simp
  then have "unat (of_nat k :: u32) = k"
    by (simp add: unat_of_nat)
  then have below: "\<not> max_nr \<le> of_nat k"
    using k Suc.prems(2) by (simp add: word_le_nat_alt)
  show ?case
  proof (cases "l = 0")
    case True
    have nd: "nonempty (drop k bs) = nonempty (drop (Suc k) bs)" "total_bytes (drop k bs) = total_bytes (drop (Suc k) bs)"
      unfolding d by (simp_all add: nonempty_def total_bytes_def True)
    have "add_blocks args idx dpu_index max_nr (of_nat k) n m pool =
        add_blocks args idx dpu_index max_nr (of_nat (Suc k)) n m pool"
      using g below True by (subst add_blocks.simps) (simp add: add.commute)
    then show ?thesis
      using Suc.hyps(1) [of "Suc k" pool held m n] Suc.hyps(2) Suc.prems k(2) unfolding nd by simp
  next
    case False
    have nd: "nonempty (drop k bs) = (a, l) # nonempty (drop (Suc k) bs)"
      "total_bytes (drop k bs) = unat l + total_bytes (drop (Suc k) bs)"
      unfolding d by (simp_all add: nonempty_def total_bytes_def False)
    have n': "unat (n + l) = unat n + unat l"
      using Suc.prems(11) unfolding nd by (simp add: unat_word_ariths)
    have not_full: "\<not> (check_length args \<and> sg_length args \<le> ucast n)"
      using Suc.prems(12) False unat_gt_0 [of l] unfolding nd by (auto simp: word_le_nat_alt unat_ucast_u32_u64)
    let ?m = "m\<lparr>ptr := (ptr m)[idx := Some idx]\<rparr>"
    have suc: "(of_nat (Suc k) :: u32) = of_nat k + 1"
      by simp
    have m: "(if ptr m ! idx = None then ?m else m) = ?m"
    proof -
      have "m\<lparr>ptr := (ptr m)[idx := ptr m ! idx]\<rparr> = m"
        by simp
      then show ?thesis
        using Suc.prems(9) by (auto simp only: split: if_splits)
    qed
    let ?b = "pool ! idx"
    let ?b' = "?b\<lparr>blocks_addr := (blocks_addr ?b)[unat (nr_blocks ?b) := a],
      blocks_length := (blocks_length ?b)[unat (nr_blocks ?b) := l], nr_blocks := nr_blocks ?b + 1\<rparr>"
    have room: "length held < unat (max_nr_blocks ?b)"
      using Suc.prems(4,5) unfolding nd by simp
    then have "\<not> max_nr_blocks ?b \<le> nr_blocks ?b"
      using Suc.prems(3) by (simp add: holds_def word_le_nat_alt)
    then have add: "dpu_transfer_matrix_add_dpu_block idx ?m a l pool = Some (DPU_OK, pool[idx := ?b'])"
      using Suc.prems(7,8) by (simp add: dpu_transfer_matrix_add_dpu_block_def Let_def)
    have "add_blocks args idx dpu_index max_nr (of_nat k) n m pool =
        add_blocks args idx dpu_index max_nr (of_nat (Suc k)) (n + l) ?m (pool[idx := ?b'])"
      using g below False not_full Suc.prems(10) suc by (subst add_blocks.simps) (auto simp: m add Let_def simp del: of_nat_Suc)
    moreover have "holds ?b' (held @ [(a, l)])"
      using Suc.prems(3) room by (rule holds_add)
    moreover have "\<exists>b. add_blocks args idx dpu_index max_nr (of_nat (Suc k)) (n + l) ?m (pool[idx := ?b']) =
      Some (if check_length args \<and> unat (n + l) + total_bytes (drop (Suc k) bs) \<noteq> unat (sg_length args)
            then DPU_ERR_SG_LENGTH_MISMATCH else DPU_OK,
        ?m\<lparr>ptr := (ptr ?m)[idx := if nonempty (drop (Suc k) bs) = [] then ptr ?m ! idx else Some idx]\<rparr>,
        pool[idx := ?b', idx := b])
      \<and> holds b ((held @ [(a, l)]) @ nonempty (drop (Suc k) bs)) \<and> max_nr_blocks b = max_nr"
      using Suc.hyps(2) Suc.prems k(2) n' \<open>holds ?b' (held @ [(a, l)])\<close> unfolding nd
      by (intro Suc.hyps(1)) (simp_all del: of_nat_Suc)
    moreover have "?m\<lparr>ptr := (ptr ?m)[idx := if nonempty (drop (Suc k) bs) = [] then ptr ?m ! idx else Some idx]\<rparr>
        = m\<lparr>ptr := (ptr m)[idx := Some idx]\<rparr>"
      using Suc.prems(7) by simp
    ultimately show ?thesis
      unfolding nd n' by (simp add: add.assoc)
  qed
qed

text \<open>
  The premises on the blocks of a DPU: no more than its entry has room for, and as many bytes as the transfer when the check
  of the length is on.
\<close>

definition fits :: "sg_xfer_callback_args \<Rightarrow> (u64 \<times> u32) list \<Rightarrow> sg_xfer_buffer \<Rightarrow> bool" where
  "fits args bs b \<longleftrightarrow>
     length bs \<le> unat (max_nr_blocks b) \<and> total_bytes bs < 2 ^ 32 \<and> (check_length args \<longrightarrow> total_bytes bs = unat (sg_length args))"

lemma add_all_blocks_result:
  assumes "sg_xfer args \<noteq> DPU_XFER_UNKNOWN" "distinct (map snd visited)"
    and "\<forall>(i, idx) \<in> set visited. gives args i (bl i) \<and> fits args (bl i) (pool ! idx) \<and> holds (pool ! idx) []
           \<and> idx < length pool \<and> idx < length (ptr m) \<and> ptr m ! idx = None"
    and "tm_type m = DPU_SG_XFER_MATRIX"
  shows "\<exists>m' pool'. add_all_blocks args visited m pool = Some (DPU_OK, m', pool')
    \<and> length pool' = length pool \<and> length (ptr m') = length (ptr m)
    \<and> m' = m\<lparr>ptr := ptr m'\<rparr>
    \<and> (\<forall>idx. idx \<notin> snd ` set visited \<longrightarrow> ptr m' ! idx = ptr m ! idx \<and> pool' ! idx = pool ! idx)
    \<and> (\<forall>(i, idx) \<in> set visited. holds (pool' ! idx) (nonempty (bl i))
         \<and> ptr m' ! idx = (if nonempty (bl i) = [] then None else Some idx))"
  using assms(2-)
proof (induction visited arbitrary: m pool)
  case (Cons v visited)
  obtain i idx where v: "v = (i, idx)" by (cases v)
  let ?bs = "bl i"
  have p: "gives args i ?bs" "fits args ?bs (pool ! idx)" "holds (pool ! idx) []"
    "idx < length pool" "idx < length (ptr m)" "ptr m ! idx = None"
    using Cons.prems(2) v by auto
  have "length (nonempty ?bs) \<le> length ?bs"
    by (simp add: nonempty_def)
  then have "length (nonempty ?bs) \<le> unat (max_nr_blocks (pool ! idx))"
    using p(2) by (simp add: fits_def)
  then obtain b where b: "add_blocks args idx i (max_nr_blocks (pool ! idx)) 0 0 m pool =
      Some (DPU_OK, m\<lparr>ptr := (ptr m)[idx := if nonempty ?bs = [] then None else Some idx]\<rparr>, pool[idx := b])"
    "holds b (nonempty ?bs)"
    using add_blocks_appends [OF p(1), of 0 "max_nr_blocks (pool ! idx)" pool idx "[]" m 0] p assms(1) Cons.prems(3)
    by (auto simp: fits_def)
  let ?m = "m\<lparr>ptr := (ptr m)[idx := if nonempty ?bs = [] then None else Some idx]\<rparr>"
  let ?pool = "pool[idx := b]"
  have d: "idx \<notin> snd ` set visited" "distinct (map snd visited)"
    using Cons.prems(1) v by auto
  have "\<forall>(i, idx) \<in> set visited. gives args i (bl i) \<and> fits args (bl i) (?pool ! idx) \<and> holds (?pool ! idx) []
      \<and> idx < length ?pool \<and> idx < length (ptr ?m) \<and> ptr ?m ! idx = None"
  proof (clarify)
    fix j k assume jk: "(j, k) \<in> set visited"
    then have "k \<noteq> idx" using d(1) by force
    then show "gives args j (bl j) \<and> fits args (bl j) (?pool ! k) \<and> holds (?pool ! k) []
        \<and> k < length ?pool \<and> k < length (ptr ?m) \<and> ptr ?m ! k = None"
      using Cons.prems(2) jk by auto
  qed
  from Cons.IH [OF d(2) this] Cons.prems(3) obtain m' pool' where r:
    "add_all_blocks args visited ?m ?pool = Some (DPU_OK, m', pool')"
    "length pool' = length pool" "length (ptr m') = length (ptr m)" "m' = ?m\<lparr>ptr := ptr m'\<rparr>"
    "\<forall>k. k \<notin> snd ` set visited \<longrightarrow> ptr m' ! k = ptr ?m ! k \<and> pool' ! k = ?pool ! k"
    "\<forall>(i, idx) \<in> set visited. holds (pool' ! idx) (nonempty (bl i))
       \<and> ptr m' ! idx = (if nonempty (bl i) = [] then None else Some idx)"
    by auto
  have "m' = m\<lparr>ptr := ptr m'\<rparr>"
    using r(4) by simp
  moreover have "ptr m' ! k = ptr m ! k \<and> pool' ! k = pool ! k" if "k \<notin> snd ` set (v # visited)" for k
    using that r(5) v by auto
  moreover have "holds (pool' ! idx) (nonempty ?bs) \<and> ptr m' ! idx = (if nonempty ?bs = [] then None else Some idx)"
    using r(5) d(1) b(2) p(4,5) by simp
  ultimately show ?case
    using r b(1) v by auto
qed simp

text \<open>The handler on the blocks that fit: the transfer of the rank, and the pool that it leaves.\<close>

lemma reset_entry:
  assumes "idx < length pool"
  shows "reset_sg_buffer_pool visited pool ! idx =
    (if idx \<in> snd ` set visited then (pool ! idx)\<lparr>nr_blocks := 0\<rparr> else pool ! idx)"
  using assms
proof (induction visited arbitrary: pool)
  case (Cons v visited)
  obtain i k where v: "v = (i, k)" by (cases v)
  have "reset_sg_buffer_pool (v # visited) pool = reset_sg_buffer_pool visited (pool[k := (pool ! k)\<lparr>nr_blocks := 0\<rparr>])"
    by (simp add: reset_sg_buffer_pool_def v)
  then show ?case
    using Cons v by (cases "k = idx") auto
qed (simp add: reset_sg_buffer_pool_def)

definition sg_matrix :: "sg_xfer_callback_args \<Rightarrow> dpu_transfer_matrix" where
  "sg_matrix args = dpu_transfer_matrix_clear_all
     \<lparr>tm_type := DPU_SG_XFER_MATRIX, tm_size := ucast (sg_length args), tm_offset := sg_symbol_addr args AND NOT MRAM_MASK\<rparr>"

text \<open>
  C29: The scatter-gather transfer of a rank, from entries without blocks: when the callback gives every DPU blocks that fit,
  the handler does not dereference a null pointer, and it asks for the transfer of a matrix whose entries are exactly the
  non-empty blocks of each DPU, in order (no entry for a DPU without any), at the address and with the size of the call. It
  returns the status of the transfer, and when that is \<^verbatim>\<open>DPU_OK\<close> the entries hold no block any more.
\<close>

theorem sg_transfer_collects_blocks:
  assumes "sg_xfer args \<noteq> DPU_XFER_UNKNOWN" "distinct (map snd (sg_dpus (sg_rank s) off))"
    and "\<forall>(i, idx) \<in> set (sg_dpus (sg_rank s) off). gives args i (bl i) \<and> fits args (bl i) (sg_pool s ! idx)
           \<and> holds (sg_pool s ! idx) [] \<and> idx < 64"
    and "length (sg_pool s) = 64"
  shows "\<exists>m pool status rank. sg_xfer_rank_handler H P True off args s =
        Some (status, s\<lparr>sg_rank := rank,
          sg_pool := if status = DPU_OK then reset_sg_buffer_pool (sg_dpus (sg_rank s) off) pool else pool,
          sg_cb := if status = DPU_OK then free_cb_args (sg_cb s) else sg_cb s\<rparr>)
      \<and> (status, rank) = (if sg_xfer args = DPU_XFER_TO_DPU then dpu_copy_to_mrams (H pool) P m (sg_rank s)
                          else dpu_copy_from_mrams (H pool) P m (sg_rank s))
      \<and> m = (sg_matrix args)\<lparr>ptr := ptr m\<rparr>
      \<and> (\<forall>(i, idx) \<in> set (sg_dpus (sg_rank s) off). holds (pool ! idx) (nonempty (bl i))
           \<and> ptr m ! idx = (if nonempty (bl i) = [] then None else Some idx)
           \<and> holds (reset_sg_buffer_pool (sg_dpus (sg_rank s) off) pool ! idx) [])
      \<and> (\<forall>idx < 64. idx \<notin> snd ` set (sg_dpus (sg_rank s) off) \<longrightarrow> ptr m ! idx = None)"
proof -
  let ?v = "sg_dpus (sg_rank s) off"
  have "\<forall>(i, idx) \<in> set ?v. gives args i (bl i) \<and> fits args (bl i) (sg_pool s ! idx) \<and> holds (sg_pool s ! idx) []
      \<and> idx < length (sg_pool s) \<and> idx < length (ptr (sg_matrix args)) \<and> ptr (sg_matrix args) ! idx = None"
    using assms(3,4) by (auto simp: sg_matrix_def dpu_transfer_matrix_clear_all_def)
  moreover have "tm_type (sg_matrix args) = DPU_SG_XFER_MATRIX"
    by (simp add: sg_matrix_def)
  ultimately obtain m pool where r:
    "add_all_blocks args ?v (sg_matrix args) (sg_pool s) = Some (DPU_OK, m, pool)"
    "length pool = length (sg_pool s)" "m = (sg_matrix args)\<lparr>ptr := ptr m\<rparr>"
    "\<forall>idx. idx \<notin> snd ` set ?v \<longrightarrow> ptr m ! idx = ptr (sg_matrix args) ! idx"
    "\<forall>(i, idx) \<in> set ?v. holds (pool ! idx) (nonempty (bl i))
       \<and> ptr m ! idx = (if nonempty (bl i) = [] then None else Some idx)"
    using add_all_blocks_result [OF assms(1,2), of bl "sg_pool s" "sg_matrix args"] by blast
  obtain status rank where c: "(if sg_xfer args = DPU_XFER_TO_DPU then dpu_copy_to_mrams (H pool) P m (sg_rank s)
      else dpu_copy_from_mrams (H pool) P m (sg_rank s)) = (status, rank)"
    by fastforce
  have "sg_xfer_rank_handler H P True off args s = Some (status, s\<lparr>sg_rank := rank,
      sg_pool := if status = DPU_OK then reset_sg_buffer_pool ?v pool else pool,
      sg_cb := if status = DPU_OK then free_cb_args (sg_cb s) else sg_cb s\<rparr>)"
    using r(1) c assms(1) unfolding sg_matrix_def by (auto simp: sg_xfer_rank_handler_def Let_def)
  moreover have "\<forall>(i, idx) \<in> set ?v. holds (reset_sg_buffer_pool ?v pool ! idx) []"
  proof clarify
    fix i idx assume v: "(i, idx) \<in> set ?v"
    then have "idx \<in> snd ` set ?v" "idx < length pool"
      using assms(3,4) r(2) by force+
    then have "reset_sg_buffer_pool ?v pool ! idx = (pool ! idx)\<lparr>nr_blocks := 0\<rparr>"
      by (simp add: reset_entry)
    moreover have "holds (pool ! idx) (nonempty (bl i))"
      using r(5) v by blast
    ultimately show "holds (reset_sg_buffer_pool ?v pool ! idx) []"
      by (simp add: holds_def)
  qed
  moreover have "\<forall>idx < 64. idx \<notin> snd ` set ?v \<longrightarrow> ptr m ! idx = None"
    using r(4) by (auto simp: sg_matrix_def dpu_transfer_matrix_clear_all_def)
  ultimately show ?thesis
    using r(3,5) c by (intro exI [of _ m] exI [of _ pool] exI [of _ status] exI [of _ rank]) auto
qed

definition sim_args :: sg_xfer_callback_args where
  "sim_args = \<lparr>get_block = \<lambda>i k. if k = 0 then Some (100 + 16 * ucast i, 8) else None, sg_xfer = DPU_XFER_TO_DPU,
     sg_symbol_addr = 0x08000000, sg_length = 8, sg_flags = 0\<rparr>"

definition sim_sg :: "sim sg_state" where
  "sim_sg = \<lparr>sg_rank = sim_rank, sg_pool = sg_buffer_pool_create 2 (\<lambda>_. ([0, 0, 0], [0, 0, 0])), sg_cb = (1, False)\<rparr>"

lemma sim_sg_dpus: "sg_dpus (sg_rank sim_sg) 0 = [(0, 0), (1, 2), (2, 1)]"
  by (simp add: sg_dpus_def sim_sg_def enabled_from_def sim_rank_def sim_dpu_def transfer_matrix_index_def
      get_transfer_matrix_index_def upt_rec enumerate_eq_zip)

lemma sim_pool: "idx < 64 \<Longrightarrow> holds (sg_pool sim_sg ! idx) [] \<and> max_nr_blocks (sg_pool sim_sg ! idx) = 2"
  by (simp add: sim_sg_def sg_buffer_pool_create_def holds_def)

lemma sim_gives: "gives sim_args i [(100 + 16 * ucast i, 8)]"
  by (auto simp: gives_def sim_args_def le_Suc_eq)

theorem sg_transfer_collects_blocks_witness:
  "\<exists>(m :: dpu_transfer_matrix) pool status rank. sg_xfer_rank_handler (\<lambda>_. sim_handler) (\<lambda>_ r. (0, r)) True 0 sim_args sim_sg =
        Some (status, sim_sg\<lparr>sg_rank := rank,
          sg_pool := if status = DPU_OK then reset_sg_buffer_pool [(0, 0), (1, 2), (2, 1)] pool else pool,
          sg_cb := if status = DPU_OK then free_cb_args (1, False) else (1, False)\<rparr>)
      \<and> holds (pool ! 2) [(116, 8)] \<and> ptr m ! 2 = Some 2 \<and> ptr m ! 5 = None"
proof -
  have blocks: "\<forall>(i, idx) \<in> set (sg_dpus (sg_rank sim_sg) 0). gives sim_args i [(100 + 16 * ucast i, 8)]
      \<and> fits sim_args [(100 + 16 * ucast i, 8)] (sg_pool sim_sg ! idx) \<and> holds (sg_pool sim_sg ! idx) [] \<and> idx < 64"
    by (simp add: sim_sg_dpus sim_gives sim_pool fits_def total_bytes_def) (simp add: sim_args_def)
  have "length (sg_pool sim_sg) = 64" "sg_xfer sim_args \<noteq> DPU_XFER_UNKNOWN"
    "distinct (map snd (sg_dpus (sg_rank sim_sg) 0))"
    by (simp_all add: sim_sg_dpus) (simp_all add: sim_sg_def sg_buffer_pool_create_def sim_args_def)
  from sg_transfer_collects_blocks [OF this(2,3) blocks this(1), of "\<lambda>_. sim_handler" "\<lambda>_ r. (0, r)"]
  obtain m :: dpu_transfer_matrix and pool status rank where r:
    "sg_xfer_rank_handler (\<lambda>_. sim_handler) (\<lambda>_ r. (0, r)) True 0 sim_args sim_sg =
        Some (status, sim_sg\<lparr>sg_rank := rank,
          sg_pool := if status = DPU_OK then reset_sg_buffer_pool (sg_dpus (sg_rank sim_sg) 0) pool else pool,
          sg_cb := if status = DPU_OK then free_cb_args (sg_cb sim_sg) else sg_cb sim_sg\<rparr>)"
    "\<forall>(i, idx) \<in> set (sg_dpus (sg_rank sim_sg) 0). holds (pool ! idx) (nonempty [(100 + 16 * ucast i, 8)])
       \<and> ptr m ! idx = (if nonempty [(100 + 16 * ucast i, 8)] = [] then None else Some idx)
       \<and> holds (reset_sg_buffer_pool (sg_dpus (sg_rank sim_sg) 0) pool ! idx) []"
    "\<forall>idx < 64. idx \<notin> snd ` set (sg_dpus (sg_rank sim_sg) 0) \<longrightarrow> ptr m ! idx = None"
    by blast
  have "sg_cb sim_sg = (1, False)"
    by (simp add: sim_sg_def)
  with r show ?thesis
    unfolding sim_sg_dpus by (intro exI [of _ m] exI [of _ pool] exI [of _ status] exI [of _ rank]) (simp add: nonempty_def)
qed



end
