(* ===== verification/Xeon.thy ===== *)
theory Xeon
  imports ScatterGather
begin

text \<open>
  The Xeon mapping of the hardware backend (\<^verbatim>\<open>hw/src/mappings/xeon_sp/xeon_sp_translation.c\<close>): where the 64-bit words of the MRAMs
  of a rank lie in the region of the rank, the transfers between MRAMs and host buffers by a pool of threads, and the accesses
  to the control interfaces.

  Host buffers and the region, which is mapped at \<^verbatim>\<open>base_region_addr\<close>, are parts of one memory of bytes. A line is the 64 bytes
  that hold one word of the eight DPUs with the same index, one for each control interface. Flushes and fences order
  accesses of the processor and have no effect on this memory.
\<close>

section \<open>Addresses\<close>

definition BANK_START :: "u8 \<Rightarrow> u64" where
  "BANK_START d = 0x40000 * ucast (d mod 4) + (if d \<ge> 4 then 0x40 else 0)"

definition BANK_OFFSET_NEXT_DATA :: "u64 \<Rightarrow> u64" where
  "BANK_OFFSET_NEXT_DATA i = i * 16"

abbreviation (input) BANK_CHUNK_SIZE :: u64 where "BANK_CHUNK_SIZE \<equiv> 0x20000"
abbreviation (input) BANK_NEXT_CHUNK_OFFSET :: u64 where "BANK_NEXT_CHUNK_OFFSET \<equiv> 0x100000"

definition apply_address_translation_on_mram_offset :: "u32 \<Rightarrow> u32" where
  "apply_address_translation_on_mram_offset byte_offset =
     (let mask_21_to_15 = push_bit 15 (push_bit (21 - 15 + 1) 1 - 1);
          mask_21_to_14 = push_bit 14 (push_bit (21 - 14 + 1) 1 - 1);
          bits_21_to_15 = drop_bit 15 (byte_offset AND mask_21_to_15);
          bit_14 = drop_bit 14 byte_offset AND 1;
          unchanged_bits = byte_offset AND NOT mask_21_to_14
      in unchanged_bits OR push_bit 14 bits_21_to_15 OR push_bit 21 bit_14)"

text \<open>The offset of the line of word \<open>i\<close> of a transfer at \<open>offset\<close>, from the start of the bank of the DPU.\<close>

definition line_offset :: "u32 \<Rightarrow> u32 \<Rightarrow> u64" where
  "line_offset i offset =
     (let mram_64_bit_word_offset = apply_address_translation_on_mram_offset (i * 8 + offset) div 8;
          next_data = BANK_OFFSET_NEXT_DATA (ucast mram_64_bit_word_offset * 8)
      in (next_data mod BANK_CHUNK_SIZE) + (next_data div BANK_CHUNK_SIZE) * BANK_NEXT_CHUNK_OFFSET)"

section \<open>Transfers of a thread\<close>

text \<open>
  The state of a thread: the memory, the pool of scatter-gather buffers of the rank, and the line on its stack, which is not
  initialised and keeps the words of the previous line for the control interfaces without a buffer.
\<close>

record thread_state =
  mem :: "u64 \<Rightarrow> u8"
  sg_buffers :: "sg_xfer_buffer list"
  cache_line :: "u8 list"

definition set_word :: "nat \<Rightarrow> u8 list \<Rightarrow> u8 list \<Rightarrow> u8 list" where
  "set_word ci_id w line = take (8 * ci_id) line @ w @ drop (8 * ci_id + 8) line"

definition ptr_dest :: "u64 \<Rightarrow> nat \<Rightarrow> u64" where
  "ptr_dest base_region_addr d = base_region_addr + BANK_START (of_nat d)"

definition do_dpu_transfer :: "nat \<Rightarrow> dpu_transfer_matrix \<Rightarrow> nat \<Rightarrow> bool" where
  "do_dpu_transfer nb_cis xfer_matrix idx \<longleftrightarrow> list_ex (\<lambda>ci_id. ptr xfer_matrix ! (idx + ci_id) \<noteq> None) [0..<nb_cis]"

text \<open>The words of the host buffers that make the line of word \<open>i\<close>.\<close>

definition load_words :: "nat \<Rightarrow> dpu_transfer_matrix \<Rightarrow> nat \<Rightarrow> nat \<Rightarrow> (u64 \<Rightarrow> u8) \<Rightarrow> u8 list \<Rightarrow> u8 list" where
  "load_words nb_cis xfer_matrix idx i m line =
     foldl (\<lambda>line ci_id. case ptr xfer_matrix ! (idx + ci_id) of
              None \<Rightarrow> line
            | Some p \<Rightarrow> set_word ci_id (read_bytes m (of_nat p + 8 * of_nat i) 8) line) line [0..<nb_cis]"

definition write_line :: "u64 \<Rightarrow> nat \<Rightarrow> dpu_transfer_matrix \<Rightarrow> nat \<Rightarrow> thread_state \<Rightarrow> nat \<Rightarrow> thread_state" where
  "write_line base nb_cis xfer_matrix d s i =
     (let line = load_words nb_cis xfer_matrix (8 * d) i (mem s) (cache_line s)
      in s\<lparr>cache_line := line,
           mem := write_bytes (mem s) (ptr_dest base d + line_offset (of_nat i) (tm_offset xfer_matrix))
                    (byte_interleave_avx512 line)\<rparr>)"

text \<open>The iterators of the control interfaces of a line; initialising one pads the arrays of its buffer.\<close>

definition init_iterators ::
  "u64 \<Rightarrow> nat \<Rightarrow> dpu_transfer_matrix \<Rightarrow> nat \<Rightarrow> sg_xfer_buffer list \<Rightarrow> sg_xfer_buffer_iterator option list \<times> sg_xfer_buffer list" where
  "init_iterators zeros nb_cis xfer_matrix idx pool =
     foldl (\<lambda>(its, pool) ci_id. case ptr xfer_matrix ! (idx + ci_id) of
              None \<Rightarrow> (its @ [None], pool)
            | Some k \<Rightarrow> (case init_sg_xfer_buffer_iterator zeros (pool ! k) of
                (sg_it, sg_buff) \<Rightarrow> (its @ [Some sg_it], pool[k := sg_buff]))) ([], pool) [0..<nb_cis]"

definition sg_load_words ::
  "(u64 \<Rightarrow> u8) \<Rightarrow> sg_xfer_buffer_iterator option list \<Rightarrow> u8 list \<Rightarrow> sg_xfer_buffer_iterator option list \<times> u8 list" where
  "sg_load_words m its line =
     foldl (\<lambda>(its, line) ci_id. case its ! ci_id of
              None \<Rightarrow> (its, line)
            | Some sg_it \<Rightarrow> (case get_next_eight_bytes m sg_it of
                (w, sg_it) \<Rightarrow> (its[ci_id := Some sg_it], set_word ci_id w line))) (its, line) [0..<length its]"

definition sg_write_line ::
  "u64 \<Rightarrow> dpu_transfer_matrix \<Rightarrow> nat \<Rightarrow> sg_xfer_buffer_iterator option list \<times> thread_state \<Rightarrow> nat \<Rightarrow>
     sg_xfer_buffer_iterator option list \<times> thread_state" where
  "sg_write_line base xfer_matrix d st i =
     (case st of (its, s) \<Rightarrow> case sg_load_words (mem s) its (cache_line s) of
        (its, line) \<Rightarrow> (its,
          s\<lparr>cache_line := line,
            mem := write_bytes (mem s) (ptr_dest base d + line_offset (of_nat i) (tm_offset xfer_matrix))
                     (byte_interleave_avx512 line)\<rparr>))"

definition write_dpu :: "u64 \<Rightarrow> u64 \<Rightarrow> nat \<Rightarrow> dpu_transfer_matrix \<Rightarrow> thread_state \<Rightarrow> nat \<Rightarrow> thread_state" where
  "write_dpu zeros base nb_cis xfer_matrix s d =
     (if \<not> do_dpu_transfer nb_cis xfer_matrix (8 * d) then s
      else if tm_type xfer_matrix = DPU_SG_XFER_MATRIX
      then case init_iterators zeros nb_cis xfer_matrix (8 * d) (sg_buffers s) of
             (its, pool) \<Rightarrow>
               snd (foldl (sg_write_line base xfer_matrix d) (its, s\<lparr>sg_buffers := pool\<rparr>)
                 [0..<unat (tm_size xfer_matrix) div 8])
      else foldl (write_line base nb_cis xfer_matrix d) s [0..<unat (tm_size xfer_matrix) div 8])"

definition threads_write_to_rank ::
  "u64 \<Rightarrow> u64 \<Rightarrow> nat \<Rightarrow> dpu_transfer_matrix \<Rightarrow> nat \<Rightarrow> nat \<Rightarrow> thread_state \<Rightarrow> thread_state" where
  "threads_write_to_rank zeros base nb_cis xfer_matrix dpu_id_start dpu_id_stop s =
     (if tm_size xfer_matrix = 0 then s
      else foldl (write_dpu zeros base nb_cis xfer_matrix) s [dpu_id_start..<dpu_id_stop])"

text \<open>The other direction: a line is loaded and its words are stored to the buffers of its control interfaces.\<close>

definition store_words :: "nat \<Rightarrow> dpu_transfer_matrix \<Rightarrow> nat \<Rightarrow> nat \<Rightarrow> u8 list \<Rightarrow> (u64 \<Rightarrow> u8) \<Rightarrow> u64 \<Rightarrow> u8" where
  "store_words nb_cis xfer_matrix idx i line m =
     foldl (\<lambda>m ci_id. case ptr xfer_matrix ! (idx + ci_id) of
              None \<Rightarrow> m
            | Some p \<Rightarrow> write_bytes m (of_nat p + 8 * of_nat i) (elem 8 line ci_id)) m [0..<nb_cis]"

definition read_line :: "u64 \<Rightarrow> nat \<Rightarrow> dpu_transfer_matrix \<Rightarrow> nat \<Rightarrow> thread_state \<Rightarrow> nat \<Rightarrow> thread_state" where
  "read_line base nb_cis xfer_matrix d s i =
     (let line = read_bytes (mem s) (ptr_dest base d + line_offset (of_nat i) (tm_offset xfer_matrix)) 64
      in s\<lparr>cache_line := line,
           mem := store_words nb_cis xfer_matrix (8 * d) i (byte_interleave_avx2 line) (mem s)\<rparr>)"

definition sg_store_words ::
  "u8 list \<Rightarrow> sg_xfer_buffer_iterator option list \<Rightarrow> (u64 \<Rightarrow> u8) \<Rightarrow> sg_xfer_buffer_iterator option list \<times> (u64 \<Rightarrow> u8)" where
  "sg_store_words line its m =
     foldl (\<lambda>(its, m) ci_id. case its ! ci_id of
              None \<Rightarrow> (its, m)
            | Some sg_it \<Rightarrow> (case write_next_eight_bytes (elem 8 line ci_id) (m, sg_it) of
                (m, sg_it) \<Rightarrow> (its[ci_id := Some sg_it], m))) (its, m) [0..<length its]"

definition sg_read_line ::
  "u64 \<Rightarrow> dpu_transfer_matrix \<Rightarrow> nat \<Rightarrow> sg_xfer_buffer_iterator option list \<times> thread_state \<Rightarrow> nat \<Rightarrow>
     sg_xfer_buffer_iterator option list \<times> thread_state" where
  "sg_read_line base xfer_matrix d st i =
     (case st of (its, s) \<Rightarrow>
        let line = read_bytes (mem s) (ptr_dest base d + line_offset (of_nat i) (tm_offset xfer_matrix)) 64
        in case sg_store_words (byte_interleave_avx2 line) its (mem s) of
             (its, m) \<Rightarrow> (its, s\<lparr>cache_line := line, mem := m\<rparr>))"

definition read_dpu :: "u64 \<Rightarrow> u64 \<Rightarrow> nat \<Rightarrow> dpu_transfer_matrix \<Rightarrow> thread_state \<Rightarrow> nat \<Rightarrow> thread_state" where
  "read_dpu zeros base nb_cis xfer_matrix s d =
     (if \<not> do_dpu_transfer nb_cis xfer_matrix (8 * d) then s
      else if tm_type xfer_matrix = DPU_SG_XFER_MATRIX
      then case init_iterators zeros nb_cis xfer_matrix (8 * d) (sg_buffers s) of
             (its, pool) \<Rightarrow>
               snd (foldl (sg_read_line base xfer_matrix d) (its, s\<lparr>sg_buffers := pool\<rparr>)
                 [0..<unat (tm_size xfer_matrix) div 8])
      else foldl (read_line base nb_cis xfer_matrix d) s [0..<unat (tm_size xfer_matrix) div 8])"

definition threads_read_from_rank ::
  "u64 \<Rightarrow> u64 \<Rightarrow> nat \<Rightarrow> dpu_transfer_matrix \<Rightarrow> nat \<Rightarrow> nat \<Rightarrow> thread_state \<Rightarrow> thread_state" where
  "threads_read_from_rank zeros base nb_cis xfer_matrix dpu_id_start dpu_id_stop s =
     (if tm_size xfer_matrix = 0 then s
      else foldl (read_dpu zeros base nb_cis xfer_matrix) s [dpu_id_start..<dpu_id_stop])"

section \<open>The pools of threads\<close>

record dpu_transfer_thread_configuration =
  nb_thread_per_pool :: u32
  threshold_1_thread :: u32
  threshold_2_threads :: u32
  threshold_4_threads :: u32

text \<open>Of \<^verbatim>\<open>struct dpu_region_address_translation\<close>: the topology, the configuration of the threads and the flag of the reads.\<close>

record dpu_region_address_translation =
  tr_nb_cis :: u8
  tr_nb_dpus_per_ci :: u8
  xfer_thread_conf :: dpu_transfer_thread_configuration
  one_read :: bool

text \<open>A pool, with the identifiers of the threads that have been created and wait at its barrier.\<close>

record xeon_sp_private =
  nb_dpus_per_ci :: u8
  nb_threads_for_xfer :: u8
  nb_threads :: u8
  waiting :: "u8 list"

abbreviation (input) MAX_THREAD_PER_POOL :: u32 where "MAX_THREAD_PER_POOL \<equiv> 8"
abbreviation (input) MAX_NB_CHANNEL :: nat where "MAX_NB_CHANNEL \<equiv> 31"
abbreviation (input) DPU_XFER_THREAD_CONF_DEFAULT :: u32 where "DPU_XFER_THREAD_CONF_DEFAULT \<equiv> 0xFFFFFFFF"

datatype thread_mram_xfer = thread_mram_xfer_read | thread_mram_xfer_write

definition thread_do_mram_xfer ::
  "u64 \<Rightarrow> u64 \<Rightarrow> dpu_region_address_translation \<Rightarrow> thread_mram_xfer \<Rightarrow> dpu_transfer_matrix \<Rightarrow> xeon_sp_private \<Rightarrow> u8 \<Rightarrow>
     thread_state \<Rightarrow> thread_state" where
  "thread_do_mram_xfer zeros base tr direction xfer_matrix pool thread_id s =
     (if \<not> nb_threads_for_xfer pool > thread_id then s
      else let nb_dpus_per_thread = nb_dpus_per_ci pool div nb_threads_for_xfer pool;
               dpu_id_start = thread_id * nb_dpus_per_thread;
               dpu_id_stop = (if thread_id = nb_threads_for_xfer pool - 1 then nb_dpus_per_ci pool
                              else (thread_id + 1) * nb_dpus_per_thread)
           in (if direction = thread_mram_xfer_read then threads_read_from_rank else threads_write_to_rank)
                zeros base (unat (tr_nb_cis tr)) xfer_matrix (unat dpu_id_start) (unat dpu_id_stop) s)"

definition nb_threads_of_size :: "dpu_transfer_thread_configuration \<Rightarrow> u32 \<Rightarrow> u8" where
  "nb_threads_of_size conf size_transfer =
     (if size_transfer < threshold_1_thread conf then 1
      else if size_transfer < threshold_2_threads conf \<and> nb_thread_per_pool conf \<ge> 2 then 2
      else if size_transfer < threshold_4_threads conf \<and> nb_thread_per_pool conf \<ge> 4 then 4
      else ucast (nb_thread_per_pool conf))"

text \<open>
  A transfer: between the two passages of the barrier every thread of the pool does its part once, with a line of its own on
  its stack (\<open>stacks\<close> gives the contents that it finds there). The threads are taken in the order \<open>order\<close>.
\<close>

definition thread_step ::
  "u64 \<Rightarrow> (u8 \<Rightarrow> u8 list) \<Rightarrow> dpu_region_address_translation \<Rightarrow> u64 \<Rightarrow> dpu_transfer_matrix \<Rightarrow> thread_mram_xfer \<Rightarrow> xeon_sp_private \<Rightarrow>
     (u64 \<Rightarrow> u8) \<times> sg_xfer_buffer list \<Rightarrow> u8 \<Rightarrow> (u64 \<Rightarrow> u8) \<times> sg_xfer_buffer list" where
  "thread_step zeros stacks tr base xfer_matrix direction pool st thread_id =
     (let s = thread_do_mram_xfer zeros base tr direction xfer_matrix pool thread_id
                \<lparr>mem = fst st, sg_buffers = snd st, cache_line = stacks thread_id\<rparr>
      in (mem s, sg_buffers s))"

definition xeon_sp_init_and_do_xfer ::
  "u64 \<Rightarrow> u8 list \<Rightarrow> (u8 \<Rightarrow> u8 list) \<Rightarrow> dpu_region_address_translation \<Rightarrow> u64 \<Rightarrow> dpu_transfer_matrix \<Rightarrow> thread_mram_xfer \<Rightarrow>
     xeon_sp_private \<times> (u64 \<Rightarrow> u8) \<times> sg_xfer_buffer list \<Rightarrow> xeon_sp_private \<times> (u64 \<Rightarrow> u8) \<times> sg_xfer_buffer list" where
  "xeon_sp_init_and_do_xfer zeros order stacks tr base xfer_matrix direction st =
     (case st of (pool, s) \<Rightarrow>
        let pool = pool\<lparr>nb_threads_for_xfer := nb_threads_of_size (xfer_thread_conf tr) (tm_size xfer_matrix)\<rparr>
        in (pool, foldl (thread_step zeros stacks tr base xfer_matrix direction pool) s order))"

section \<open>The context of the backend\<close>

text \<open>\<open>None\<close> stands for an access outside of one of the arrays of the context.\<close>

record xeon_sp_ctx =
  pools :: "xeon_sp_private list"
  nb_region_per_channel :: "u32 list"

definition channel_id_to_pool_id :: "u8 \<Rightarrow> nat" where
  "channel_id_to_pool_id channel_id = (if channel_id = 0xFF then MAX_NB_CHANNEL - 1 else unat channel_id)"

text \<open>The mutex that \<^verbatim>\<open>xeon_sp_acquire_pool\<close> takes and \<^verbatim>\<open>xeon_sp_release_pool\<close> gives back, and the pool that it returns.\<close>

definition xeon_sp_acquire_pool :: "u8 \<Rightarrow> nat \<times> nat" where
  "xeon_sp_acquire_pool channel_id =
     (if unat channel_id < MAX_NB_CHANNEL then unat channel_id else MAX_NB_CHANNEL - 1, channel_id_to_pool_id channel_id)"

definition xeon_sp_xfer_rank ::
  "u64 \<Rightarrow> u8 list \<Rightarrow> (u8 \<Rightarrow> u8 list) \<Rightarrow> dpu_region_address_translation \<Rightarrow> u64 \<Rightarrow> u8 \<Rightarrow> dpu_transfer_matrix \<Rightarrow> thread_mram_xfer \<Rightarrow>
     xeon_sp_ctx \<times> (u64 \<Rightarrow> u8) \<times> sg_xfer_buffer list \<Rightarrow> (xeon_sp_ctx \<times> (u64 \<Rightarrow> u8) \<times> sg_xfer_buffer list) option" where
  "xeon_sp_xfer_rank zeros order stacks tr base channel_id xfer_matrix direction st =
     (case st of (ctx, m, bufs) \<Rightarrow>
        let pool_id = snd (xeon_sp_acquire_pool channel_id)
        in if pool_id < length (pools ctx)
           then case xeon_sp_init_and_do_xfer zeros order stacks tr base xfer_matrix direction (pools ctx ! pool_id, m, bufs) of
                  (pool, m, bufs) \<Rightarrow> Some (ctx\<lparr>pools := (pools ctx)[pool_id := pool]\<rparr>, m, bufs)
           else None)"

definition xeon_sp_write_to_rank where
  "xeon_sp_write_to_rank zeros order stacks tr base channel_id xfer_matrix st =
     xeon_sp_xfer_rank zeros order stacks tr base channel_id xfer_matrix thread_mram_xfer_write st"

definition xeon_sp_read_from_rank where
  "xeon_sp_read_from_rank zeros order stacks tr base channel_id xfer_matrix st =
     xeon_sp_xfer_rank zeros order stacks tr base channel_id xfer_matrix thread_mram_xfer_read st"

text \<open>The default configuration is the same on every processor that the code knows.\<close>

definition default_xfer_thread_configuration :: dpu_transfer_thread_configuration where
  "default_xfer_thread_configuration = \<lparr>nb_thread_per_pool = 4, threshold_1_thread = 1024, threshold_2_threads = 2048,
     threshold_4_threads = 32 * 1024\<rparr>"

definition xeon_sp_set_configuration :: "dpu_transfer_thread_configuration \<Rightarrow> dpu_transfer_thread_configuration" where
  "xeon_sp_set_configuration conf =
     (let default = default_xfer_thread_configuration;
          conf = (if nb_thread_per_pool conf = DPU_XFER_THREAD_CONF_DEFAULT
                  then conf\<lparr>nb_thread_per_pool := nb_thread_per_pool default\<rparr>
                  else if nb_thread_per_pool conf > MAX_THREAD_PER_POOL
                  then conf\<lparr>nb_thread_per_pool := MAX_THREAD_PER_POOL\<rparr> else conf);
          conf = (if threshold_1_thread conf = DPU_XFER_THREAD_CONF_DEFAULT
                  then conf\<lparr>threshold_1_thread := threshold_1_thread default\<rparr> else conf);
          conf = (if threshold_2_threads conf = DPU_XFER_THREAD_CONF_DEFAULT
                  then conf\<lparr>threshold_2_threads := threshold_2_threads default\<rparr> else conf)
      in if threshold_4_threads conf = DPU_XFER_THREAD_CONF_DEFAULT
         then conf\<lparr>threshold_4_threads := threshold_4_threads default\<rparr> else conf)"

text \<open>The creation of the threads of a pool, until \<^verbatim>\<open>pthread_create\<close> fails (\<open>create\<close> gives its result for each thread).\<close>

fun create_threads :: "(u8 \<Rightarrow> nat) \<Rightarrow> u8 list \<Rightarrow> u8 list \<Rightarrow> nat \<times> u8 list" where
  "create_threads create [] created = (0, created)"
| "create_threads create (t # ts) created =
     (if create t \<noteq> 0 then (create t, created) else create_threads create ts (created @ [t]))"

definition thread_ids :: "u8 \<Rightarrow> u8 list" where
  "thread_ids n = map of_nat [0..<unat n]"

definition xeon_sp_init_rank ::
  "nat \<Rightarrow> (u8 \<Rightarrow> nat) \<Rightarrow> u8 \<Rightarrow> dpu_region_address_translation \<times> xeon_sp_ctx \<Rightarrow>
     (nat \<times> dpu_region_address_translation \<times> xeon_sp_ctx) option" where
  "xeon_sp_init_rank barrier create channel_id st =
     (case st of (tr, ctx) \<Rightarrow>
        let conf = xeon_sp_set_configuration (xfer_thread_conf tr);
            tr = tr\<lparr>xfer_thread_conf := conf\<rparr>;
            channel_id = (if unat channel_id > MAX_NB_CHANNEL then of_nat (MAX_NB_CHANNEL - 1) else channel_id);
            c = unat channel_id
        in if \<not> c < length (nb_region_per_channel ctx) then None
           else let n = nb_region_per_channel ctx ! c;
                    ctx = ctx\<lparr>nb_region_per_channel := (nb_region_per_channel ctx)[c := n + 1]\<rparr>;
                    undo = ctx\<lparr>nb_region_per_channel := (nb_region_per_channel ctx)[c := n + 1 - 1]\<rparr>
                in if n > 0 then Some (0, tr, ctx)
                   else let pool_id = channel_id_to_pool_id channel_id;
                            pool = (pools ctx ! pool_id)\<lparr>nb_dpus_per_ci := tr_nb_dpus_per_ci tr,
                                                         nb_threads := ucast (nb_thread_per_pool conf)\<rparr>
                        in if barrier \<noteq> 0 then Some (barrier, tr, undo\<lparr>pools := (pools ctx)[pool_id := pool]\<rparr>)
                           else case create_threads create (thread_ids (nb_threads pool)) (waiting pool) of
                                  (ret, created) \<Rightarrow>
                                    let ps = (pools ctx)[pool_id := pool\<lparr>waiting := created\<rparr>]
                                    in Some (ret, tr, if ret \<noteq> 0 then undo\<lparr>pools := ps\<rparr> else ctx\<lparr>pools := ps\<rparr>))"

definition xeon_sp_destroy_rank ::
  "u8 \<Rightarrow> dpu_region_address_translation \<times> xeon_sp_ctx \<Rightarrow> (dpu_region_address_translation \<times> xeon_sp_ctx) option" where
  "xeon_sp_destroy_rank channel_id st =
     (case st of (tr, ctx) \<Rightarrow>
        let channel_id = (if unat channel_id > MAX_NB_CHANNEL then of_nat (MAX_NB_CHANNEL - 1) else channel_id);
            tr = tr\<lparr>xfer_thread_conf := xeon_sp_set_configuration (xfer_thread_conf tr)\<rparr>;
            c = unat channel_id
        in if \<not> c < length (nb_region_per_channel ctx) then None
           else let n = nb_region_per_channel ctx ! c - 1;
                    ctx = ctx\<lparr>nb_region_per_channel := (nb_region_per_channel ctx)[c := n]\<rparr>
                in if n \<noteq> 0 then Some (tr, ctx)
                   else let pool_id = channel_id_to_pool_id channel_id;
                            pool = pools ctx ! pool_id
                        in Some (tr, ctx\<lparr>pools := (pools ctx)[pool_id := pool\<lparr>waiting :=
                             filter (\<lambda>t. t \<notin> set (thread_ids (nb_threads pool))) (waiting pool)\<rparr>]\<rparr>))"

section \<open>The control interfaces\<close>

text \<open>
  Commands are written at an offset of the region, results are read from another one, where the hardware answers: \<open>load\<close> is one
  load of the 64 bytes there, which may change the state \<open>'h\<close> of the hardware.
\<close>

definition xeon_sp_write_to_cis ::
  "u64 \<Rightarrow> u8 list \<Rightarrow> dpu_region_address_translation \<times> (u64 \<Rightarrow> u8) \<Rightarrow> dpu_region_address_translation \<times> (u64 \<Rightarrow> u8)" where
  "xeon_sp_write_to_cis base block_data st =
     (case st of (tr, m) \<Rightarrow>
        (tr\<lparr>one_read := False\<rparr>, write_bytes m (base + 0x20000) (byte_interleave_avx512 block_data)))"

fun load_lines :: "('h \<Rightarrow> u8 list \<times> 'h) \<Rightarrow> nat \<Rightarrow> u8 list \<Rightarrow> 'h \<Rightarrow> u8 list \<times> 'h" where
  "load_lines load 0 input h = (input, h)"
| "load_lines load (Suc n) input h = (case load h of (input, h) \<Rightarrow> load_lines load n input h)"

definition xeon_sp_read_from_cis ::
  "('h \<Rightarrow> u8 list \<times> 'h) \<Rightarrow> u8 list \<Rightarrow> dpu_region_address_translation \<times> 'h \<Rightarrow> u8 list \<times> dpu_region_address_translation \<times> 'h" where
  "xeon_sp_read_from_cis load input st =
     (case st of (tr, h) \<Rightarrow>
        let nb_reads = (if one_read tr then 3 - 1 else 3)
        in case load_lines load nb_reads input h of
             (input, h) \<Rightarrow> (byte_interleave_avx512 input, tr\<lparr>one_read := True\<rparr>, h))"

section \<open>Where the words lie\<close>

text \<open>The inverse permutation of the address bits.\<close>

definition translation_inverse :: "u32 \<Rightarrow> u32" where
  "translation_inverse x =
     (x AND NOT (push_bit 14 (mask 8))) OR push_bit 15 (drop_bit 14 x AND mask 7) OR push_bit 14 (drop_bit 21 x AND 1)"

lemma translation_masks:
  "push_bit (21 - 15 + 1) 1 - 1 = (mask 7 :: u32)" "push_bit (21 - 14 + 1) 1 - 1 = (mask 8 :: u32)"
  by (simp_all add: mask_eq_exp_minus_1 push_bit_eq_mult)

lemma bit_constants: "bit (2097152 :: int) n \<longleftrightarrow> n = 21" "bit (16384 :: int) n \<longleftrightarrow> n = 14"
  using bit_exp_iff [where 'a = int, of 21 n] bit_exp_iff [where 'a = int, of 14 n] by simp_all

lemma bit_translation:
  "bit (apply_address_translation_on_mram_offset x) n \<longleftrightarrow>
     n < 32 \<and> (if n < 14 \<or> 22 \<le> n then bit x n else if n = 21 then bit x 14 else bit x (n + 1))"
  unfolding apply_address_translation_on_mram_offset_def Let_def translation_masks
  by (auto simp: bit_simps bit_constants)

lemma bit_translation_inverse:
  "bit (translation_inverse x) n \<longleftrightarrow>
     n < 32 \<and> (if n < 14 \<or> 22 \<le> n then bit x n else if n = 14 then bit x 21 else bit x (n - 1))"
  unfolding translation_inverse_def by (auto simp: bit_simps bit_constants)

lemma translation_roundtrip:
  "translation_inverse (apply_address_translation_on_mram_offset x) = x"
  "apply_address_translation_on_mram_offset (translation_inverse x) = x"
  by (rule bit_word_eqI; auto simp: bit_translation bit_translation_inverse)+

lemma less_exp_iff_bits: "unat (x :: u32) < 2 ^ k \<longleftrightarrow> (\<forall>n. bit x n \<longrightarrow> n < k)"
proof -
  have "unat x < 2 ^ k \<longleftrightarrow> take_bit k x = x"
    by (metis take_bit_nat_eq_self_iff unsigned_take_bit_eq word_unat_eq_iff)
  also have "\<dots> \<longleftrightarrow> (\<forall>n. bit x n \<longrightarrow> n < k)"
  proof -
    have "bit x n \<Longrightarrow> n < 32" for n
      using bit_imp_le_length [of x n] by simp
    then show ?thesis
      by (auto simp: bit_eq_iff bit_take_bit_iff)
  qed
  finally show ?thesis .
qed

lemma translation_bound:
  "unat x < 2 ^ 26 \<Longrightarrow> unat (apply_address_translation_on_mram_offset x) < 2 ^ 26"
  unfolding less_exp_iff_bits by (auto simp: bit_translation split: if_splits)

lemma translation_aligned:
  "unat (apply_address_translation_on_mram_offset x) mod 8 = unat x mod 8"
proof -
  have "take_bit 3 (apply_address_translation_on_mram_offset x) = take_bit 3 x"
    by (rule bit_word_eqI) (auto simp: bit_take_bit_iff bit_translation)
  then have "take_bit 3 (unat (apply_address_translation_on_mram_offset x)) = take_bit 3 (unat x)"
    by (metis unsigned_take_bit_eq)
  then show ?thesis
    by (simp add: take_bit_eq_mod)
qed

text \<open>The index of the word of a byte address of MRAM, after the translation, and the position of its line in the region.\<close>

definition word_index :: "u32 \<Rightarrow> nat" where
  "word_index x = unat (apply_address_translation_on_mram_offset x) div 8"

definition line_pos :: "nat \<Rightarrow> nat \<Rightarrow> nat" where
  "line_pos d w = 64 * (((w div 1024 * 4 + d mod 4) * 2048 + w mod 1024) * 2 + d div 4)"

lemma word_index_bound: "unat x < 2 ^ 26 \<Longrightarrow> word_index x < 2 ^ 23"
  using translation_bound [of x] unfolding word_index_def by (intro less_mult_imp_div_less) simp

lemma word_index_inj:
  assumes "word_index x = word_index y" "unat x mod 8 = 0" "unat y mod 8 = 0"
  shows "x = y"
proof -
  have "unat (apply_address_translation_on_mram_offset x) = unat (apply_address_translation_on_mram_offset y)"
    using assms translation_aligned [of x] translation_aligned [of y] unfolding word_index_def
    by (metis mod_mult_div_eq add_0)
  then show ?thesis
    by (metis translation_roundtrip(1) word_unat_eq_iff)
qed

lemma digits_eq:
  fixes a a' b b' n :: nat
  assumes "a * n + b = a' * n + b'" "b < n" "b' < n"
  shows "a = a' \<and> b = b'"
proof -
  have "(a * n + b) div n = a" "(a' * n + b') div n = a'" "(a * n + b) mod n = b" "(a' * n + b') mod n = b'"
    using assms(2,3) by simp_all
  then show ?thesis
    using assms(1) by simp
qed

lemma line_pos_inj:
  assumes "line_pos d w = line_pos d' w'" "d < 8" "d' < 8"
  shows "d = d' \<and> w = w'"
proof -
  have c: "w mod 1024 < 2048" "w' mod 1024 < 2048"
    using mod_less_divisor [of 1024 w] mod_less_divisor [of 1024 w'] by linarith+
  have b: "d div 4 < 2" "d' div 4 < 2"
    using assms(2,3) by auto
  from assms(1) have "((w div 1024 * 4 + d mod 4) * 2048 + w mod 1024) * 2 + d div 4
      = ((w' div 1024 * 4 + d' mod 4) * 2048 + w' mod 1024) * 2 + d' div 4"
    unfolding line_pos_def by (simp only: mult_cancel1) simp
  from digits_eq [OF this b] have eq1: "d div 4 = d' div 4"
    "(w div 1024 * 4 + d mod 4) * 2048 + w mod 1024 = (w' div 1024 * 4 + d' mod 4) * 2048 + w' mod 1024"
    by blast+
  from digits_eq [OF this(2) c] have eq2: "w mod 1024 = w' mod 1024"
    "w div 1024 * 4 + d mod 4 = w' div 1024 * 4 + d' mod 4"
    by blast+
  from digits_eq [OF this(2)] have "w div 1024 = w' div 1024" "d mod 4 = d' mod 4"
    by simp_all
  with eq1(1) eq2(1) show ?thesis
    by (metis div_mult_mod_eq)
qed

lemma line_pos_bound:
  assumes "w < 2 ^ 23" "d < 8"
  shows "line_pos d w + 64 \<le> 2 ^ 33"
proof -
  have "w div 1024 < 8192"
    using assms(1) by (intro less_mult_imp_div_less) simp
  moreover have "d mod 4 < 4" "w mod 1024 < 1024" "d div 4 \<le> 1"
    using assms(2) by auto
  ultimately show ?thesis
    unfolding line_pos_def by simp
qed

text \<open>The lines are outside of the addresses \<open>0x20000\<close> to \<open>0x3ffff\<close> of the region, where the control interfaces are.\<close>

lemma line_pos_outside_ci:
  assumes "d < 8"
  shows "line_pos d w + 64 \<le> 0x20000 \<or> 0x40000 \<le> line_pos d w"
proof -
  have "w mod 1024 < 1024" "d div 4 \<le> 1"
    using assms by auto
  then show ?thesis
    unfolding line_pos_def by (cases "w div 1024 * 4 + d mod 4") auto
qed

lemma bank_start_nat: "d < 8 \<Longrightarrow> BANK_START (of_nat d) = of_nat (d mod 4 * 0x40000 + d div 4 * 64)"
proof -
  assume "d < 8"
  then have "d = 0 \<or> d = 1 \<or> d = 2 \<or> d = 3 \<or> d = 4 \<or> d = 5 \<or> d = 6 \<or> d = 7"
    by arith
  then show ?thesis
    by (elim disjE) (simp_all add: BANK_START_def word_le_nat_alt)
qed

lemma line_offset_nat:
  assumes "unat (i * 8 + offset) < 2 ^ 26"
  shows "line_offset i offset =
    of_nat (word_index (i * 8 + offset) mod 1024 * 128 + word_index (i * 8 + offset) div 1024 * 0x100000)"
proof -
  let ?t = "apply_address_translation_on_mram_offset (i * 8 + offset) div 8"
  define w where "w = word_index (i * 8 + offset)"
  have w: "w < 2 ^ 23"
    using word_index_bound [OF assms] by (simp add: w_def)
  have "unat ?t = w"
    by (simp add: w_def word_index_def unat_div)
  moreover have "(ucast ?t :: u64) = of_nat (unat ?t)"
    by simp
  ultimately have "(ucast ?t :: u64) = of_nat w"
    by metis
  then have nd: "BANK_OFFSET_NEXT_DATA (ucast ?t * 8) = of_nat (w * 128)"
    by (simp add: BANK_OFFSET_NEXT_DATA_def)
  have u: "unat (of_nat (w * 128) :: u64) = w * 128"
    using w by (simp add: unat_of_nat del: of_nat_mult)
  have "(of_nat (w * 128) :: u64) mod 0x20000 = of_nat (w * 128 mod 0x20000)"
    unfolding word_unat_eq_iff unat_mod u by (simp add: unat_of_nat)
  moreover have "(of_nat (w * 128) :: u64) div 0x20000 = of_nat (w * 128 div 0x20000)"
    unfolding word_unat_eq_iff unat_div u using w by (simp add: unat_of_nat)
  moreover have "w * 128 mod 0x20000 = w mod 1024 * 128" "w * 128 div 0x20000 = w div 1024"
    using mod_mult_mult2 [of w 128 1024] div_mult_mult2 [of 128 w 1024] by simp_all
  ultimately show ?thesis
    unfolding line_offset_def Let_def nd w_def [symmetric] by simp
qed

lemma line_address:
  assumes "unat (i * 8 + offset) < 2 ^ 26" "d < 8"
  shows "ptr_dest base d + line_offset i offset = base + of_nat (line_pos d (word_index (i * 8 + offset)))"
proof -
  define q r where "q = word_index (i * 8 + offset) div 1024" and "r = word_index (i * 8 + offset) mod 1024"
  have "line_pos d (word_index (i * 8 + offset)) = d mod 4 * 0x40000 + d div 4 * 64 + (r * 128 + q * 0x100000)"
    by (simp add: line_pos_def q_def r_def)
  then show ?thesis
    unfolding ptr_dest_def bank_start_nat [OF assms(2)] line_offset_nat [OF assms(1)] q_def [symmetric] r_def [symmetric]
    by (simp only: of_nat_add add.assoc)
qed

definition line_addr :: "u64 \<Rightarrow> nat \<Rightarrow> u32 \<Rightarrow> u64" where
  "line_addr base d x = base + of_nat (line_pos d (word_index x))"

text \<open>A word of MRAM: an address within the 64 megabytes, a multiple of eight.\<close>

definition word_addr :: "u32 \<Rightarrow> bool" where
  "word_addr x \<longleftrightarrow> unat x < 2 ^ 26 \<and> unat x mod 8 = 0"

lemma line_in_region: "word_addr x \<Longrightarrow> d < 8 \<Longrightarrow> line_pos d (word_index x) + 64 \<le> 2 ^ 33"
  unfolding word_addr_def by (rule line_pos_bound [OF word_index_bound]) blast+

lemma line_addr_disjoint:
  assumes "word_addr x" "word_addr y" "d < 8" "d' < 8" "(d, x) \<noteq> (d', y)"
  shows "disjoint_ranges (line_addr base d x) 64 (line_addr base d' y) 64"
proof -
  have "line_pos d (word_index x) \<noteq> line_pos d' (word_index y)"
  proof
    assume "line_pos d (word_index x) = line_pos d' (word_index y)"
    from line_pos_inj [OF this assms(3,4)] have "d = d'" "word_index x = word_index y"
      by simp_all
    then show False
      using word_index_inj [of x y] assms(1,2,5) by (simp add: word_addr_def)
  qed
  moreover obtain a b where "line_pos d (word_index x) = 64 * a" "line_pos d' (word_index y) = 64 * b"
    unfolding line_pos_def by blast
  ultimately have "line_pos d (word_index x) + 64 \<le> line_pos d' (word_index y)
      \<or> line_pos d' (word_index y) + 64 \<le> line_pos d (word_index x)"
    by simp linarith
  moreover have "line_pos d (word_index x) + 64 \<le> 2 ^ 33" "line_pos d' (word_index y) + 64 \<le> 2 ^ 33"
    using assms by (simp_all only: line_in_region)
  ultimately show ?thesis
    unfolding line_addr_def by (intro disjoint_ranges_offsets) simp_all
qed

lemma line_addr_in_region:
  assumes "word_addr x" "d < 8" "in_range (line_addr base d x) 64 a"
  shows "in_range base (2 ^ 33) a"
proof -
  let ?p = "line_pos d (word_index x)"
  have b: "?p + 64 \<le> 2 ^ 33"
    using assms(1,2) by (rule line_in_region)
  then have "unat (a - (base + of_nat ?p)) = (if ?p \<le> unat (a - base) then unat (a - base) - ?p else 2 ^ 64 + unat (a - base) - ?p)"
    using unat_minus_add [of ?p a base] by simp
  then show ?thesis
    using assms(3) b unfolding line_addr_def in_range_def by (auto split: if_splits)
qed



section \<open>Lines and words\<close>

lemma elem_set_word:
  assumes "length line = 64" "length w = 8" "ci < 8" "k < 8"
  shows "elem 8 (set_word ci w line) k = (if k = ci then w else elem 8 line k)"
proof (rule nth_equalityI)
  have len: "length (set_word ci w line) = 64"
    using assms by (simp add: set_word_def)
  then show "length (elem 8 (set_word ci w line) k) = length (if k = ci then w else elem 8 line k)"
    using assms by (simp add: elem_def)
  fix j assume "j < length (elem 8 (set_word ci w line) k)"
  then have "j < 8" by (simp add: elem_def)
  then show "elem 8 (set_word ci w line) k ! j = (if k = ci then w else elem 8 line k) ! j"
    using assms len by (cases k ci rule: linorder_cases) (simp_all add: elem_def set_word_def nth_append)
qed

lemma length_set_word: "length line = 64 \<Longrightarrow> length w = 8 \<Longrightarrow> ci < 8 \<Longrightarrow> length (set_word ci w line) = 64"
  by (simp add: set_word_def)

lemma load_words_spec:
  assumes "length line = 64" "nb_cis \<le> 8"
  shows "length (load_words nb_cis xm idx i m line) = 64
    \<and> (\<forall>k < 8. elem 8 (load_words nb_cis xm idx i m line) k =
         (case (if k < nb_cis then ptr xm ! (idx + k) else None) of
            None \<Rightarrow> elem 8 line k
          | Some p \<Rightarrow> read_bytes m (of_nat p + 8 * of_nat i) 8))"
  using assms(2)
proof (induction nb_cis)
  case (Suc n)
  let ?l = "load_words n xm idx i m line"
  have IH: "length ?l = 64" "\<forall>k < 8. elem 8 ?l k = (case (if k < n then ptr xm ! (idx + k) else None) of
      None \<Rightarrow> elem 8 line k | Some p \<Rightarrow> read_bytes m (of_nat p + 8 * of_nat i) 8)"
    using Suc by auto
  have step: "load_words (Suc n) xm idx i m line = (case ptr xm ! (idx + n) of
      None \<Rightarrow> ?l | Some p \<Rightarrow> set_word n (read_bytes m (of_nat p + 8 * of_nat i) 8) ?l)"
    by (simp add: load_words_def split: option.split)
  show ?case
  proof (cases "ptr xm ! (idx + n)")
    case None
    then show ?thesis
      using step IH by (auto simp: less_Suc_eq)
  next
    case (Some p)
    then show ?thesis
      using step IH Suc.prems by (auto simp: length_set_word elem_set_word less_Suc_eq)
  qed
qed (use assms(1) in \<open>simp add: load_words_def\<close>)

section \<open>The transfers\<close>

text \<open>
  The transfers that the code is written for: at most eight control interfaces and eight DPUs on each, offset and size that are
  multiples of eight within MRAM, and host buffers outside of the region of the rank.
\<close>

definition buffer_outside :: "u64 \<Rightarrow> nat \<Rightarrow> nat \<Rightarrow> bool" where
  "buffer_outside base p n \<longleftrightarrow> (\<forall>k < n. \<not> in_range base (2 ^ 33) (of_nat p + of_nat k))"

definition xfer_wf :: "u64 \<Rightarrow> nat \<Rightarrow> dpu_transfer_matrix \<Rightarrow> bool" where
  "xfer_wf base nb_cis xm \<longleftrightarrow>
     nb_cis \<le> 8 \<and> unat (tm_offset xm) mod 8 = 0 \<and> unat (tm_size xm) mod 8 = 0
     \<and> unat (tm_offset xm) + unat (tm_size xm) \<le> 2 ^ 26
     \<and> (\<forall>k p. ptr xm ! k = Some p \<longrightarrow> k < 64 \<longrightarrow> buffer_outside base p (unat (tm_size xm)))"

text \<open>The bytes of the buffer of an entry of the matrix, and the word of MRAM at an address, as the DPU sees it.\<close>

abbreviation word_of :: "dpu_transfer_matrix \<Rightarrow> nat \<Rightarrow> u32" where
  "word_of xm i \<equiv> of_nat i * 8 + tm_offset xm"

definition mram_word :: "u64 \<Rightarrow> (u64 \<Rightarrow> u8) \<Rightarrow> nat \<Rightarrow> nat \<Rightarrow> u32 \<Rightarrow> u8 list" where
  "mram_word base m d ci x = elem 8 (transposed (read_bytes m (line_addr base d x) 64)) ci"

lemma word_of_nat:
  assumes "xfer_wf base nb_cis xm" "i < unat (tm_size xm) div 8"
  shows "unat (word_of xm i) = 8 * i + unat (tm_offset xm)" and "word_addr (word_of xm i)"
proof -
  have i: "8 * i + 8 \<le> unat (tm_size xm)"
    using assms by (auto simp: xfer_wf_def)
  then have b: "8 * i + unat (tm_offset xm) < 2 ^ 26"
    using assms(1) by (simp add: xfer_wf_def)
  then have "unat (of_nat i * 8 :: u32) = 8 * i"
    by (simp add: unat_word_ariths unat_of_nat mult.commute)
  then show u: "unat (word_of xm i) = 8 * i + unat (tm_offset xm)"
    using b by (simp add: unat_word_ariths)
  then show "word_addr (word_of xm i)"
    using b assms(1) by (simp add: word_addr_def xfer_wf_def mod_add_eq [symmetric])
qed

lemma word_of_inj:
  assumes "xfer_wf base nb_cis xm" "i < unat (tm_size xm) div 8" "j < unat (tm_size xm) div 8" "word_of xm i = word_of xm j"
  shows "i = j"
proof -
  have "8 * i + unat (tm_offset xm) = 8 * j + unat (tm_offset xm)"
    using word_of_nat(1) [OF assms(1,2)] word_of_nat(1) [OF assms(1,3)] assms(4) by metis
  then show ?thesis by simp
qed

text \<open>
  The memory after the lines in a set \<open>T\<close> of pairs of a DPU and an index of a word have been written: they hold the words of the
  buffers, the other lines and everything outside of the region are as before.
\<close>

definition written :: "u64 \<Rightarrow> nat \<Rightarrow> dpu_transfer_matrix \<Rightarrow> (nat \<times> nat) set \<Rightarrow> (u64 \<Rightarrow> u8) \<Rightarrow> (u64 \<Rightarrow> u8) \<Rightarrow> bool" where
  "written base nb_cis xm T m m' \<longleftrightarrow>
     (\<forall>a. \<not> in_range base (2 ^ 33) a \<longrightarrow> m' a = m a)
     \<and> (\<forall>(d, i) \<in> T. \<forall>ci < nb_cis. \<forall>p. ptr xm ! (8 * d + ci) = Some p \<longrightarrow>
          mram_word base m' d ci (word_of xm i) = read_bytes m (of_nat p + 8 * of_nat i) 8)
     \<and> (\<forall>d < 8. \<forall>x. word_addr x \<longrightarrow> (\<forall>i. (d, i) \<in> T \<longrightarrow> x \<noteq> word_of xm i) \<longrightarrow>
          read_bytes m' (line_addr base d x) 64 = read_bytes m (line_addr base d x) 64)"

lemma buffer_word_unchanged:
  assumes "buffer_outside base p n" "8 * i + 8 \<le> n" "\<And>a. \<not> in_range base (2 ^ 33) a \<Longrightarrow> m' a = m a"
  shows "read_bytes m' (of_nat p + 8 * of_nat i) 8 = read_bytes m (of_nat p + 8 * of_nat i) 8"
proof (rule nth_equalityI)
  fix k assume "k < length (read_bytes m' (of_nat p + 8 * of_nat i) 8)"
  then have k: "k < 8" by simp
  then have "\<not> in_range base (2 ^ 33) (of_nat p + of_nat (8 * i + k))"
    using assms(2) by (intro assms(1) [unfolded buffer_outside_def, rule_format]) simp
  then show "read_bytes m' (of_nat p + 8 * of_nat i) 8 ! k = read_bytes m (of_nat p + 8 * of_nat i) 8 ! k"
    using k assms(3) by (simp add: add.assoc)
qed simp

lemma length_avx512: "length line = 64 \<Longrightarrow> length (byte_interleave_avx512 line) = 64"
  by (simp add: byte_interleave_avx512_eq)

lemma write_line_step:
  assumes wf: "xfer_wf base nb_cis xm" and T: "T \<subseteq> {..<8} \<times> {..<unat (tm_size xm) div 8}"
    and d: "d < 8" and i: "i < unat (tm_size xm) div 8"
    and w: "written base nb_cis xm T m (mem s)" and len: "length (cache_line s) = 64"
  shows "written base nb_cis xm (insert (d, i) T) m (mem (write_line base nb_cis xm d s i))"
    and "length (cache_line (write_line base nb_cis xm d s i)) = 64"
proof -
  let ?line = "load_words nb_cis xm (8 * d) i (mem s) (cache_line s)"
  let ?a = "line_addr base d (word_of xm i)"
  have x: "word_addr (word_of xm i)"
    by (rule word_of_nat [OF wf i])
  have nb: "nb_cis \<le> 8"
    using wf by (simp add: xfer_wf_def)
  note lw = load_words_spec [OF len nb, of xm "8 * d" i "mem s"]
  then show "length (cache_line (write_line base nb_cis xm d s i)) = 64"
    by (simp add: write_line_def Let_def)
  have "ptr_dest base d + line_offset (of_nat i) (tm_offset xm) = ?a"
    using x d by (simp add: line_address line_addr_def word_addr_def)
  then have m': "mem (write_line base nb_cis xm d s i) = write_bytes (mem s) ?a (transposed ?line)"
    using lw by (simp add: write_line_def Let_def byte_interleave_avx512_eq)
  have line: "read_bytes (write_bytes (mem s) ?a (transposed ?line)) ?a 64 = transposed ?line"
    using read_after_write [of 64 "transposed ?line" "mem s" ?a] by simp
  have other: "read_bytes (write_bytes (mem s) ?a (transposed ?line)) (line_addr base d' y) 64
      = read_bytes (mem s) (line_addr base d' y) 64" if "d' < 8" "word_addr y" "(d', y) \<noteq> (d, word_of xm i)" for d' y
    using that line_addr_disjoint [OF x that(2) d that(1)] by (intro read_write_disjoint) auto
  have "mram_word base (write_bytes (mem s) ?a (transposed ?line)) d' ci (word_of xm j)
      = read_bytes m (of_nat p + 8 * of_nat j) 8"
    if "(d', j) \<in> insert (d, i) T" "ci < nb_cis" "ptr xm ! (8 * d' + ci) = Some p" for d' j ci p
  proof (cases "(d', j) = (d, i)")
    case True
    have "buffer_outside base p (unat (tm_size xm))"
      using wf that(2,3) True d nb unfolding xfer_wf_def by (auto intro!: exI [of _ "8 * d + ci"])
    then have "read_bytes (mem s) (of_nat p + 8 * of_nat i) 8 = read_bytes m (of_nat p + 8 * of_nat i) 8"
      using w i wf by (intro buffer_word_unchanged) (auto simp: written_def xfer_wf_def)
    moreover have "elem 8 ?line ci = read_bytes (mem s) (of_nat p + 8 * of_nat i) 8"
      using lw that(2,3) nb True by auto
    ultimately show ?thesis
      using True lw unfolding mram_word_def by (simp add: line transposed_transposed)
  next
    case False
    then have "(d', j) \<in> T" "d' < 8" "j < unat (tm_size xm) div 8"
      using that(1) T by auto
    moreover have "(d', word_of xm j) \<noteq> (d, word_of xm i)"
      using False word_of_inj [OF wf \<open>j < _\<close> i] by auto
    ultimately show ?thesis
      using w that(2,3) other [of d' "word_of xm j"] word_of_nat(2) [OF wf]
      unfolding mram_word_def written_def by auto
  qed
  moreover have "write_bytes (mem s) ?a (transposed ?line) a = m a" if "\<not> in_range base (2 ^ 33) a" for a
    using that w line_addr_in_region [OF x d] write_bytes_outside [of ?a "transposed ?line" a "mem s"]
    by (auto simp: written_def)
  moreover have "read_bytes (write_bytes (mem s) ?a (transposed ?line)) (line_addr base d' y) 64
      = read_bytes m (line_addr base d' y) 64"
    if "d' < 8" "word_addr y" "\<forall>j. (d', j) \<in> insert (d, i) T \<longrightarrow> y \<noteq> word_of xm j" for d' y
    using that w other [of d' y] unfolding written_def by auto
  ultimately show "written base nb_cis xm (insert (d, i) T) m (mem (write_line base nb_cis xm d s i))"
    unfolding written_def m' by blast
qed

text \<open>The lines of some of the DPUs: those for which a control interface has a buffer.\<close>

definition lines_of :: "nat \<Rightarrow> dpu_transfer_matrix \<Rightarrow> nat set \<Rightarrow> (nat \<times> nat) set" where
  "lines_of nb_cis xm D = {(d, i). d \<in> D \<and> do_dpu_transfer nb_cis xm (8 * d) \<and> i < unat (tm_size xm) div 8}"

lemma lines_of_Un: "lines_of nb_cis xm (D \<union> E) = lines_of nb_cis xm D \<union> lines_of nb_cis xm E"
  by (auto simp: lines_of_def)

lemma write_lines:
  assumes wf: "xfer_wf base nb_cis xm" and T: "T \<subseteq> {..<8} \<times> {..<unat (tm_size xm) div 8}" and d: "d < 8"
    and w: "written base nb_cis xm T m (mem s)" and len: "length (cache_line s) = 64"
    and k: "k \<le> unat (tm_size xm) div 8"
  shows "written base nb_cis xm (T \<union> {d} \<times> {..<k}) m (mem (foldl (write_line base nb_cis xm d) s [0..<k]))
    \<and> length (cache_line (foldl (write_line base nb_cis xm d) s [0..<k])) = 64"
  using k
proof (induction k)
  case (Suc k)
  let ?s = "foldl (write_line base nb_cis xm d) s [0..<k]"
  have "T \<union> {d} \<times> {..<k} \<subseteq> {..<8} \<times> {..<unat (tm_size xm) div 8}"
    using T d Suc.prems by auto
  note step = write_line_step [OF wf this d, of k m ?s]
  have "insert (d, k) (T \<union> {d} \<times> {..<k}) = T \<union> {d} \<times> {..<Suc k}"
    by auto
  then show ?case
    using step Suc by simp
qed (use w len in simp)

lemma write_dpu_spec:
  assumes wf: "xfer_wf base nb_cis xm" and T: "T \<subseteq> {..<8} \<times> {..<unat (tm_size xm) div 8}" and d: "d < 8"
    and w: "written base nb_cis xm T m (mem s)" and len: "length (cache_line s) = 64"
    and ty: "tm_type xm = DPU_DEFAULT_XFER_MATRIX"
  shows "written base nb_cis xm (T \<union> lines_of nb_cis xm {d}) m (mem (write_dpu zeros base nb_cis xm s d))
    \<and> length (cache_line (write_dpu zeros base nb_cis xm s d)) = 64"
proof (cases "do_dpu_transfer nb_cis xm (8 * d)")
  case True
  then have "lines_of nb_cis xm {d} = {d} \<times> {..<unat (tm_size xm) div 8}"
    by (auto simp: lines_of_def)
  then show ?thesis
    using True ty write_lines [OF wf T d w len order_refl] by (simp add: write_dpu_def)
next
  case False
  then have "lines_of nb_cis xm {d} = {}"
    by (auto simp: lines_of_def)
  then show ?thesis
    using False w len by (simp add: write_dpu_def)
qed

lemma threads_write_spec:
  assumes wf: "xfer_wf base nb_cis xm" and ty: "tm_type xm = DPU_DEFAULT_XFER_MATRIX" and b: "b \<le> 8"
    and T: "T \<subseteq> {..<8} \<times> {..<unat (tm_size xm) div 8}"
    and w: "written base nb_cis xm T m (mem s)" and len: "length (cache_line s) = 64"
  shows "written base nb_cis xm (T \<union> lines_of nb_cis xm {a..<b}) m (mem (threads_write_to_rank zeros base nb_cis xm a b s))"
proof (cases "tm_size xm = 0")
  case True
  then have "lines_of nb_cis xm {a..<b} = {}"
    by (simp add: lines_of_def)
  then show ?thesis
    using True w by (simp add: threads_write_to_rank_def)
next
  case False
  have "written base nb_cis xm (T \<union> lines_of nb_cis xm (set ds)) m (mem (foldl (write_dpu zeros base nb_cis xm) s ds))"
    if "set ds \<subseteq> {..<8}" for ds
    using that T w len
  proof (induction ds arbitrary: T s)
    case (Cons d ds)
    then have d: "d < 8" by simp
    have "T \<union> lines_of nb_cis xm {d} \<subseteq> {..<8} \<times> {..<unat (tm_size xm) div 8}"
      using Cons.prems(2) d by (auto simp: lines_of_def)
    moreover note write_dpu_spec [OF wf Cons.prems(2) d Cons.prems(3,4) ty, of zeros]
    moreover have "T \<union> lines_of nb_cis xm {d} \<union> lines_of nb_cis xm (set ds) = T \<union> lines_of nb_cis xm (set (d # ds))"
      by (auto simp: lines_of_def)
    ultimately show ?case
      using Cons.IH [of "T \<union> lines_of nb_cis xm {d}" "write_dpu zeros base nb_cis xm s d"] Cons.prems(1) by simp
  qed (simp add: lines_of_def)
  moreover have "set [a..<b] \<subseteq> {..<8}"
    using b by auto
  ultimately have "written base nb_cis xm (T \<union> lines_of nb_cis xm (set [a..<b])) m
      (mem (foldl (write_dpu zeros base nb_cis xm) s [a..<b]))"
    by blast
  then show ?thesis
    using False by (simp add: threads_write_to_rank_def)
qed

section \<open>The parts of the threads\<close>

text \<open>The DPUs of a thread.\<close>

definition thread_dpus :: "xeon_sp_private \<Rightarrow> u8 \<Rightarrow> nat set" where
  "thread_dpus pool t =
     (if t < nb_threads_for_xfer pool
      then {unat (t * (nb_dpus_per_ci pool div nb_threads_for_xfer pool))..<
            unat (if t = nb_threads_for_xfer pool - 1 then nb_dpus_per_ci pool
                  else (t + 1) * (nb_dpus_per_ci pool div nb_threads_for_xfer pool))}
      else {})"

lemma thread_range:
  assumes "nb_dpus_per_ci pool \<le> 8" "t < nb_threads_for_xfer pool"
  defines "per \<equiv> unat (nb_dpus_per_ci pool) div unat (nb_threads_for_xfer pool)"
  shows "unat (t * (nb_dpus_per_ci pool div nb_threads_for_xfer pool)) = unat t * per" (is ?start)
    and "unat (if t = nb_threads_for_xfer pool - 1 then nb_dpus_per_ci pool
               else (t + 1) * (nb_dpus_per_ci pool div nb_threads_for_xfer pool))
         = (if unat t = unat (nb_threads_for_xfer pool) - 1 then unat (nb_dpus_per_ci pool) else (unat t + 1) * per)" (is ?stop)
    and "(unat t + 1) * per \<le> unat (nb_dpus_per_ci pool)"
proof -
  let ?n = "unat (nb_threads_for_xfer pool)" and ?nb = "unat (nb_dpus_per_ci pool)"
  have t: "unat t + 1 \<le> ?n"
    using assms(2) by (simp add: word_less_nat_alt)
  have "(unat t + 1) * per \<le> ?n * per"
    using t by (rule mult_le_mono1)
  also have "\<dots> \<le> ?nb"
    by (simp add: per_def)
  finally show le: "(unat t + 1) * per \<le> ?nb" .
  have nb: "?nb \<le> 8"
    using assms(1) by (simp add: word_le_nat_alt)
  have per: "unat (nb_dpus_per_ci pool div nb_threads_for_xfer pool) = per"
    by (simp add: per_def unat_div)
  have t1: "unat (t + 1) = unat t + 1"
    using assms(2) by (simp add: unat_Suc_less)
  have "unat ((t + 1) * (nb_dpus_per_ci pool div nb_threads_for_xfer pool)) = (unat t + 1) * per"
    using le nb by (simp add: unat_word_ariths(2) t1 per)
  moreover have "t = nb_threads_for_xfer pool - 1 \<longleftrightarrow> unat t = ?n - 1"
    using assms(2) by (metis unat_minus_one word_not_simps(1) word_unat_eq_iff)
  ultimately show ?stop
    by simp
  show ?start
    using le nb by (simp add: unat_word_ariths(2) per)
qed

lemma thread_dpus_nat:
  assumes "nb_dpus_per_ci pool \<le> 8" "t < nb_threads_for_xfer pool"
  shows "thread_dpus pool t =
    (let per = unat (nb_dpus_per_ci pool) div unat (nb_threads_for_xfer pool)
     in {unat t * per ..< if unat t = unat (nb_threads_for_xfer pool) - 1 then unat (nb_dpus_per_ci pool)
                          else (unat t + 1) * per})"
  using assms(2) unfolding thread_dpus_def Let_def by (simp only: thread_range [OF assms] if_True)

lemma thread_dpus_bound:
  assumes "nb_dpus_per_ci pool \<le> 8"
  shows "thread_dpus pool t \<subseteq> {..<unat (nb_dpus_per_ci pool)}"
proof (cases "t < nb_threads_for_xfer pool")
  case True
  show ?thesis
    using thread_range(3) [OF assms True] unfolding thread_dpus_nat [OF assms True] Let_def by (auto split: if_splits)
qed (simp add: thread_dpus_def)

text \<open>The parts of the threads that take part in a transfer cover all the DPUs.\<close>

lemma thread_dpus_cover:
  assumes "nb_dpus_per_ci pool \<le> 8" "0 < nb_threads_for_xfer pool"
  shows "(\<Union>t \<in> {t. t < nb_threads_for_xfer pool}. thread_dpus pool t) = {..<unat (nb_dpus_per_ci pool)}"
proof (intro equalityI subsetI)
  fix d assume "d \<in> (\<Union>t \<in> {t. t < nb_threads_for_xfer pool}. thread_dpus pool t)"
  then show "d \<in> {..<unat (nb_dpus_per_ci pool)}"
    using thread_dpus_bound [OF assms(1)] by auto
next
  fix d assume d: "d \<in> {..<unat (nb_dpus_per_ci pool)}"
  let ?n = "unat (nb_threads_for_xfer pool)"
  define per where "per = unat (nb_dpus_per_ci pool) div ?n"
  define k where "k = (if per = 0 then ?n - 1 else min (d div per) (?n - 1))"
  have n: "0 < ?n"
    using assms(2) by (simp add: word_less_nat_alt)
  then have k: "k < ?n"
    by (auto simp: k_def min_def)
  then have u: "unat (of_nat k :: u8) = k"
    using unsigned_less [where 'a = nat, of "nb_threads_for_xfer pool"] by (simp add: unat_of_nat)
  then have t: "(of_nat k :: u8) < nb_threads_for_xfer pool"
    using k by (simp add: word_less_nat_alt)
  have "k * per \<le> d"
  proof (cases "per = 0")
    case False
    then have "k * per \<le> d div per * per"
      by (intro mult_le_mono1) (simp add: k_def)
    also have "\<dots> \<le> d" by simp
    finally show ?thesis .
  qed simp
  moreover have "d < (if k = ?n - 1 then unat (nb_dpus_per_ci pool) else (k + 1) * per)"
  proof (cases "k = ?n - 1")
    case False
    then have "per \<noteq> 0" "k = d div per"
      by (auto simp: k_def min_def split: if_splits)
    then show ?thesis
      using False by (simp add: dividend_less_div_times)
  qed (use d in simp)
  ultimately have "d \<in> thread_dpus pool (of_nat k)"
    unfolding thread_dpus_nat [OF assms(1) t] Let_def u per_def by simp
  then show "d \<in> (\<Union>t \<in> {t. t < nb_threads_for_xfer pool}. thread_dpus pool t)"
    using t by blast
qed

lemma thread_write_spec:
  assumes wf: "xfer_wf base (unat (tr_nb_cis tr)) xm" and ty: "tm_type xm = DPU_DEFAULT_XFER_MATRIX"
    and nb: "nb_dpus_per_ci pool \<le> 8"
    and T: "T \<subseteq> {..<8} \<times> {..<unat (tm_size xm) div 8}"
    and w: "written base (unat (tr_nb_cis tr)) xm T m (mem s)" and len: "length (cache_line s) = 64"
  shows "written base (unat (tr_nb_cis tr)) xm (T \<union> lines_of (unat (tr_nb_cis tr)) xm (thread_dpus pool t)) m
    (mem (thread_do_mram_xfer zeros base tr thread_mram_xfer_write xm pool t s))"
proof (cases "t < nb_threads_for_xfer pool")
  case True
  let ?a = "unat (t * (nb_dpus_per_ci pool div nb_threads_for_xfer pool))"
  let ?b = "unat (if t = nb_threads_for_xfer pool - 1 then nb_dpus_per_ci pool
    else (t + 1) * (nb_dpus_per_ci pool div nb_threads_for_xfer pool))"
  have dpus: "thread_dpus pool t = {?a..<?b}"
    using True by (simp add: thread_dpus_def)
  have "unat (nb_dpus_per_ci pool) \<le> 8"
    using nb by (simp add: word_le_nat_alt)
  then have b: "?b \<le> 8"
    using thread_range(2,3) [OF nb True] by (auto split: if_splits)
  show ?thesis
    using threads_write_spec [OF wf ty b T w len, of ?a zeros] True unfolding dpus
    by (simp add: thread_do_mram_xfer_def Let_def)
qed (use w in \<open>simp add: thread_do_mram_xfer_def thread_dpus_def lines_of_def\<close>)

text \<open>The threads of a pool that do their parts of a transfer, in any order.\<close>

definition enough_threads :: "dpu_region_address_translation \<Rightarrow> xeon_sp_private \<Rightarrow> u8 list \<Rightarrow> dpu_transfer_matrix \<Rightarrow> bool" where
  "enough_threads tr pool order xm \<longleftrightarrow>
     nb_dpus_per_ci pool \<le> 8 \<and> 0 < nb_threads_of_size (xfer_thread_conf tr) (tm_size xm)
     \<and> set (thread_ids (nb_threads_of_size (xfer_thread_conf tr) (tm_size xm))) \<subseteq> set order"

lemma in_thread_ids: "t \<in> set (thread_ids n) \<longleftrightarrow> t < n"
proof
  assume "t < n"
  then show "t \<in> set (thread_ids n)"
    unfolding thread_ids_def by (intro image_eqI [of _ _ "unat t", THEN set_map [THEN equalityD2, THEN subsetD]])
      (simp_all add: word_less_nat_alt)
next
  assume "t \<in> set (thread_ids n)"
  then obtain k where "t = of_nat k" "k < unat n"
    by (auto simp: thread_ids_def)
  moreover from this(2) have "unat (of_nat k :: u8) = k"
    using unsigned_less [where 'a = nat, of n] by (simp add: unat_of_nat)
  ultimately show "t < n"
    by (simp add: word_less_nat_alt)
qed

lemma all_dpus_of_threads:
  assumes "enough_threads tr pool order xm"
  defines "pool' \<equiv> pool\<lparr>nb_threads_for_xfer := nb_threads_of_size (xfer_thread_conf tr) (tm_size xm)\<rparr>"
  shows "(\<Union>t \<in> set order. thread_dpus pool' t) = {..<unat (nb_dpus_per_ci pool)}"
proof -
  have nb: "nb_dpus_per_ci pool' \<le> 8" and n: "0 < nb_threads_for_xfer pool'"
    and sub: "{t. t < nb_threads_for_xfer pool'} \<subseteq> set order"
    using assms(1) by (auto simp: enough_threads_def pool'_def in_thread_ids)
  have "(\<Union>t \<in> {t. t < nb_threads_for_xfer pool'}. thread_dpus pool' t) \<subseteq> (\<Union>t \<in> set order. thread_dpus pool' t)"
    using sub by blast
  moreover have "(\<Union>t \<in> set order. thread_dpus pool' t) \<subseteq> {..<unat (nb_dpus_per_ci pool')}"
    using thread_dpus_bound [OF nb] by blast
  ultimately show ?thesis
    using thread_dpus_cover [OF nb n] by (simp add: pool'_def)
qed

lemma threads_write:
  assumes wf: "xfer_wf base (unat (tr_nb_cis tr)) xm" and ty: "tm_type xm = DPU_DEFAULT_XFER_MATRIX"
    and nb: "nb_dpus_per_ci pool \<le> 8" and stacks: "\<And>t. length (stacks t) = 64"
    and T: "T \<subseteq> {..<8} \<times> {..<unat (tm_size xm) div 8}"
    and w: "written base (unat (tr_nb_cis tr)) xm T m m'"
  shows "written base (unat (tr_nb_cis tr)) xm (T \<union> lines_of (unat (tr_nb_cis tr)) xm (\<Union>t \<in> set order. thread_dpus pool t)) m
    (fst (foldl (thread_step zeros stacks tr base xm thread_mram_xfer_write pool) (m', bufs) order))"
  using T w
proof (induction order arbitrary: T m' bufs)
  case (Cons t ts)
  let ?L = "lines_of (unat (tr_nb_cis tr)) xm (thread_dpus pool t)"
  let ?s = "thread_do_mram_xfer zeros base tr thread_mram_xfer_write xm pool t
    \<lparr>mem = m', sg_buffers = bufs, cache_line = stacks t\<rparr>"
  have "written base (unat (tr_nb_cis tr)) xm (T \<union> ?L) m (mem ?s)"
    using Cons.prems(2) stacks by (intro thread_write_spec [OF wf ty nb Cons.prems(1)]) simp_all
  moreover have "thread_dpus pool t \<subseteq> {..<8}"
  proof -
    have "unat (nb_dpus_per_ci pool) \<le> 8"
      using nb by (simp add: word_le_nat_alt)
    then show ?thesis
      using thread_dpus_bound [OF nb, of t] by (meson lessThan_subset_iff order_trans)
  qed
  then have "T \<union> ?L \<subseteq> {..<8} \<times> {..<unat (tm_size xm) div 8}"
    using Cons.prems(1) by (auto simp: lines_of_def)
  ultimately have "written base (unat (tr_nb_cis tr)) xm (T \<union> ?L \<union> lines_of (unat (tr_nb_cis tr)) xm (\<Union>t \<in> set ts. thread_dpus pool t)) m
      (fst (foldl (thread_step zeros stacks tr base xm thread_mram_xfer_write pool) (mem ?s, sg_buffers ?s) ts))"
    by (intro Cons.IH)
  moreover have "foldl (thread_step zeros stacks tr base xm thread_mram_xfer_write pool) (m', bufs) (t # ts) = foldl (thread_step zeros stacks tr base xm thread_mram_xfer_write pool) (mem ?s, sg_buffers ?s) ts"
    by (simp add: thread_step_def Let_def)
  ultimately show ?case
    by (simp add: lines_of_Un Un_assoc)
qed (simp add: lines_of_def)

lemma written_refl: "written base nb_cis xm {} m m"
  by (simp add: written_def)

lemma write_transfer:
  assumes wf: "xfer_wf base (unat (tr_nb_cis tr)) xm" and ty: "tm_type xm = DPU_DEFAULT_XFER_MATRIX"
    and th: "enough_threads tr pool order xm" and stacks: "\<And>t. length (stacks t) = 64"
    and x: "xeon_sp_init_and_do_xfer zeros order stacks tr base xm thread_mram_xfer_write (pool, m, bufs) = (pool', m', bufs')"
  shows "written base (unat (tr_nb_cis tr)) xm (lines_of (unat (tr_nb_cis tr)) xm {..<unat (nb_dpus_per_ci pool)}) m m'"
proof -
  let ?pool = "pool\<lparr>nb_threads_for_xfer := nb_threads_of_size (xfer_thread_conf tr) (tm_size xm)\<rparr>"
  have nb: "nb_dpus_per_ci ?pool \<le> 8"
    using th by (simp add: enough_threads_def)
  have "written base (unat (tr_nb_cis tr)) xm ({} \<union> lines_of (unat (tr_nb_cis tr)) xm (\<Union>t \<in> set order. thread_dpus ?pool t)) m
      (fst (foldl (thread_step zeros stacks tr base xm thread_mram_xfer_write ?pool) (m, bufs) order))"
    by (rule threads_write [OF wf ty nb stacks _ written_refl]) simp
  moreover have "foldl (thread_step zeros stacks tr base xm thread_mram_xfer_write ?pool) (m, bufs) order = (m', bufs')"
    using x by (auto simp: xeon_sp_init_and_do_xfer_def Let_def)
  ultimately show ?thesis
    using all_dpus_of_threads [OF th] by simp
qed

text \<open>
  The memory after the words in a set \<open>T\<close> of triples of a DPU, a control interface and an index have been read: the buffers hold
  them, and nothing else has changed. The buffers of a matrix that receives data must not overlap.
\<close>

definition buffers_disjoint :: "dpu_transfer_matrix \<Rightarrow> bool" where
  "buffers_disjoint xm \<longleftrightarrow>
     (\<forall>k < 64. \<forall>l < 64. \<forall>p q. k \<noteq> l \<longrightarrow> ptr xm ! k = Some p \<longrightarrow> ptr xm ! l = Some q \<longrightarrow>
        disjoint_ranges (of_nat p :: u64) (unat (tm_size xm)) (of_nat q) (unat (tm_size xm)))"

definition fetched :: "u64 \<Rightarrow> dpu_transfer_matrix \<Rightarrow> (nat \<times> nat \<times> nat) set \<Rightarrow> (u64 \<Rightarrow> u8) \<Rightarrow> (u64 \<Rightarrow> u8) \<Rightarrow> bool" where
  "fetched base xm T m m' \<longleftrightarrow>
     (\<forall>(d, ci, i) \<in> T. \<forall>p. ptr xm ! (8 * d + ci) = Some p \<longrightarrow>
        read_bytes m' (of_nat p + 8 * of_nat i) 8 = mram_word base m d ci (word_of xm i))
     \<and> (\<forall>a. (\<forall>(d, ci, i) \<in> T. \<forall>p. ptr xm ! (8 * d + ci) = Some p \<longrightarrow> \<not> in_range (of_nat p + 8 * of_nat i) 8 a) \<longrightarrow> m' a = m a)"

definition valid_words :: "nat \<Rightarrow> dpu_transfer_matrix \<Rightarrow> (nat \<times> nat \<times> nat) set" where
  "valid_words nb_cis xm = {(d, ci, i). d < 8 \<and> ci < nb_cis \<and> i < unat (tm_size xm) div 8}"

lemma in_range_sub:
  fixes p :: u64
  assumes "in_range (p + of_nat k) n a" "k + n \<le> sz" "sz < 2 ^ 64"
  shows "in_range p sz a"
proof -
  have "unat (a - (p + of_nat k)) = (if k \<le> unat (a - p) then unat (a - p) - k else 2 ^ 64 + unat (a - p) - k)"
    using unat_minus_add [of k a p] assms(2,3) by simp
  then show ?thesis
    using assms unfolding in_range_def by (auto split: if_splits)
qed

lemma size_bound: "unat (tm_size xm) < 2 ^ 64"
  using unsigned_less [where 'a = nat, of "tm_size xm"] by simp

lemma word_of_buffer:
  assumes "in_range (of_nat p + 8 * of_nat i :: u64) 8 a" "i < unat (tm_size xm) div 8"
  shows "in_range (of_nat p) (unat (tm_size xm)) a"
  using assms in_range_sub [of "of_nat p" "8 * i" 8 a "unat (tm_size xm)"] size_bound [of xm] by auto

lemma words_disjoint:
  assumes dis: "buffers_disjoint xm" and nb: "nb_cis \<le> 8"
    and t: "(d, ci, i) \<in> valid_words nb_cis xm" "(d', ci', j) \<in> valid_words nb_cis xm" "(d, ci, i) \<noteq> (d', ci', j)"
    and p: "ptr xm ! (8 * d + ci) = Some p" "ptr xm ! (8 * d' + ci') = Some q"
  shows "disjoint_ranges (of_nat p + 8 * of_nat i :: u64) 8 (of_nat q + 8 * of_nat j) 8"
proof (cases "8 * d + ci = 8 * d' + ci'")
  case True
  have b: "d < 8" "ci < 8" "d' < 8" "ci' < 8" "i < unat (tm_size xm) div 8" "j < unat (tm_size xm) div 8"
    using t nb by (auto simp: valid_words_def)
  with True have "d = d'" "ci = ci'"
    using digits_eq [of d 8 ci d' ci'] by (simp_all add: mult.commute)
  then have "i \<noteq> j" "p = q"
    using t(3) p by auto
  have "8 * i + 8 \<le> unat (tm_size xm)" "8 * j + 8 \<le> unat (tm_size xm)"
    using b(5,6) by auto
  then have "disjoint_ranges (of_nat p + of_nat (8 * i) :: u64) 8 (of_nat p + of_nat (8 * j)) 8"
    using \<open>i \<noteq> j\<close> size_bound [of xm] by (intro disjoint_ranges_offsets) auto
  then show ?thesis
    using \<open>p = q\<close> by simp
next
  case False
  have "i < unat (tm_size xm) div 8" "j < unat (tm_size xm) div 8" "8 * d + ci < 64" "8 * d' + ci' < 64"
    using t nb by (auto simp: valid_words_def)
  then show ?thesis
    using False p dis word_of_buffer unfolding disjoint_ranges_def buffers_disjoint_def by metis
qed

lemma fetch_word:
  assumes dis: "buffers_disjoint xm" and nb: "nb_cis \<le> 8" and T: "T \<subseteq> valid_words nb_cis xm"
    and t: "(d, ci, i) \<in> valid_words nb_cis xm" and p: "ptr xm ! (8 * d + ci) = Some p"
    and f: "fetched base xm T m m'" and w: "w = mram_word base m d ci (word_of xm i)"
  shows "fetched base xm (insert (d, ci, i) T) m (write_bytes m' (of_nat p + 8 * of_nat i) w)"
proof -
  let ?a = "of_nat p + 8 * of_nat i :: u64"
  have len: "length w = 8"
    using t nb unfolding w mram_word_def by (auto simp: elem_def valid_words_def min_def)
  have "read_bytes (write_bytes m' ?a w) (of_nat q + 8 * of_nat j) 8 = mram_word base m d' ci' (word_of xm j)"
    if q: "(d', ci', j) \<in> insert (d, ci, i) T" "ptr xm ! (8 * d' + ci') = Some q" for d' ci' j q
  proof (cases "(d', ci', j) = (d, ci, i)")
    case True
    then show ?thesis
      using q(2) p w len read_after_write [of 8 w m' ?a] by simp
  next
    case False
    then have T': "(d', ci', j) \<in> T" "(d', ci', j) \<in> valid_words nb_cis xm"
      using q(1) T by auto
    have "disjoint_ranges ?a (length w) (of_nat q + 8 * of_nat j) 8"
      unfolding len using False by (intro words_disjoint [OF dis nb t T'(2) _ p q(2)]) auto
    then have "read_bytes (write_bytes m' ?a w) (of_nat q + 8 * of_nat j) 8 = read_bytes m' (of_nat q + 8 * of_nat j) 8"
      by (rule read_write_disjoint) simp
    then show ?thesis
      using f T'(1) q(2) unfolding fetched_def by auto
  qed
  moreover have "write_bytes m' ?a w a = m a"
    if "\<forall>(d, ci, i) \<in> insert (d, ci, i) T. \<forall>p. ptr xm ! (8 * d + ci) = Some p \<longrightarrow> \<not> in_range (of_nat p + 8 * of_nat i) 8 a" for a
    using that f p len write_bytes_outside [of ?a w a m'] unfolding fetched_def by simp
  ultimately show ?thesis
    unfolding fetched_def by blast
qed

lemma fetched_region:
  assumes wf: "xfer_wf base nb_cis xm" and T: "T \<subseteq> valid_words nb_cis xm" and f: "fetched base xm T m m'"
    and a: "in_range base (2 ^ 33) a"
  shows "m' a = m a"
proof -
  have "\<not> in_range (of_nat p + 8 * of_nat i) 8 a" if t: "(d, ci, i) \<in> T" "ptr xm ! (8 * d + ci) = Some p" for d ci i p
  proof
    assume r: "in_range (of_nat p + 8 * of_nat i) 8 a"
    have v: "i < unat (tm_size xm) div 8" "8 * d + ci < 64"
      using t(1) T wf by (auto simp: valid_words_def xfer_wf_def)
    then have "unat (a - of_nat p) < unat (tm_size xm)"
      using word_of_buffer [OF r] by (simp add: in_range_def)
    moreover have "buffer_outside base p (unat (tm_size xm))"
      using wf t(2) v(2) unfolding xfer_wf_def by blast
    ultimately have "\<not> in_range base (2 ^ 33) (of_nat p + of_nat (unat (a - of_nat p)))"
      unfolding buffer_outside_def by blast
    then show False
      using a by simp
  qed
  then show ?thesis
    using f unfolding fetched_def by fast
qed

lemma read_line_step:
  assumes wf: "xfer_wf base nb_cis xm" and dis: "buffers_disjoint xm" and T: "T \<subseteq> valid_words nb_cis xm"
    and d: "d < 8" and i: "i < unat (tm_size xm) div 8" and f: "fetched base xm T m (mem s)"
  shows "fetched base xm (T \<union> {(d, ci, i) | ci. ci < nb_cis}) m (mem (read_line base nb_cis xm d s i))"
proof -
  let ?a = "line_addr base d (word_of xm i)"
  have x: "word_addr (word_of xm i)" and nb: "nb_cis \<le> 8"
    using word_of_nat [OF wf i] wf by (auto simp: xfer_wf_def)
  have "read_bytes (mem s) ?a 64 = read_bytes m ?a 64"
  proof (rule nth_equalityI)
    fix k assume "k < length (read_bytes (mem s) ?a 64)"
    then have k: "k < 64" by simp
    then have "in_range ?a 64 (?a + of_nat k)"
      by (rule in_range_add) simp
    then show "read_bytes (mem s) ?a 64 ! k = read_bytes m ?a 64 ! k"
      using k fetched_region [OF wf T f line_addr_in_region [OF x d]] by simp
  qed simp
  moreover have "ptr_dest base d + line_offset (of_nat i) (tm_offset xm) = ?a"
    using x d by (simp add: line_address line_addr_def word_addr_def)
  ultimately have m': "mem (read_line base nb_cis xm d s i) =
      store_words nb_cis xm (8 * d) i (transposed (read_bytes m ?a 64)) (mem s)"
    by (simp add: read_line_def Let_def byte_interleave_avx2_eq)
  have "fetched base xm (T \<union> {(d, ci, i) | ci. ci < n}) m
      (store_words n xm (8 * d) i (transposed (read_bytes m ?a 64)) (mem s))" if "n \<le> nb_cis" for n
    using that
  proof (induction n)
    case (Suc n)
    let ?T = "T \<union> {(d, ci, i) | ci. ci < n}"
    let ?m = "store_words n xm (8 * d) i (transposed (read_bytes m ?a 64)) (mem s)"
    have T': "T \<union> {(d, ci, i) | ci. ci < Suc n} = insert (d, n, i) ?T"
      by (auto simp: less_Suc_eq)
    have v: "(d, n, i) \<in> valid_words nb_cis xm" "?T \<subseteq> valid_words nb_cis xm"
      using Suc.prems T d i by (auto simp: valid_words_def)
    show ?case
    proof (cases "ptr xm ! (8 * d + n)")
      case None
      then have "store_words (Suc n) xm (8 * d) i (transposed (read_bytes m ?a 64)) (mem s) = ?m"
        by (simp add: store_words_def)
      then show ?thesis
        using Suc None unfolding T' fetched_def by simp
    next
      case (Some p)
      then have "store_words (Suc n) xm (8 * d) i (transposed (read_bytes m ?a 64)) (mem s)
          = write_bytes ?m (of_nat p + 8 * of_nat i) (elem 8 (transposed (read_bytes m ?a 64)) n)"
        by (simp add: store_words_def)
      moreover have "fetched base xm ?T m ?m"
        using Suc by simp
      ultimately show ?thesis
        unfolding T' using fetch_word [OF dis nb v(2,1) Some] by (simp add: mram_word_def)
    qed
  qed (use f in \<open>simp add: store_words_def\<close>)
  then show ?thesis
    unfolding m' by simp
qed

text \<open>The words of some of the DPUs.\<close>

definition words_of :: "nat \<Rightarrow> dpu_transfer_matrix \<Rightarrow> nat set \<Rightarrow> (nat \<times> nat \<times> nat) set" where
  "words_of nb_cis xm D = {(d, ci, i). d \<in> D \<and> ci < nb_cis \<and> i < unat (tm_size xm) div 8}"

lemma read_dpu_spec:
  assumes wf: "xfer_wf base nb_cis xm" and dis: "buffers_disjoint xm" and T: "T \<subseteq> valid_words nb_cis xm"
    and d: "d < 8" and f: "fetched base xm T m (mem s)" and ty: "tm_type xm = DPU_DEFAULT_XFER_MATRIX"
  shows "fetched base xm (T \<union> words_of nb_cis xm {d}) m (mem (read_dpu zeros base nb_cis xm s d))"
proof (cases "do_dpu_transfer nb_cis xm (8 * d)")
  case True
  have "fetched base xm (T \<union> {(d, ci, i) | ci i. ci < nb_cis \<and> i < k}) m (mem (foldl (read_line base nb_cis xm d) s [0..<k]))"
    if "k \<le> unat (tm_size xm) div 8" for k
    using that
  proof (induction k)
    case (Suc k)
    have "T \<union> {(d, ci, i) | ci i. ci < nb_cis \<and> i < k} \<subseteq> valid_words nb_cis xm"
      using T d Suc.prems by (auto simp: valid_words_def)
    moreover have "T \<union> {(d, ci, i) | ci i. ci < nb_cis \<and> i < k} \<union> {(d, ci, k) | ci. ci < nb_cis}
        = T \<union> {(d, ci, i) | ci i. ci < nb_cis \<and> i < Suc k}"
      by (auto simp: less_Suc_eq)
    ultimately show ?case
      using read_line_step [OF wf dis _ d, of "T \<union> {(d, ci, i) | ci i. ci < nb_cis \<and> i < k}" k m] Suc by simp
  qed (use f in simp)
  moreover have "words_of nb_cis xm {d} = {(d, ci, i) | ci i. ci < nb_cis \<and> i < unat (tm_size xm) div 8}"
    by (auto simp: words_of_def)
  ultimately show ?thesis
    using True ty by (simp add: read_dpu_def)
next
  case False
  then have "ptr xm ! (8 * d + ci) = None" if "ci < nb_cis" for ci
    using that by (simp add: do_dpu_transfer_def list_ex_iff)
  then have "fetched base xm (T \<union> words_of nb_cis xm {d}) m (mem s)"
    using f unfolding fetched_def words_of_def by fastforce
  then show ?thesis
    using False by (simp add: read_dpu_def)
qed

lemma words_of_empty [simp]: "words_of nb_cis xm {} = {}"
  by (simp add: words_of_def)

lemma words_of_valid: "D \<subseteq> {..<8} \<Longrightarrow> words_of nb_cis xm D \<subseteq> valid_words nb_cis xm"
  by (auto simp: words_of_def valid_words_def)

lemma words_of_Un: "words_of nb_cis xm (D \<union> E) = words_of nb_cis xm D \<union> words_of nb_cis xm E"
  by (auto simp: words_of_def)

lemma threads_read_spec:
  assumes wf: "xfer_wf base nb_cis xm" and dis: "buffers_disjoint xm" and ty: "tm_type xm = DPU_DEFAULT_XFER_MATRIX"
    and b: "b \<le> 8" and T: "T \<subseteq> valid_words nb_cis xm" and f: "fetched base xm T m (mem s)"
  shows "fetched base xm (T \<union> words_of nb_cis xm {a..<b}) m (mem (threads_read_from_rank zeros base nb_cis xm a b s))"
proof (cases "tm_size xm = 0")
  case True
  then have "words_of nb_cis xm {a..<b} = {}"
    by (simp add: words_of_def)
  then show ?thesis
    using True f by (simp add: threads_read_from_rank_def)
next
  case False
  have "fetched base xm (T \<union> words_of nb_cis xm (set ds)) m (mem (foldl (read_dpu zeros base nb_cis xm) s ds))"
    if "set ds \<subseteq> {..<8}" for ds
    using that T f
  proof (induction ds arbitrary: T s)
    case (Cons d ds)
    then have d: "d < 8" by simp
    have "T \<union> words_of nb_cis xm {d} \<subseteq> valid_words nb_cis xm"
      using Cons.prems(2) d words_of_valid [of "{d}"] by simp
    moreover note read_dpu_spec [OF wf dis Cons.prems(2) d Cons.prems(3) ty, of zeros]
    moreover have "T \<union> words_of nb_cis xm {d} \<union> words_of nb_cis xm (set ds) = T \<union> words_of nb_cis xm (set (d # ds))"
      by (auto simp: words_of_def)
    ultimately show ?case
      using Cons.IH [of "T \<union> words_of nb_cis xm {d}" "read_dpu zeros base nb_cis xm s d"] Cons.prems(1) by simp
  qed simp
  moreover have "set [a..<b] \<subseteq> {..<8}"
    using b by auto
  ultimately have "fetched base xm (T \<union> words_of nb_cis xm (set [a..<b])) m
      (mem (foldl (read_dpu zeros base nb_cis xm) s [a..<b]))"
    by blast
  then show ?thesis
    using False by (simp add: threads_read_from_rank_def)
qed

lemma thread_read_spec:
  assumes wf: "xfer_wf base (unat (tr_nb_cis tr)) xm" and dis: "buffers_disjoint xm"
    and ty: "tm_type xm = DPU_DEFAULT_XFER_MATRIX" and nb: "nb_dpus_per_ci pool \<le> 8"
    and T: "T \<subseteq> valid_words (unat (tr_nb_cis tr)) xm" and f: "fetched base xm T m (mem s)"
  shows "fetched base xm (T \<union> words_of (unat (tr_nb_cis tr)) xm (thread_dpus pool t)) m
    (mem (thread_do_mram_xfer zeros base tr thread_mram_xfer_read xm pool t s))"
proof (cases "t < nb_threads_for_xfer pool")
  case True
  let ?a = "unat (t * (nb_dpus_per_ci pool div nb_threads_for_xfer pool))"
  let ?b = "unat (if t = nb_threads_for_xfer pool - 1 then nb_dpus_per_ci pool
    else (t + 1) * (nb_dpus_per_ci pool div nb_threads_for_xfer pool))"
  have dpus: "thread_dpus pool t = {?a..<?b}"
    using True by (simp add: thread_dpus_def)
  have "unat (nb_dpus_per_ci pool) \<le> 8"
    using nb by (simp add: word_le_nat_alt)
  then have b: "?b \<le> 8"
    using thread_range(2,3) [OF nb True] by (auto split: if_splits)
  show ?thesis
    using threads_read_spec [OF wf dis ty b T f, of ?a zeros] True unfolding dpus
    by (simp add: thread_do_mram_xfer_def Let_def)
qed (use f in \<open>simp add: thread_do_mram_xfer_def thread_dpus_def\<close>)

lemma thread_dpus_8: "nb_dpus_per_ci pool \<le> 8 \<Longrightarrow> thread_dpus pool t \<subseteq> {..<8}"
  using thread_dpus_bound [of pool t] by (auto simp: word_le_nat_alt)

lemma threads_read:
  assumes wf: "xfer_wf base (unat (tr_nb_cis tr)) xm" and dis: "buffers_disjoint xm"
    and ty: "tm_type xm = DPU_DEFAULT_XFER_MATRIX" and nb: "nb_dpus_per_ci pool \<le> 8"
    and T: "T \<subseteq> valid_words (unat (tr_nb_cis tr)) xm" and f: "fetched base xm T m m'"
  shows "fetched base xm (T \<union> words_of (unat (tr_nb_cis tr)) xm (\<Union>t \<in> set order. thread_dpus pool t)) m
    (fst (foldl (thread_step zeros stacks tr base xm thread_mram_xfer_read pool) (m', bufs) order))"
  using T f
proof (induction order arbitrary: T m' bufs)
  case (Cons t ts)
  let ?W = "words_of (unat (tr_nb_cis tr)) xm (thread_dpus pool t)"
  let ?s = "thread_do_mram_xfer zeros base tr thread_mram_xfer_read xm pool t
    \<lparr>mem = m', sg_buffers = bufs, cache_line = stacks t\<rparr>"
  have "fetched base xm (T \<union> ?W) m (mem ?s)"
    using Cons.prems(2) by (intro thread_read_spec [OF wf dis ty nb Cons.prems(1)]) simp
  moreover have "T \<union> ?W \<subseteq> valid_words (unat (tr_nb_cis tr)) xm"
    using Cons.prems(1) words_of_valid [OF thread_dpus_8 [OF nb]] by blast
  ultimately have "fetched base xm (T \<union> ?W \<union> words_of (unat (tr_nb_cis tr)) xm (\<Union>t \<in> set ts. thread_dpus pool t)) m
      (fst (foldl (thread_step zeros stacks tr base xm thread_mram_xfer_read pool) (mem ?s, sg_buffers ?s) ts))"
    by (intro Cons.IH)
  moreover have "foldl (thread_step zeros stacks tr base xm thread_mram_xfer_read pool) (m', bufs) (t # ts)
      = foldl (thread_step zeros stacks tr base xm thread_mram_xfer_read pool) (mem ?s, sg_buffers ?s) ts"
    by (simp add: thread_step_def Let_def)
  ultimately show ?case
    by (simp add: words_of_Un Un_assoc)
qed simp

lemma read_transfer:
  assumes wf: "xfer_wf base (unat (tr_nb_cis tr)) xm" and dis: "buffers_disjoint xm"
    and ty: "tm_type xm = DPU_DEFAULT_XFER_MATRIX" and th: "enough_threads tr pool order xm"
    and x: "xeon_sp_init_and_do_xfer zeros order stacks tr base xm thread_mram_xfer_read (pool, m, bufs) = (pool', m', bufs')"
  shows "fetched base xm (words_of (unat (tr_nb_cis tr)) xm {..<unat (nb_dpus_per_ci pool)}) m m'"
proof -
  let ?pool = "pool\<lparr>nb_threads_for_xfer := nb_threads_of_size (xfer_thread_conf tr) (tm_size xm)\<rparr>"
  have nb: "nb_dpus_per_ci ?pool \<le> 8"
    using th by (simp add: enough_threads_def)
  have "fetched base xm ({} \<union> words_of (unat (tr_nb_cis tr)) xm (\<Union>t \<in> set order. thread_dpus ?pool t)) m
      (fst (foldl (thread_step zeros stacks tr base xm thread_mram_xfer_read ?pool) (m, bufs) order))"
    by (rule threads_read [OF wf dis ty nb]) (simp_all add: fetched_def)
  moreover have "foldl (thread_step zeros stacks tr base xm thread_mram_xfer_read ?pool) (m, bufs) order = (m', bufs')"
    using x by (auto simp: xeon_sp_init_and_do_xfer_def Let_def)
  ultimately show ?thesis
    using all_dpus_of_threads [OF th] by simp
qed

lemma read_bytes_words:
  fixes a b :: u64
  assumes "\<And>i. i < n div 8 \<Longrightarrow> read_bytes m (a + 8 * of_nat i) 8 = read_bytes m' (b + 8 * of_nat i) 8" "n mod 8 = 0"
  shows "read_bytes m a n = read_bytes m' b n"
proof (rule nth_equalityI)
  fix k assume "k < length (read_bytes m a n)"
  then have k: "k < n" by simp
  then have "k div 8 < n div 8"
    using assms(2) by (metis div_less_iff_less_mult minus_mod_eq_div_mult diff_zero zero_less_numeral)
  then have "read_bytes m (a + 8 * of_nat (k div 8)) 8 ! (k mod 8) = read_bytes m' (b + 8 * of_nat (k div 8)) 8 ! (k mod 8)"
    using assms(1) by simp
  moreover have "8 * of_nat (k div 8) + of_nat (k mod 8) = (of_nat k :: u64)"
    by (metis mult_div_mod_eq of_nat_add of_nat_mult of_nat_numeral)
  ultimately show "read_bytes m a n ! k = read_bytes m' b n ! k"
    using k by (simp add: add.assoc)
qed simp

lemma xfer_rank_result:
  assumes "channel_id_to_pool_id channel_id < length (pools ctx)"
  shows "\<exists>m' bufs'. xeon_sp_init_and_do_xfer zeros order stacks tr base xm dir
        (pools ctx ! channel_id_to_pool_id channel_id, m, bufs)
      = ((pools ctx ! channel_id_to_pool_id channel_id)
           \<lparr>nb_threads_for_xfer := nb_threads_of_size (xfer_thread_conf tr) (tm_size xm)\<rparr>, m', bufs')
    \<and> xeon_sp_xfer_rank zeros order stacks tr base channel_id xm dir (ctx, m, bufs)
      = Some (ctx\<lparr>pools := (pools ctx)[channel_id_to_pool_id channel_id :=
          (pools ctx ! channel_id_to_pool_id channel_id)
            \<lparr>nb_threads_for_xfer := nb_threads_of_size (xfer_thread_conf tr) (tm_size xm)\<rparr>]\<rparr>, m', bufs')"
  using assms
  by (simp add: xeon_sp_xfer_rank_def xeon_sp_acquire_pool_def xeon_sp_init_and_do_xfer_def Let_def split: prod.splits)


definition sim_base :: u64 where "sim_base = 0x10000000000"

definition sim_matrix :: "nat \<Rightarrow> u32 \<Rightarrow> dpu_transfer_matrix" where
  "sim_matrix p n = \<lparr>ptr = (replicate 64 None)[9 := Some p], tm_offset = 0x4000, tm_size = n, tm_type = DPU_DEFAULT_XFER_MATRIX\<rparr>"

definition sim_tr :: dpu_region_address_translation where
  "sim_tr = \<lparr>tr_nb_cis = 8, tr_nb_dpus_per_ci = 8, xfer_thread_conf = default_xfer_thread_configuration, one_read = False\<rparr>"

definition sim_pool_priv :: xeon_sp_private where
  "sim_pool_priv = \<lparr>nb_dpus_per_ci = 8, nb_threads_for_xfer = 0, nb_threads = 4, waiting = [0, 1, 2, 3]\<rparr>"

definition sim_ctx :: xeon_sp_ctx where
  "sim_ctx = \<lparr>pools = replicate 31 sim_pool_priv, nb_region_per_channel = (replicate 31 0)[2 := 1]\<rparr>"

lemma buffer_below_region:
  assumes "p + n \<le> unat base" "unat base + 2 ^ 33 \<le> 2 ^ 64"
  shows "buffer_outside base p n"
  unfolding buffer_outside_def in_range_def
proof (intro allI impI)
  fix k assume k: "k < n"
  have u: "unat (of_nat (p + k) :: u64) = p + k"
    using assms k unsigned_less [where 'a = nat, of base] by (simp add: unat_of_nat del: of_nat_add)
  have "unat (of_nat (p + k) - base) = 2 ^ 64 + (p + k) - unat base"
    using unat_sub_if' [of "of_nat (p + k)" base] assms k unfolding u by simp
  then show "\<not> unat (of_nat p + of_nat k - base) < 2 ^ 33"
    using assms k by simp
qed

lemma sim_matrix_wf:
  assumes "p + unat n \<le> 0x10000000000" "unat n mod 8 = 0" "unat n \<le> 2 ^ 20"
  shows "xfer_wf sim_base 8 (sim_matrix p n)" "buffers_disjoint (sim_matrix p n)"
  using assms buffer_below_region [of p "unat n" sim_base]
  by (auto simp: xfer_wf_def sim_matrix_def sim_base_def buffers_disjoint_def nth_list_update split: if_splits)


section \<open>Threads and ranks of a channel\<close>

lemma configuration_sel:
  "nb_thread_per_pool (xeon_sp_set_configuration conf) =
     (if nb_thread_per_pool conf = 0xFFFFFFFF then 4 else if nb_thread_per_pool conf > 8 then 8 else nb_thread_per_pool conf)"
  "threshold_1_thread (xeon_sp_set_configuration conf) =
     (if threshold_1_thread conf = 0xFFFFFFFF then 1024 else threshold_1_thread conf)"
  "threshold_2_threads (xeon_sp_set_configuration conf) =
     (if threshold_2_threads conf = 0xFFFFFFFF then 2048 else threshold_2_threads conf)"
  "threshold_4_threads (xeon_sp_set_configuration conf) =
     (if threshold_4_threads conf = 0xFFFFFFFF then 32768 else threshold_4_threads conf)"
  by (simp_all add: xeon_sp_set_configuration_def default_xfer_thread_configuration_def Let_def)

lemma configuration_bound: "nb_thread_per_pool (xeon_sp_set_configuration conf) \<le> 8"
  by (auto simp: configuration_sel not_less)

lemma configuration_pos: "0 < nb_thread_per_pool conf \<Longrightarrow> 0 < nb_thread_per_pool (xeon_sp_set_configuration conf)"
  by (simp add: configuration_sel)

lemma configuration_idem: "xeon_sp_set_configuration (xeon_sp_set_configuration conf) = xeon_sp_set_configuration conf"
  by (rule dpu_transfer_thread_configuration.equality) (simp_all add: configuration_sel)

lemma unat_ucast_u8: "n \<le> 8 \<Longrightarrow> unat (ucast (n :: u32) :: u8) = unat n"
  by (simp add: unsigned_ucast_eq word_le_nat_alt take_bit_nat_eq_self)

lemma nb_threads_of_size_bounds:
  assumes "0 < nb_thread_per_pool conf" "nb_thread_per_pool conf \<le> 8"
  shows "0 < nb_threads_of_size conf n \<and> nb_threads_of_size conf n \<le> ucast (nb_thread_per_pool conf)"
  using assms unat_ucast_u8 [OF assms(2)]
  by (auto simp: nb_threads_of_size_def word_le_nat_alt word_less_nat_alt)

lemma create_all: "create_threads (\<lambda>_. 0) ts created = (0, created @ ts)"
  by (induction ts arbitrary: created) simp_all

text \<open>
  The first rank of a channel, when the system calls succeed: the pool of the channel then has the threads that every transfer
  of that rank asks for, for any size of transfer; and when the rank is destroyed the threads have ended, the pool is as
  it was without threads and the channel has no rank any more.
\<close>

lemma first_rank_of_a_channel:
  assumes "unat channel_id < 31" "length (pools ctx) = 31" "length (nb_region_per_channel ctx) = 31"
    and "nb_region_per_channel ctx ! unat channel_id = 0" "waiting (pools ctx ! unat channel_id) = []"
    and "0 < nb_thread_per_pool (xfer_thread_conf tr)" "tr_nb_dpus_per_ci tr \<le> 8"
  shows "\<exists>tr' ctx' ctx''. xeon_sp_init_rank 0 (\<lambda>_. 0) channel_id (tr, ctx) = Some (0, tr', ctx')
    \<and> nb_region_per_channel ctx' = (nb_region_per_channel ctx)[unat channel_id := 1]
    \<and> (\<forall>order xm. set order = set (waiting (pools ctx' ! unat channel_id)) \<longrightarrow>
         enough_threads tr' (pools ctx' ! unat channel_id) order xm)
    \<and> xeon_sp_destroy_rank channel_id (tr', ctx') = Some (tr', ctx'')
    \<and> nb_region_per_channel ctx'' = nb_region_per_channel ctx
    \<and> waiting (pools ctx'' ! unat channel_id) = []"
proof -
  define c where "c = unat channel_id"
  let ?conf = "xeon_sp_set_configuration (xfer_thread_conf tr)"
  let ?n = "ucast (nb_thread_per_pool ?conf) :: u8"
  let ?tr = "tr\<lparr>xfer_thread_conf := ?conf\<rparr>"
  let ?pool = "(pools ctx ! c)\<lparr>nb_dpus_per_ci := tr_nb_dpus_per_ci tr, nb_threads := ?n, waiting := thread_ids ?n\<rparr>"
  let ?ctx = "ctx\<lparr>nb_region_per_channel := (nb_region_per_channel ctx)[c := 1], pools := (pools ctx)[c := ?pool]\<rparr>"
  have c: "c < 31" and ch: "\<not> unat channel_id > MAX_NB_CHANNEL" and id: "channel_id_to_pool_id channel_id = c"
    using assms(1) by (auto simp: c_def channel_id_to_pool_id_def)
  have init: "xeon_sp_init_rank 0 (\<lambda>_. 0) channel_id (tr, ctx) = Some (0, ?tr, ?ctx)"
    using ch c id assms(2-5) unfolding c_def [symmetric]
    by (simp add: xeon_sp_init_rank_def Let_def create_all c_def [symmetric])
  have "(nb_region_per_channel ctx)[c := 0] = nb_region_per_channel ctx"
    using assms(4) list_update_id [of "nb_region_per_channel ctx" c] by (simp add: c_def)
  then have "\<exists>ctx''. xeon_sp_destroy_rank channel_id (?tr, ?ctx) = Some (?tr, ctx'')
      \<and> nb_region_per_channel ctx'' = nb_region_per_channel ctx \<and> waiting (pools ctx'' ! c) = []"
    using ch c id assms(2,3)
    by (simp add: xeon_sp_destroy_rank_def Let_def configuration_idem c_def [symmetric] filter_empty_conv)
  moreover have "enough_threads ?tr (pools ?ctx ! c) order xm" if "set order = set (waiting (pools ?ctx ! c))" for order xm
  proof -
    note b = nb_threads_of_size_bounds [OF configuration_pos [OF assms(6)] configuration_bound, of "tm_size xm"]
    have p: "pools ?ctx ! c = ?pool"
      using c assms(2) by simp
    have o: "set order = set (thread_ids ?n)"
      unfolding that p by simp
    have sub: "set (thread_ids k) \<subseteq> set (thread_ids ?n)" if "k \<le> ?n" for k
      using that by (auto simp: in_thread_ids)
    show ?thesis
      unfolding enough_threads_def p o using b assms(7) sub by simp
  qed
  moreover have "nb_region_per_channel ?ctx = (nb_region_per_channel ctx)[c := 1]"
    by simp
  ultimately show ?thesis
    using init unfolding c_def [symmetric] by blast
qed

lemma first_rank_of_a_channel_witness:
  "\<exists>tr' ctx' ctx''. xeon_sp_init_rank 0 (\<lambda>_. 0) 5 (sim_tr, sim_ctx\<lparr>pools := replicate 31 (sim_pool_priv\<lparr>waiting := []\<rparr>)\<rparr>)
       = Some (0, tr', ctx')
    \<and> enough_threads tr' (pools ctx' ! 5) (waiting (pools ctx' ! 5)) (sim_matrix 4096 (2 ^ 20))
    \<and> xeon_sp_destroy_rank 5 (tr', ctx') = Some (tr', ctx'')
    \<and> nb_region_per_channel ctx'' = nb_region_per_channel sim_ctx \<and> waiting (pools ctx'' ! 5) = []"
proof -
  let ?ctx = "sim_ctx\<lparr>pools := replicate 31 (sim_pool_priv\<lparr>waiting := []\<rparr>)\<rparr>"
  have "unat (5 :: u8) < 31" "length (pools ?ctx) = 31" "length (nb_region_per_channel ?ctx) = 31"
    "nb_region_per_channel ?ctx ! unat (5 :: u8) = 0" "waiting (pools ?ctx ! unat (5 :: u8)) = []"
    "0 < nb_thread_per_pool (xfer_thread_conf sim_tr)" "tr_nb_dpus_per_ci sim_tr \<le> 8"
    by (simp_all add: sim_ctx_def sim_tr_def default_xfer_thread_configuration_def)
  from first_rank_of_a_channel [OF this] obtain tr' ctx' ctx'' where r:
    "xeon_sp_init_rank 0 (\<lambda>_. 0) 5 (sim_tr, ?ctx) = Some (0, tr', ctx')"
    "\<forall>order xm. set order = set (waiting (pools ctx' ! unat (5 :: u8))) \<longrightarrow>
       enough_threads tr' (pools ctx' ! unat (5 :: u8)) order xm"
    "xeon_sp_destroy_rank 5 (tr', ctx') = Some (tr', ctx'')"
    "nb_region_per_channel ctx'' = nb_region_per_channel ?ctx" "waiting (pools ctx'' ! unat (5 :: u8)) = []"
    by blast
  then show ?thesis
    by (intro exI [of _ tr'] exI [of _ ctx'] exI [of _ ctx'']) simp
qed



text \<open>
  The bounds on the channels: an invalid channel is served by the last pool, but the channel 31, which no test excludes, is
  outside of the arrays, and a channel between 32 and 254, which is counted for the last pool, has its transfers outside of them.
\<close>

lemma channel_31_out_of_bounds:
  assumes "length (nb_region_per_channel ctx) = 31"
  shows "xeon_sp_init_rank barrier create 31 (tr, ctx) = None"
  using assms by (simp add: xeon_sp_init_rank_def Let_def)

lemma channels_above_31_out_of_bounds:
  assumes "length (pools ctx) = 31" "31 < unat channel_id" "channel_id \<noteq> 0xFF"
  shows "xeon_sp_xfer_rank zeros order stacks tr base channel_id xm dir (ctx, m, bufs) = None"
  using assms by (simp add: xeon_sp_xfer_rank_def xeon_sp_acquire_pool_def channel_id_to_pool_id_def)

section \<open>The control interfaces\<close>

text \<open>
  A command reaches the control interfaces in the order of the bytes that they expect, without changing MRAM; a result is the last
  of two or three loads, and three are done after each command.
\<close>

lemma load_lines_last:
  "load_lines load (Suc n) input h = (fst (load (((snd \<circ> load) ^^ n) h)), ((snd \<circ> load) ^^ Suc n) h)"
proof (induction n arbitrary: input h)
  case 0
  then show ?case
    by (simp split: prod.split)
next
  case (Suc n)
  have "load_lines load (Suc (Suc n)) input h = load_lines load (Suc n) (fst (load h)) (snd (load h))"
    by (simp split: prod.splits)
  then show ?case
    by (simp only: Suc funpow_Suc_right o_apply)
qed

lemma command_then_result:
  assumes "length block = 64" "\<And>h. length (fst (load h)) = 64" "d < 8" "word_addr x"
  shows "read_bytes (snd (xeon_sp_write_to_cis base block (tr, m))) (base + 0x20000) 64 = transposed block"
    and "read_bytes (snd (xeon_sp_write_to_cis base block (tr, m))) (line_addr base d x) 64 = read_bytes m (line_addr base d x) 64"
    and "fst (xeon_sp_read_from_cis load input (fst (xeon_sp_write_to_cis base block (tr, m)), h))
      = transposed (fst (load (((snd \<circ> load) ^^ 2) h)))"
proof -
  have w: "xeon_sp_write_to_cis base block (tr, m) = (tr\<lparr>one_read := False\<rparr>, write_bytes m (base + 0x20000) (transposed block))"
    using assms(1) by (simp add: xeon_sp_write_to_cis_def byte_interleave_avx512_eq)
  show "read_bytes (snd (xeon_sp_write_to_cis base block (tr, m))) (base + 0x20000) 64 = transposed block"
    using read_after_write [of 64 "transposed block" m "base + 0x20000"] by (simp add: w)
  have "line_pos d (word_index x) + 64 \<le> 2 ^ 33"
    using assms(4,3) by (rule line_in_region)
  then have "disjoint_ranges (base + of_nat 0x20000) (length (transposed block)) (base + of_nat (line_pos d (word_index x))) 64"
    using line_pos_outside_ci [OF assms(3), of "word_index x"] by (intro disjoint_ranges_offsets) auto
  from read_write_disjoint [OF this, of m]
  show "read_bytes (snd (xeon_sp_write_to_cis base block (tr, m))) (line_addr base d x) 64 = read_bytes m (line_addr base d x) 64"
    by (simp add: w line_addr_def)
  show "fst (xeon_sp_read_from_cis load input (fst (xeon_sp_write_to_cis base block (tr, m)), h))
      = transposed (fst (load (((snd \<circ> load) ^^ 2) h)))"
    using load_lines_last [of load 2 input h] assms(2)
    by (simp add: w xeon_sp_read_from_cis_def eval_nat_numeral byte_interleave_avx512_eq del: funpow.simps load_lines.simps)
qed

end
