(* ===== verification/UfiCi.thy ===== *)
theory UfiCi
  imports Rank
begin

text \<open>
  The protocol with the control interfaces of a rank (\<^verbatim>\<open>ufi/src/ufi_ci.c\<close>): a command is committed to the interfaces, and
  their replies are read until each has answered. A reply carries the colour of the interface, eight copies of one bit that
  every command inverts; up to three copies may be wrong, and tell a fault. The functions \<^verbatim>\<open>commit_commands\<close> and
  \<^verbatim>\<open>update_commands\<close> of the backend are arguments, and so is whether the debug log is enabled, for the buffer of the
  last commands (\<^verbatim>\<open>ufi_rank_utils.h\<close>). The log itself is left out.
\<close>

section \<open>State\<close>

abbreviation (input) DPU_ERR_TIMEOUT :: dpu_error_t where "DPU_ERR_TIMEOUT \<equiv> 25"
abbreviation (input) DPU_MAX_NR_GROUPS :: nat where "DPU_MAX_NR_GROUPS \<equiv> 8"
abbreviation (input) CI_EMPTY :: u64 where "CI_EMPTY \<equiv> 0"
abbreviation (input) CI_IDENTITY :: u64 where "CI_IDENTITY \<equiv> 0x01FF000000000000"
abbreviation (input) CI_NOP :: u64 where "CI_NOP \<equiv> 0xFF00000000000000"
abbreviation (input) NB_RETRY_FOR_VALID_RESULT :: nat where "NB_RETRY_FOR_VALID_RESULT \<equiv> 100"
abbreviation (input) TIMEOUT_COLOR :: nat where "TIMEOUT_COLOR \<equiv> 100000"

datatype dpu_slice_target =
    DPU_SLICE_TARGET_NONE
  | DPU_SLICE_TARGET_DPU u8
  | DPU_SLICE_TARGET_ALL
  | DPU_SLICE_TARGET_GROUP u8

record dpu_configuration_slice_info_t =
  slice_target :: dpu_slice_target
  dpus_per_group :: "u8 list"

datatype direction = WRITE_DIR | READ_DIR

record cmds_buffer_t =
  buffer_cmds :: "(u64 list \<times> direction) list"
  idx_last :: nat
  buffer_nb :: nat
  has_wrapped :: bool

record 'h ci_rank =
  fault_decode :: u8
  fault_collide :: u8
  color :: u8
  slice_info :: "dpu_configuration_slice_info_t list"
  rank_data :: "u64 list"
  cmds_buffer :: cmds_buffer_t
  ci_hw :: 'h

record ci_description =
  nr_cis :: nat
  nr_dpus :: nat
  reset_wait_duration :: u8
  clock_division :: u8
  chip_id :: u8
  logd_enabled :: bool

record 'h ci_handler =
  commit_commands :: "u64 list \<Rightarrow> 'h \<Rightarrow> dpu_rank_status_e \<times> 'h"
  update_commands :: "u64 list \<Rightarrow> 'h \<Rightarrow> dpu_rank_status_e \<times> u64 list \<times> 'h"

definition CI_MASK_ON :: "u8 \<Rightarrow> nat \<Rightarrow> bool" where
  "CI_MASK_ON msk ci \<longleftrightarrow> msk AND push_bit ci 1 \<noteq> 0"

definition is_chip_v1_4 :: "ci_description \<Rightarrow> bool" where
  "is_chip_v1_4 d \<longleftrightarrow> chip_id d AND 0xF0 = 0x40"

section \<open>Commit and update\<close>

text \<open>The ring of the last commands; its size is the length of the list.\<close>

definition debug_record_last_cmd :: "ci_description \<Rightarrow> direction \<Rightarrow> u64 list \<Rightarrow> 'h ci_rank op" where
  "debug_record_last_cmd d direction commands rank =
     (if \<not> logd_enabled d then (DPU_OK, rank)
      else let debug = cmds_buffer rank;
               i = idx_last debug;
               cmds = (buffer_cmds debug)[i := (take (nr_cis d) commands @ drop (nr_cis d) (fst (buffer_cmds debug ! i)), direction)];
               debug = debug\<lparr>buffer_cmds := cmds, idx_last := i + 1\<rparr>;
               debug = (if \<not> has_wrapped debug
                 then if idx_last debug \<ge> length cmds then debug\<lparr>has_wrapped := True, buffer_nb := length cmds\<rparr>
                      else debug\<lparr>buffer_nb := buffer_nb debug + 1\<rparr>
                 else debug);
               debug = debug\<lparr>idx_last := idx_last debug mod length cmds\<rparr>
           in (DPU_OK, rank\<lparr>cmds_buffer := debug\<rparr>))"

definition ci_commit_commands :: "ci_description \<Rightarrow> 'h ci_handler \<Rightarrow> u64 list \<Rightarrow> 'h ci_rank op" where
  "ci_commit_commands d H commands rank =
     FF (debug_record_last_cmd d WRITE_DIR commands rank) (\<lambda>rank.
     case commit_commands H commands (ci_hw rank) of
       (status, h) \<Rightarrow> (if status \<noteq> DPU_RANK_SUCCESS then DPU_ERR_DRIVER else DPU_OK, rank\<lparr>ci_hw := h\<rparr>))"

text \<open>The buffer that is read into is part of the state.\<close>

definition ci_update_commands :: "ci_description \<Rightarrow> 'h ci_handler \<Rightarrow> (u64 list \<times> 'h ci_rank) op" where
  "ci_update_commands d H =
     (\<lambda>(commands, rank). case update_commands H commands (ci_hw rank) of
        (status, commands, h) \<Rightarrow>
          if status \<noteq> DPU_RANK_SUCCESS then (DPU_ERR_DRIVER, commands, rank\<lparr>ci_hw := h\<rparr>)
          else case debug_record_last_cmd d READ_DIR commands (rank\<lparr>ci_hw := h\<rparr>) of (status, rank) \<Rightarrow> (status, commands, rank))"

definition ci_prepare_mask :: "u8 \<Rightarrow> u64 \<Rightarrow> u64 list" where
  "ci_prepare_mask msk data = map (\<lambda>each_ci. if CI_MASK_ON msk each_ci then data else CI_EMPTY) [0..<DPU_MAX_NR_CIS]"

definition ci_fill_selected_dpu_mask :: "ci_description \<Rightarrow> 'h ci_rank \<Rightarrow> nat \<Rightarrow> dpu_error_t \<times> u8" where
  "ci_fill_selected_dpu_mask d rank ci =
     (let info = slice_info rank ! ci
      in case slice_target info of
           DPU_SLICE_TARGET_ALL \<Rightarrow> (DPU_OK, push_bit (nr_dpus d) 1 - 1)
         | DPU_SLICE_TARGET_DPU i \<Rightarrow> (DPU_OK, push_bit (unat i) 1)
         | DPU_SLICE_TARGET_GROUP group_id \<Rightarrow> (DPU_OK, dpus_per_group info ! unat group_id)
         | DPU_SLICE_TARGET_NONE \<Rightarrow> (DPU_ERR_INTERNAL, 0))"

section \<open>Execution of commands\<close>

definition invert_color :: "u8 \<Rightarrow> 'h ci_rank \<Rightarrow> 'h ci_rank" where
  "invert_color ci_mask rank = rank\<lparr>color := color rank XOR ci_mask\<rparr>"

definition compute_ci_mask :: "ci_description \<Rightarrow> u64 list \<Rightarrow> u8" where
  "compute_ci_mask d commands =
     foldl (\<lambda>ci_mask each_ci. if commands ! each_ci \<noteq> CI_EMPTY then ci_mask OR push_bit each_ci 1 else ci_mask) 0 [0..<nr_cis d]"

text \<open>What a command waits for: the mask and the expected value of the replies, and the interfaces with nothing to do.\<close>

record cmd_masks =
  result_masks :: "u64 list"
  expected :: "u64 list"
  cis :: u8
  is_done :: "bool list"

fun compute_masks_loop :: "ci_description \<Rightarrow> 'h ci_rank \<Rightarrow> u64 list \<Rightarrow> bool \<Rightarrow> nat list \<Rightarrow> cmd_masks op" where
  "compute_masks_loop d rank commands add_select_mask [] c = (DPU_OK, c)"
| "compute_masks_loop d rank commands add_select_mask (each_ci # rest) c =
     (if commands ! each_ci \<noteq> CI_EMPTY
      then let c = c\<lparr>cis := cis c OR push_bit each_ci 1,
                     result_masks := (result_masks c)[each_ci := result_masks c ! each_ci OR 0xFF0000FF00000000],
                     expected := (expected c)[each_ci := expected c ! each_ci OR 0x000000FF00000000]\<rparr>
           in if add_select_mask
              then let c = c\<lparr>result_masks := (result_masks c)[each_ci := result_masks c ! each_ci OR (push_bit (nr_dpus d) 1 - 1)]\<rparr>
                   in case ci_fill_selected_dpu_mask d rank each_ci of
                        (status, dpu_mask) \<Rightarrow>
                          if status \<noteq> DPU_OK then (status, c)
                          else compute_masks_loop d rank commands add_select_mask rest
                                 (c\<lparr>expected := (expected c)[each_ci := expected c ! each_ci OR ucast dpu_mask]\<rparr>)
              else compute_masks_loop d rank commands add_select_mask rest c
      else compute_masks_loop d rank commands add_select_mask rest (c\<lparr>is_done := (is_done c)[each_ci := True]\<rparr>))"

definition no_masks :: cmd_masks where
  "no_masks = \<lparr>result_masks = replicate DPU_MAX_NR_CIS 0, expected = replicate DPU_MAX_NR_CIS 0, cis = 0,
     is_done = replicate DPU_MAX_NR_CIS False\<rparr>"

definition compute_masks :: "ci_description \<Rightarrow> 'h ci_rank \<Rightarrow> u64 list \<Rightarrow> bool \<Rightarrow> dpu_error_t \<times> cmd_masks" where
  "compute_masks d rank commands add_select_mask = compute_masks_loop d rank commands add_select_mask [0..<nr_cis d] no_masks"

definition reply_color :: "u64 \<Rightarrow> u8" where
  "reply_color result = ucast (drop_bit 48 (result AND 0x00FF000000000000))"

text \<open>The fault that a number of wrong copies tells; four are inconsistent.\<close>

definition record_fault :: "u8 \<Rightarrow> nat \<Rightarrow> 'h ci_rank \<Rightarrow> 'h ci_rank option" where
  "record_fault ci_mask nb_bits_set rank =
     (if nb_bits_set = 0 then Some rank
      else if nb_bits_set = 1 then Some (rank\<lparr>fault_decode := fault_decode rank OR ci_mask\<rparr>)
      else if nb_bits_set = 2 then Some (rank\<lparr>fault_collide := fault_collide rank OR ci_mask\<rparr>)
      else if nb_bits_set = 3
      then Some (rank\<lparr>fault_collide := fault_collide rank OR ci_mask, fault_decode := fault_decode rank OR ci_mask\<rparr>)
      else None)"

text \<open>
  The loop over the interfaces that have not answered. An inconsistent number of bits leaves the loop after the interface
  has been marked as done.
\<close>

fun finished_loop :: "u64 list \<Rightarrow> cmd_masks \<Rightarrow> u8 \<Rightarrow> nat list \<Rightarrow> bool list \<Rightarrow> 'h ci_rank \<Rightarrow> bool \<times> bool list \<times> 'h ci_rank" where
  "finished_loop data c expected_color [] done_cis rank = (True, done_cis, rank)"
| "finished_loop data c expected_color (each_ci # rest) done_cis rank =
     (if \<not> done_cis ! each_ci
      then let result = data ! each_ci
           in if result AND result_masks c ! each_ci \<noteq> expected c ! each_ci \<and> result AND CI_NOP \<noteq> CI_NOP
              then (False, done_cis, rank)
              else let nb_bits_set = builtin_popcount (reply_color result);
                       ci_mask = push_bit each_ci 1;
                       ci_color = expected_color AND ci_mask
                   in if (if ci_color \<noteq> 0 then nb_bits_set \<le> 3 else nb_bits_set \<ge> 5) then (False, done_cis, rank)
                      else let done_cis = done_cis[each_ci := True];
                               nb_bits_set = (if ci_color \<noteq> 0 then 8 - nb_bits_set else nb_bits_set)
                           in case record_fault ci_mask nb_bits_set rank of
                                None \<Rightarrow> (False, done_cis, rank)
                              | Some rank \<Rightarrow> finished_loop data c expected_color rest done_cis rank
      else finished_loop data c expected_color rest done_cis rank)"

definition determine_if_commands_are_finished ::
  "ci_description \<Rightarrow> u64 list \<Rightarrow> cmd_masks \<Rightarrow> u8 \<Rightarrow> bool list \<Rightarrow> 'h ci_rank \<Rightarrow> bool \<times> bool list \<times> 'h ci_rank" where
  "determine_if_commands_are_finished d data c expected_color done_cis rank =
     finished_loop data c expected_color [0..<nr_cis d] done_cis rank"

text \<open>The loop of \<^verbatim>\<open>exec_cmd\<close>, with \<open>nr_retries\<close> retries left. The replies are read into \<^verbatim>\<open>rank->data\<close>.\<close>

definition update_rank_data :: "ci_description \<Rightarrow> 'h ci_handler \<Rightarrow> 'h ci_rank op" where
  "update_rank_data d H rank =
     (case ci_update_commands d H (rank_data rank, rank) of (status, data, rank) \<Rightarrow> (status, rank\<lparr>rank_data := data\<rparr>))"

fun exec_wait :: "ci_description \<Rightarrow> 'h ci_handler \<Rightarrow> cmd_masks \<Rightarrow> u8 \<Rightarrow> nat \<Rightarrow> bool list \<Rightarrow> 'h ci_rank op" where
  "exec_wait d H c expected_color nr_retries done_cis rank =
     FF (update_rank_data d H rank) (\<lambda>rank.
     case determine_if_commands_are_finished d (rank_data rank) c expected_color done_cis rank of
       (finished, done_cis, rank) \<Rightarrow>
         if finished then (DPU_OK, rank)
         else case nr_retries of 0 \<Rightarrow> (DPU_ERR_TIMEOUT, rank) | Suc n \<Rightarrow> exec_wait d H c expected_color n done_cis rank)"

definition exec_cmd :: "ci_description \<Rightarrow> 'h ci_handler \<Rightarrow> u64 list \<Rightarrow> bool \<Rightarrow> 'h ci_rank op" where
  "exec_cmd d H commands add_select_mask rank =
     (case compute_masks d rank commands add_select_mask of
        (status, c) \<Rightarrow>
          if status \<noteq> DPU_OK then (status, rank)
          else let expected_color = color rank AND cis c;
                   rank = invert_color (cis c) rank
               in FF (ci_commit_commands d H commands rank) (\<lambda>rank.
                  FF (exec_wait d H c expected_color NB_RETRY_FOR_VALID_RESULT (is_done c) rank) (\<lambda>rank.
                  if \<not> is_chip_v1_4 d then update_rank_data d H rank else (DPU_OK, rank))))"

declare exec_wait.simps [simp del]

definition ci_exec_void_cmd :: "ci_description \<Rightarrow> 'h ci_handler \<Rightarrow> u64 list \<Rightarrow> 'h ci_rank op" where
  "ci_exec_void_cmd d H commands = exec_cmd d H commands False"

definition ci_exec_wait_mask_cmd :: "ci_description \<Rightarrow> 'h ci_handler \<Rightarrow> u64 list \<Rightarrow> 'h ci_rank op" where
  "ci_exec_wait_mask_cmd d H commands = exec_cmd d H commands True"

text \<open>The results of the interfaces that got a command; the others keep what was there.\<close>

definition copy_results :: "ci_description \<Rightarrow> u64 list \<Rightarrow> u64 list \<Rightarrow> 'a::len word list \<Rightarrow> 'a word list" where
  "copy_results d commands data results =
     foldl (\<lambda>results each_ci. if commands ! each_ci \<noteq> CI_EMPTY then results[each_ci := ucast (data ! each_ci)] else results)
       results [0..<nr_cis d]"

definition ci_exec_8bit_cmd :: "ci_description \<Rightarrow> 'h ci_handler \<Rightarrow> u64 list \<Rightarrow> (u8 list \<times> 'h ci_rank) op" where
  "ci_exec_8bit_cmd d H commands =
     (\<lambda>(results, rank). case exec_cmd d H commands False rank of
        (status, rank) \<Rightarrow> (status, if status \<noteq> DPU_OK then results else copy_results d commands (rank_data rank) results, rank))"

definition ci_exec_32bit_cmd :: "ci_description \<Rightarrow> 'h ci_handler \<Rightarrow> u64 list \<Rightarrow> (u32 list \<times> 'h ci_rank) op" where
  "ci_exec_32bit_cmd d H commands =
     (\<lambda>(results, rank). case exec_cmd d H commands False rank of
        (status, rank) \<Rightarrow> (status, if status \<noteq> DPU_OK then results else copy_results d commands (rank_data rank) results, rank))"

section \<open>Byte discovery and reset\<close>

definition determine_if_byte_discoveries_are_finished :: "ci_description \<Rightarrow> u64 list \<Rightarrow> u8 \<Rightarrow> bool" where
  "determine_if_byte_discoveries_are_finished d data ci_mask \<longleftrightarrow>
     list_all (\<lambda>each_ci. \<not> CI_MASK_ON ci_mask each_ci \<or>
       list_ex (\<lambda>each_byte. drop_bit (each_byte * 8) (data ! each_ci) AND 0xFF = 0) [0..<8]) [0..<nr_cis d]"

fun byte_discovery_loop :: "ci_description \<Rightarrow> 'h ci_handler \<Rightarrow> u8 \<Rightarrow> nat \<Rightarrow> (u64 list \<times> 'h ci_rank) op" where
  "byte_discovery_loop d H ci_mask nr_retries s =
     FF (ci_update_commands d H s) (\<lambda>(results, rank).
     if determine_if_byte_discoveries_are_finished d results ci_mask then (DPU_OK, results, rank)
     else case nr_retries of 0 \<Rightarrow> (DPU_ERR_TIMEOUT, results, rank) | Suc n \<Rightarrow> byte_discovery_loop d H ci_mask n (results, rank))"

declare byte_discovery_loop.simps [simp del]

definition wait_for_byte_discovery :: "ci_description \<Rightarrow> 'h ci_handler \<Rightarrow> u8 \<Rightarrow> (u64 list \<times> 'h ci_rank) op" where
  "wait_for_byte_discovery d H ci_mask = byte_discovery_loop d H ci_mask NB_RETRY_FOR_VALID_RESULT"

definition ci_exec_byte_discovery :: "ci_description \<Rightarrow> 'h ci_handler \<Rightarrow> u64 list \<Rightarrow> (u64 list \<times> 'h ci_rank) op" where
  "ci_exec_byte_discovery d H commands =
     (\<lambda>(results, rank).
        let ci_mask = compute_ci_mask d commands;
            rank = invert_color ci_mask rank
        in case ci_commit_commands d H commands rank of
             (status, rank) \<Rightarrow>
               if status \<noteq> DPU_OK then (status, results, rank)
               else FF (wait_for_byte_discovery d H ci_mask (results, rank)) (wait_for_byte_discovery d H ci_mask))"

fun reset_updates :: "ci_description \<Rightarrow> 'h ci_handler \<Rightarrow> nat \<Rightarrow> (u64 list \<times> 'h ci_rank) op" where
  "reset_updates d H 0 s = (DPU_OK, s)"
| "reset_updates d H (Suc n) s = FF (ci_update_commands d H s) (reset_updates d H n)"

definition ci_exec_reset_cmd :: "ci_description \<Rightarrow> 'h ci_handler \<Rightarrow> u64 list \<Rightarrow> u64 list \<Rightarrow> 'h ci_rank op" where
  "ci_exec_reset_cmd d H commands uninitialised rank =
     (let reset_duration = unat (reset_wait_duration d) * unat (clock_division d) div 2;
          reset_mask = compute_ci_mask d commands
      in FF (ci_commit_commands d H commands (invert_color reset_mask rank)) (\<lambda>rank.
         case reset_updates d H reset_duration (uninitialised, rank) of
           (status, _, rank) \<Rightarrow>
             if status \<noteq> DPU_OK then (status, rank)
             else (DPU_OK, rank\<lparr>color := color rank AND NOT reset_mask,
                    fault_collide := fault_collide rank AND NOT reset_mask,
                    fault_decode := fault_decode rank AND NOT reset_mask,
                    slice_info := map (\<lambda>info. info\<lparr>slice_target := DPU_SLICE_TARGET_NONE,
                      dpus_per_group := (push_bit (nr_dpus d) 1 - 1) # replicate (DPU_MAX_NR_GROUPS - 1) 0\<rparr>) (slice_info rank)\<rparr>)))"

section \<open>The colour of the interfaces\<close>

definition cmd_type :: "u64 \<Rightarrow> u8" where
  "cmd_type result = ucast (drop_bit 56 (result AND 0xFF00000000000000))"

definition valid_field :: "u64 \<Rightarrow> u8" where
  "valid_field result = ucast (drop_bit 32 (result AND 0xFF00000000))"

text \<open>The first loop, with \<open>timeout\<close> rounds left before the round: the rounds left at the end, and whether a NOP was seen.\<close>

fun color_wait :: "ci_description \<Rightarrow> 'h ci_handler \<Rightarrow> nat \<Rightarrow> bool \<Rightarrow> u64 list \<times> 'h ci_rank \<Rightarrow> dpu_error_t \<times> nat \<times> bool \<times> u64 list \<times> 'h ci_rank" where
  "color_wait d H 0 dummy s = (DPU_OK, 0, dummy, s)"
| "color_wait d H (Suc timeout) dummy s =
     (case ci_update_commands d H s of
        (status, data, rank) \<Rightarrow>
          if status \<noteq> DPU_OK then (status, Suc timeout, dummy, data, rank)
          else let dummy = (dummy \<or> list_ex (\<lambda>each_slice. cmd_type (data ! each_slice) = 0xFF) [0..<nr_cis d]);
                   result_is_stable = list_all (\<lambda>each_slice. cmd_type (data ! each_slice) = 0xFF
                     \<or> cmd_type (data ! each_slice) = 0 \<and> valid_field (data ! each_slice) = 0xFF) [0..<nr_cis d]
               in if timeout \<noteq> 0 \<and> \<not> result_is_stable then color_wait d H timeout dummy (data, rank)
                  else (DPU_OK, timeout, dummy, data, rank))"

fun identity_wait :: "ci_description \<Rightarrow> 'h ci_handler \<Rightarrow> nat \<Rightarrow> u64 list \<times> 'h ci_rank \<Rightarrow> dpu_error_t \<times> nat \<times> u64 list \<times> 'h ci_rank" where
  "identity_wait d H 0 s = (DPU_OK, 0, s)"
| "identity_wait d H (Suc timeout) s =
     (case ci_update_commands d H s of
        (status, data, rank) \<Rightarrow>
          if status \<noteq> DPU_OK then (status, Suc timeout, data, rank)
          else let result_is_stable = list_all (\<lambda>each_slice. drop_bit 56 (data ! each_slice) = 0) [0..<nr_cis d]
               in if timeout \<noteq> 0 \<and> \<not> result_is_stable then identity_wait d H timeout (data, rank)
                  else (DPU_OK, timeout, data, rank))"

definition dummy_commands :: "ci_description \<Rightarrow> u64 list \<Rightarrow> u64 list" where
  "dummy_commands d data =
     foldl (\<lambda>data each_slice. data[each_slice := if drop_bit 56 (data ! each_slice) AND 0xFF = 0xFF then CI_IDENTITY else CI_EMPTY])
       data [0..<nr_cis d]"

definition store_colors :: "ci_description \<Rightarrow> u64 list \<Rightarrow> 'h ci_rank \<Rightarrow> 'h ci_rank" where
  "store_colors d data rank =
     foldl (\<lambda>rank each_slice.
       if builtin_popcount (reply_color (data ! each_slice)) \<le> 3
       then rank\<lparr>color := color rank OR push_bit each_slice 1\<rparr>
       else rank\<lparr>color := color rank AND NOT (push_bit each_slice 1)\<rparr>) rank [0..<nr_cis d]"

text \<open>No result array is a null pointer. The replies are read into an uninitialised array.\<close>

definition ci_get_color ::
  "ci_description \<Rightarrow> 'h ci_handler \<Rightarrow> u64 list \<Rightarrow> u32 list option \<Rightarrow> 'h ci_rank \<Rightarrow> dpu_error_t \<times> u32 list option \<times> 'h ci_rank" where
  "ci_get_color d H uninitialised ret_data rank =
     (case color_wait d H TIMEOUT_COLOR False (uninitialised, rank) of
        (status, timeout, dummy_command_is_needed, data, rank) \<Rightarrow>
          if status \<noteq> DPU_OK then (status, ret_data, rank)
          else if timeout = 0 then (DPU_ERR_TIMEOUT, ret_data, rank)
          else case ci_update_commands d H (data, rank) of
                 (status, data, rank) \<Rightarrow>
                   if status \<noteq> DPU_OK then (status, ret_data, rank)
                   else let ret_data = map_option (\<lambda>r. map ucast (take (nr_cis d) data) @ drop (nr_cis d) r) ret_data
                        in if \<not> dummy_command_is_needed then (DPU_OK, ret_data, store_colors d data rank)
                           else let data = dummy_commands d data
                                in case ci_commit_commands d H data rank of
                                     (status, rank) \<Rightarrow>
                                       if status \<noteq> DPU_OK then (status, ret_data, rank)
                                       else case identity_wait d H TIMEOUT_COLOR (data, rank) of
                                              (status, timeout, data, rank) \<Rightarrow>
                                                if status \<noteq> DPU_OK then (status, ret_data, rank)
                                                else if timeout = 0 then (DPU_ERR_TIMEOUT, ret_data, rank)
                                                else (DPU_OK, ret_data, store_colors d data rank))"

section \<open>What an interface replies\<close>

text \<open>A reply that \<^verbatim>\<open>exec_cmd\<close> accepts, one whose colour is clear, and one with as many copies of each colour.\<close>

definition answered :: "cmd_masks \<Rightarrow> nat \<Rightarrow> u64 \<Rightarrow> bool" where
  "answered c ci result \<longleftrightarrow> result AND result_masks c ! ci = expected c ! ci \<or> result AND CI_NOP = CI_NOP"

definition accepted :: "cmd_masks \<Rightarrow> u8 \<Rightarrow> nat \<Rightarrow> u64 \<Rightarrow> bool" where
  "accepted c expected_color ci result \<longleftrightarrow> answered c ci result
     \<and> (if expected_color AND push_bit ci 1 \<noteq> 0 then 4 \<le> builtin_popcount (reply_color result)
        else builtin_popcount (reply_color result) \<le> 4)"

definition clear_reply :: "cmd_masks \<Rightarrow> u8 \<Rightarrow> nat \<Rightarrow> u64 \<Rightarrow> bool" where
  "clear_reply c expected_color ci result \<longleftrightarrow> accepted c expected_color ci result \<and> builtin_popcount (reply_color result) \<noteq> 4"

definition ambiguous_reply :: "cmd_masks \<Rightarrow> nat \<Rightarrow> u64 \<Rightarrow> bool" where
  "ambiguous_reply c ci result \<longleftrightarrow> answered c ci result \<and> builtin_popcount (reply_color result) = 4"

lemma builtin_popcount_le: "builtin_popcount m \<le> 8"
  using length_filter_le [of "bit m" "[0..<8]"] by (simp add: builtin_popcount_def)

text \<open>One interface in the loop.\<close>

definition wrong_copies :: "u8 \<Rightarrow> nat \<Rightarrow> u64 \<Rightarrow> nat" where
  "wrong_copies expected_color ci result = (let n = builtin_popcount (reply_color result)
     in if expected_color AND push_bit ci 1 \<noteq> 0 then 8 - n else n)"

lemma finished_loop_step:
  "finished_loop data c ec (ci # cs) done_cis rank =
     (if done_cis ! ci then finished_loop data c ec cs done_cis rank
      else if \<not> accepted c ec ci (data ! ci) then (False, done_cis, rank)
      else case record_fault (push_bit ci 1) (wrong_copies ec ci (data ! ci)) rank of
             None \<Rightarrow> (False, done_cis[ci := True], rank)
           | Some rank \<Rightarrow> finished_loop data c ec cs (done_cis[ci := True]) rank)"
proof -
  let ?n = "builtin_popcount (reply_color (data ! ci))"
  have 1: "(data ! ci AND result_masks c ! ci \<noteq> expected c ! ci \<and> data ! ci AND CI_NOP \<noteq> CI_NOP) = (\<not> answered c ci (data ! ci))"
    by (simp only: answered_def de_Morgan_disj)
  have 2: "(if ec AND push_bit ci 1 \<noteq> 0 then ?n \<le> 3 else ?n \<ge> 5) = (\<not> (if ec AND push_bit ci 1 \<noteq> 0 then 4 \<le> ?n else ?n \<le> 4))"
    by auto
  show ?thesis
    unfolding finished_loop.simps(2) Let_def 1 2 accepted_def wrong_copies_def
    by (cases "done_cis ! ci"; cases "answered c ci (data ! ci)") (simp_all only: simp_thms if_True if_False if_not_P not_not split: if_split)
qed

declare finished_loop.simps(2) [simp del]

lemma finished_loop_done:
  "done_cis ! ci \<Longrightarrow> finished_loop data c ec (ci # cs) done_cis rank = finished_loop data c ec cs done_cis rank"
  by (simp add: finished_loop_step)

lemma finished_loop_rejected:
  "\<not> done_cis ! ci \<Longrightarrow> \<not> accepted c ec ci (data ! ci) \<Longrightarrow> finished_loop data c ec (ci # cs) done_cis rank = (False, done_cis, rank)"
  by (simp add: finished_loop_step)

lemma finished_loop_ambiguous:
  assumes "\<not> done_cis ! ci" "ambiguous_reply c ci (data ! ci)"
  shows "finished_loop data c ec (ci # cs) done_cis rank = (False, done_cis[ci := True], rank)"
proof -
  have "accepted c ec ci (data ! ci)" "wrong_copies ec ci (data ! ci) = 4"
    using assms(2) by (simp_all add: ambiguous_reply_def accepted_def wrong_copies_def)
  then show ?thesis
    using assms(1) by (simp add: finished_loop_step record_fault_def)
qed

lemma record_fault_few:
  assumes "n \<le> 3"
  obtains fd fc where "record_fault m n rank = Some (rank\<lparr>fault_decode := fd, fault_collide := fc\<rparr>)"
proof -
  have "n = 0 \<or> n = 1 \<or> n = 2 \<or> n = 3"
    using assms by auto
  then show ?thesis
    using that [of "fault_collide rank" "fault_decode rank"] that [of "fault_collide rank OR m" "fault_decode rank"]
      that [of "fault_collide rank" "fault_decode rank OR m"] that [of "fault_collide rank OR m" "fault_decode rank OR m"]
    by (elim disjE) (simp_all add: record_fault_def)
qed

lemma finished_loop_clear:
  assumes "\<not> done_cis ! ci" "clear_reply c ec ci (data ! ci)"
  obtains fd fc where "finished_loop data c ec (ci # cs) done_cis rank
    = finished_loop data c ec cs (done_cis[ci := True]) (rank\<lparr>fault_decode := fd, fault_collide := fc\<rparr>)"
proof -
  have acc: "accepted c ec ci (data ! ci)" and n: "builtin_popcount (reply_color (data ! ci)) \<noteq> 4"
    using assms(2) by (simp_all add: clear_reply_def)
  then have "wrong_copies ec ci (data ! ci) \<le> 3"
    unfolding accepted_def wrong_copies_def Let_def by (auto split: if_splits)
  then obtain fd fc where "record_fault (push_bit ci 1) (wrong_copies ec ci (data ! ci)) rank = Some (rank\<lparr>fault_decode := fd, fault_collide := fc\<rparr>)"
    by (rule record_fault_few)
  then show ?thesis
    using that [of fc fd] assms(1) acc by (simp only: finished_loop_step if_False simp_thms option.case)
qed

lemma accepted_cases: "accepted c ec ci r \<Longrightarrow> clear_reply c ec ci r \<or> ambiguous_reply c ci r"
  by (auto simp: clear_reply_def ambiguous_reply_def accepted_def)

text \<open>What one look at the replies does: interfaces are marked only when their reply is accepted, the look is successful only
  when all are marked, and nothing but the faults changes.\<close>

lemma same_faults: "\<exists>fd fc. rank = rank\<lparr>fault_decode := fd, fault_collide := fc\<rparr>"
  by (rule exI [of _ "fault_decode rank"], rule exI [of _ "fault_collide rank"]) simp

lemma finished_loop_marks:
  assumes "finished_loop data c ec cs done_cis rank = (fin, done', rank')" "\<And>ci. ci \<in> set cs \<Longrightarrow> ci < length done_cis"
  shows "length done' = length done_cis" "fin \<Longrightarrow> ci \<in> set cs \<Longrightarrow> done' ! ci"
    and "done_cis ! ci \<Longrightarrow> done' ! ci" "done' ! ci \<Longrightarrow> done_cis ! ci \<or> accepted c ec ci (data ! ci)"
    and "\<exists>fd fc. rank' = rank\<lparr>fault_decode := fd, fault_collide := fc\<rparr>"
proof -
  have "length done' = length done_cis \<and> (fin \<longrightarrow> (\<forall>ci \<in> set cs. done' ! ci)) \<and> (\<forall>ci. done_cis ! ci \<longrightarrow> done' ! ci)
      \<and> (\<forall>ci. done' ! ci \<longrightarrow> done_cis ! ci \<or> accepted c ec ci (data ! ci)) \<and> (\<exists>fd fc. rank' = rank\<lparr>fault_decode := fd, fault_collide := fc\<rparr>)"
    using assms
  proof (induction cs arbitrary: done_cis rank)
    case Nil
    then show ?case
      using same_faults [of rank] by auto
  next
    case (Cons a cs)
    let ?d = "done_cis[a := True]"
    note same = same_faults [of rank]
    have a: "a < length done_cis" and l: "\<And>ci. ci \<in> set cs \<Longrightarrow> ci < length done_cis"
      using Cons.prems(2) by simp_all
    consider "done_cis ! a" | "\<not> done_cis ! a" "\<not> accepted c ec a (data ! a)" | "\<not> done_cis ! a" "ambiguous_reply c a (data ! a)" "accepted c ec a (data ! a)"
      | "\<not> done_cis ! a" "clear_reply c ec a (data ! a)"
      using accepted_cases by blast
    then show ?case
    proof cases
      case 1
      have "finished_loop data c ec cs done_cis rank = (fin, done', rank')"
        using Cons.prems(1) finished_loop_done [OF 1] by metis
      from Cons.IH [OF this l] 1 show ?thesis
        by simp
    next
      case 2
      then show ?thesis
        using Cons.prems(1) same unfolding finished_loop_rejected [OF 2] by auto
    next
      case 3
      then show ?thesis
        using Cons.prems(1) same a unfolding finished_loop_ambiguous [OF 3(1,2)] by (auto simp: nth_list_update split: if_splits)
    next
      case 4
      then obtain fd fc where e: "finished_loop data c ec cs ?d (rank\<lparr>fault_decode := fd, fault_collide := fc\<rparr>) = (fin, done', rank')"
        using finished_loop_clear [OF 4, of cs rank] Cons.prems(1) by metis
      have acc: "accepted c ec a (data ! a)"
        using 4 by (simp add: clear_reply_def)
      have "length done' = length ?d \<and> (fin \<longrightarrow> (\<forall>ci \<in> set cs. done' ! ci)) \<and> (\<forall>ci. ?d ! ci \<longrightarrow> done' ! ci)
        \<and> (\<forall>ci. done' ! ci \<longrightarrow> ?d ! ci \<or> accepted c ec ci (data ! ci))
        \<and> (\<exists>fd' fc'. rank' = rank\<lparr>fault_decode := fd, fault_collide := fc, fault_decode := fd', fault_collide := fc'\<rparr>)"
        using Cons.IH [OF e] l by simp
      then show ?thesis
        using a acc by (auto simp: nth_list_update split: if_splits)
    qed
  qed
  then show "length done' = length done_cis" "fin \<Longrightarrow> ci \<in> set cs \<Longrightarrow> done' ! ci"
    "done_cis ! ci \<Longrightarrow> done' ! ci" "done' ! ci \<Longrightarrow> done_cis ! ci \<or> accepted c ec ci (data ! ci)"
    "\<exists>fd fc. rank' = rank\<lparr>fault_decode := fd, fault_collide := fc\<rparr>"
    by auto
qed

text \<open>Clear replies end the loop; ambiguous ones mark one interface in each look, and no fault.\<close>

lemma finished_loop_succeeds:
  assumes "\<And>ci. ci \<in> set cs \<Longrightarrow> done_cis ! ci \<or> clear_reply c ec ci (data ! ci)" "\<And>ci. ci \<in> set cs \<Longrightarrow> ci < length done_cis"
  shows "fst (finished_loop data c ec cs done_cis rank)"
  using assms
proof (induction cs arbitrary: done_cis rank)
  case (Cons a cs)
  show ?case
  proof (cases "done_cis ! a")
    case True
    then show ?thesis
      using Cons by (simp add: finished_loop_done)
  next
    case False
    have "clear_reply c ec a (data ! a)"
      using False Cons.prems(1) [of a] by simp
    from False this obtain fd fc where e: "finished_loop data c ec (a # cs) done_cis rank
        = finished_loop data c ec cs (done_cis[a := True]) (rank\<lparr>fault_decode := fd, fault_collide := fc\<rparr>)"
      by (rule finished_loop_clear)
    show ?thesis
      unfolding e using Cons.prems by (intro Cons.IH) (auto simp: nth_list_update)
  qed
qed simp

lemma finished_loop_all_ambiguous:
  assumes "\<And>ci. ci \<in> set cs \<Longrightarrow> done_cis ! ci \<or> ambiguous_reply c ci (data ! ci)"
  shows "finished_loop data c ec cs done_cis rank = (case filter (\<lambda>ci. \<not> done_cis ! ci) cs of
      [] \<Rightarrow> (True, done_cis, rank) | a # _ \<Rightarrow> (False, done_cis[a := True], rank))"
  using assms
proof (induction cs)
  case (Cons a cs)
  show ?case
  proof (cases "done_cis ! a")
    case True
    then show ?thesis
      using Cons by (simp add: finished_loop_done)
  next
    case False
    moreover have "ambiguous_reply c a (data ! a)"
      using False Cons.prems [of a] by simp
    ultimately show ?thesis
      by (simp add: finished_loop_ambiguous)
  qed
qed simp

section \<open>Reading until all have answered\<close>

definition read_ci :: "'h ci_handler \<Rightarrow> u64 list \<times> 'h \<Rightarrow> u64 list \<times> 'h" where
  "read_ci H = (\<lambda>(data, h). snd (update_commands H data h))"

abbreviation (input) rank_port :: "'h ci_rank \<Rightarrow> u64 list \<times> 'h" where
  "rank_port rank \<equiv> (rank_data rank, ci_hw rank)"

text \<open>The reply that interface \<open>ci\<close> gives to the \<open>k\<close>-th read.\<close>

definition nth_reply :: "'h ci_handler \<Rightarrow> u64 list \<times> 'h \<Rightarrow> nat \<Rightarrow> nat \<Rightarrow> u64" where
  "nth_reply H port k ci = fst ((read_ci H ^^ k) port) ! ci"

lemma nth_reply_Suc: "nth_reply H (read_ci H port) k ci = nth_reply H port (Suc k) ci"
  by (simp add: nth_reply_def funpow_swap1)

lemma debug_record_cases:
  obtains b where "debug_record_last_cmd d dir commands rank = (DPU_OK, rank\<lparr>cmds_buffer := b\<rparr>)"
proof (cases "logd_enabled d")
  case False
  then show ?thesis
    using that [of "cmds_buffer rank"] by (simp add: debug_record_last_cmd_def)
next
  case True
  then show ?thesis
    using that by (simp add: debug_record_last_cmd_def Let_def)
qed

lemma update_rank_data_cases:
  obtains (failed) r where "update_rank_data d H rank = (DPU_ERR_DRIVER, r)"
      "fst (update_commands H (rank_data rank) (ci_hw rank)) \<noteq> DPU_RANK_SUCCESS"
    | (read) b where "update_rank_data d H rank = (DPU_OK, rank\<lparr>ci_hw := snd (read_ci H (rank_port rank)), cmds_buffer := b,
        rank_data := fst (read_ci H (rank_port rank))\<rparr>)"
      "fst (update_commands H (rank_data rank) (ci_hw rank)) = DPU_RANK_SUCCESS"
proof -
  obtain st data h where u: "update_commands H (rank_data rank) (ci_hw rank) = (st, data, h)"
    by (cases "update_commands H (rank_data rank) (ci_hw rank)") auto
  obtain b where b: "debug_record_last_cmd d READ_DIR data (rank\<lparr>ci_hw := h\<rparr>) = (DPU_OK, rank\<lparr>ci_hw := h, cmds_buffer := b\<rparr>)"
    by (rule debug_record_cases [of d READ_DIR data "rank\<lparr>ci_hw := h\<rparr>"])
  show ?thesis
  proof (cases "st = DPU_RANK_SUCCESS")
    case True
    then show ?thesis
      using read [of b] u b by (simp add: update_rank_data_def ci_update_commands_def read_ci_def)
  next
    case False
    then show ?thesis
      using failed u by (simp add: update_rank_data_def ci_update_commands_def)
  qed
qed

lemma exec_wait_round:
  assumes "nr_cis d \<le> length dn"
  obtains (failed) r where "exec_wait d H c ec n dn rank = (DPU_ERR_DRIVER, r)"
      "fst (update_commands H (rank_data rank) (ci_hw rank)) \<noteq> DPU_RANK_SUCCESS"
    | (look) fin dn' r r0 where
      "exec_wait d H c ec n dn rank = (if fin then (DPU_OK, r) else case n of 0 \<Rightarrow> (DPU_ERR_TIMEOUT, r) | Suc n \<Rightarrow> exec_wait d H c ec n dn' r)"
      "finished_loop (fst (read_ci H (rank_port rank))) c ec [0..<nr_cis d] dn r0 = (fin, dn', r)"
      "rank_port r = read_ci H (rank_port rank)" "color r = color rank" "length dn' = length dn"
      "fault_decode r0 = fault_decode rank" "fault_collide r0 = fault_collide rank"
proof (cases rule: update_rank_data_cases [of d H rank])
  case (failed r)
  then have "exec_wait d H c ec n dn rank = (DPU_ERR_DRIVER, r)"
    by (subst exec_wait.simps) simp
  then show ?thesis
    using that(1) failed(2) by blast
next
  case (read b)
  let ?r0 = "rank\<lparr>ci_hw := snd (read_ci H (rank_port rank)), cmds_buffer := b, rank_data := fst (read_ci H (rank_port rank))\<rparr>"
  obtain fin dn' r where l: "finished_loop (fst (read_ci H (rank_port rank))) c ec [0..<nr_cis d] dn ?r0 = (fin, dn', r)"
    by (metis prod_cases3)
  have e: "exec_wait d H c ec n dn rank = (if fin then (DPU_OK, r) else case n of 0 \<Rightarrow> (DPU_ERR_TIMEOUT, r) | Suc n \<Rightarrow> exec_wait d H c ec n dn' r)"
    using read(1) l by (subst exec_wait.simps) (simp add: determine_if_commands_are_finished_def)
  have len: "ci < length dn" if "ci \<in> set [0..<nr_cis d]" for ci
    using that assms by simp
  obtain fd fc where r: "r = ?r0\<lparr>fault_decode := fd, fault_collide := fc\<rparr>"
    using finished_loop_marks(5) [OF l len] by blast
  show ?thesis
    by (rule that(2) [OF e l]) (use r finished_loop_marks(1) [OF l len] in simp_all)
qed

text \<open>Success means that every interface has given a reply that was accepted.\<close>

lemma exec_wait_accepts:
  assumes "exec_wait d H c ec n dn rank = (DPU_OK, rank')" "nr_cis d \<le> length dn"
  shows "color rank' = color rank"
    and "ci < nr_cis d \<Longrightarrow> dn ! ci \<or> (\<exists>k. 1 \<le> k \<and> k \<le> Suc n \<and> accepted c ec ci (nth_reply H (rank_port rank) k ci))"
proof -
  have "color rank' = color rank \<and> (\<forall>ci < nr_cis d. dn ! ci \<or> (\<exists>k. 1 \<le> k \<and> k \<le> Suc n \<and> accepted c ec ci (nth_reply H (rank_port rank) k ci)))"
    using assms
  proof (induction n arbitrary: dn rank)
    case 0
    from 0(2) show ?case
    proof (cases rule: exec_wait_round [where H = H and c = c and ec = ec and n = 0 and rank = rank])
      case (look fin dn' r r0)
      have fin: "fin" "rank' = r"
        using look(1) 0(1) by (auto split: if_splits)
      have "dn ! ci \<or> accepted c ec ci (nth_reply H (rank_port rank) 1 ci)" if "ci < nr_cis d" for ci
        using finished_loop_marks(2,4) [OF look(2), of ci] fin(1) that 0(2) by (auto simp: nth_reply_def)
      then show ?thesis
        using look(4) fin(2) by auto
    qed (use 0 in simp)
  next
    case (Suc n)
    from Suc.prems(2) show ?case
    proof (cases rule: exec_wait_round [where H = H and c = c and ec = ec and n = "Suc n" and rank = rank])
      case (look fin dn' r r0)
      have m: "ci < length dn" if "ci \<in> set [0..<nr_cis d]" for ci
        using that Suc.prems(2) by simp
      have first: "dn' ! ci \<Longrightarrow> dn ! ci \<or> accepted c ec ci (nth_reply H (rank_port rank) 1 ci)" for ci
        using finished_loop_marks(4) [OF look(2) m, of ci] by (simp add: nth_reply_def)
      show ?thesis
      proof (cases fin)
        case True
        then have "rank' = r" "\<And>ci. ci < nr_cis d \<Longrightarrow> dn' ! ci"
          using look(1) Suc.prems(1) finished_loop_marks(2) [OF look(2) m] by auto
        then show ?thesis
          using look(4) first by (metis One_nat_def Suc_le_mono le_refl zero_le)
      next
        case False
        then have "exec_wait d H c ec n dn' r = (DPU_OK, rank')"
          using look(1) Suc.prems(1) by simp
        from Suc.IH [OF this] look(5) Suc.prems(2)
        have ih: "color rank' = color r" "\<And>ci. ci < nr_cis d \<Longrightarrow> dn' ! ci \<or> (\<exists>k. 1 \<le> k \<and> k \<le> Suc n \<and> accepted c ec ci (nth_reply H (rank_port r) k ci))"
          by simp_all
        have "dn ! ci \<or> (\<exists>k. 1 \<le> k \<and> k \<le> Suc (Suc n) \<and> accepted c ec ci (nth_reply H (rank_port rank) k ci))" if "ci < nr_cis d" for ci
          using ih(2) [OF that] first [of ci] unfolding look(3) nth_reply_Suc by (metis Suc_le_mono le_SucI le_refl One_nat_def zero_le)
        then show ?thesis
          using ih(1) look(4) by auto
      qed
    qed (use Suc.prems in simp)
  qed
  then show "color rank' = color rank"
    and "ci < nr_cis d \<Longrightarrow> dn ! ci \<or> (\<exists>k. 1 \<le> k \<and> k \<le> Suc n \<and> accepted c ec ci (nth_reply H (rank_port rank) k ci))"
    by blast+
qed

text \<open>When every reply is ambiguous, the look that rejects one marks it, so that the next look goes on without it.\<close>

lemma exec_wait_ambiguous:
  assumes "\<And>k. fst (update_commands H (fst ((read_ci H ^^ k) (rank_port rank))) (snd ((read_ci H ^^ k) (rank_port rank)))) = DPU_RANK_SUCCESS"
    and "\<And>ci k. ci < nr_cis d \<Longrightarrow> dn ! ci \<or> ambiguous_reply c ci (nth_reply H (rank_port rank) (Suc k) ci)"
    and "nr_cis d \<le> length dn" "length (filter (\<lambda>ci. \<not> dn ! ci) [0..<nr_cis d]) \<le> n"
  shows "\<exists>rank' k. exec_wait d H c ec n dn rank = (DPU_OK, rank') \<and> fault_decode rank' = fault_decode rank
    \<and> fault_collide rank' = fault_collide rank \<and> rank_port rank' = (read_ci H ^^ k) (rank_port rank)"
  using assms
proof (induction n arbitrary: dn rank rule: less_induct)
  case (less n)
  let ?xs = "filter (\<lambda>ci. \<not> dn ! ci) [0..<nr_cis d]"
  have ok: "fst (update_commands H (rank_data rank) (ci_hw rank)) = DPU_RANK_SUCCESS"
    using less.prems(1) [of 0] by simp
  have amb: "dn ! ci \<or> ambiguous_reply c ci (fst (read_ci H (rank_port rank)) ! ci)" if "ci \<in> set [0..<nr_cis d]" for ci
    using less.prems(2) [of ci 0] that by (simp add: nth_reply_def)
  from less.prems(3) show ?case
  proof (cases rule: exec_wait_round [where H = H and c = c and ec = ec and n = n and rank = rank])
    case (look fin dn' r r0)
    have res: "(fin, dn', r) = (case ?xs of [] \<Rightarrow> (True, dn, r0) | a # _ \<Rightarrow> (False, dn[a := True], r0))"
      unfolding look(2) [symmetric] by (rule finished_loop_all_ambiguous) (rule amb)
    show ?thesis
    proof (cases ?xs)
      case Nil
      then have "exec_wait d H c ec n dn rank = (DPU_OK, r)" "r = r0"
        using res look(1) by simp_all
      then show ?thesis
        using look(3,6,7) by (intro exI [of _ r] exI [of _ 1]) simp
    next
      case (Cons a as)
      then have r: "\<not> fin" "dn' = dn[a := True]" "r = r0" and a: "a \<in> set ?xs"
        using res by simp_all
      then obtain m where n: "n = Suc m"
        using less.prems(4) Cons by (cases n) auto
      have "\<not> dn[a := True] ! ci \<longleftrightarrow> ci \<noteq> a \<and> \<not> dn ! ci" if "ci < nr_cis d" for ci
        using less.prems(3) that by (cases "ci = a") simp_all
      then have "filter (\<lambda>ci. \<not> dn[a := True] ! ci) [0..<nr_cis d] = filter (\<lambda>ci. ci \<noteq> a) ?xs"
        by (auto intro!: filter_cong)
      also have "\<dots> = as"
      proof -
        have "distinct (a # as)"
          using Cons distinct_filter [of "[0..<nr_cis d]"] by (metis distinct_upt)
        then show ?thesis
          unfolding Cons by (auto intro!: filter_True)
      qed
      finally have fl: "length (filter (\<lambda>ci. \<not> dn' ! ci) [0..<nr_cis d]) \<le> m"
        using less.prems(4) Cons n r(2) by simp
      have port: "(read_ci H ^^ k) (rank_port r) = (read_ci H ^^ Suc k) (rank_port rank)" for k
        unfolding look(3) by (simp add: funpow_swap1)
      have "\<exists>rank' k. exec_wait d H c ec m dn' r = (DPU_OK, rank') \<and> fault_decode rank' = fault_decode r
          \<and> fault_collide rank' = fault_collide r \<and> rank_port rank' = (read_ci H ^^ k) (rank_port r)"
      proof (rule less.IH [OF _ _ _ _ fl])
        show "m < n"
          by (simp add: n)
        show "fst (update_commands H (fst ((read_ci H ^^ k) (rank_port r))) (snd ((read_ci H ^^ k) (rank_port r)))) = DPU_RANK_SUCCESS" for k
          unfolding port by (rule less.prems(1))
        show "dn' ! ci \<or> ambiguous_reply c ci (nth_reply H (rank_port r) (Suc k) ci)" if "ci < nr_cis d" for ci k
          using less.prems(2) [OF that, of "Suc k"] less.prems(3) that r(2) unfolding look(3) nth_reply_Suc by (cases "ci = a") auto
        show "nr_cis d \<le> length dn'"
          using less.prems(3) look(5) by simp
      qed
      then obtain rank' k where "exec_wait d H c ec m dn' r = (DPU_OK, rank')" "fault_decode rank' = fault_decode r"
          "fault_collide rank' = fault_collide r" "rank_port rank' = (read_ci H ^^ Suc k) (rank_port rank)"
        unfolding port by blast
      then show ?thesis
        using look(1,6,7) r n by (intro exI [of _ rank'] exI [of _ "Suc k"]) simp
    qed
  qed (use ok in simp)
qed

section \<open>The masks of a command\<close>

text \<open>The bits of a reply that a command waits for, and their value.\<close>

definition command_mask :: "ci_description \<Rightarrow> bool \<Rightarrow> u64" where
  "command_mask d add_select_mask = 0xFF0000FF00000000 OR (if add_select_mask then push_bit (nr_dpus d) 1 - 1 else 0)"

definition command_value :: "ci_description \<Rightarrow> 'h ci_rank \<Rightarrow> bool \<Rightarrow> nat \<Rightarrow> u64" where
  "command_value d rank add_select_mask ci =
     0x000000FF00000000 OR (if add_select_mask then ucast (snd (ci_fill_selected_dpu_mask d rank ci)) else 0)"

lemma compute_masks_loop_result:
  assumes "compute_masks_loop d rank commands add xs c = (DPU_OK, c')" "distinct xs" "\<And>ci. ci \<in> set xs \<Longrightarrow> ci < 8"
    and "length (result_masks c) = 8" "length (expected c) = 8" "length (is_done c) = 8"
    and "\<And>ci. ci \<in> set xs \<Longrightarrow> result_masks c ! ci = 0 \<and> expected c ! ci = 0 \<and> \<not> is_done c ! ci"
  shows "cis c' = foldl (\<lambda>ci_mask each_ci. if commands ! each_ci \<noteq> CI_EMPTY then ci_mask OR push_bit each_ci 1 else ci_mask) (cis c) xs"
    and "length (is_done c') = 8"
    and "ci \<in> set xs \<Longrightarrow> is_done c' ! ci \<longleftrightarrow> commands ! ci = CI_EMPTY"
    and "ci \<in> set xs \<Longrightarrow> commands ! ci \<noteq> CI_EMPTY \<Longrightarrow> result_masks c' ! ci = command_mask d add \<and> expected c' ! ci = command_value d rank add ci"
    and "ci \<notin> set xs \<Longrightarrow> is_done c' ! ci = is_done c ! ci \<and> result_masks c' ! ci = result_masks c ! ci \<and> expected c' ! ci = expected c ! ci"
proof -
  have "cis c' = foldl (\<lambda>ci_mask each_ci. if commands ! each_ci \<noteq> CI_EMPTY then ci_mask OR push_bit each_ci 1 else ci_mask) (cis c) xs
    \<and> length (is_done c') = 8
    \<and> (\<forall>ci. if ci \<in> set xs then (is_done c' ! ci \<longleftrightarrow> commands ! ci = CI_EMPTY)
          \<and> (commands ! ci \<noteq> CI_EMPTY \<longrightarrow> result_masks c' ! ci = command_mask d add \<and> expected c' ! ci = command_value d rank add ci)
        else is_done c' ! ci = is_done c ! ci \<and> result_masks c' ! ci = result_masks c ! ci \<and> expected c' ! ci = expected c ! ci)"
    using assms
  proof (induction xs arbitrary: c)
    case (Cons a xs)
    define c1 where "c1 = (if commands ! a \<noteq> CI_EMPTY
      then c\<lparr>cis := cis c OR push_bit a 1, result_masks := (result_masks c)[a := command_mask d add],
             expected := (expected c)[a := command_value d rank add a]\<rparr>
      else c\<lparr>is_done := (is_done c)[a := True]\<rparr>)"
    have z: "result_masks c ! a = 0" "expected c ! a = 0" "a < 8"
      using Cons.prems(3,7) by auto
    have "compute_masks_loop d rank commands add xs c1 = (DPU_OK, c')"
      using Cons.prems(1,4,5) z
      by (cases add; cases "ci_fill_selected_dpu_mask d rank a")
        (auto simp: c1_def command_mask_def command_value_def Let_def or.assoc split: if_splits)
    then have ih: "cis c' = foldl (\<lambda>ci_mask each_ci. if commands ! each_ci \<noteq> CI_EMPTY then ci_mask OR push_bit each_ci 1 else ci_mask) (cis c1) xs
      \<and> length (is_done c') = 8
      \<and> (\<forall>ci. if ci \<in> set xs then (is_done c' ! ci \<longleftrightarrow> commands ! ci = CI_EMPTY)
          \<and> (commands ! ci \<noteq> CI_EMPTY \<longrightarrow> result_masks c' ! ci = command_mask d add \<and> expected c' ! ci = command_value d rank add ci)
        else is_done c' ! ci = is_done c1 ! ci \<and> result_masks c' ! ci = result_masks c1 ! ci \<and> expected c' ! ci = expected c1 ! ci)"
      by (rule Cons.IH) (use Cons.prems in \<open>auto simp: c1_def nth_list_update\<close>)
    note ih1 = conjunct1 [OF ih] conjunct1 [OF conjunct2 [OF ih]] and ihc = conjunct2 [OF conjunct2 [OF ih], rule_format]
    have a: "a \<notin> set xs" "length (is_done c) = 8" "length (result_masks c) = 8" "length (expected c) = 8" "\<not> is_done c ! a"
      using Cons.prems by auto
    have head: "is_done c' ! a \<longleftrightarrow> commands ! a = CI_EMPTY"
      "commands ! a \<noteq> CI_EMPTY \<Longrightarrow> result_masks c' ! a = command_mask d add \<and> expected c' ! a = command_value d rank add a"
      using ihc [of a] a z(3) by (auto simp: c1_def)
    have other: "is_done c1 ! ci = is_done c ! ci \<and> result_masks c1 ! ci = result_masks c ! ci \<and> expected c1 ! ci = expected c ! ci" if "ci \<noteq> a" for ci
      using that by (simp add: c1_def)
    have cis: "cis c1 = (if commands ! a \<noteq> CI_EMPTY then cis c OR push_bit a 1 else cis c)"
      by (simp add: c1_def)
    show ?case
    proof (intro conjI allI)
      show "cis c' = foldl (\<lambda>ci_mask each_ci. if commands ! each_ci \<noteq> CI_EMPTY then ci_mask OR push_bit each_ci 1 else ci_mask) (cis c) (a # xs)"
        unfolding ih1(1) cis by simp
      show "length (is_done c') = 8"
        by (rule ih1(2))
      show "if ci \<in> set (a # xs) then (is_done c' ! ci \<longleftrightarrow> commands ! ci = CI_EMPTY)
          \<and> (commands ! ci \<noteq> CI_EMPTY \<longrightarrow> result_masks c' ! ci = command_mask d add \<and> expected c' ! ci = command_value d rank add ci)
        else is_done c' ! ci = is_done c ! ci \<and> result_masks c' ! ci = result_masks c ! ci \<and> expected c' ! ci = expected c ! ci" for ci
      proof (cases "ci = a")
        case True
        then show ?thesis
          using head by simp
      next
        case False
        then show ?thesis
          using ihc [of ci] other [OF False] by simp
      qed
    qed
  qed simp
  then show "cis c' = foldl (\<lambda>ci_mask each_ci. if commands ! each_ci \<noteq> CI_EMPTY then ci_mask OR push_bit each_ci 1 else ci_mask) (cis c) xs"
    and "length (is_done c') = 8"
    and "ci \<in> set xs \<Longrightarrow> is_done c' ! ci \<longleftrightarrow> commands ! ci = CI_EMPTY"
    and "ci \<in> set xs \<Longrightarrow> commands ! ci \<noteq> CI_EMPTY \<Longrightarrow> result_masks c' ! ci = command_mask d add \<and> expected c' ! ci = command_value d rank add ci"
    and "ci \<notin> set xs \<Longrightarrow> is_done c' ! ci = is_done c ! ci \<and> result_masks c' ! ci = result_masks c ! ci \<and> expected c' ! ci = expected c ! ci"
    by presburger+
qed

lemma compute_masks_result:
  assumes "compute_masks d rank commands add = (DPU_OK, c)" "nr_cis d \<le> 8"
  shows "cis c = compute_ci_mask d commands" "length (is_done c) = 8"
    and "ci < nr_cis d \<Longrightarrow> is_done c ! ci \<longleftrightarrow> commands ! ci = CI_EMPTY"
    and "ci < nr_cis d \<Longrightarrow> commands ! ci \<noteq> CI_EMPTY \<Longrightarrow> result_masks c ! ci = command_mask d add \<and> expected c ! ci = command_value d rank add ci"
proof -
  have e: "compute_masks_loop d rank commands add [0..<nr_cis d] no_masks = (DPU_OK, c)"
    using assms(1) by (simp add: compute_masks_def)
  have l: "length (result_masks no_masks) = 8" "length (expected no_masks) = 8" "length (is_done no_masks) = 8"
    by (simp_all add: no_masks_def)
  have z: "result_masks no_masks ! ci = 0 \<and> expected no_masks ! ci = 0 \<and> \<not> is_done no_masks ! ci" "ci < 8" if "ci \<in> set [0..<nr_cis d]" for ci
    using that assms(2) by (simp_all add: no_masks_def)
  note r = compute_masks_loop_result [OF e distinct_upt z(2) l z(1)]
  show "cis c = compute_ci_mask d commands" "length (is_done c) = 8"
    and "ci < nr_cis d \<Longrightarrow> is_done c ! ci \<longleftrightarrow> commands ! ci = CI_EMPTY"
    and "ci < nr_cis d \<Longrightarrow> commands ! ci \<noteq> CI_EMPTY \<Longrightarrow> result_masks c ! ci = command_mask d add \<and> expected c ! ci = command_value d rank add ci"
    using r(1,2) r(3,4) [of ci] by (simp_all add: compute_ci_mask_def no_masks_def)
qed

lemma bit_single: "bit (push_bit a (1 :: u8)) n \<longleftrightarrow> n = a \<and> n < 8"
  by (auto simp: bit_exp_iff)

lemma compute_ci_mask_bit:
  assumes "nr_cis d \<le> 8" "ci < nr_cis d" "commands ! ci \<noteq> CI_EMPTY"
  shows "bit (compute_ci_mask d commands) ci"
proof -
  have "bit (foldl (\<lambda>ci_mask each_ci. if commands ! each_ci \<noteq> CI_EMPTY then ci_mask OR push_bit each_ci 1 else ci_mask) (m :: u8) xs) ci"
    if "bit m ci \<or> ci \<in> set xs" for m xs
    using that
  proof (induction xs arbitrary: m)
    case (Cons a xs)
    have "ci < 8"
      using assms(1,2) by simp
    then have "bit (if commands ! a \<noteq> CI_EMPTY then m OR push_bit a 1 else m) ci \<or> ci \<in> set xs"
      using Cons.prems assms(3) by (cases "ci = a") (simp_all only: bit_or_iff bit_single if_True set_simps insert_iff simp_thms split: if_split)
    then show ?case
      using Cons.IH by simp
  qed simp
  then show ?thesis
    unfolding compute_ci_mask_def using assms(2) by simp
qed

lemma and_single_bit: "m AND push_bit ci 1 \<noteq> 0 \<longleftrightarrow> bit (m :: u8) ci"
proof
  assume b: "bit m ci"
  have "ci < 8"
    using bit_imp_le_length [OF b] by simp
  then have "bit (m AND push_bit ci 1) ci"
    using b unfolding bit_and_iff bit_single by simp
  then show "m AND push_bit ci 1 \<noteq> 0"
    by (metis bit_0_eq bot_apply bot_bool_def)
next
  assume "m AND push_bit ci 1 \<noteq> 0"
  then obtain n where "bit (m AND push_bit ci 1) n"
    by (metis bit_eqI bit_0_eq bot_apply bot_bool_def)
  then show "bit m ci"
    unfolding bit_and_iff bit_single by blast
qed

lemma expected_color_bit:
  assumes "compute_masks d rank commands add = (DPU_OK, c)" "nr_cis d \<le> 8" "ci < nr_cis d" "commands ! ci \<noteq> CI_EMPTY"
  shows "(color rank AND cis c) AND push_bit ci 1 \<noteq> 0 \<longleftrightarrow> CI_MASK_ON (color rank) ci"
  using compute_ci_mask_bit [OF assms(2-4)] compute_masks_result(1) [OF assms(1,2)]
  unfolding CI_MASK_ON_def and_single_bit by (simp add: bit_and_iff)

lemma commit_cases:
  obtains (failed) r where "ci_commit_commands d H commands rank = (DPU_ERR_DRIVER, r)" "fst (commit_commands H commands (ci_hw rank)) \<noteq> DPU_RANK_SUCCESS"
    | (sent) b where "ci_commit_commands d H commands rank
        = (DPU_OK, rank\<lparr>cmds_buffer := b, ci_hw := snd (commit_commands H commands (ci_hw rank))\<rparr>)"
      "fst (commit_commands H commands (ci_hw rank)) = DPU_RANK_SUCCESS"
proof -
  obtain b where b: "debug_record_last_cmd d WRITE_DIR commands rank = (DPU_OK, rank\<lparr>cmds_buffer := b\<rparr>)"
    by (rule debug_record_cases [of d WRITE_DIR commands rank])
  show ?thesis
  proof (cases "fst (commit_commands H commands (ci_hw rank)) = DPU_RANK_SUCCESS")
    case True
    then show ?thesis
      using sent b by (simp add: ci_commit_commands_def case_prod_beta)
  next
    case False
    then show ?thesis
      using failed b by (simp add: ci_commit_commands_def case_prod_beta)
  qed
qed

lemma compute_masks_void: "fst (compute_masks d rank commands False) = DPU_OK"
proof -
  have "fst (compute_masks_loop d rank commands False xs c) = DPU_OK" for xs c
    by (induction xs arbitrary: c) (simp_all add: Let_def)
  then show ?thesis
    by (simp add: compute_masks_def)
qed

text \<open>A rank of two interfaces that give the same reply to every read, for concrete runs.\<close>

definition two_cis :: ci_description where
  "two_cis = \<lparr>nr_cis = 2, nr_dpus = 8, reset_wait_duration = 20, clock_division = 2, chip_id = 8, logd_enabled = False\<rparr>"

definition constant_handler :: "u64 \<Rightarrow> unit ci_handler" where
  "constant_handler reply = \<lparr>commit_commands = (\<lambda>_ h. (DPU_RANK_SUCCESS, h)),
     update_commands = (\<lambda>_ h. (DPU_RANK_SUCCESS, replicate 8 reply, h))\<rparr>"

definition idle_rank :: "unit ci_rank" where
  "idle_rank = \<lparr>fault_decode = 0, fault_collide = 0, color = 0, slice_info = [], rank_data = replicate 8 0,
     cmds_buffer = \<lparr>buffer_cmds = [], idx_last = 0, buffer_nb = 0, has_wrapped = False\<rparr>, ci_hw = ()\<rparr>"

lemma constant_reply: "ci < 8 \<Longrightarrow> nth_reply (constant_handler reply) port (Suc k) ci = reply"
  by (simp add: nth_reply_def read_ci_def constant_handler_def case_prod_beta)

section \<open>Properties\<close>

text \<open>
  C31: When \<open>exec_cmd\<close> succeeds, the commands have been committed, the colour that the host keeps is inverted for exactly the
  interfaces that got a command, and each of these has, in one of at most 101 reads, given a reply that tells the end of the
  command (or is a NOP) with at least half of the copies of its colour bit as expected.
\<close>

theorem exec_cmd_waits_for_replies:
  assumes "exec_cmd d H commands add rank = (DPU_OK, rank')" "nr_cis d \<le> 8"
  shows "fst (commit_commands H commands (ci_hw rank)) = DPU_RANK_SUCCESS
    \<and> color rank' = color rank XOR compute_ci_mask d commands
    \<and> (\<forall>ci < nr_cis d. commands ! ci \<noteq> CI_EMPTY \<longrightarrow> (\<exists>k. 1 \<le> k \<and> k \<le> 101 \<and>
        (let result = nth_reply H (rank_data rank, snd (commit_commands H commands (ci_hw rank))) k ci
         in (result AND command_mask d add = command_value d rank add ci \<or> result AND CI_NOP = CI_NOP)
          \<and> (if CI_MASK_ON (color rank) ci then 4 \<le> builtin_popcount (reply_color result) else builtin_popcount (reply_color result) \<le> 4))))"
proof -
  let ?h = "snd (commit_commands H commands (ci_hw rank))"
  obtain c where c: "compute_masks d rank commands add = (DPU_OK, c)"
    using assms(1) by (cases "compute_masks d rank commands add") (auto simp: exec_cmd_def split: if_splits)
  note m = compute_masks_result [OF c assms(2)]
  let ?ec = "color rank AND cis c"
  have e: "exec_cmd d H commands add rank = FF (ci_commit_commands d H commands (invert_color (cis c) rank)) (\<lambda>rank.
      FF (exec_wait d H c ?ec NB_RETRY_FOR_VALID_RESULT (is_done c) rank) (\<lambda>rank. if \<not> is_chip_v1_4 d then update_rank_data d H rank else (DPU_OK, rank)))"
    by (simp add: exec_cmd_def c Let_def)
  have hw: "ci_hw (invert_color (cis c) rank) = ci_hw rank"
    by (simp add: invert_color_def)
  show ?thesis
  proof (cases rule: commit_cases [of d H commands "invert_color (cis c) rank"])
    case (failed r)
    then show ?thesis
      using assms(1) e by simp
  next
    case (sent b)
    let ?r = "(invert_color (cis c) rank)\<lparr>cmds_buffer := b, ci_hw := ?h\<rparr>"
    have com: "ci_commit_commands d H commands (invert_color (cis c) rank) = (DPU_OK, ?r)"
      using sent(1) hw by simp
    obtain r1 where w: "exec_wait d H c ?ec NB_RETRY_FOR_VALID_RESULT (is_done c) ?r = (DPU_OK, r1)"
      and last: "(if \<not> is_chip_v1_4 d then update_rank_data d H r1 else (DPU_OK, r1)) = (DPU_OK, rank')"
      using assms(1) unfolding e com FF_ok
      by (cases "exec_wait d H c ?ec NB_RETRY_FOR_VALID_RESULT (is_done c) ?r") (auto simp: FF_def split: if_splits)
    have n: "nr_cis d \<le> length (is_done c)"
      using m(2) assms(2) by simp
    have "color rank' = color r1"
      using last by (cases rule: update_rank_data_cases [of d H r1]) (auto split: if_splits)
    then have col: "color rank' = color rank XOR compute_ci_mask d commands"
      using exec_wait_accepts(1) [OF w n] m(1) by (simp add: invert_color_def)
    have port: "rank_port ?r = (rank_data rank, ?h)"
      by (simp add: invert_color_def)
    have "\<exists>k. 1 \<le> k \<and> k \<le> 101 \<and> accepted c ?ec ci (nth_reply H (rank_data rank, ?h) k ci)" if "ci < nr_cis d" "commands ! ci \<noteq> CI_EMPTY" for ci
      using exec_wait_accepts(2) [OF w n that(1)] m(3) [OF that(1)] that(2) unfolding port by simp
    then have "\<exists>k. 1 \<le> k \<and> k \<le> 101 \<and> (let result = nth_reply H (rank_data rank, ?h) k ci
         in (result AND command_mask d add = command_value d rank add ci \<or> result AND CI_NOP = CI_NOP)
          \<and> (if CI_MASK_ON (color rank) ci then 4 \<le> builtin_popcount (reply_color result) else builtin_popcount (reply_color result) \<le> 4))"
      if "ci < nr_cis d" "commands ! ci \<noteq> CI_EMPTY" for ci
      using m(4) [OF that] expected_color_bit [OF c assms(2) that] that unfolding accepted_def answered_def Let_def by metis
    then show ?thesis
      using col sent(2) hw by metis
  qed
qed

theorem exec_cmd_waits_for_replies_witness:
  "\<exists>rank'. exec_cmd two_cis (constant_handler 0x000100FF00000007) [CI_IDENTITY, 0, 0, 0, 0, 0, 0, 0] False idle_rank = (DPU_OK, rank')
     \<and> color rank' = 1 \<and> fault_decode rank' = 1"
proof -
  let ?x = "exec_cmd two_cis (constant_handler 0x000100FF00000007) [CI_IDENTITY, 0, 0, 0, 0, 0, 0, 0] False idle_rank"
  have run: "fst ?x = DPU_OK" "fault_decode (snd ?x) = 1"
    by code_simp+
  then have "?x = (DPU_OK, snd ?x)"
    by (simp add: prod_eq_iff)
  moreover have "color idle_rank XOR compute_ci_mask two_cis [CI_IDENTITY, 0, 0, 0, 0, 0, 0, 0] = 1"
    by code_simp
  ultimately show ?thesis
    using exec_cmd_waits_for_replies [of two_cis "constant_handler 0x000100FF00000007" "[CI_IDENTITY, 0, 0, 0, 0, 0, 0, 0]" False idle_rank "snd ?x"]
      run(2) by (auto simp: two_cis_def)
qed

text \<open>
  C32: An ambiguous colour is taken for an answer. When every reply to a command carries four copies of each colour, the
  number that the code calls inconsistent and means to be not ready, the interface is marked as done before the look is
  rejected, so that the next look skips it: \<open>exec_cmd\<close> succeeds, and no fault is recorded.
\<close>

theorem exec_cmd_accepts_ambiguous_color:
  assumes "nr_cis d \<le> 8" "commit_commands H commands (ci_hw rank) = (DPU_RANK_SUCCESS, h)"
    and "\<And>data h. fst (update_commands H data h) = DPU_RANK_SUCCESS"
    and "\<And>ci k. ci < nr_cis d \<Longrightarrow> commands ! ci \<noteq> CI_EMPTY \<Longrightarrow>
      nth_reply H (rank_data rank, h) (Suc k) ci AND 0xFF0000FF00000000 = 0x000000FF00000000
      \<and> builtin_popcount (reply_color (nth_reply H (rank_data rank, h) (Suc k) ci)) = 4"
  shows "\<exists>rank'. exec_cmd d H commands False rank = (DPU_OK, rank')
    \<and> fault_decode rank' = fault_decode rank \<and> fault_collide rank' = fault_collide rank"
proof -
  obtain c where c: "compute_masks d rank commands False = (DPU_OK, c)"
    using compute_masks_void [of d rank commands] by (cases "compute_masks d rank commands False") simp
  note m = compute_masks_result [OF c assms(1)]
  let ?ec = "color rank AND cis c"
  have e: "exec_cmd d H commands False rank = FF (ci_commit_commands d H commands (invert_color (cis c) rank)) (\<lambda>rank.
      FF (exec_wait d H c ?ec NB_RETRY_FOR_VALID_RESULT (is_done c) rank) (\<lambda>rank. if \<not> is_chip_v1_4 d then update_rank_data d H rank else (DPU_OK, rank)))"
    by (simp add: exec_cmd_def c Let_def)
  have hw: "ci_hw (invert_color (cis c) rank) = ci_hw rank"
    by (simp add: invert_color_def)
  show ?thesis
  proof (cases rule: commit_cases [of d H commands "invert_color (cis c) rank"])
    case (failed r)
    then show ?thesis
      using assms(2) hw by simp
  next
    case (sent b)
    let ?r = "(invert_color (cis c) rank)\<lparr>cmds_buffer := b, ci_hw := h\<rparr>"
    have com: "ci_commit_commands d H commands (invert_color (cis c) rank) = (DPU_OK, ?r)"
      using sent(1) hw assms(2) by simp
    have port: "rank_port ?r = (rank_data rank, h)" and f: "fault_decode ?r = fault_decode rank" "fault_collide ?r = fault_collide rank"
      by (simp_all add: invert_color_def)
    have amb: "is_done c ! ci \<or> ambiguous_reply c ci (nth_reply H (rank_port ?r) (Suc k) ci)" if "ci < nr_cis d" for ci k
    proof (cases "commands ! ci = CI_EMPTY")
      case False
      then show ?thesis
        using m(4) [OF that False] assms(4) [OF that False, of k]
        unfolding port ambiguous_reply_def answered_def command_mask_def command_value_def by simp
    qed (use m(3) [OF that] in simp)
    have n: "nr_cis d \<le> length (is_done c)" "length (filter (\<lambda>ci. \<not> is_done c ! ci) [0..<nr_cis d]) \<le> NB_RETRY_FOR_VALID_RESULT"
      using m(2) assms(1) length_filter_le [of "\<lambda>ci. \<not> is_done c ! ci" "[0..<nr_cis d]"] by simp_all
    obtain r1 where w: "exec_wait d H c ?ec NB_RETRY_FOR_VALID_RESULT (is_done c) ?r = (DPU_OK, r1)"
      and f1: "fault_decode r1 = fault_decode rank" "fault_collide r1 = fault_collide rank"
      using exec_wait_ambiguous [OF assms(3) amb n] f by metis
    have x: "exec_cmd d H commands False rank = (if \<not> is_chip_v1_4 d then update_rank_data d H r1 else (DPU_OK, r1))"
      unfolding e com FF_ok w ..
    show ?thesis
    proof (cases rule: update_rank_data_cases [of d H r1])
      case (failed r)
      then show ?thesis
        using assms(3) by simp
    next
      case (read b)
      then show ?thesis
        unfolding x using f1 by simp
    qed
  qed
qed

theorem exec_cmd_accepts_ambiguous_color_witness:
  "\<exists>rank'. exec_cmd two_cis (constant_handler 0x000F00FF00000007) [CI_IDENTITY, CI_IDENTITY, 0, 0, 0, 0, 0, 0] False idle_rank = (DPU_OK, rank')
     \<and> fault_decode rank' = fault_decode idle_rank \<and> fault_collide rank' = fault_collide idle_rank"
proof (rule exec_cmd_accepts_ambiguous_color)
  have "(0x000F00FF00000007 :: u64) AND 0xFF0000FF00000000 = 0x000000FF00000000" "builtin_popcount (reply_color 0x000F00FF00000007) = 4"
    by code_simp+
  then show "nth_reply (constant_handler 0x000F00FF00000007) (rank_data idle_rank, ()) (Suc k) ci AND 0xFF0000FF00000000 = 0x000000FF00000000
      \<and> builtin_popcount (reply_color (nth_reply (constant_handler 0x000F00FF00000007) (rank_data idle_rank, ()) (Suc k) ci)) = 4"
    if "ci < nr_cis two_cis" for ci k
    using constant_reply [of ci] that by (simp add: two_cis_def)
qed (simp_all add: two_cis_def constant_handler_def)

end
