(* ===== verification/Tasklets.thy ===== *)
theory Tasklets
  imports Prelude
begin

text \<open>
  The synchronisation of the tasklets of a DPU (\<^verbatim>\<open>dpu-rt/src/syslib\<close>): barriers (\<^verbatim>\<open>barrier.c\<close>), semaphores (\<^verbatim>\<open>sem.c\<close>) and
  handshakes (\<^verbatim>\<open>handshake.c\<close>). The tasklets that wait for a barrier or a semaphore are kept in a circular list through
  the table \<^verbatim>\<open>__WAIT_QUEUE_TABLE\<close> (\<^verbatim>\<open>waitqueue.c\<close>), which all of them share: the entry of a tasklet is
  the tasklet behind it, and the object holds the last one.

  The locks, bits of the hardware, are left out of the objects: a function body between \<^verbatim>\<open>__acquire\<close> and \<^verbatim>\<open>__release\<close> is one step. \<^verbatim>\<open>__resume\<close> retries until the tasklet has stopped,
  so that a tasklet that has left the critical section and is about to stop is resumed as one that has stopped.
\<close>

section \<open>The wait queue\<close>

type_synonym thread_id = u8

type_synonym wait_table = "thread_id \<Rightarrow> u8"

abbreviation (input) EMPTY_WAIT_QUEUE :: u8 where "EMPTY_WAIT_QUEUE \<equiv> 0xFF"

text \<open>The insertion of a tasklet, as in \<^verbatim>\<open>barrier_wait\<close> and \<^verbatim>\<open>sem_take\<close>: the new table; the tasklet becomes the last one.\<close>

definition wait_enqueue :: "thread_id \<Rightarrow> u8 \<Rightarrow> wait_table \<Rightarrow> wait_table" where
  "wait_enqueue tid lst table =
     (if lst = EMPTY_WAIT_QUEUE then table(tid := tid)
      else (table(tid := table lst))(lst := tid))"

text \<open>The removal of the first tasklet in \<^verbatim>\<open>sem_give\<close>: the tasklet, the new last one and the new table.\<close>

definition wait_dequeue :: "u8 \<Rightarrow> wait_table \<Rightarrow> thread_id \<times> u8 \<times> wait_table" where
  "wait_dequeue lst table =
     (let first = table lst
      in if first = lst then (first, EMPTY_WAIT_QUEUE, table)
         else (first, lst, table(lst := table first)))"

text \<open>The loop of \<^verbatim>\<open>barrier_wait\<close> that resumes the tasklets: which ones, in order. It need not end on any table.\<close>

partial_function (option) wake_loop :: "wait_table \<Rightarrow> u8 \<Rightarrow> u8 \<Rightarrow> thread_id list option" where
  "wake_loop table first lst =
     (if first \<noteq> lst then Option.bind (wake_loop table (table first) lst) (\<lambda>resumed. Some (first # resumed))
      else Some [first])"

declare wake_loop.simps [code]

section \<open>Barriers\<close>

record barrier_t =
  b_wait_queue :: u8
  b_count :: u8
  b_initial_count :: u8

definition BARRIER_INIT :: "u8 \<Rightarrow> barrier_t" where
  "BARRIER_INIT counter = \<lparr>b_wait_queue = EMPTY_WAIT_QUEUE, b_count = counter, b_initial_count = counter\<rparr>"

text \<open>The result: whether the caller stops, the tasklets that it resumes, the barrier and the table.\<close>

definition barrier_wait ::
  "thread_id \<Rightarrow> barrier_t \<Rightarrow> wait_table \<Rightarrow> (bool \<times> thread_id list \<times> barrier_t \<times> wait_table) option" where
  "barrier_wait tid b table =
     (let count = b_count b; lst = b_wait_queue b
      in if count = 1
         then if lst \<noteq> EMPTY_WAIT_QUEUE
              then map_option (\<lambda>resumed. (False, resumed,
                     b\<lparr>b_wait_queue := EMPTY_WAIT_QUEUE, b_count := b_initial_count b\<rparr>, table))
                     (wake_loop table (table lst) lst)
              else Some (False, [], b, table)
         else Some (True, [], b\<lparr>b_wait_queue := tid, b_count := count - 1\<rparr>, wait_enqueue tid lst table))"

section \<open>Semaphores\<close>

record sem_t =
  s_wait_queue :: u8
  s_count :: u8
  s_initial_count :: u8

definition SEMAPHORE_INIT :: "u8 \<Rightarrow> sem_t" where
  "SEMAPHORE_INIT counter = \<lparr>s_wait_queue = EMPTY_WAIT_QUEUE, s_count = counter, s_initial_count = counter\<rparr>"

text \<open>\<^verbatim>\<open>char count = sem->count - 1\<close> is a signed byte. The boolean tells whether the caller stops.\<close>

definition sem_take :: "thread_id \<Rightarrow> sem_t \<Rightarrow> wait_table \<Rightarrow> bool \<times> sem_t \<times> wait_table" where
  "sem_take tid sem table =
     (let count = s_count sem - 1
      in if sint count < 0
         then (True, sem\<lparr>s_wait_queue := tid, s_count := count\<rparr>, wait_enqueue tid (s_wait_queue sem) table)
         else (False, sem\<lparr>s_count := count\<rparr>, table))"

definition sem_give :: "sem_t \<Rightarrow> wait_table \<Rightarrow> thread_id option \<times> sem_t \<times> wait_table" where
  "sem_give sem table =
     (let count = s_count sem + 1; lst = s_wait_queue sem
      in if lst \<noteq> EMPTY_WAIT_QUEUE
         then case wait_dequeue lst table of
                (first, lst, table) \<Rightarrow> (Some first, sem\<lparr>s_wait_queue := lst, s_count := count\<rparr>, table)
         else (None, sem\<lparr>s_count := count\<rparr>, table))"

section \<open>Handshakes\<close>

abbreviation (input) EALREADY :: int where "EALREADY \<equiv> 114"

text \<open>
  The entry of a notifier in \<^verbatim>\<open>__handshake_array\<close> is empty, the notifier when it waits, or the tasklet that waits for it. The
  results tell whether the caller stops and whom it resumes.
\<close>

definition handshake_notify :: "thread_id \<Rightarrow> wait_table \<Rightarrow> bool \<times> thread_id option \<times> wait_table" where
  "handshake_notify tid arr =
     (let info = arr tid
      in if info = EMPTY_WAIT_QUEUE then (True, None, arr(tid := tid))
         else (False, Some info, arr(tid := EMPTY_WAIT_QUEUE)))"

definition handshake_wait_for :: "thread_id \<Rightarrow> u32 \<Rightarrow> wait_table \<Rightarrow> int \<times> bool \<times> thread_id option \<times> wait_table" where
  "handshake_wait_for tid notifier arr =
     (let thread = ucast notifier; info = arr thread
      in if info = EMPTY_WAIT_QUEUE then (0, True, None, arr(thread := tid))
         else if info \<noteq> thread then (EALREADY, False, None, arr)
         else (0, False, Some info, arr(thread := EMPTY_WAIT_QUEUE)))"

text \<open>
  Whoever comes first to a handshake stops and the other one resumes it, both calls return 0 and the entry is empty again; a
  second tasklet that waits for the same notifier is refused and stops nobody.
\<close>

lemma handshake_meets:
  assumes "arr (ucast n) = EMPTY_WAIT_QUEUE" "ucast n \<noteq> EMPTY_WAIT_QUEUE" "w \<noteq> ucast n" "w \<noteq> EMPTY_WAIT_QUEUE"
  shows "handshake_notify (ucast n) arr = (True, None, arr(ucast n := ucast n))"
    and "handshake_wait_for w n (arr(ucast n := ucast n)) = (0, False, Some (ucast n), arr)"
    and "handshake_wait_for w n arr = (0, True, None, arr(ucast n := w))"
    and "handshake_notify (ucast n) (arr(ucast n := w)) = (False, Some w, arr)"
    and "handshake_wait_for v n (arr(ucast n := w)) = (EALREADY, False, None, arr(ucast n := w))"
  using assms by (auto simp: handshake_notify_def handshake_wait_for_def Let_def)

section \<open>The circular list implements a queue\<close>

text \<open>\<open>chain table xs y\<close>: from each tasklet of \<open>xs\<close> the table leads to the next one, and from the last one to \<open>y\<close>.\<close>

fun chain :: "wait_table \<Rightarrow> thread_id list \<Rightarrow> thread_id \<Rightarrow> bool" where
  "chain table [] y \<longleftrightarrow> True"
| "chain table [x] y \<longleftrightarrow> table x = y"
| "chain table (x # x' # xs) y \<longleftrightarrow> table x = x' \<and> chain table (x' # xs) y"

definition ring :: "wait_table \<Rightarrow> u8 \<Rightarrow> thread_id list \<Rightarrow> bool" where
  "ring table l xs \<longleftrightarrow> distinct xs \<and> EMPTY_WAIT_QUEUE \<notin> set xs
     \<and> (if xs = [] then l = EMPTY_WAIT_QUEUE else l = last xs \<and> chain table xs (hd xs))"

lemma chain_append: "chain table (xs @ [x]) y \<longleftrightarrow> (xs \<noteq> [] \<longrightarrow> chain table xs x) \<and> table x = y"
  by (induction table xs x rule: chain.induct) auto

lemma chain_cong: "(\<And>x. x \<in> set xs \<Longrightarrow> t x = t' x) \<Longrightarrow> chain t xs y = chain t' xs y"
  by (induction t xs y rule: chain.induct) auto

lemma ring_empty [simp]: "ring table EMPTY_WAIT_QUEUE xs \<longleftrightarrow> xs = []"
  by (cases xs rule: rev_cases) (auto simp: ring_def)

lemma ring_last: "ring table l xs \<Longrightarrow> xs \<noteq> [] \<Longrightarrow> l = last xs \<and> l \<noteq> EMPTY_WAIT_QUEUE"
  by (cases xs rule: rev_cases) (auto simp: ring_def)

lemma ring_cong: "(\<And>x. x \<in> set xs \<Longrightarrow> t x = t' x) \<Longrightarrow> ring t l xs = ring t' l xs"
  unfolding ring_def using chain_cong [of xs t t'] by auto

lemma ring_enqueue:
  assumes "ring table l xs" "tid \<notin> set xs" "tid \<noteq> EMPTY_WAIT_QUEUE"
  shows "ring (wait_enqueue tid l table) tid (xs @ [tid])"
proof (cases "xs = []")
  case True
  then show ?thesis
    using assms by (auto simp: ring_def wait_enqueue_def)
next
  case False
  then obtain ys z where xs: "xs = ys @ [z]"
    by (metis append_butlast_last_id)
  have l: "l = z" "l \<noteq> EMPTY_WAIT_QUEUE"
    using ring_last [OF assms(1) False] xs by (simp, blast)
  let ?t = "(table(tid := table z))(z := tid)"
  have "ys \<noteq> [] \<Longrightarrow> chain ?t ys z = chain table ys z"
    using assms xs by (intro chain_cong) (auto simp: ring_def)
  then have "chain ?t (ys @ [z]) tid" "?t tid = hd xs"
    using assms(1,2) xs l by (auto simp: ring_def chain_append)
  then have "chain ?t (xs @ [tid]) (hd xs)"
    using chain_append [of ?t xs tid "hd xs"] xs by blast
  then show ?thesis
    using assms l False by (auto simp: ring_def wait_enqueue_def)
qed

lemma ring_dequeue:
  assumes "ring table l (x # xs)"
  shows "\<exists>l' table'. wait_dequeue l table = (x, l', table') \<and> ring table' l' xs \<and> (\<forall>y. y \<notin> set (x # xs) \<longrightarrow> table' y = table y)"
proof (cases xs rule: rev_cases)
  case Nil
  then show ?thesis
    using assms by (auto simp: ring_def wait_dequeue_def Let_def)
next
  case (snoc ys z)
  have l: "l = z" "table z = x" "z \<noteq> x" "distinct xs" "EMPTY_WAIT_QUEUE \<notin> set xs"
    using assms snoc chain_append [of table "x # ys" z x] by (auto simp: ring_def)
  have c: "chain table (x # ys) z"
    using assms snoc chain_append [of table "x # ys" z x] by (simp add: ring_def)
  have tx: "table x = hd xs"
    using c snoc by (cases ys) auto
  let ?t = "table(z := table x)"
  have "ys \<noteq> [] \<Longrightarrow> chain ?t ys z"
  proof -
    assume "ys \<noteq> []"
    then have "chain table ys z"
      using c by (cases ys) auto
    moreover have "chain ?t ys z = chain table ys z"
      using l(4) snoc by (intro chain_cong) auto
    ultimately show ?thesis by simp
  qed
  then have "chain ?t xs (hd xs)"
    using tx snoc by (simp add: chain_append)
  then have "ring ?t z xs"
    using l snoc by (simp add: ring_def)
  moreover have "wait_dequeue l table = (x, z, ?t)"
    using l by (simp add: wait_dequeue_def Let_def)
  ultimately show ?thesis
    using snoc by auto
qed

lemma wake_loop_chain: "chain table xs y \<Longrightarrow> xs \<noteq> [] \<Longrightarrow> distinct xs \<Longrightarrow> wake_loop table (hd xs) (last xs) = Some xs"
proof (induction table xs y rule: chain.induct)
  case (3 table x x' xs y)
  then have "x \<noteq> last (x' # xs)"
    using last_in_set [of "x' # xs"] by auto
  with 3 show ?case
    by (subst wake_loop.simps) simp
qed (simp_all add: wake_loop.simps)

lemma ring_wake_all:
  assumes "ring table l xs" "xs \<noteq> []"
  shows "wake_loop table (table l) l = Some xs"
proof -
  obtain ys z where xs: "xs = ys @ [z]"
    using assms(2) by (metis append_butlast_last_id)
  have c: "chain table xs (hd xs)" "l = last xs" "distinct xs"
    using assms by (auto simp: ring_def)
  then have "table l = hd xs"
    using xs by (simp add: chain_append)
  then show ?thesis
    using wake_loop_chain [OF c(1) assms(2) c(3)] c(2) by simp
qed

lemma wait_enqueue_frame: "y \<noteq> tid \<Longrightarrow> y \<noteq> l \<Longrightarrow> wait_enqueue tid l table y = table y"
  by (simp add: wait_enqueue_def)

section \<open>Queues that share a table\<close>

text \<open>
  The contract of the wait queues: every object has a handle, \<open>rep\<close> reads the tasklets that wait for it from the shared table,
  and what is stored for one queue does not disturb the others, as long as no tasklet is in two queues.
\<close>

definition family :: "('t \<Rightarrow> 'h \<Rightarrow> 'a list \<Rightarrow> bool) \<Rightarrow> 't \<Rightarrow> ('o \<Rightarrow> 'h) \<Rightarrow> ('o \<Rightarrow> 'a list) \<Rightarrow> bool" where
  "family rep t h q \<longleftrightarrow> (\<forall>ob. rep t (h ob) (q ob)) \<and> (\<forall>ob ob'. ob \<noteq> ob' \<longrightarrow> set (q ob) \<inter> set (q ob') = {})"

locale shared_queues =
  fixes rep :: "('a \<Rightarrow> 'b) \<Rightarrow> 'h \<Rightarrow> 'a list \<Rightarrow> bool"
    and valid :: "'a \<Rightarrow> bool"
    and empty :: 'h
    and enq :: "'a \<Rightarrow> 'h \<Rightarrow> ('a \<Rightarrow> 'b) \<Rightarrow> 'h \<times> ('a \<Rightarrow> 'b)"
    and deq :: "'h \<Rightarrow> ('a \<Rightarrow> 'b) \<Rightarrow> 'a \<times> 'h \<times> ('a \<Rightarrow> 'b)"
  assumes rep_frame: "\<lbrakk>rep t h xs; \<And>x. x \<in> set xs \<Longrightarrow> t' x = t x\<rbrakk> \<Longrightarrow> rep t' h xs"
    and rep_empty: "rep t empty []"
    and enq_rep: "\<lbrakk>rep t h xs; x \<notin> set xs; valid x; enq x h t = (h', t')\<rbrakk> \<Longrightarrow> rep t' h' (xs @ [x])"
    and enq_frame: "\<lbrakk>rep t h xs; enq x h t = (h', t'); y \<noteq> x; y \<notin> set xs\<rbrakk> \<Longrightarrow> t' y = t y"
    and deq_rep: "\<lbrakk>rep t h (x # xs); deq h t = (x', h', t')\<rbrakk> \<Longrightarrow> x' = x \<and> rep t' h' xs"
    and deq_frame: "\<lbrakk>rep t h (x # xs); deq h t = (x', h', t'); y \<notin> set (x # xs)\<rbrakk> \<Longrightarrow> t' y = t y"
begin

lemma family_update:
  assumes "family rep t h q" "rep t' h' xs" "set xs \<subseteq> insert x (set (q ob))"
    and "\<And>ob'. ob' \<noteq> ob \<Longrightarrow> x \<notin> set (q ob')"
    and "\<And>y. y \<noteq> x \<Longrightarrow> y \<notin> set (q ob) \<Longrightarrow> t' y = t y"
  shows "family rep t' (h(ob := h')) (q(ob := xs))"
proof -
  have "rep t' (h ob') (q ob')" if "ob' \<noteq> ob" for ob'
  proof (rule rep_frame)
    show "rep t (h ob') (q ob')"
      using assms(1) by (simp add: family_def)
    show "t' y = t y" if y: "y \<in> set (q ob')" for y
    proof (rule assms(5))
      show "y \<noteq> x" "y \<notin> set (q ob)"
        using assms(1,4) \<open>ob' \<noteq> ob\<close> y unfolding family_def by blast+
    qed
  qed
  moreover have "set xs \<inter> set (q ob') = {}" if "ob' \<noteq> ob" for ob'
    using assms(1,3,4) that unfolding family_def by blast
  ultimately show ?thesis
    using assms(1,2) by (auto simp: family_def)
qed

lemma family_enq:
  assumes "family rep t h q" "valid x" "\<And>ob. x \<notin> set (q ob)" "enq x (h ob) t = (h', t')"
  shows "family rep t' (h(ob := h')) (q(ob := q ob @ [x]))"
proof (rule family_update [OF assms(1)])
  show "rep t' h' (q ob @ [x])"
    using assms by (auto simp: family_def intro: enq_rep)
  show "\<And>y. y \<noteq> x \<Longrightarrow> y \<notin> set (q ob) \<Longrightarrow> t' y = t y"
    using assms(1) enq_frame [OF _ assms(4)] by (auto simp: family_def)
qed (use assms in auto)

lemma family_deq:
  assumes "family rep t h q" "q ob = x # xs" "deq (h ob) t = (x', h', t')"
  shows "x' = x \<and> family rep t' (h(ob := h')) (q(ob := xs))"
proof -
  have rep: "rep t (h ob) (x # xs)"
    using assms(1,2) by (metis family_def)
  moreover have "family rep t' (h(ob := h')) (q(ob := xs))"
  proof (rule family_update [OF assms(1), where x = x])
    show "rep t' h' xs"
      using deq_rep [OF rep assms(3)] by blast
    show "\<And>y. y \<noteq> x \<Longrightarrow> y \<notin> set (q ob) \<Longrightarrow> t' y = t y"
      using deq_frame [OF rep assms(3)] assms(2) by simp
    show "\<And>ob'. ob' \<noteq> ob \<Longrightarrow> x \<notin> set (q ob')"
      using assms(1,2) unfolding family_def by (metis disjoint_iff list.set_intros(1))
  qed (use assms(2) in auto)
  ultimately show ?thesis
    using deq_rep [OF rep assms(3)] by blast
qed

lemma family_clear:
  assumes "family rep t h q"
  shows "family rep t (h(ob := empty)) (q(ob := []))"
  using assms rep_empty by (auto simp: family_def)

end

interpretation rings: shared_queues ring "\<lambda>tid. tid \<noteq> EMPTY_WAIT_QUEUE" EMPTY_WAIT_QUEUE
  "\<lambda>tid l table. (tid, wait_enqueue tid l table)" wait_dequeue
proof unfold_locales
  fix t t' :: wait_table and h :: u8 and xs
  assume "ring t h xs" "\<And>x. x \<in> set xs \<Longrightarrow> t' x = t x"
  then show "ring t' h xs"
    using ring_cong [of xs t t' h] by simp
next
  fix t t' :: wait_table and h h' :: u8 and xs x y
  assume a: "ring t h xs" "(x, wait_enqueue x h t) = (h', t')" "y \<noteq> x" "y \<notin> set xs"
  show "t' y = t y"
  proof (cases "xs = []")
    case True
    then show ?thesis using a by (auto simp: ring_def wait_enqueue_def)
  next
    case False
    then have "y \<noteq> h"
      using a(4) ring_last [OF a(1) False] last_in_set [OF False] by metis
    then show ?thesis
      using a(2,3) wait_enqueue_frame [of y x h t] by auto
  qed
next
  fix t t' :: wait_table and h h' :: u8 and x x' xs
  assume "ring t h (x # xs)" "wait_dequeue h t = (x', h', t')"
  then show "x' = x \<and> ring t' h' xs"
    using ring_dequeue [of t h x xs] by auto
next
  fix t t' :: wait_table and h h' :: u8 and x x' xs y
  assume "ring t h (x # xs)" "wait_dequeue h t = (x', h', t')" "y \<notin> set (x # xs)"
  then show "t' y = t y"
    using ring_dequeue [of t h x xs] by auto
qed (auto intro: ring_enqueue)

section \<open>The tasklets of a DPU\<close>

text \<open>
  The semaphores and barriers of the program by their index, the shared table, and the tasklets that are stopped. A call of a
  synchronisation function is one step of a running tasklet.
\<close>

record tasklets =
  sems :: "nat \<Rightarrow> sem_t"
  bars :: "nat \<Rightarrow> barrier_t"
  wq_table :: wait_table
  stopped :: "thread_id set"

datatype call = Take nat | Give nat | Wait nat

definition tasklet_call :: "thread_id \<Rightarrow> call \<Rightarrow> tasklets \<Rightarrow> tasklets option" where
  "tasklet_call tid c st =
     (case c of
        Take i \<Rightarrow>
          (case sem_take tid (sems st i) (wq_table st) of
             (stop, sem, table) \<Rightarrow>
               Some (st\<lparr>sems := (sems st)(i := sem), wq_table := table,
                        stopped := (if stop then insert tid (stopped st) else stopped st)\<rparr>))
      | Give i \<Rightarrow>
          (case sem_give (sems st i) (wq_table st) of
             (resumed, sem, table) \<Rightarrow>
               Some (st\<lparr>sems := (sems st)(i := sem), wq_table := table, stopped := stopped st - set_option resumed\<rparr>))
      | Wait i \<Rightarrow>
          map_option (\<lambda>(stop, resumed, bar, table).
             st\<lparr>bars := (bars st)(i := bar), wq_table := table,
                stopped := (if stop then insert tid (stopped st - set resumed) else stopped st - set resumed)\<rparr>)
            (barrier_wait tid (bars st i) (wq_table st)))"

abbreviation (input) NR_THREADS :: nat where "NR_THREADS \<equiv> 24"

text \<open>The image of the DPU: the table is \<^verbatim>\<open>__sys_wq_table\<close>, all entries empty.\<close>

definition dpu_image :: "(nat \<Rightarrow> u8) \<Rightarrow> (nat \<Rightarrow> u8) \<Rightarrow> tasklets" where
  "dpu_image counts sizes =
     \<lparr>sems = (\<lambda>i. SEMAPHORE_INIT (counts i)), bars = (\<lambda>i. BARRIER_INIT (sizes i)),
      wq_table = (\<lambda>_. EMPTY_WAIT_QUEUE), stopped = {}\<rparr>"

text \<open>
  The histories: a running tasklet calls. The counter of a semaphore is a signed byte, so that \<^verbatim>\<open>sem_give\<close> is called on
  a semaphore with at most 126 units.
\<close>

definition may_call :: "thread_id \<Rightarrow> call \<Rightarrow> tasklets \<Rightarrow> bool" where
  "may_call tid c st \<longleftrightarrow> unat tid < NR_THREADS \<and> tid \<notin> stopped st
     \<and> (case c of Give i \<Rightarrow> s_count (sems st i) \<noteq> 127 | _ \<Rightarrow> True)"

inductive history :: "tasklets \<Rightarrow> (thread_id \<times> call) list \<Rightarrow> tasklets \<Rightarrow> bool" where
  history_start: "history st [] st"
| history_call: "\<lbrakk>history st tr st'; may_call tid c st'; tasklet_call tid c st' = Some st''\<rbrakk>
     \<Longrightarrow> history st (tr @ [(tid, c)]) st''"

section \<open>Who waits: the specification by the history\<close>

datatype sync_object = Sem nat | Bar nat

definition callers :: "call \<Rightarrow> (thread_id \<times> call) list \<Rightarrow> thread_id list" where
  "callers c tr = map fst (filter (\<lambda>e. snd e = c) tr)"

text \<open>
  A semaphore lets the takers pass in the order of their calls, as many as it had units and was given; the others wait. A
  barrier of \<open>n\<close> tasklets lets its callers pass in rounds of \<open>n\<close>; those of the unfinished round wait.
\<close>

definition waiting :: "(nat \<Rightarrow> u8) \<Rightarrow> (nat \<Rightarrow> u8) \<Rightarrow> (thread_id \<times> call) list \<Rightarrow> sync_object \<Rightarrow> thread_id list" where
  "waiting counts sizes tr ob =
     (case ob of
        Sem i \<Rightarrow> drop (unat (counts i) + length (callers (Give i) tr)) (callers (Take i) tr)
      | Bar i \<Rightarrow> let w = callers (Wait i) tr in drop (length w div unat (sizes i) * unat (sizes i)) w)"

definition handle :: "tasklets \<Rightarrow> sync_object \<Rightarrow> u8" where
  "handle st ob = (case ob of Sem i \<Rightarrow> s_wait_queue (sems st i) | Bar i \<Rightarrow> b_wait_queue (bars st i))"

definition conforms :: "(nat \<Rightarrow> u8) \<Rightarrow> (nat \<Rightarrow> u8) \<Rightarrow> (thread_id \<times> call) list \<Rightarrow> tasklets \<Rightarrow> bool" where
  "conforms counts sizes tr st \<longleftrightarrow>
     family ring (wq_table st) (handle st) (waiting counts sizes tr)
     \<and> stopped st = (\<Union>ob. set (waiting counts sizes tr ob))
     \<and> (\<forall>x \<in> stopped st. unat x < NR_THREADS)
     \<and> (\<forall>i. sint (s_count (sems st i))
             = int (unat (counts i)) + int (length (callers (Give i) tr)) - int (length (callers (Take i) tr)))
     \<and> (\<forall>i. b_initial_count (bars st i) = sizes i
            \<and> unat (b_count (bars st i)) + length (waiting counts sizes tr (Bar i)) = unat (sizes i))"

text \<open>The conditions that \<^verbatim>\<open>SEMAPHORE_INIT\<close> and \<^verbatim>\<open>BARRIER_INIT\<close> assert, for counters that are not negative.\<close>

definition counters_ok :: "(nat \<Rightarrow> u8) \<Rightarrow> (nat \<Rightarrow> u8) \<Rightarrow> bool" where
  "counters_ok counts sizes \<longleftrightarrow> (\<forall>i. unat (counts i) < 128 \<and> 0 < unat (sizes i) \<and> unat (sizes i) < 128)"

lemma callers_append [simp]:
  "callers c (tr @ [(tid, d)]) = callers c tr @ (if d = c then [tid] else [])"
  "callers c [] = []"
  by (simp_all add: callers_def)

lemma waiting_take:
  "waiting counts sizes (tr @ [(tid, Take i)]) =
     (waiting counts sizes tr)(Sem i := waiting counts sizes tr (Sem i)
        @ (if unat (counts i) + length (callers (Give i) tr) \<le> length (callers (Take i) tr) then [tid] else []))"
  by (auto simp: waiting_def fun_eq_iff split: sync_object.splits)

lemma waiting_give:
  "waiting counts sizes (tr @ [(tid, Give i)]) =
     (waiting counts sizes tr)(Sem i := tl (waiting counts sizes tr (Sem i)))"
  by (auto simp: waiting_def fun_eq_iff drop_Suc tl_drop split: sync_object.splits)

lemma drop_round:
  fixes n :: nat
  assumes "0 < n"
  shows "drop (length (w @ [x]) div n * n) (w @ [x]) =
     (if length (drop (length w div n * n) w) + 1 = n then [] else drop (length w div n * n) w @ [x])"
proof (cases "Suc (length w mod n) = n")
  case True
  then have "Suc (length w) div n = Suc (length w div n)"
    by (simp add: div_Suc mod_Suc)
  moreover have "length w div n * n + Suc (length w mod n) = Suc (length w)"
    by simp
  ultimately show ?thesis
    using True by (simp add: minus_div_mult_eq_mod)
next
  case False
  then have "Suc (length w) div n = length w div n"
    by (simp add: div_Suc mod_Suc)
  then show ?thesis
    using False by (simp add: minus_div_mult_eq_mod)
qed

lemma waiting_wait:
  assumes "0 < unat (sizes i)"
  shows "waiting counts sizes (tr @ [(tid, Wait i)]) =
     (waiting counts sizes tr)(Bar i :=
        (if length (waiting counts sizes tr (Bar i)) + 1 = unat (sizes i) then []
         else waiting counts sizes tr (Bar i) @ [tid]))"
  using drop_round [OF assms, of "callers (Wait i) tr" tid]
  by (auto simp: waiting_def fun_eq_iff Let_def split: sync_object.splits)

lemma sint_u8_dec: "- 128 < sint (c :: u8) \<Longrightarrow> sint (c - 1) = sint c - 1"
  using sint_lt [of c] by (simp add: sint_word_ariths signed_take_bit_int_eq_self)

lemma sint_u8_inc: "sint (c :: u8) < 127 \<Longrightarrow> sint (c + 1) = sint c + 1"
  using sint_ge [of c] by (simp add: sint_word_ariths signed_take_bit_int_eq_self)

lemma family_members:
  assumes "family rep t h q"
  shows "(\<Union>ob'. set ((q(ob := xs)) ob')) = (\<Union>ob'. set (q ob')) - set (q ob) \<union> set xs"
proof -
  have "x \<notin> set (q ob)" if "ob' \<noteq> ob" "x \<in> set (q ob')" for x ob'
    using assms that unfolding family_def by blast
  then show ?thesis
    by (auto split: if_splits)
qed

lemma ring_length:
  assumes "ring t l xs" "\<And>x. x \<in> set xs \<Longrightarrow> unat x < n"
  shows "length xs \<le> n"
proof -
  have "inj_on unat (set xs)"
    by (intro inj_onI) (simp add: word_unat_eq_iff)
  then have "card (set xs) = card (unat ` set xs)"
    by (simp add: card_image)
  also have "\<dots> \<le> card {..<n}"
    using assms(2) by (intro card_mono) auto
  finally show ?thesis
    using assms(1) by (simp add: ring_def distinct_card)
qed

lemma handle_update [simp]:
  "handle (st\<lparr>stopped := S\<rparr>) = handle st"
  "handle (st\<lparr>wq_table := t\<rparr>) = handle st"
  "handle (st\<lparr>sems := (sems st)(i := s)\<rparr>) = (handle st)(Sem i := s_wait_queue s)"
  "handle (st\<lparr>bars := (bars st)(i := b)\<rparr>) = (handle st)(Bar i := b_wait_queue b)"
  by (auto simp: handle_def fun_eq_iff split: sync_object.splits)

lemma thread_id_not_empty: "unat (tid :: u8) < NR_THREADS \<Longrightarrow> tid \<noteq> EMPTY_WAIT_QUEUE"
  by auto

lemma conforms_ring: "conforms counts sizes tr st \<Longrightarrow> ring (wq_table st) (handle st ob) (waiting counts sizes tr ob)"
  by (simp add: conforms_def family_def)

lemma conforms_waiting:
  assumes "conforms counts sizes tr st"
  shows "x \<in> set (waiting counts sizes tr ob) \<Longrightarrow> x \<in> stopped st"
    and "x \<in> set (waiting counts sizes tr ob) \<Longrightarrow> unat x < NR_THREADS"
    and "length (waiting counts sizes tr ob) \<le> NR_THREADS"
proof -
  show *: "x \<in> stopped st" "unat x < NR_THREADS" if "x \<in> set (waiting counts sizes tr ob)" for x
    using assms that unfolding conforms_def by blast+
  show "length (waiting counts sizes tr ob) \<le> NR_THREADS"
    using ring_length [OF conforms_ring [OF assms], of ob NR_THREADS] * by blast
qed

lemma conforms_units:
  assumes "conforms counts sizes tr st"
  shows "sint (s_count (sems st i))
           = int (unat (counts i)) + int (length (callers (Give i) tr)) - int (length (callers (Take i) tr))"
  using assms unfolding conforms_def by blast

lemma conforms_sem_count:
  assumes "conforms counts sizes tr st"
  shows "- 24 \<le> sint (s_count (sems st i))"
proof -
  have "length (callers (Take i) tr) - (unat (counts i) + length (callers (Give i) tr)) \<le> NR_THREADS"
    using conforms_waiting(3) [OF assms, of "Sem i"] by (simp add: waiting_def)
  then show ?thesis
    using conforms_units [OF assms, of i] by linarith
qed

lemma conforms_take:
  assumes c: "conforms counts sizes tr st" and m: "may_call tid (Take i) st"
  shows "\<exists>st'. tasklet_call tid (Take i) st = Some st' \<and> conforms counts sizes (tr @ [(tid, Take i)]) st'"
proof -
  let ?w = "waiting counts sizes tr" and ?n = "s_count (sems st i) - 1"
  have fam: "family ring (wq_table st) (handle st) ?w" and st: "stopped st = (\<Union>ob. set (?w ob))"
    using c by (simp_all add: conforms_def)
  have new: "tid \<notin> set (?w ob)" for ob
    using m conforms_waiting(1) [OF c] by (auto simp: may_call_def)
  have n: "sint ?n = sint (s_count (sems st i)) - 1"
    using conforms_sem_count [OF c, of i] by (intro sint_u8_dec) simp
  then have stops: "sint ?n < 0 \<longleftrightarrow> unat (counts i) + length (callers (Give i) tr) \<le> length (callers (Take i) tr)"
    using conforms_units [OF c, of i] by linarith
  show ?thesis
  proof (cases "sint ?n < 0")
    case True
    let ?t = "wait_enqueue tid (s_wait_queue (sems st i)) (wq_table st)"
    have "family ring ?t ((handle st)(Sem i := tid)) (?w(Sem i := ?w (Sem i) @ [tid]))"
      using m new by (intro rings.family_enq [OF fam]) (auto simp: may_call_def handle_def)
    moreover have "(\<Union>ob. set ((?w(Sem i := ?w (Sem i) @ [tid])) ob)) = insert tid (stopped st)"
      unfolding st using family_members [OF fam, of "Sem i" "?w (Sem i) @ [tid]"] by auto
    ultimately show ?thesis
      using True stops c m n
      by (simp add: tasklet_call_def sem_take_def Let_def conforms_def waiting_take may_call_def)
  next
    case False
    have "(handle st)(Sem i := s_wait_queue (sems st i)) = handle st"
      by (simp add: handle_def fun_eq_iff)
    with False stops c n show ?thesis
      by (simp add: tasklet_call_def sem_take_def Let_def conforms_def waiting_take)
  qed
qed

lemma conforms_give:
  assumes c: "conforms counts sizes tr st" and m: "may_call tid (Give i) st"
  shows "\<exists>st'. tasklet_call tid (Give i) st = Some st' \<and> conforms counts sizes (tr @ [(tid, Give i)]) st'"
proof -
  let ?w = "waiting counts sizes tr"
  have fam: "family ring (wq_table st) (handle st) ?w" and st: "stopped st = (\<Union>ob. set (?w ob))"
    using c by (simp_all add: conforms_def)
  have "sint (s_count (sems st i)) \<noteq> 127"
  proof
    assume "sint (s_count (sems st i)) = 127"
    then have "sint (s_count (sems st i)) = sint (127 :: u8)"
      by simp
    then show False
      using m by (simp add: may_call_def signed_word_eqI)
  qed
  then have n: "sint (s_count (sems st i) + 1) = sint (s_count (sems st i)) + 1"
    using sint_lt [of "s_count (sems st i)"] by (intro sint_u8_inc) simp
  show ?thesis
  proof (cases "?w (Sem i)")
    case Nil
    then have "handle st (Sem i) = EMPTY_WAIT_QUEUE"
      using conforms_ring [OF c, of "Sem i"] by (simp add: ring_def)
    moreover have "(handle st)(Sem i := s_wait_queue (sems st i)) = handle st" "?w(Sem i := []) = ?w"
      using Nil by (auto simp: handle_def fun_eq_iff)
    ultimately show ?thesis
      using Nil c n by (simp add: tasklet_call_def sem_give_def Let_def conforms_def waiting_give handle_def)
  next
    case (Cons x xs)
    have r: "ring (wq_table st) (handle st (Sem i)) (x # xs)"
      using conforms_ring [OF c, of "Sem i"] Cons by simp
    obtain x' h' t' where d: "wait_dequeue (handle st (Sem i)) (wq_table st) = (x', h', t')"
      by (metis prod_cases3)
    have f: "x' = x" "family ring t' ((handle st)(Sem i := h')) (?w(Sem i := xs))"
      using rings.family_deq [OF fam Cons d] by simp_all
    have "x \<notin> set xs" "set xs \<subseteq> stopped st"
      using r conforms_waiting(1) [OF c, of _ "Sem i"] Cons by (auto simp: ring_def)
    then have s: "(\<Union>ob. set ((?w(Sem i := xs)) ob)) = stopped st - {x}"
      unfolding st using family_members [OF fam, of "Sem i" xs] Cons by auto
    have "handle st (Sem i) \<noteq> EMPTY_WAIT_QUEUE"
      using ring_last [OF r list.distinct(2)] by blast
    then show ?thesis
      using Cons c n f d s
      by (simp add: tasklet_call_def sem_give_def Let_def conforms_def waiting_give handle_def)
  qed
qed

lemma conforms_wait:
  assumes ok: "counters_ok counts sizes" and c: "conforms counts sizes tr st" and m: "may_call tid (Wait i) st"
  shows "\<exists>st'. tasklet_call tid (Wait i) st = Some st' \<and> conforms counts sizes (tr @ [(tid, Wait i)]) st'"
proof -
  let ?w = "waiting counts sizes tr" and ?b = "bars st i"
  have fam: "family ring (wq_table st) (handle st) ?w" and st: "stopped st = (\<Union>ob. set (?w ob))"
    and b: "b_initial_count ?b = sizes i" "unat (b_count ?b) + length (?w (Bar i)) = unat (sizes i)"
    using c by (simp_all add: conforms_def)
  have pos: "0 < unat (sizes i)"
    using ok by (simp add: counters_ok_def)
  note ww = waiting_wait [where sizes = sizes and i = i, OF pos]
  have h: "handle st (Bar i) = b_wait_queue ?b"
    by (simp add: handle_def)
  have new: "tid \<notin> set (?w ob)" for ob
    using m conforms_waiting(1) [OF c] by (auto simp: may_call_def)
  have last: "b_count ?b = 1 \<longleftrightarrow> length (?w (Bar i)) + 1 = unat (sizes i)"
    using b(2) by (auto simp: word_unat_eq_iff)
  have "length (?w (Bar i)) < unat (sizes i)"
    using pos by (simp add: waiting_def Let_def minus_div_mult_eq_mod)
  then have "b_count ?b \<noteq> 0"
    using b(2) by auto
  show ?thesis
  proof (cases "b_count ?b = 1")
    case False
    let ?t = "wait_enqueue tid (b_wait_queue ?b) (wq_table st)"
    have "family ring ?t ((handle st)(Bar i := tid)) (?w(Bar i := ?w (Bar i) @ [tid]))"
      using m new h by (intro rings.family_enq [OF fam]) (auto simp: may_call_def)
    moreover have "(\<Union>ob. set ((?w(Bar i := ?w (Bar i) @ [tid])) ob)) = insert tid (stopped st)"
      unfolding st using family_members [OF fam, of "Bar i" "?w (Bar i) @ [tid]"] by auto
    moreover have "Suc (unat (b_count ?b - 1) + length (?w (Bar i))) = unat (sizes i)"
      using unat_minus_one [OF \<open>b_count ?b \<noteq> 0\<close>] unat_gt_0 [of "b_count ?b"] \<open>b_count ?b \<noteq> 0\<close> b(2) by linarith
    ultimately show ?thesis
      using False last c m b \<open>b_count ?b \<noteq> 0\<close>
      by (simp add: tasklet_call_def barrier_wait_def Let_def conforms_def ww may_call_def)
  next
    case True
    have f: "family ring (wq_table st) ((handle st)(Bar i := EMPTY_WAIT_QUEUE)) (?w(Bar i := []))"
      by (rule rings.family_clear [OF fam])
    have s: "(\<Union>ob. set ((?w(Bar i := [])) ob)) = stopped st - set (?w (Bar i))"
      unfolding st using family_members [OF fam, of "Bar i" "[]"] by simp
    show ?thesis
    proof (cases "?w (Bar i) = []")
      case w: True
      then have "b_wait_queue ?b = EMPTY_WAIT_QUEUE"
        using conforms_ring [OF c, of "Bar i"] h by (simp add: ring_def)
      moreover have "?w(Bar i := []) = ?w" "(bars st)(i := ?b) = bars st"
        using w by auto
      ultimately show ?thesis
        using True last c w b by (simp add: tasklet_call_def barrier_wait_def Let_def conforms_def ww)
    next
      case w: False
      have "wake_loop (wq_table st) (wq_table st (b_wait_queue ?b)) (b_wait_queue ?b) = Some (?w (Bar i))"
        using ring_wake_all [OF conforms_ring [OF c, of "Bar i"] w] h by simp
      moreover have "b_wait_queue ?b \<noteq> EMPTY_WAIT_QUEUE"
        using ring_last [OF conforms_ring [OF c, of "Bar i"] w] h by metis
      ultimately show ?thesis
        using True last c b f s
        by (simp add: tasklet_call_def barrier_wait_def Let_def conforms_def ww)
    qed
  qed
qed

lemma conforms_call:
  assumes "counters_ok counts sizes" "conforms counts sizes tr st" "may_call tid c st"
  shows "\<exists>st'. tasklet_call tid c st = Some st' \<and> conforms counts sizes (tr @ [(tid, c)]) st'"
  using assms conforms_take conforms_give conforms_wait by (cases c) simp_all

lemma conforms_image:
  assumes "counters_ok counts sizes"
  shows "conforms counts sizes [] (dpu_image counts sizes)"
proof -
  have "sint (counts i) = int (unat (counts i))" for i
  proof -
    have "unat (counts i) < 128"
      using assms by (simp add: counters_ok_def)
    then have "int (unat (counts i)) < 128"
      by linarith
    then show ?thesis
      using signed_take_bit_int_eq_self [of 7 "uint (counts i)"] order_trans [of "- 128" 0 "uint (counts i)"]
      by (simp add: sint_uint)
  qed
  then show ?thesis
    by (auto simp: conforms_def dpu_image_def family_def waiting_def handle_def SEMAPHORE_INIT_def BARRIER_INIT_def
        split: sync_object.splits)
qed

lemma conforms_history:
  assumes "history (dpu_image counts sizes) tr st" "counters_ok counts sizes"
  shows "conforms counts sizes tr st"
  using assms
proof (induction "dpu_image counts sizes" tr st rule: history.induct)
  case (history_call tr st' tid c st'')
  then show ?case
    using conforms_call [of counts sizes tr st' tid c] by auto
qed (rule conforms_image)

section \<open>Properties\<close>



end
