(* ===== verification/Heap.thy ===== *)
theory Heap
  imports Prelude
begin

text \<open>
  The allocators of a DPU: the heap of WRAM (\<^verbatim>\<open>dpu-rt/src/syslib/alloc.c\<close>), which only grows until it is reset, and the
  fixed-size block allocator (\<^verbatim>\<open>fsb_allocator.c\<close>), a list of the free blocks that is stored in the blocks themselves. The
  functions hold a hardware mutex, so that each of them is one step. An access outside the WRAM of the DPU, whose size
  is a parameter, is a fault.
\<close>

section \<open>WRAM\<close>

datatype dpu_fault = FAULT_ALLOC_HEAP_FULL | MEMORY_FAULT

record wram =
  heap_pointer :: u32
  words :: "u32 \<Rightarrow> u32"

definition word_ok :: "nat \<Rightarrow> u32 \<Rightarrow> bool" where
  "word_ok wram_size a \<longleftrightarrow> unat a mod 4 = 0 \<and> unat a + 4 \<le> wram_size"

definition load :: "nat \<Rightarrow> u32 \<Rightarrow> wram \<Rightarrow> dpu_fault + u32" where
  "load wram_size a st = (if word_ok wram_size a then Inr (words st a) else Inl MEMORY_FAULT)"

definition store :: "nat \<Rightarrow> u32 \<Rightarrow> u32 \<Rightarrow> wram \<Rightarrow> dpu_fault + wram" where
  "store wram_size a v st =
     (if word_ok wram_size a then Inr (st\<lparr>words := (words st)(a := v)\<rparr>) else Inl MEMORY_FAULT)"

definition andThen :: "'e + 'a \<Rightarrow> ('a \<Rightarrow> 'e + 'b) \<Rightarrow> 'e + 'b" where
  "andThen m k = (case m of Inl e \<Rightarrow> Inl e | Inr x \<Rightarrow> k x)"

lemma andThen_simps [simp]: "andThen (Inl e) k = Inl e" "andThen (Inr x) k = k x"
  by (simp_all add: andThen_def)

section \<open>The heap\<close>

text \<open>
  The addition jumps over the fault when there is no carry, and a byte is read in front of the new heap pointer, which faults
  when it is not in WRAM.
\<close>

definition mem_alloc_nolock :: "nat \<Rightarrow> u32 \<Rightarrow> wram \<Rightarrow> dpu_fault + u32 \<times> wram" where
  "mem_alloc_nolock wram_size sz st =
     (let pointer = heap_pointer st
      in if sz \<noteq> 0
         then let pointer = (pointer + 7) AND NOT 7;
                  new_heap_pointer = pointer + sz
              in if unat pointer + unat sz \<ge> 2 ^ 32 then Inl FAULT_ALLOC_HEAP_FULL
                 else if unat (new_heap_pointer - 1) \<ge> wram_size then Inl MEMORY_FAULT
                 else Inr (pointer, st\<lparr>heap_pointer := new_heap_pointer\<rparr>)
         else Inr (pointer, st))"

definition mem_alloc :: "nat \<Rightarrow> u32 \<Rightarrow> wram \<Rightarrow> dpu_fault + u32 \<times> wram" where
  "mem_alloc wram_size sz st = mem_alloc_nolock wram_size sz st"

definition mem_reset :: "u32 \<Rightarrow> wram \<Rightarrow> u32 \<times> wram" where
  "mem_reset sys_heap_pointer_reset st =
     (sys_heap_pointer_reset, st\<lparr>heap_pointer := sys_heap_pointer_reset\<rparr>)"

section \<open>Fixed-size blocks\<close>

text \<open>The loop that links the blocks: the last block and WRAM.\<close>

function fsb_link :: "nat \<Rightarrow> u32 \<Rightarrow> u32 \<Rightarrow> u32 \<Rightarrow> u32 \<Rightarrow> wram \<Rightarrow> dpu_fault + u32 \<times> wram" where
  "fsb_link wram_size block_size nb_of_blocks each_block memory st =
     (if each_block < nb_of_blocks - 1
      then let next_block_address = memory + block_size
           in case store wram_size memory next_block_address st of
                Inl e \<Rightarrow> Inl e
              | Inr st \<Rightarrow> fsb_link wram_size block_size nb_of_blocks (each_block + 1) next_block_address st
      else Inr (memory, st))"
  by auto

termination
proof (relation "measure (\<lambda>(W, bs, nb, each, m, st). unat (nb - 1) - unat each)")
  fix W :: nat and bs nb each mem nx :: u32 and st st' :: wram
  assume "each < nb - 1"
  then have "unat each < unat (nb - 1)" "unat (each + 1) = unat each + 1"
    using unsigned_less [where 'a = nat, of "nb - 1"] by (auto simp: word_less_nat_alt unat_word_ariths)
  then show "((W, bs, nb, each + 1, nx, st'), W, bs, nb, each, mem, st)
      \<in> measure (\<lambda>(W, bs, nb, each, m, st). unat (nb - 1) - unat each)"
    by simp
qed simp

declare fsb_link.simps [simp del]

definition fsb_block_size :: "u32 \<Rightarrow> u32" where
  "fsb_block_size block_size = (if block_size = 0 then 8 else (block_size + 7) AND NOT 7)"

definition fsb_alloc :: "nat \<Rightarrow> u32 \<Rightarrow> u32 \<Rightarrow> wram \<Rightarrow> dpu_fault + u32 \<times> wram" where
  "fsb_alloc wram_size block_size nb_of_blocks st =
     (if block_size > 0xFFFFFFF8 then Inl FAULT_ALLOC_HEAP_FULL
      else let block_size = fsb_block_size block_size;
               memory_space_to_allocate = block_size * nb_of_blocks + 4
           in andThen (mem_alloc wram_size memory_space_to_allocate st) (\<lambda>(memory, st).
              andThen (fsb_link wram_size block_size nb_of_blocks 0 memory st) (\<lambda>(last_block, st).
              andThen (store wram_size last_block 0 st) (\<lambda>st.
              let free_ptr = last_block + block_size
              in andThen (store wram_size free_ptr memory st) (\<lambda>st. Inr (free_ptr, st))))))"

definition fsb_get :: "nat \<Rightarrow> u32 \<Rightarrow> wram \<Rightarrow> dpu_fault + u32 \<times> wram" where
  "fsb_get wram_size allocator st =
     andThen (load wram_size allocator st) (\<lambda>result.
       if result = 0 then Inr (0, st)
       else andThen (load wram_size result st) (\<lambda>next_block.
            andThen (store wram_size allocator next_block st) (\<lambda>st. Inr (result, st))))"

definition fsb_free :: "nat \<Rightarrow> u32 \<Rightarrow> u32 \<Rightarrow> wram \<Rightarrow> dpu_fault + wram" where
  "fsb_free wram_size allocator ptr st =
     andThen (load wram_size allocator st) (\<lambda>next_free.
     andThen (store wram_size ptr next_free st) (\<lambda>st.
     store wram_size allocator ptr st))"

section \<open>What the heap hands out\<close>

lemma unat_align_up:
  fixes x :: u32
  assumes "unat x + 7 < 2 ^ 32"
  shows "unat ((x + 7) AND NOT 7) = (unat x + 7) div 8 * 8"
proof -
  have "(x + 7) AND NOT 7 = (x + 7) - ((x + 7) AND 7)"
    using and_not_split [of "x + 7" 7] by (metis add_diff_cancel_left')
  moreover have "unat ((x + 7) AND 7) = unat (x + 7) mod 8"
  proof -
    have "(x + 7) AND 7 = take_bit 3 (x + 7)"
      by (simp add: take_bit_eq_mask mask_eq_exp_minus_1)
    then show ?thesis
      by (simp only: unsigned_take_bit_eq) (simp add: take_bit_eq_mod)
  qed
  moreover have "unat (x + 7) = unat x + 7"
    using assms by (simp add: unat_word_ariths)
  ultimately show ?thesis
    by (simp add: unat_sub word_le_nat_alt minus_mod_eq_div_mult)
qed

lemma mem_alloc_iff:
  assumes "sz \<noteq> 0" "unat (heap_pointer st) + 7 < 2 ^ 32" "wram_size < 2 ^ 32"
  defines "a \<equiv> (unat (heap_pointer st) + 7) div 8 * 8"
  shows "a + unat sz \<le> wram_size \<Longrightarrow> mem_alloc wram_size sz st =
      Inr ((heap_pointer st + 7) AND NOT 7, st\<lparr>heap_pointer := ((heap_pointer st + 7) AND NOT 7) + sz\<rparr>)"
    and "\<not> a + unat sz \<le> wram_size \<Longrightarrow> \<exists>e. mem_alloc wram_size sz st = Inl e"
proof -
  let ?p = "(heap_pointer st + 7) AND NOT 7"
  have p: "unat ?p = a"
    using unat_align_up [OF assms(2)] by (simp add: a_def)
  have sz: "0 < unat sz"
    using assms(1) by (simp add: unat_gt_0)
  have n: "unat (?p + sz - 1) = a + unat sz - 1" if "a + unat sz < 2 ^ 32"
  proof -
    have "unat (?p + sz) = a + unat sz"
      using that p by (simp add: unat_word_ariths)
    moreover have "?p + sz \<noteq> 0"
      using calculation sz by (metis add_is_0 not_gr_zero unsigned_0)
    ultimately show ?thesis
      by (simp add: unat_minus_one)
  qed
  show "mem_alloc wram_size sz st = Inr (?p, st\<lparr>heap_pointer := ?p + sz\<rparr>)" if "a + unat sz \<le> wram_size"
    using that assms(1,3) n sz unfolding mem_alloc_def mem_alloc_nolock_def Let_def p by simp
  show "\<exists>e. mem_alloc wram_size sz st = Inl e" if "\<not> a + unat sz \<le> wram_size"
    using that assms(1) n sz unfolding mem_alloc_def mem_alloc_nolock_def Let_def p by (cases "a + unat sz < 2 ^ 32") simp_all
qed

text \<open>A sequence of allocations: the blocks that they returned, the newest first, and the state.\<close>

inductive allocations :: "nat \<Rightarrow> wram \<Rightarrow> (u32 \<times> u32) list \<Rightarrow> wram \<Rightarrow> bool" for wram_size st where
  no_allocation: "allocations wram_size st [] st"
| an_allocation: "\<lbrakk>allocations wram_size st bs st'; sz \<noteq> 0; mem_alloc wram_size sz st' = Inr (p, st'')\<rbrakk>
     \<Longrightarrow> allocations wram_size st ((p, sz) # bs) st''"

text \<open>All of them are aligned, lie between the heap pointer at the start and the end of WRAM, and do not overlap.\<close>

lemma allocations_disjoint:
  assumes "allocations wram_size st bs st'" "unat (heap_pointer st) \<le> wram_size" "wram_size + 8 \<le> 2 ^ 32"
  shows "unat (heap_pointer st) \<le> unat (heap_pointer st') \<and> unat (heap_pointer st') \<le> wram_size
    \<and> (\<forall>(p, sz) \<in> set bs. unat p mod 8 = 0 \<and> unat (heap_pointer st) \<le> unat p
          \<and> unat p + unat sz \<le> unat (heap_pointer st'))
    \<and> sorted_wrt (\<lambda>(p, sz) (q, sz'). unat q + unat sz' \<le> unat p) bs"
  using assms(1)
proof induction
  case (an_allocation bs st' sz p st'')
  let ?a = "(unat (heap_pointer st') + 7) div 8 * 8"
  have h: "unat (heap_pointer st') + 7 < 2 ^ 32" "wram_size < 2 ^ 32"
    using an_allocation.IH assms(3) by linarith+
  have fits: "?a + unat sz \<le> wram_size"
    using mem_alloc_iff(2) [OF an_allocation.hyps(2) h] an_allocation.hyps(3) by fastforce
  then have p: "p = (heap_pointer st' + 7) AND NOT 7" "heap_pointer st'' = p + sz"
    using mem_alloc_iff(1) [OF an_allocation.hyps(2) h] an_allocation.hyps(3) by auto
  then have "unat p = ?a"
    using unat_align_up [OF h(1)] by simp
  moreover from this have "unat (p + sz) = ?a + unat sz"
    using fits h(2) by (simp add: unat_word_ariths)
  moreover have "unat (heap_pointer st') \<le> ?a"
    by presburger
  ultimately show ?case
    using an_allocation.IH fits p(2) by fastforce
qed (use assms(2) in simp)

section \<open>The list of the free blocks\<close>

fun free_list :: "(u32 \<Rightarrow> u32) \<Rightarrow> u32 \<Rightarrow> u32 list \<Rightarrow> bool" where
  "free_list m p [] \<longleftrightarrow> p = 0"
| "free_list m p (x # xs) \<longleftrightarrow> p = x \<and> x \<noteq> 0 \<and> free_list m (m x) xs"

lemma free_list_cong: "(\<And>x. x \<in> set xs \<Longrightarrow> m x = m' x) \<Longrightarrow> free_list m p xs = free_list m' p xs"
  by (induction m p xs rule: free_list.induct) auto

lemma free_list_upd [simp]: "a \<notin> set xs \<Longrightarrow> free_list (m(a := v)) p xs = free_list m p xs"
  by (rule free_list_cong) auto

lemma free_list_not_null: "free_list m p xs \<Longrightarrow> 0 \<notin> set xs"
  by (induction m p xs rule: free_list.induct) auto

definition fsb_pool :: "nat \<Rightarrow> u32 \<Rightarrow> wram \<Rightarrow> u32 list \<Rightarrow> bool" where
  "fsb_pool wram_size allocator st free \<longleftrightarrow>
     free_list (words st) (words st allocator) free \<and> distinct (allocator # free)
     \<and> (\<forall>x \<in> set (allocator # free). word_ok wram_size x)"

text \<open>
  The contract of a pool of blocks: \<open>get\<close> takes the top of the stack of free blocks, or says that there is none, \<open>put\<close>
  pushes one, and a client that writes elsewhere does not disturb it.
\<close>

locale block_pool =
  fixes rep :: "'s \<Rightarrow> 'a list \<Rightarrow> bool"
    and get :: "'s \<Rightarrow> 'e + 'a \<times> 's"
    and put :: "'a \<Rightarrow> 's \<Rightarrow> 'e + 's"
    and nil :: 'a
    and block :: "'a \<Rightarrow> bool"
  assumes rep_distinct: "rep s free \<Longrightarrow> distinct free \<and> nil \<notin> set free"
    and get_none: "rep s [] \<Longrightarrow> get s = Inr (nil, s)"
    and get_some: "rep s (x # free) \<Longrightarrow> \<exists>s'. get s = Inr (x, s') \<and> rep s' free"
    and put_block: "\<lbrakk>rep s free; block x; x \<notin> set free\<rbrakk> \<Longrightarrow> \<exists>s'. put x s = Inr s' \<and> rep s' (x # free)"
begin

text \<open>The blocks are those that are free and those that the clients own, each of them once.\<close>

definition shared :: "'a set \<Rightarrow> 's \<Rightarrow> 'a set \<Rightarrow> bool" where
  "shared blocks s owned \<longleftrightarrow> (\<exists>free. rep s free \<and> set free \<inter> owned = {} \<and> set free \<union> owned = blocks)"

lemma shared_get:
  assumes "shared blocks s owned" "nil \<notin> owned"
  shows "\<exists>p s'. get s = Inr (p, s') \<and> (p = nil \<longleftrightarrow> owned = blocks) \<and> (p \<noteq> nil \<longrightarrow> p \<in> blocks - owned)
     \<and> shared blocks s' (if p = nil then owned else insert p owned)"
proof -
  obtain free where f: "rep s free" "set free \<inter> owned = {}" "set free \<union> owned = blocks"
    using assms(1) by (auto simp: shared_def)
  show ?thesis
  proof (cases free)
    case Nil
    then show ?thesis
      using f get_none [of s] by (auto simp: shared_def)
  next
    case (Cons x xs)
    obtain s' where s': "get s = Inr (x, s')" "rep s' xs"
      using get_some f(1) Cons by blast
    have "x \<noteq> nil" "x \<notin> set xs"
      using rep_distinct [OF f(1)] Cons by auto
    then have "shared blocks s' (insert x owned)"
      unfolding shared_def using s'(2) f Cons by (intro exI [of _ xs]) auto
    then show ?thesis
      using s'(1) f Cons \<open>x \<noteq> nil\<close> by auto
  qed
qed

lemma shared_put:
  assumes "shared blocks s owned" "p \<in> owned" "block p"
  shows "\<exists>s'. put p s = Inr s' \<and> shared blocks s' (owned - {p})"
proof -
  obtain free where f: "rep s free" "set free \<inter> owned = {}" "set free \<union> owned = blocks"
    using assms(1) by (auto simp: shared_def)
  then obtain s' where "put p s = Inr s'" "rep s' (p # free)"
    using put_block [OF f(1) assms(3)] assms(2) by blast
  then show ?thesis
    unfolding shared_def using f assms(2) by (intro exI [of _ s']) (auto intro!: exI [of _ "p # free"])
qed

end

interpretation fsb: block_pool "fsb_pool wram_size allocator" "fsb_get wram_size allocator" "fsb_free wram_size allocator" 0
  "\<lambda>x. word_ok wram_size x \<and> x \<noteq> 0 \<and> x \<noteq> allocator" for wram_size allocator
proof unfold_locales
  fix s free
  show "fsb_pool wram_size allocator s free \<Longrightarrow> distinct free \<and> 0 \<notin> set free"
    using free_list_not_null by (auto simp: fsb_pool_def)
next
  fix s
  show "fsb_pool wram_size allocator s [] \<Longrightarrow> fsb_get wram_size allocator s = Inr (0, s)"
    by (simp add: fsb_pool_def fsb_get_def load_def)
next
  fix s x free
  assume a: "fsb_pool wram_size allocator s (x # free)"
  then show "\<exists>s'. fsb_get wram_size allocator s = Inr (x, s') \<and> fsb_pool wram_size allocator s' free"
    by (auto simp: fsb_pool_def fsb_get_def load_def store_def)
next
  fix s free x
  assume a: "fsb_pool wram_size allocator s free" "word_ok wram_size x \<and> x \<noteq> 0 \<and> x \<noteq> allocator" "x \<notin> set free"
  then show "\<exists>s'. fsb_free wram_size allocator x s = Inr s' \<and> fsb_pool wram_size allocator s' (x # free)"
    by (auto simp: fsb_pool_def fsb_free_def load_def store_def)
qed

section \<open>Linking the blocks\<close>

lemma fsb_link_result:
  assumes "r = unat (nb - 1) - unat each" "\<And>j. j < r \<Longrightarrow> word_ok W (mem + of_nat j * bs)"
  shows "fsb_link W bs nb each mem st = Inr (mem + of_nat r * bs,
     st\<lparr>words := (\<lambda>a. if a \<in> (\<lambda>j. mem + of_nat j * bs) ` {..<r} then a + bs else words st a)\<rparr>)"
  using assms
proof (induction W bs nb each mem st arbitrary: r rule: fsb_link.induct)
  case (1 W bs nb each mem st)
  show ?case
  proof (cases "each < nb - 1")
    case True
    then have e: "unat each < unat (nb - 1)" "unat (each + 1) = unat each + 1"
      using unsigned_less [where 'a = nat, of "nb - 1"] by (auto simp: word_less_nat_alt unat_word_ariths)
    then obtain q where q: "r = Suc q" "q = unat (nb - 1) - unat (each + 1)"
      using "1.prems"(1) by (metis Suc_diff_Suc add.commute plus_1_eq_Suc)
    let ?st = "st\<lparr>words := (words st)(mem := mem + bs)\<rparr>"
    have st: "store W mem (mem + bs) st = Inr ?st"
      using "1.prems"(2) [of 0] q(1) by (simp add: store_def)
    have ok: "word_ok W (mem + bs + of_nat j * bs)" if "j < q" for j
      using "1.prems"(2) [of "Suc j"] that q(1) by (simp add: algebra_simps)
    have addrs: "(\<lambda>j. mem + of_nat j * bs) ` {..<Suc q} = insert mem ((\<lambda>j. mem + bs + of_nat j * bs) ` {..<q})"
      unfolding lessThan_Suc_eq_insert_0 by (auto simp: image_image algebra_simps)
    let ?B = "(\<lambda>j. mem + bs + of_nat j * bs) ` {..<q}"
    have eq: "(\<lambda>a. if a \<in> ?B then a + bs else words ?st a)
        = (\<lambda>a. if a \<in> (\<lambda>j. mem + of_nat j * bs) ` {..<Suc q} then a + bs else words st a)"
      unfolding addrs by auto
    have "fsb_link W bs nb each mem st = fsb_link W bs nb (each + 1) (mem + bs) ?st"
      using True st by (subst fsb_link.simps) (simp add: Let_def)
    also have "\<dots> = Inr (mem + bs + of_nat q * bs, ?st\<lparr>words := \<lambda>a. if a \<in> ?B then a + bs else words ?st a\<rparr>)"
      by (rule "1.IH" [OF True refl st q(2) ok])
    finally show ?thesis
      unfolding eq q(1) by (simp add: algebra_simps)
  next
    case False
    then have "r = 0"
      using "1.prems"(1) by (simp add: word_less_nat_alt)
    then show ?thesis
      using False by (subst fsb_link.simps) simp
  qed
qed

lemma unat_block:
  fixes mem bs :: u32
  assumes "unat mem + k * unat bs < 2 ^ 32"
  shows "unat (mem + of_nat k * bs) = unat mem + k * unat bs"
proof -
  have "mem + of_nat k * bs = of_nat (unat mem + k * unat bs)"
    by simp
  then show ?thesis
    using assms by (simp only: unat_of_nat) simp
qed

text \<open>Linked blocks are a list of free blocks.\<close>

lemma free_list_linked:
  assumes "\<And>j. j < n \<Longrightarrow> m (mem + of_nat j * bs) = mem + of_nat (Suc j) * bs"
    and "m (mem + of_nat n * bs) = 0" "\<And>j. j \<le> n \<Longrightarrow> mem + of_nat j * bs \<noteq> 0" "i \<le> n"
  shows "free_list m (mem + of_nat i * bs) (map (\<lambda>j. mem + of_nat j * bs) [i..<Suc n])"
  using assms(4)
proof (induction "n - i" arbitrary: i)
  case 0
  then have "i = n" by simp
  then show ?case
    using assms(2,3) by simp
next
  case (Suc d)
  then have "i < n"
    by simp
  have "free_list m (mem + of_nat (Suc i) * bs) (map (\<lambda>j. mem + of_nat j * bs) [Suc i..<Suc n])"
    using Suc \<open>i < n\<close> by (intro Suc.hyps(1)) simp_all
  moreover have "[i..<Suc n] = i # [Suc i..<Suc n]"
    using \<open>i < n\<close> by (subst upt_conv_Cons) simp_all
  ultimately show ?case
    using assms(1) [OF \<open>i < n\<close>] assms(3) [of i] \<open>i < n\<close> by (simp del: upt_Suc)
qed

lemma block_size_ok:
  assumes "bs \<le> 0xFFFFFFF8"
  shows "unat (fsb_block_size bs) mod 8 = 0" "8 \<le> unat (fsb_block_size bs)" "unat bs \<le> unat (fsb_block_size bs)"
proof -
  have b: "unat bs + 7 < 2 ^ 32"
    using assms by (simp add: word_le_nat_alt)
  have "unat (fsb_block_size bs) mod 8 = 0 \<and> 8 \<le> unat (fsb_block_size bs) \<and> unat bs \<le> unat (fsb_block_size bs)"
  proof (cases "bs = 0")
    case False
    then have "0 < unat bs" "unat (fsb_block_size bs) = (unat bs + 7) div 8 * 8"
      using unat_align_up [OF b] by (simp_all add: fsb_block_size_def unat_gt_0)
    then show ?thesis
      by presburger
  qed (simp add: fsb_block_size_def)
  then show "unat (fsb_block_size bs) mod 8 = 0" "8 \<le> unat (fsb_block_size bs)" "unat bs \<le> unat (fsb_block_size bs)"
    by simp_all
qed

text \<open>The blocks of an allocator, and the conditions under which they fit into WRAM.\<close>

definition fsb_blocks :: "u32 \<Rightarrow> u32 \<Rightarrow> u32 \<Rightarrow> u32 list" where
  "fsb_blocks mem bs nb = map (\<lambda>j. mem + of_nat j * bs) [0..<unat nb]"

definition fsb_fits :: "nat \<Rightarrow> u32 \<Rightarrow> u32 \<Rightarrow> wram \<Rightarrow> bool" where
  "fsb_fits wram_size bs nb st \<longleftrightarrow> bs \<le> 0xFFFFFFF8 \<and> 0 < nb \<and> 0 < heap_pointer st \<and> wram_size + 8 \<le> 2 ^ 32
     \<and> (unat (heap_pointer st) + 7) div 8 * 8 + unat (fsb_block_size bs) * unat nb + 4 \<le> wram_size"

lemma fsb_block_facts:
  assumes fits: "fsb_fits W bs nb st" and mem: "unat mem = (unat (heap_pointer st) + 7) div 8 * 8" and j: "j \<le> unat nb"
  defines "B \<equiv> fsb_block_size bs"
  shows "unat (mem + of_nat j * B) = unat mem + j * unat B"
    and "unat mem + j * unat B + 4 \<le> W" and "word_ok W (mem + of_nat j * B)" and "mem + of_nat j * B \<noteq> 0"
proof -
  have b: "unat B mod 8 = 0" "8 \<le> unat B"
    using fits block_size_ok [of bs] by (simp_all add: fsb_fits_def B_def)
  have "j * unat B \<le> unat B * unat nb"
    using j by (metis mult.commute mult_le_mono2)
  moreover have "(unat (heap_pointer st) + 7) div 8 * 8 + unat B * unat nb + 4 \<le> W"
    using fits by (simp add: fsb_fits_def B_def)
  ultimately show le: "unat mem + j * unat B + 4 \<le> W"
    using mem by linarith
  then show u: "unat (mem + of_nat j * B) = unat mem + j * unat B"
    using fits by (intro unat_block) (simp add: fsb_fits_def)
  have "8 dvd unat mem" "8 dvd unat B"
    using b(1) mem by (simp_all add: mod_0_imp_dvd)
  then have "8 dvd unat mem + j * unat B"
    by simp
  then have "4 dvd unat mem + j * unat B"
    by (rule dvd_trans [rotated]) simp
  then show "word_ok W (mem + of_nat j * B)"
    using le u by (simp add: word_ok_def)
  have "0 < unat (heap_pointer st)"
    using fits by (simp add: fsb_fits_def word_less_nat_alt)
  then have "0 < unat mem"
    unfolding mem by presburger
  then show "mem + of_nat j * B \<noteq> 0"
    using u by (metis add_gr_0 less_not_refl unsigned_0)
qed

lemma fsb_block_inj:
  assumes "fsb_fits W bs nb st" "unat mem = (unat (heap_pointer st) + 7) div 8 * 8" "j \<le> unat nb" "k \<le> unat nb"
  shows "mem + of_nat j * fsb_block_size bs = mem + of_nat k * fsb_block_size bs \<longleftrightarrow> j = k"
proof
  assume "mem + of_nat j * fsb_block_size bs = mem + of_nat k * fsb_block_size bs"
  then have "unat mem + j * unat (fsb_block_size bs) = unat mem + k * unat (fsb_block_size bs)"
    using fsb_block_facts(1) [OF assms(1,2,3)] fsb_block_facts(1) [OF assms(1,2,4)] by metis
  moreover have "8 \<le> unat (fsb_block_size bs)"
    using assms(1) block_size_ok by (simp add: fsb_fits_def)
  ultimately show "j = k"
    by simp
qed simp

lemma fsb_alloc_result:
  assumes fits: "fsb_fits W bs nb st"
  defines "B \<equiv> fsb_block_size bs"
  obtains mem st' where "fsb_alloc W bs nb st = Inr (mem + of_nat (unat nb) * B, st')"
    "unat mem = (unat (heap_pointer st) + 7) div 8 * 8"
    "fsb_pool W (mem + of_nat (unat nb) * B) st' (fsb_blocks mem B nb)"
proof -
  let ?a = "(unat (heap_pointer st) + 7) div 8 * 8" and ?sz = "B * nb + 4"
  define mem where "mem = (heap_pointer st + 7) AND NOT 7"
  define A where "A = (\<lambda>j :: nat. mem + of_nat j * B)"
  have W: "?a + unat B * unat nb + 4 \<le> W" "W + 8 \<le> 2 ^ 32" "\<not> bs > 0xFFFFFFF8" "0 < unat nb"
    using fits by (simp_all add: fsb_fits_def B_def word_less_nat_alt word_le_nat_alt)
  have "unat (heap_pointer st) \<le> ?a"
    by presburger
  then have h: "unat (heap_pointer st) + 7 < 2 ^ 32" "W < 2 ^ 32"
    using W by linarith+
  have mem: "unat mem = ?a"
    unfolding mem_def by (rule unat_align_up [OF h(1)])
  have sz: "unat ?sz = unat B * unat nb + 4"
    using W(1) h(2) by (simp add: unat_word_ariths)
  then have "?sz \<noteq> 0"
    by (metis add_is_0 unsigned_0 zero_neq_numeral)
  then obtain st1 where st1: "mem_alloc W ?sz st = Inr (mem, st1)"
    using mem_alloc_iff(1) [OF _ h, of ?sz] W(1) sz by (auto simp: mem_def)
  define n where "n = unat (nb - 1)"
  have n: "unat nb = Suc n"
    using W(4) by (simp add: n_def unat_minus_one unat_gt_0)
  have ok: "word_ok W (A j)" "A j \<noteq> 0" if "j \<le> Suc n" for j
    using fsb_block_facts(3,4) [OF fits mem, of j] that n by (simp_all add: A_def B_def)
  have inj: "A j = A k \<longleftrightarrow> j = k" if "j \<le> Suc n" "k \<le> Suc n" for j k
    using fsb_block_inj [OF fits mem, of j k] that n by (simp add: A_def B_def)
  have A: "A 0 = mem" "A j + B = A (Suc j)" for j
    by (simp_all add: A_def algebra_simps)
  let ?w = "\<lambda>a. if a \<in> A ` {..<n} then a + B else words st1 a"
  have link: "fsb_link W B nb 0 mem st1 = Inr (A n, st1\<lparr>words := ?w\<rparr>)"
    using fsb_link_result [of n nb 0 W mem B st1, folded A_def] ok(1) by (simp add: n_def A_def)
  let ?m = "?w(A n := 0, A (Suc n) := mem)"
  have res: "fsb_alloc W bs nb st = Inr (A (Suc n), st1\<lparr>words := ?m\<rparr>)"
    using W(3) st1 link A(2) [of n] ok(1) [of n] ok(1) [of "Suc n"]
    by (simp add: fsb_alloc_def store_def Let_def flip: B_def)
  have "free_list ?m (mem + of_nat 0 * B) (map (\<lambda>j. mem + of_nat j * B) [0..<Suc n])"
  proof (rule free_list_linked)
    show "?m (mem + of_nat j * B) = mem + of_nat (Suc j) * B" if "j < n" for j
      using that inj [of j n] inj [of j "Suc n"] A(2) [of j] by (auto simp: A_def)
    show "?m (mem + of_nat n * B) = 0"
      using inj [of n "Suc n"] by (simp add: A_def)
    show "mem + of_nat j * B \<noteq> 0" if "j \<le> n" for j
      using ok(2) [of j] that by (simp add: A_def)
  qed simp
  moreover have "distinct (A (Suc n) # map A [0..<Suc n])"
    using inj by (auto simp: distinct_map inj_on_def)
  moreover have "fsb_blocks mem B nb = map A [0..<Suc n]" "(\<lambda>j. mem + of_nat j * B) = A" "?m (A (Suc n)) = mem + of_nat 0 * B"
    by (simp_all add: fsb_blocks_def n A_def)
  moreover have "word_ok W x" if "x \<in> set (A (Suc n) # map A [0..<Suc n])" for x
    using that ok(1) by fastforce
  ultimately have "fsb_pool W (A (Suc n)) (st1\<lparr>words := ?m\<rparr>) (fsb_blocks mem B nb)"
    unfolding fsb_pool_def by simp
  with res mem that show ?thesis
    by (simp add: A_def n)
qed

section \<open>The clients of an allocator\<close>

text \<open>
  The tasklets get blocks, free blocks that they own, and write to the words of the blocks that they own, in any order: the
  blocks that are owned.
\<close>

inductive fsb_run :: "nat \<Rightarrow> u32 \<Rightarrow> u32 \<Rightarrow> wram \<Rightarrow> wram \<Rightarrow> u32 set \<Rightarrow> bool" for wram_size allocator bs st where
  fsb_run_start: "fsb_run wram_size allocator bs st st {}"
| fsb_run_get: "\<lbrakk>fsb_run wram_size allocator bs st st' owned; fsb_get wram_size allocator st' = Inr (p, st'')\<rbrakk>
     \<Longrightarrow> fsb_run wram_size allocator bs st st'' (if p = 0 then owned else insert p owned)"
| fsb_run_free: "\<lbrakk>fsb_run wram_size allocator bs st st' owned; p \<in> owned; fsb_free wram_size allocator p st' = Inr st''\<rbrakk>
     \<Longrightarrow> fsb_run wram_size allocator bs st st'' (owned - {p})"
| fsb_run_write: "\<lbrakk>fsb_run wram_size allocator bs st st' owned; p \<in> owned; off < bs\<rbrakk>
     \<Longrightarrow> fsb_run wram_size allocator bs st (st'\<lparr>words := (words st')(p + off := v)\<rparr>) owned"

lemma fsb_pool_write:
  assumes "fsb_pool W allocator st free" "x \<notin> set free" "x \<noteq> allocator"
  shows "fsb_pool W allocator (st\<lparr>words := (words st)(x := v)\<rparr>) free"
  using assms by (simp add: fsb_pool_def)

text \<open>A word inside a block is neither the first word of another block nor the allocator.\<close>

lemma inside_block:
  assumes "fsb_fits W bs nb st" "unat mem = (unat (heap_pointer st) + 7) div 8 * 8"
    and "j < unat nb" "k \<le> unat nb" "off < fsb_block_size bs"
    and "mem + of_nat j * fsb_block_size bs + off = mem + of_nat k * fsb_block_size bs"
  shows "j = k"
proof -
  let ?B = "unat (fsb_block_size bs)"
  have o: "unat off < ?B"
    using assms(5) by (simp add: word_less_nat_alt)
  have j: "unat (mem + of_nat j * fsb_block_size bs) = unat mem + j * ?B"
    and k: "unat (mem + of_nat k * fsb_block_size bs) = unat mem + k * ?B"
    using fsb_block_facts(1) [OF assms(1,2)] assms(3,4) by simp_all
  have n: "unat mem + Suc j * ?B + 4 \<le> W"
    by (rule fsb_block_facts(2) [OF assms(1,2) Suc_leI [OF assms(3)]])
  have "unat (mem + of_nat j * fsb_block_size bs + off) = unat mem + j * ?B + unat off"
    using n o assms(1) j by (subst unat_word_ariths) (simp add: fsb_fits_def)
  then have e: "j * ?B + unat off = k * ?B"
    using assms(6) k by simp
  then have "j * ?B \<le> k * ?B" "0 < ?B"
    using o by linarith+
  then have "j \<le> k"
    by (simp only: mult_le_cancel2)
  moreover have "k * ?B < Suc j * ?B"
    using e o by simp
  then have "k < Suc j"
    by (simp only: mult_less_cancel2)
  ultimately show ?thesis
    by simp
qed

lemma fsb_run_shared:
  assumes fits: "fsb_fits W bs nb st" and mem: "unat mem = (unat (heap_pointer st) + 7) div 8 * 8"
    and pool: "fsb_pool W alloc st0 (fsb_blocks mem (fsb_block_size bs) nb)"
    and alloc: "alloc = mem + of_nat (unat nb) * fsb_block_size bs"
    and run: "fsb_run W alloc (fsb_block_size bs) st0 st1 owned"
  shows "fsb.shared W alloc (set (fsb_blocks mem (fsb_block_size bs) nb)) st1 owned"
  using run
proof induction
  let ?blocks = "fsb_blocks mem (fsb_block_size bs) nb"
  have block: "word_ok W p \<and> p \<noteq> 0 \<and> p \<noteq> alloc" if "p \<in> set ?blocks" for p
    using that fsb.rep_distinct [OF pool] pool by (auto simp: fsb_pool_def)
  {
    case fsb_run_start
    show ?case
      using pool by (auto simp: fsb.shared_def)
  next
    case (fsb_run_get st' owned p st'')
    have "0 \<notin> owned"
      using fsb_run_get.IH block by (auto simp: fsb.shared_def)
    then show ?case
      using fsb.shared_get [OF fsb_run_get.IH] fsb_run_get.hyps(2) by auto
  next
    case (fsb_run_free st' owned p st'')
    then have "p \<in> set ?blocks"
      by (auto simp: fsb.shared_def)
    then show ?case
      using fsb.shared_put [OF fsb_run_free.IH fsb_run_free.hyps(2) block] fsb_run_free.hyps(3) by auto
  next
    case (fsb_run_write st' owned p off v)
    then obtain free where f: "fsb_pool W alloc st' free" "set free \<inter> owned = {}" "set free \<union> owned = set ?blocks"
      by (auto simp: fsb.shared_def)
    then obtain j where j: "p = mem + of_nat j * fsb_block_size bs" "j < unat nb"
      using fsb_run_write.hyps(2) by (auto simp: fsb_blocks_def)
    have "p + off \<noteq> alloc"
      using inside_block [OF fits mem j(2) order_refl fsb_run_write.hyps(3)] j alloc by auto
    moreover have "p + off \<notin> set free"
    proof
      assume a: "p + off \<in> set free"
      then have "p + off \<in> set ?blocks"
        using f(3) by blast
      then obtain k where "p + off = mem + of_nat k * fsb_block_size bs" "k < unat nb"
        by (auto simp: fsb_blocks_def)
      then have "p + off = p"
        using inside_block [OF fits mem j(2) _ fsb_run_write.hyps(3), of k] j(1) by auto
      then show False
        using a f(2) fsb_run_write.hyps(2) by auto
    qed
    ultimately show ?case
      unfolding fsb.shared_def using f fsb_pool_write by blast
  }
qed

section \<open>Properties\<close>

text \<open>
  C34: The fixed-size block allocator hands every block to one owner at a time. For an allocator whose blocks fit into WRAM,
  after any sequence of gets, frees of owned blocks and writes inside owned blocks, the list of the free blocks that is kept
  inside them is intact: \<^verbatim>\<open>fsb_get\<close> returns NULL exactly when all the blocks are owned, and otherwise a block that nobody
  owns, and \<^verbatim>\<open>fsb_free\<close> takes back any owned block. The blocks are as many as asked for, aligned on 8 bytes, and at
  least as far apart as the size asked for.
\<close>

theorem fsb_blocks_have_one_owner:
  assumes "fsb_fits W bs nb st"
  shows "\<exists>mem st0. fsb_alloc W bs nb st = Inr (mem + of_nat (unat nb) * fsb_block_size bs, st0)
    \<and> unat bs \<le> unat (fsb_block_size bs) \<and> unat (fsb_block_size bs) mod 8 = 0 \<and> unat mem mod 8 = 0
    \<and> card (set (fsb_blocks mem (fsb_block_size bs) nb)) = unat nb
    \<and> (\<forall>st1 owned. fsb_run W (mem + of_nat (unat nb) * fsb_block_size bs) (fsb_block_size bs) st0 st1 owned \<longrightarrow>
        owned \<subseteq> set (fsb_blocks mem (fsb_block_size bs) nb)
        \<and> (\<exists>p st2. fsb_get W (mem + of_nat (unat nb) * fsb_block_size bs) st1 = Inr (p, st2)
             \<and> (p = 0 \<longleftrightarrow> owned = set (fsb_blocks mem (fsb_block_size bs) nb))
             \<and> (p \<noteq> 0 \<longrightarrow> p \<in> set (fsb_blocks mem (fsb_block_size bs) nb) - owned))
        \<and> (\<forall>p \<in> owned. \<exists>st2. fsb_free W (mem + of_nat (unat nb) * fsb_block_size bs) p st1 = Inr st2))"
proof -
  let ?B = "fsb_block_size bs"
  obtain mem st0 where a: "fsb_alloc W bs nb st = Inr (mem + of_nat (unat nb) * ?B, st0)"
    and mem: "unat mem = (unat (heap_pointer st) + 7) div 8 * 8"
    and pool: "fsb_pool W (mem + of_nat (unat nb) * ?B) st0 (fsb_blocks mem ?B nb)"
    using fsb_alloc_result [OF assms] by blast
  let ?alloc = "mem + of_nat (unat nb) * ?B" and ?blocks = "fsb_blocks mem ?B nb"
  have dist: "distinct ?blocks" "0 \<notin> set ?blocks"
    using fsb.rep_distinct [OF pool] by simp_all
  have block: "word_ok W p \<and> p \<noteq> 0 \<and> p \<noteq> ?alloc" if "p \<in> set ?blocks" for p
    using that dist pool by (auto simp: fsb_pool_def)
  have client: "owned \<subseteq> set ?blocks
      \<and> (\<exists>p st2. fsb_get W ?alloc st1 = Inr (p, st2) \<and> (p = 0 \<longleftrightarrow> owned = set ?blocks)
           \<and> (p \<noteq> 0 \<longrightarrow> p \<in> set ?blocks - owned))
      \<and> (\<forall>p \<in> owned. \<exists>st2. fsb_free W ?alloc p st1 = Inr st2)"
    if run: "fsb_run W ?alloc ?B st0 st1 owned" for st1 owned
  proof -
    have sh: "fsb.shared W ?alloc (set ?blocks) st1 owned"
      by (rule fsb_run_shared [OF assms mem pool refl run])
    then have sub: "owned \<subseteq> set ?blocks"
      by (auto simp: fsb.shared_def)
    then have "0 \<notin> owned"
      using dist by blast
    moreover have "\<exists>st2. fsb_free W ?alloc p st1 = Inr st2" if "p \<in> owned" for p
      using fsb.shared_put [OF sh that block] sub that by blast
    ultimately show ?thesis
      using fsb.shared_get [OF sh] sub by blast
  qed
  have "card (set ?blocks) = unat nb"
    using distinct_card [OF dist(1)] by (simp add: fsb_blocks_def)
  moreover have "bs \<le> 0xFFFFFFF8"
    using assms by (simp add: fsb_fits_def)
  ultimately show ?thesis
    using a mem block_size_ok [of bs] client by (intro exI [of _ mem] exI [of _ st0]) simp
qed

theorem fsb_blocks_have_one_owner_witness:
  "\<exists>mem st0. fsb_alloc 65536 5 3 \<lparr>heap_pointer = 4097, words = (\<lambda>_. 0)\<rparr> = Inr (mem + of_nat 3 * fsb_block_size 5, st0)
     \<and> card (set (fsb_blocks mem (fsb_block_size 5) 3)) = 3"
proof -
  have "fsb_fits 65536 5 3 \<lparr>heap_pointer = 4097, words = (\<lambda>_. 0)\<rparr>"
    by (simp add: fsb_fits_def fsb_block_size_def)
  then show ?thesis
    using fsb_blocks_have_one_owner [of 65536 5 3 "\<lparr>heap_pointer = 4097, words = (\<lambda>_. 0)\<rparr>"] by auto
qed

end
