(* ===== verification/BlockTree.thy ===== *)
theory BlockTree
  imports Main
begin

text \<open>
  The blocks of a buddy allocator as nodes of a binary tree, and what one bit per node says about the set of the allocated
  blocks. The array of bits is an interface (locale \<open>node_bits\<close>): the lemmas on finding, cutting, releasing and fusing blocks
  are proved from its laws, and hold for the words of \<^verbatim>\<open>buddy_alloc.c\<close> by the interpretation in the theory \<open>Buddy\<close>.
\<close>

section \<open>Nodes\<close>

text \<open>A node is a level and an index in it. A node covers itself and the nodes below.\<close>

type_synonym node = "nat \<times> nat"

definition node_valid :: "nat \<Rightarrow> node \<Rightarrow> bool" where
  "node_valid L n \<longleftrightarrow> fst n < L \<and> snd n < 2 ^ fst n"

definition covers :: "node \<Rightarrow> node \<Rightarrow> bool" where
  "covers n m \<longleftrightarrow> fst n \<le> fst m \<and> snd m div 2 ^ (fst m - fst n) = snd n"

definition overlaps :: "node \<Rightarrow> node \<Rightarrow> bool" where
  "overlaps n m \<longleftrightarrow> covers n m \<or> covers m n"

definition flip_index :: "nat \<Rightarrow> nat" where
  "flip_index i = (if even i then i + 1 else i - 1)"

lemma flip_index_half [simp]: "flip_index i div 2 = i div 2"
  unfolding flip_index_def by presburger

lemma same_half: "a div 2 = i div 2 \<Longrightarrow> a = i \<or> a = flip_index i"
  unfolding flip_index_def by presburger

lemma flip_index_flip [simp]: "flip_index (flip_index i) = i"
  unfolding flip_index_def by presburger

lemma flip_index_neq [simp]: "flip_index i \<noteq> i"
  unfolding flip_index_def by presburger

lemma covers_refl [simp]: "covers n n"
  by (simp add: covers_def)

lemma covers_trans:
  assumes "covers a b" "covers b c"
  shows "covers a c"
proof -
  have "snd c div 2 ^ (fst c - fst a) = snd c div (2 ^ (fst c - fst b) * 2 ^ (fst b - fst a))"
    using assms by (simp add: covers_def flip: power_add)
  then show ?thesis
    using assms by (simp add: covers_def div_mult2_eq)
qed

lemma covers_antisym: "covers a b \<Longrightarrow> covers b a \<Longrightarrow> a = b"
  by (cases a; cases b) (auto simp: covers_def)

lemma covers_level: "covers a b \<Longrightarrow> fst a \<le> fst b"
  by (simp add: covers_def)

lemma covers_same_level: "covers a b \<Longrightarrow> fst a = fst b \<Longrightarrow> a = b"
  by (cases a; cases b) (auto simp: covers_def)

text \<open>Two nodes that cover a third are on one path.\<close>

lemma covers_comparable:
  assumes "covers a c" "covers b c" "fst a \<le> fst b"
  shows "covers a b"
proof -
  have "2 ^ (fst c - fst a) = (2 :: nat) ^ (fst c - fst b) * 2 ^ (fst b - fst a)"
    using assms by (simp add: covers_def flip: power_add)
  then show ?thesis
    using assms by (auto simp: covers_def div_mult2_eq)
qed

lemma covers_parent: "covers (l, i div 2) (Suc l, i)"
  by (simp add: covers_def)

lemma covers_parent_flip: "covers (l, i div 2) (Suc l, flip_index i)"
  by (simp add: covers_def)

text \<open>What a node covers is itself and what its two children cover.\<close>

lemma covers_children:
  assumes "covers (l, i div 2) b" "b \<noteq> (l, i div 2)"
  shows "covers (Suc l, i) b \<or> covers (Suc l, flip_index i) b"
proof -
  have lt: "l < fst b"
    using assms by (cases b) (auto simp: covers_def nat_less_le)
  then have "fst b - l = Suc (fst b - Suc l)"
    by simp
  then have "snd b div 2 ^ (fst b - Suc l) div 2 = i div 2"
    using assms(1) by (simp add: covers_def div_mult2_eq [symmetric] mult.commute)
  then have "snd b div 2 ^ (fst b - Suc l) = i \<or> snd b div 2 ^ (fst b - Suc l) = flip_index i"
    by (rule same_half)
  then show ?thesis
    using lt by (auto simp: covers_def)
qed

lemma covers_Suc: "covers m (Suc l, i) \<longleftrightarrow> m = (Suc l, i) \<or> covers m (l, i div 2)"
proof
  assume c: "covers m (Suc l, i)"
  show "m = (Suc l, i) \<or> covers m (l, i div 2)"
  proof (cases "fst m = Suc l")
    case False
    then have "fst m \<le> fst (l, i div 2)"
      using covers_level [OF c] by simp
    then show ?thesis
      using covers_comparable [OF c covers_parent] by blast
  qed (use covers_same_level [OF c] in simp)
qed (auto intro: covers_trans covers_parent)

lemma covers_path: "covers (l, i) (l + t, i * 2 ^ t)"
  by (simp add: covers_def)

text \<open>The nodes between a node and the leftmost one that is \<open>t\<close> levels below.\<close>

lemma covers_path_iff:
  assumes "covers n (l + t, i * 2 ^ t)" "l \<le> fst n"
  shows "\<exists>s \<le> t. n = (l + s, i * 2 ^ s)"
proof -
  define s where "s = fst n - l"
  have s: "fst n = l + s" "s \<le> t"
    using assms by (auto simp: s_def covers_def)
  then have "snd n = i * 2 ^ t div 2 ^ (t - s)"
    using assms(1) by (simp add: covers_def)
  also have "i * 2 ^ t = i * 2 ^ s * 2 ^ (t - s)"
    using s(2) by (simp add: mult.assoc flip: power_add)
  finally show ?thesis
    using s by (intro exI [of _ s]) (cases n, simp)
qed

lemma node_valid_path:
  assumes "node_valid L (l, i)" "l + t < L"
  shows "node_valid L (l + t, i * 2 ^ t)"
  using assms by (simp add: node_valid_def power_add)

lemma node_valid_flip: "node_valid L (Suc l, i) \<Longrightarrow> node_valid L (Suc l, flip_index i)"
  by (auto simp: node_valid_def flip_index_def elim!: evenE)

lemma node_valid_parent: "node_valid L (Suc l, i) \<Longrightarrow> node_valid L (l, i div 2)"
  by (auto simp: node_valid_def)

lemma node_valid_covers:
  assumes "node_valid L m" "covers n m"
  shows "node_valid L n"
proof -
  have "snd m < 2 ^ fst n * 2 ^ (fst m - fst n)"
    using assms by (simp add: node_valid_def covers_def flip: power_add)
  then have "snd m div 2 ^ (fst m - fst n) < 2 ^ fst n"
    by (rule less_mult_imp_div_less)
  then show ?thesis
    using assms by (auto simp: node_valid_def covers_def)
qed

text \<open>The bytes of a block in a heap of \<open>2 ^ T\<close> bytes: blocks that do not overlap share none.\<close>

definition node_size :: "nat \<Rightarrow> node \<Rightarrow> nat" where
  "node_size T n = 2 ^ (T - fst n)"

definition node_start :: "nat \<Rightarrow> node \<Rightarrow> nat" where
  "node_start T n = snd n * node_size T n"

definition node_range :: "nat \<Rightarrow> node \<Rightarrow> nat set" where
  "node_range T n = {node_start T n..<node_start T n + node_size T n}"

lemma node_size_pos [simp]: "0 < node_size T n"
  by (simp add: node_size_def)

lemma node_range_index:
  "x \<in> node_range T n \<longleftrightarrow> x div node_size T n = snd n"
proof
  assume "x \<in> node_range T n"
  then show "x div node_size T n = snd n"
    by (intro div_nat_eqI) (simp_all add: node_range_def node_start_def mult.commute)
next
  assume d: "x div node_size T n = snd n"
  have "x = snd n * node_size T n + x mod node_size T n"
    using div_mult_mod_eq [of x "node_size T n"] d by simp
  moreover have "x mod node_size T n < node_size T n"
    by simp
  ultimately have "snd n * node_size T n \<le> x" "x < snd n * node_size T n + node_size T n"
    by linarith+
  then show "x \<in> node_range T n"
    by (simp add: node_range_def node_start_def)
qed

lemma node_size_split: "fst n \<le> fst m \<Longrightarrow> fst m \<le> T \<Longrightarrow> node_size T n = node_size T m * 2 ^ (fst m - fst n)"
  by (simp add: node_size_def flip: power_add)

text \<open>The blocks with a byte are those that cover the smallest one with it.\<close>

lemma node_range_covers:
  assumes "fst n \<le> fst m" "fst m \<le> T" "x \<in> node_range T m"
  shows "x \<in> node_range T n \<longleftrightarrow> covers n m"
  using assms by (simp add: node_range_index node_size_split [OF assms(1,2)] div_mult2_eq covers_def)

lemma node_range_overlaps:
  assumes "fst n \<le> T" "fst m \<le> T"
  shows "node_range T n \<inter> node_range T m \<noteq> {} \<longleftrightarrow> overlaps n m"
proof -
  have "node_start T k \<in> node_range T k" for k
    by (simp add: node_range_def)
  then show ?thesis
    using node_range_covers [OF _ assms(2)] node_range_covers [OF _ assms(1)] covers_level
    unfolding overlaps_def by (metis IntI disjoint_iff empty_iff nat_le_linear)
qed

section \<open>Allocated blocks\<close>

text \<open>No allocated block is inside another one, and all of them are nodes of the tree.\<close>

definition allocation :: "nat \<Rightarrow> node set \<Rightarrow> bool" where
  "allocation L A \<longleftrightarrow> (\<forall>a \<in> A. node_valid L a) \<and> (\<forall>a \<in> A. \<forall>b \<in> A. covers a b \<longrightarrow> a = b)"

definition unused :: "node set \<Rightarrow> node \<Rightarrow> bool" where
  "unused A n \<longleftrightarrow> (\<forall>a \<in> A. \<not> covers n a)"

text \<open>A block that is not in use, but whose buddy is, is not part of an allocated block; nor is the root.\<close>

lemma unused_not_covered:
  assumes "allocation L A" "unused A (l, i)" "l = 0 \<or> \<not> unused A (l, flip_index i)" "a \<in> A"
  shows "\<not> covers a (l, i)"
proof
  assume c: "covers a (l, i)"
  have "a \<noteq> (l, i)"
    using assms(2,4) by (auto simp: unused_def)
  then have lt: "fst a < l"
    using covers_level [OF c] covers_same_level [OF c] by (auto simp: nat_less_le)
  then obtain k where k: "l = Suc k"
    by (cases l) auto
  then obtain d where d: "d \<in> A" "covers (l, flip_index i) d"
    using assms(3) by (auto simp: unused_def)
  have "covers a (k, i div 2)"
    using covers_comparable [OF c covers_parent [of k i, folded k]] lt k by simp
  then have "covers a d"
    using covers_parent_flip [of k i, folded k] d(2) by (blast intro: covers_trans)
  then have "a = d"
    using assms(1,4) d(1) by (auto simp: allocation_def)
  then show False
    using lt covers_level [OF d(2)] by simp
qed

text \<open>The nodes above such a block are in use.\<close>

lemma above_in_use:
  assumes "\<not> unused A (l, flip_index i)" "covers n (l, i)" "n \<noteq> (l, i)"
  shows "\<not> unused A n"
proof -
  have lt: "fst n < l"
    using covers_level [OF assms(2)] covers_same_level [OF assms(2)] assms(3) by (auto simp: nat_less_le)
  then obtain k where k: "l = Suc k"
    by (cases l) auto
  have "covers n (k, i div 2)"
    using covers_comparable [OF assms(2) covers_parent [of k i, folded k]] lt k by simp
  then have "covers n (l, flip_index i)"
    using covers_parent_flip [of k i, folded k] by (blast intro: covers_trans)
  then show ?thesis
    using assms(1) by (auto simp: unused_def intro: covers_trans)
qed

lemma unused_below: "unused A n \<Longrightarrow> covers n m \<Longrightarrow> unused A m"
  by (auto simp: unused_def intro: covers_trans)

text \<open>When no level down to \<open>k\<close> has a pair of blocks of which exactly one is unused, every block of the level \<open>k\<close> overlaps an
  allocated one.\<close>

lemma no_pair_no_room:
  assumes "\<not> unused A (0, 0)"
    and "\<And>l i. Suc l \<le> k \<Longrightarrow> i < 2 ^ Suc l \<Longrightarrow> unused A (Suc l, i) = unused A (Suc l, flip_index i)"
    and "i < 2 ^ k" "unused A (k, i)"
  shows "\<exists>a \<in> A. covers a (k, i)"
  using assms(2-4)
proof (induction k arbitrary: i)
  case 0
  then show ?case
    using assms(1) by simp
next
  case (Suc k)
  have p: "unused A (Suc k, flip_index i)"
    using Suc.prems(1) [OF order_refl Suc.prems(2)] Suc.prems(3) by simp
  show ?case
  proof (cases "unused A (k, i div 2)")
    case True
    have "\<exists>a \<in> A. covers a (k, i div 2)"
      using Suc.prems True by (intro Suc.IH) auto
    then show ?thesis
      using covers_parent covers_trans by blast
  next
    case False
    then obtain a where a: "a \<in> A" "covers (k, i div 2) a"
      by (auto simp: unused_def)
    then have "a = (k, i div 2)"
      using covers_children [OF a(2)] Suc.prems(3) p by (auto simp: unused_def)
    then show ?thesis
      using a(1) covers_parent by blast
  qed
qed

section \<open>One bit per node\<close>

text \<open>
  The array of bits as its clients see it: states that are \<open>ok\<close> have a bit for every node of the \<open>L\<close> levels, writing one of
  them leaves the others alone, and what is not part of the array stays the \<open>same\<close>.
\<close>

locale node_bits =
  fixes L :: nat
    and ok :: "'b \<Rightarrow> bool"
    and get :: "node \<Rightarrow> 'b \<Rightarrow> bool"
    and put :: "node \<Rightarrow> bool \<Rightarrow> 'b \<Rightarrow> 'b"
    and same :: "'b \<Rightarrow> 'b \<Rightarrow> bool"
  assumes put_ok: "\<lbrakk>ok b; node_valid L n\<rbrakk> \<Longrightarrow> ok (put n v b)"
    and get_put: "\<lbrakk>ok b; node_valid L n; node_valid L m\<rbrakk> \<Longrightarrow> get m (put n v b) = (if m = n then v else get m b)"
    and same_refl: "same b b"
    and same_trans: "\<lbrakk>same b b'; same b' b''\<rbrakk> \<Longrightarrow> same b b''"
    and same_put: "\<lbrakk>ok b; node_valid L n\<rbrakk> \<Longrightarrow> same b (put n v b)"
begin

definition rep :: "'b \<Rightarrow> node set \<Rightarrow> bool" where
  "rep b A \<longleftrightarrow> ok b \<and> allocation L A \<and> (\<forall>n. node_valid L n \<longrightarrow> get n b = unused A n)"

lemma rep_ok: "rep b A \<Longrightarrow> ok b"
  by (simp add: rep_def)

lemma rep_get: "rep b A \<Longrightarrow> node_valid L n \<Longrightarrow> get n b = unused A n"
  unfolding rep_def by blast

text \<open>Cutting: a node is marked, and its first child, and so on for \<open>t\<close> levels.\<close>

fun cut :: "nat \<Rightarrow> node \<Rightarrow> 'b \<Rightarrow> 'b" where
  "cut 0 n b = b"
| "cut (Suc t) (l, i) b = cut t (Suc l, 2 * i) (put (Suc l, 2 * i) False b)"

lemma cut_bits:
  assumes "ok b" "node_valid L (l, i)" "l + t < L" "node_valid L m"
  shows "ok (cut t (l, i) b) \<and> get m (cut t (l, i) b) = (get m b \<and> (\<forall>s \<in> {1..t}. m \<noteq> (l + s, i * 2 ^ s)))"
  using assms
proof (induction t arbitrary: l i b)
  case (Suc t)
  have v: "node_valid L (Suc l, 2 * i)"
    using node_valid_path [OF Suc.prems(2), of 1] Suc.prems(3) by (simp add: mult.commute)
  have ih: "ok (cut t (Suc l, 2 * i) (put (Suc l, 2 * i) False b))
      \<and> get m (cut t (Suc l, 2 * i) (put (Suc l, 2 * i) False b))
        = (get m (put (Suc l, 2 * i) False b) \<and> (\<forall>s \<in> {1..t}. m \<noteq> (Suc l + s, 2 * i * 2 ^ s)))"
    using Suc.prems v by (intro Suc.IH put_ok) simp_all
  have s: "{1..Suc t} = insert 1 (Suc ` {1..t})"
    by (auto simp: image_iff Bex_def)
  have "(\<forall>s \<in> {1..Suc t}. m \<noteq> (l + s, i * 2 ^ s)) \<longleftrightarrow> m \<noteq> (Suc l, 2 * i) \<and> (\<forall>s \<in> {1..t}. m \<noteq> (Suc l + s, 2 * i * 2 ^ s))"
    unfolding s ball_simps by (simp add: mult.assoc mult.commute mult.left_commute)
  then show ?case
    using ih get_put [OF Suc.prems(1) v Suc.prems(4), of False] by auto
qed simp

lemma cut_same:
  assumes "ok b" "node_valid L (l, i)" "l + t < L"
  shows "same b (cut t (l, i) b)"
  using assms
proof (induction t arbitrary: l i b)
  case (Suc t)
  have v: "node_valid L (Suc l, 2 * i)"
    using node_valid_path [OF Suc.prems(2), of 1] Suc.prems(3) by (simp add: mult.commute)
  have "same (put (Suc l, 2 * i) False b) (cut t (Suc l, 2 * i) (put (Suc l, 2 * i) False b))"
    using Suc.prems(3) by (intro Suc.IH [OF put_ok [OF Suc.prems(1) v] v]) simp
  then show ?case
    using same_trans [OF same_put [OF Suc.prems(1) v]] by simp
qed (simp add: same_refl)

text \<open>
  Allocating in a pair of blocks of which exactly one is free, or at a free root: the new block overlaps no allocated one,
  and the bits describe the extended set.
\<close>

lemma rep_allocate:
  assumes r: "rep b A" and v: "node_valid L (l, i)" and free: "get (l, i) b" and t: "l + t < L"
    and pair: "l = 0 \<or> \<not> get (l, flip_index i) b"
  shows "rep (cut t (l, i) (put (l, i) False b)) (insert (l + t, i * 2 ^ t) A)"
    and "a \<in> A \<Longrightarrow> \<not> overlaps (l + t, i * 2 ^ t) a"
proof -
  let ?n = "(l + t, i * 2 ^ t)"
  have al: "allocation L A" and okb: "ok b"
    using r by (simp_all add: rep_def)
  have un: "unused A (l, i)"
    using r v free by (simp add: rep_def)
  have pr: "l = 0 \<or> \<not> unused A (l, flip_index i)"
    using pair r v node_valid_flip by (cases l) (auto simp: rep_def)
  have vn: "node_valid L ?n"
    by (rule node_valid_path [OF v t])
  show dis: "\<not> overlaps ?n a" if "a \<in> A" for a
  proof -
    have "\<not> covers ?n a"
      using unused_below [OF un covers_path] that by (auto simp: unused_def)
    moreover have "\<not> covers a ?n"
    proof
      assume c: "covers a ?n"
      show False
      proof (cases "fst a \<le> l")
        case True
        then show False
          using covers_comparable [OF c covers_path] unused_not_covered [OF al un pr that] by simp
      next
        case False
        then show False
          using covers_comparable [OF covers_path c] un that by (auto simp: unused_def)
      qed
    qed
    ultimately show ?thesis
      by (simp add: overlaps_def)
  qed
  have al': "allocation L (insert ?n A)"
    using al vn dis by (auto simp: allocation_def overlaps_def)
  have bit: "get m (cut t (l, i) (put (l, i) False b)) = unused (insert ?n A) m" if m: "node_valid L m" for m
  proof -
    have "{0..t} = insert 0 {1..t}"
      by auto
    then have "(\<forall>s \<in> {0..t}. m \<noteq> (l + s, i * 2 ^ s)) \<longleftrightarrow> m \<noteq> (l, i) \<and> (\<forall>s \<in> {1..t}. m \<noteq> (l + s, i * 2 ^ s))"
      by simp
    then have "get m (cut t (l, i) (put (l, i) False b)) \<longleftrightarrow> unused A m \<and> (\<forall>s \<in> {0..t}. m \<noteq> (l + s, i * 2 ^ s))"
      using cut_bits [OF put_ok [OF okb v] v t m] get_put [OF okb v m] rep_get [OF r m] by auto
    moreover have "covers m ?n \<longleftrightarrow> (\<exists>s \<in> {0..t}. m = (l + s, i * 2 ^ s))" if "unused A m"
    proof
      assume c: "covers m ?n"
      have "l \<le> fst m"
      proof (rule ccontr)
        assume "\<not> l \<le> fst m"
        then have lt: "fst m < l" "covers m (l, i)"
          using covers_comparable [OF c covers_path] by simp_all
        moreover have "m \<noteq> (l, i)"
          using lt(1) by auto
        ultimately show False
          using above_in_use [of A l i m] pr \<open>unused A m\<close> by auto
      qed
      then show "\<exists>s \<in> {0..t}. m = (l + s, i * 2 ^ s)"
        using covers_path_iff [OF c] by auto
    next
      assume "\<exists>s \<in> {0..t}. m = (l + s, i * 2 ^ s)"
      then obtain s where s: "s \<le> t" "m = (l + s, i * 2 ^ s)"
        by auto
      have "(l + t, i * 2 ^ t) = (l + s + (t - s), i * 2 ^ s * 2 ^ (t - s))"
        using s(1) by (simp add: mult.assoc flip: power_add)
      then show "covers m ?n"
        unfolding s(2) using covers_path by metis
    qed
    ultimately show ?thesis
      by (auto simp: unused_def)
  qed
  show "rep (cut t (l, i) (put (l, i) False b)) (insert ?n A)"
    unfolding rep_def using al' bit cut_bits [OF put_ok [OF okb v] v t v] by simp
qed

text \<open>Releasing: the search upwards for the allocated block around a node of the lowest level.\<close>

fun find_block :: "nat \<Rightarrow> nat \<Rightarrow> 'b \<Rightarrow> node option" where
  "find_block 0 i b = Some (0, i)"
| "find_block (Suc l) i b =
     (if \<not> get (Suc l, i) b then Some (Suc l, i)
      else if \<not> get (Suc l, flip_index i) b then None
      else find_block l (i div 2) b)"

text \<open>An unused node whose buddy is unused, below a node that is in use: this one is allocated itself.\<close>

lemma find_block_result:
  assumes r: "rep b A" and v: "node_valid L (l, i)"
    and low: "l = L - 1 \<or> unused A (Suc l, 2 * i) \<and> unused A (Suc l, 2 * i + 1)"
  shows "a \<in> A \<Longrightarrow> covers a (l, i) \<Longrightarrow> find_block l i b = Some a"
    and "\<forall>a \<in> A. \<not> covers a (l, i) \<Longrightarrow> A = {} \<and> find_block l i b = Some (0, 0) \<or> A \<noteq> {} \<and> find_block l i b = None"
proof -
  have "(\<forall>a \<in> A. covers a (l, i) \<longrightarrow> find_block l i b = Some a)
    \<and> ((\<forall>a \<in> A. \<not> covers a (l, i)) \<longrightarrow> (A = {} \<and> find_block l i b = Some (0, 0)) \<or> (A \<noteq> {} \<and> find_block l i b = None))"
    using v low
  proof (induction l arbitrary: i)
    case 0
    then have i: "i = 0"
      by (simp add: node_valid_def)
    have "a = (0, 0)" if "covers a (0, i)" for a
      using that i by (cases a) (simp add: covers_def)
    moreover have "A = {}" if "\<forall>a \<in> A. \<not> covers a (0, i)"
    proof (rule ccontr)
      assume "A \<noteq> {}"
      then obtain a where a: "a \<in> A"
        by blast
      then have va: "node_valid L a" "covers (0, 0) a"
        using r by (auto simp: rep_def allocation_def node_valid_def covers_def)
      show False
      proof (cases "L = 1")
        case True
        then have "a = (0, 0)"
          using va(1) by (cases a) (simp add: node_valid_def)
        then show False
          using that a i by auto
      next
        case False
        then have u: "unused A (Suc 0, 0)" "unused A (Suc 0, 1)" and "Suc 0 < L"
          using "0.prems" i by (auto simp: node_valid_def)
        have "a \<noteq> (0, 0)"
          using that a i by auto
        then have "covers (Suc 0, 0) a \<or> covers (Suc 0, flip_index 0) a"
          using covers_children [of 0 0 a] va(2) by simp
        then show False
          using u a by (auto simp: unused_def flip_index_def)
      qed
    qed
    ultimately show ?case
      using i by auto
  next
    case (Suc l)
    let ?n = "(Suc l, i)"
    have vf: "node_valid L (Suc l, flip_index i)" and vp: "node_valid L (l, i div 2)"
      using node_valid_flip [OF Suc.prems(1)] node_valid_parent [OF Suc.prems(1)] by simp_all
    have g: "get ?n b = unused A ?n" "get (Suc l, flip_index i) b = unused A (Suc l, flip_index i)"
      using rep_get [OF r] Suc.prems(1) vf by simp_all
    have al: "allocation L A"
      using r by (simp add: rep_def)
    show ?case
    proof (cases "unused A ?n")
      case False
      then obtain a where a: "a \<in> A" "covers ?n a"
        by (auto simp: unused_def)
      have eq: "a = ?n"
      proof (rule ccontr)
        assume ne: "a \<noteq> ?n"
        have va: "node_valid L a"
          using al a(1) by (simp add: allocation_def)
        have "Suc l < fst a"
          using covers_level [OF a(2)] covers_same_level [OF a(2)] ne by (auto simp: nat_less_le)
        then have "Suc l \<noteq> L - 1"
          using va by (auto simp: node_valid_def)
        then have "unused A (Suc (Suc l), 2 * i)" "unused A (Suc (Suc l), flip_index (2 * i))"
          using Suc.prems(2) by (simp_all add: flip_index_def)
        then show False
          using covers_children [of "Suc l" "2 * i" a] a ne by (auto simp: unused_def)
      qed
      have "d = ?n" if "d \<in> A" "covers d ?n" for d
        using al a(1) that unfolding eq allocation_def by blast
      moreover have "\<exists>d \<in> A. covers d ?n"
        using a(1) eq covers_refl by blast
      moreover have "find_block (Suc l) i b = Some ?n"
        using False g(1) by simp
      ultimately show ?thesis
        by metis
    next
      case True
      note un = True
      have nn: "?n \<notin> A"
        using un by (auto simp: unused_def)
      have up: "covers d ?n \<longleftrightarrow> covers d (l, i div 2)" if "d \<in> A" for d
        using covers_Suc [of d l i] that nn by auto
      show ?thesis
      proof (cases "unused A (Suc l, flip_index i)")
        case True
        have "unused A (Suc l, 2 * (i div 2)) \<and> unused A (Suc l, 2 * (i div 2) + 1)"
          using True un by (cases "even i") (auto simp: flip_index_def elim!: evenE oddE)
        then have "(\<forall>a \<in> A. covers a (l, i div 2) \<longrightarrow> find_block l (i div 2) b = Some a)
            \<and> ((\<forall>a \<in> A. \<not> covers a (l, i div 2)) \<longrightarrow> (A = {} \<and> find_block l (i div 2) b = Some (0, 0))
              \<or> (A \<noteq> {} \<and> find_block l (i div 2) b = None))"
          using Suc.IH [OF vp] by blast
        then show ?thesis
          using un True g up by auto
      next
        case False
        then have "\<not> covers d ?n" if "d \<in> A" for d
          using unused_not_covered [OF al un _ that] by simp
        moreover have "A \<noteq> {}"
          using False by (auto simp: unused_def)
        ultimately show ?thesis
          using un False g by simp
      qed
    qed
  qed
  then show "a \<in> A \<Longrightarrow> covers a (l, i) \<Longrightarrow> find_block l i b = Some a"
    and "\<forall>a \<in> A. \<not> covers a (l, i) \<Longrightarrow> A = {} \<and> find_block l i b = Some (0, 0) \<or> A \<noteq> {} \<and> find_block l i b = None"
    by blast+
qed

text \<open>Fusing: as long as both blocks of a pair are free, the block above is marked as free.\<close>

fun fuse :: "nat \<Rightarrow> nat \<Rightarrow> 'b \<Rightarrow> 'b" where
  "fuse 0 i b = b"
| "fuse (Suc l) i b =
     (if get (Suc l, i) b \<and> get (Suc l, flip_index i) b
      then fuse l (i div 2) (put (l, i div 2) True b) else b)"

lemma fuse_same:
  assumes "ok b" "node_valid L (l, i)"
  shows "same b (fuse l i b)"
  using assms
proof (induction l arbitrary: i b)
  case (Suc l)
  note v = node_valid_parent [OF Suc.prems(2)]
  show ?case
    using same_trans [OF same_put [OF Suc.prems(1) v] Suc.IH [OF put_ok [OF Suc.prems(1) v] v]] same_refl by simp
qed (simp add: same_refl)

lemma fuse_bits:
  assumes "ok b" "node_valid L (l, i)"
    and "\<And>m. node_valid L m \<Longrightarrow> get m b = (unused A m \<and> (covers m (l, i) \<longrightarrow> m = (l, i)))"
    and "\<And>m. node_valid L m \<Longrightarrow> covers m (l, i) \<Longrightarrow> m \<noteq> (l, i) \<Longrightarrow> m \<notin> A"
  shows "ok (fuse l i b) \<and> (\<forall>m. node_valid L m \<longrightarrow> get m (fuse l i b) = unused A m)"
  using assms
proof (induction l arbitrary: i b)
  case 0
  have "covers m (0, i) \<longleftrightarrow> m = (0, i)" for m
    using covers_antisym by (cases m) (auto simp: covers_def)
  then show ?case
    using 0 by simp
next
  case (Suc l)
  let ?n = "(Suc l, i)" and ?f = "(Suc l, flip_index i)" and ?p = "(l, i div 2)"
  have vf: "node_valid L ?f" and vp: "node_valid L ?p"
    using node_valid_flip [OF Suc.prems(2)] node_valid_parent [OF Suc.prems(2)] by simp_all
  have pn: "covers m ?n \<longleftrightarrow> m = ?n \<or> covers m ?p" for m
    by (rule covers_Suc)
  have fn: "\<not> covers ?f ?n"
    using covers_same_level [of ?f ?n] by auto
  have gn: "get ?n b = unused A ?n" "get ?f b = unused A ?f"
    using Suc.prems(3) [OF Suc.prems(2)] Suc.prems(3) [OF vf] fn by simp_all
  show ?case
  proof (cases "unused A ?n \<and> unused A ?f")
    case True
    have up: "unused A ?p"
      using covers_children [of l i] True Suc.prems(4) [OF vp covers_parent] by (auto simp: unused_def)
    have "ok (fuse l (i div 2) (put ?p True b))
        \<and> (\<forall>m. node_valid L m \<longrightarrow> get m (fuse l (i div 2) (put ?p True b)) = unused A m)"
    proof (rule Suc.IH)
      show "ok (put ?p True b)"
        by (rule put_ok [OF Suc.prems(1) vp])
      show "node_valid L ?p"
        by (rule vp)
      show "get m (put ?p True b) = (unused A m \<and> (covers m ?p \<longrightarrow> m = ?p))" if "node_valid L m" for m
      proof -
        have "covers ?n ?p = False"
          using covers_level by fastforce
        then show ?thesis
          using get_put [OF Suc.prems(1) vp that] Suc.prems(3) [OF that] up pn [of m] by auto
      qed
      show "m \<notin> A" if "node_valid L m" "covers m ?p" "m \<noteq> ?p" for m
      proof -
        have "m \<noteq> ?n"
          using covers_level [OF that(2)] by auto
        then show ?thesis
          using Suc.prems(4) [OF that(1)] that(2) pn [of m] by blast
      qed
    qed
    then show ?thesis
      using True gn by simp
  next
    case False
    have "\<not> unused A m" if "covers m ?p" for m
    proof -
      have "\<not> unused A ?p"
        using False unused_below [OF _ covers_parent] unused_below [OF _ covers_parent_flip] by blast
      then show ?thesis
        using that unused_below by blast
    qed
    then have "get m b = unused A m" if "node_valid L m" for m
      using Suc.prems(3) [OF that] pn [of m] by blast
    then show ?thesis
      using False gn Suc.prems(1) by auto
  qed
qed

lemma rep_release:
  assumes r: "rep b A" and a: "(l, i) \<in> A"
  shows "rep (fuse l i (put (l, i) True b)) (A - {(l, i)})"
proof -
  let ?n = "(l, i)" and ?A = "A - {(l, i)}"
  have al: "allocation L A" and okb: "ok b" and v: "node_valid L ?n"
    using r a by (auto simp: rep_def allocation_def)
  have un: "unused ?A ?n"
    using al a by (auto simp: unused_def allocation_def)
  have "get m (put ?n True b) = (unused ?A m \<and> (covers m ?n \<longrightarrow> m = ?n))" if "node_valid L m" for m
  proof (cases "m = ?n")
    case False
    then have "get m (put ?n True b) = unused A m"
      using get_put [OF okb v that] rep_get [OF r that] by simp
    then show ?thesis
      using False a by (auto simp: unused_def)
  qed (use get_put [OF okb v v] un in simp)
  moreover have "m \<notin> ?A" if "covers m ?n" "m \<noteq> ?n" for m
    using al a that by (auto simp: allocation_def)
  ultimately have "ok (fuse l i (put ?n True b)) \<and> (\<forall>m. node_valid L m \<longrightarrow> get m (fuse l i (put ?n True b)) = unused ?A m)"
    using put_ok [OF okb v] v by (intro fuse_bits) simp_all
  moreover have "allocation L ?A"
    using al by (auto simp: allocation_def)
  ultimately show ?thesis
    by (simp add: rep_def)
qed

end

end
