(* ===== verification/Buddy.thy ===== *)
theory Buddy
  imports Heap BlockTree
begin

text \<open>
  The buddy allocator of a DPU (\<^verbatim>\<open>dpu-rt/src/syslib/buddy_alloc.c\<close>, \<^verbatim>\<open>buddy_realloc.c\<close>). A heap of \<open>2 ^ n\<close> bytes is a binary
  tree of blocks, whose states are single bits in an array of words in front of the heap: the levels 0 to 4 share the first
  word, the level \<open>l\<close> above has \<open>2 ^ (l - 5)\<close> words of its own. A bit that is set says that nothing is allocated in the block; an
  allocated block is a block whose bit is clear and the bits below which are set. The functions hold a lock, so that each of them
  is one step.

  The shift instructions of the DPU take the amount modulo 32. The code relies on it, since it shifts by the index of a
  block in its level.
\<close>

section \<open>State and instructions\<close>

abbreviation (input) EINVAL :: int where "EINVAL \<equiv> 28"
abbreviation (input) ENOMEM :: int where "ENOMEM \<equiv> 49"

record buddy =
  buddy_wram :: wram
  errno :: int
  buddy_init_done :: u8
  buddy_blocks :: u32
  buddy_heap_start :: u32
  BUDDY_SIZE_OF_HEAP :: u32
  BUDDY_MAX_POWER :: u8
  BUDDY_NUMBER_OF_LEVELS :: u8

definition lsl :: "u32 \<Rightarrow> u32 \<Rightarrow> u32" where
  "lsl x n = push_bit (unat n mod 32) x"

definition count_leading_zeros :: "u32 \<Rightarrow> u32" where
  "count_leading_zeros x = of_nat (length (takeWhile (\<lambda>i. \<not> bit x i) (rev [0..<32])))"

definition count_population :: "u32 \<Rightarrow> nat" where
  "count_population x = length (filter (bit x) [0..<32])"

definition next_power_of_2 :: "u32 \<Rightarrow> u32" where
  "next_power_of_2 x =
     (let power_of_2 = 31 - count_leading_zeros x
      in if count_population x \<noteq> 1 then power_of_2 + 1 else power_of_2)"

text \<open>The accesses \<^verbatim>\<open>__buddy_blocks[i]\<close>.\<close>

definition get_block :: "nat \<Rightarrow> u32 \<Rightarrow> buddy \<Rightarrow> dpu_fault + u32" where
  "get_block wram_size i b = load wram_size (buddy_blocks b + 4 * i) (buddy_wram b)"

definition put_block :: "nat \<Rightarrow> u32 \<Rightarrow> u32 \<Rightarrow> buddy \<Rightarrow> dpu_fault + buddy" where
  "put_block wram_size i v b =
     andThen (store wram_size (buddy_blocks b + 4 * i) v (buddy_wram b)) (\<lambda>m. Inr (b\<lparr>buddy_wram := m\<rparr>))"

text \<open>
  The bit of a block in its word, the bit of its buddy, and the index of the word, as the code computes them from the level and
  the index in the level. The first levels are shifted to their place in the first word.
\<close>

definition highlight_target :: "u32 \<Rightarrow> u32 \<Rightarrow> u32" where
  "highlight_target level index_in_level =
     (let highlight_target_bit = lsl 1 index_in_level
      in if sint (level - 4) < 0 then lsl highlight_target_bit (32 - lsl 2 level) else highlight_target_bit)"

definition highlight_buddy :: "u32 \<Rightarrow> u32 \<Rightarrow> u32" where
  "highlight_buddy level index_in_level =
     (let highlight_target_bit = lsl 1 index_in_level;
          highlight_buddy_bit = (if count_leading_zeros highlight_target_bit AND 1 = 0
            then drop_bit 1 highlight_target_bit else push_bit 1 highlight_target_bit)
      in if sint (level - 4) < 0 then lsl highlight_buddy_bit (32 - lsl 2 level) else highlight_buddy_bit)"

definition block_real_index :: "u32 \<Rightarrow> u32 \<Rightarrow> u32" where
  "block_real_index level index_in_level =
     (let level_clamped = sint (level - 4) - 1
      in if level_clamped \<ge> 0 then lsl 1 (of_int level_clamped) + drop_bit 5 index_in_level else 0)"

section \<open>Allocation\<close>

definition loaded_case_mask :: "nat \<Rightarrow> u32" where
  "loaded_case_mask level =
     (if level = 0 then 0x40000000 else if level = 1 then 0x30000000 else if level = 2 then 0x0F000000
      else if level = 3 then 0x00FF0000 else if level = 4 then 0x0000FFFF else 0xFFFFFFFF)"

text \<open>
  The loop over the words of a level, from the last one: in the first word with a pair of blocks of which exactly one is
  free, the free one is marked and its index returned.
\<close>

fun search_bitfields :: "nat \<Rightarrow> nat \<Rightarrow> nat \<Rightarrow> u32 \<Rightarrow> buddy \<Rightarrow> dpu_fault + u32 option \<times> buddy" where
  "search_bitfields wram_size level 0 index_in_level b = Inr (None, b)"
| "search_bitfields wram_size level (Suc number_of_current_bitfield) index_in_level b =
     (let real_index = drop_bit 5 (lsl 1 (of_nat level));
          address = of_nat number_of_current_bitfield + real_index
      in andThen (get_block wram_size address b) (\<lambda>loaded.
         let loaded_case = loaded AND loaded_case_mask level;
             lz_before_first_pair_tmp = (push_bit 1 loaded_case XOR loaded_case) AND 0xAAAAAAAA
         in if lz_before_first_pair_tmp \<noteq> 0
            then let lz_before_first_pair = count_leading_zeros lz_before_first_pair_tmp;
                     index = index_in_level - lz_before_first_pair - 1;
                     index = (if level < 5 then index + lsl 1 (of_nat level) else index);
                     highlight_target_bit = lsl 1 index;
                     highlight_target_bit = (if level < 4
                       then lsl highlight_target_bit (32 - lsl 2 (of_nat level)) else highlight_target_bit);
                     (highlight_target_bit, index) = (if loaded_case AND highlight_target_bit = 0
                       then (drop_bit 1 highlight_target_bit, index - 1) else (highlight_target_bit, index))
                 in andThen (put_block wram_size address (loaded - highlight_target_bit) b) (\<lambda>b. Inr (Some index, b))
            else search_bitfields wram_size level number_of_current_bitfield (index_in_level - 32) b))"

text \<open>The loop that cuts a block in half until its level is that of the request: \<open>n\<close> levels are left.\<close>

fun cut_blocks :: "nat \<Rightarrow> nat \<Rightarrow> nat \<Rightarrow> u32 \<Rightarrow> buddy \<Rightarrow> dpu_fault + u32 \<times> buddy" where
  "cut_blocks wram_size 0 level index_in_level b = Inr (index_in_level, b)"
| "cut_blocks wram_size (Suc n) level index_in_level b =
     (let index_in_level = push_bit 1 index_in_level;
          highlight_target_bit = highlight_target (of_nat level) index_in_level;
          real_index = block_real_index (of_nat level) index_in_level
      in andThen (get_block wram_size real_index b) (\<lambda>loaded_case.
         andThen (put_block wram_size real_index (loaded_case - highlight_target_bit) b) (\<lambda>b.
         cut_blocks wram_size n (Suc level) index_in_level b)))"

text \<open>The loop over the levels, from that of the request to the root.\<close>

fun search_levels :: "nat \<Rightarrow> nat \<Rightarrow> nat \<Rightarrow> buddy \<Rightarrow> dpu_fault + u32 \<times> buddy" where
  "search_levels wram_size blocks_level 0 b = Inr (0, b\<lparr>errno := ENOMEM\<rparr>)"
| "search_levels wram_size blocks_level (Suc level) b =
     (let number_of_bitfields = (if level < 5 then 1 else unat (drop_bit 5 (lsl 1 (of_nat level))))
      in andThen (search_bitfields wram_size level number_of_bitfields (lsl 1 (of_nat level)) b) (\<lambda>(found, b).
         case found of
           None \<Rightarrow> search_levels wram_size blocks_level level b
         | Some index_in_level \<Rightarrow>
             andThen (cut_blocks wram_size (blocks_level - level) (Suc level) index_in_level b) (\<lambda>(index_in_level, b).
             Inr (buddy_heap_start b
                   + lsl index_in_level (ucast (BUDDY_MAX_POWER b) - of_nat blocks_level), b))))"

definition safe_buddy_alloc :: "nat \<Rightarrow> u32 \<Rightarrow> buddy \<Rightarrow> dpu_fault + u32 \<times> buddy" where
  "safe_buddy_alloc wram_size sz b =
     (if sz = 0 \<or> sz > BUDDY_SIZE_OF_HEAP b then Inr (0, b\<lparr>errno := EINVAL\<rparr>)
      else let power_of_2 = next_power_of_2 sz;
               blocks_level = sint (ucast (BUDDY_MAX_POWER b) - power_of_2 :: u32);
               blocks_level = (if blocks_level \<ge> uint (BUDDY_NUMBER_OF_LEVELS b)
                 then uint (BUDDY_NUMBER_OF_LEVELS b) - 1 else blocks_level)
           in search_levels wram_size (nat blocks_level) (nat (blocks_level + 1)) b)"

section \<open>Release\<close>

record buddy_search_context =
  target_level :: u32
  real_index :: u32
  highlight_target_bit :: u32
  highlight_buddy_bit :: u32

text \<open>The loop of the search, from the lowest level upwards. No result is the value -1 of the code.\<close>

function search_pointer :: "nat \<Rightarrow> u32 \<Rightarrow> u32 \<Rightarrow> buddy \<Rightarrow> dpu_fault + (u32 \<times> buddy_search_context) option \<times> buddy" where
  "search_pointer wram_size level index_in_level b =
     (let target_bit = highlight_target level index_in_level;
          buddy_bit = highlight_buddy level index_in_level;
          index = block_real_index level index_in_level
      in andThen (get_block wram_size index b) (\<lambda>loaded_case.
         if loaded_case AND target_bit = 0 \<or> level = 0
         then Inr (Some (index_in_level, \<lparr>target_level = level, real_index = index,
                highlight_target_bit = target_bit, highlight_buddy_bit = buddy_bit\<rparr>), b)
         else if loaded_case AND buddy_bit = 0 then Inr (None, b\<lparr>errno := EINVAL\<rparr>)
         else search_pointer wram_size (level - 1) (drop_bit 1 index_in_level) b))"
  by auto

termination
  by (relation "measure (\<lambda>(_, level, _, _). unat level)") (auto simp: measure_unat)

declare search_pointer.simps [simp del]

definition buddy_search_for_pointer ::
  "nat \<Rightarrow> u32 \<Rightarrow> buddy \<Rightarrow> dpu_fault + (u32 \<times> buddy_search_context) option \<times> buddy" where
  "buddy_search_for_pointer wram_size pointer b =
     (if pointer AND 7 \<noteq> 0 \<or> pointer < buddy_heap_start b
         \<or> pointer > buddy_heap_start b + BUDDY_SIZE_OF_HEAP b - 1
      then Inr (None, b\<lparr>errno := EINVAL\<rparr>)
      else search_pointer wram_size (ucast (BUDDY_NUMBER_OF_LEVELS b) - 1)
             (drop_bit 4 (pointer - buddy_heap_start b)) b)"

text \<open>The loop that marks the block above as free when both blocks of a pair are.\<close>

function fuse_blocks :: "nat \<Rightarrow> u32 \<Rightarrow> u32 \<Rightarrow> u32 \<Rightarrow> u32 \<Rightarrow> u32 \<Rightarrow> buddy \<Rightarrow> dpu_fault + buddy" where
  "fuse_blocks wram_size level index loaded_case target_bit buddy_bit b =
     (if level > 0
      then if loaded_case AND target_bit = 0 \<or> loaded_case AND buddy_bit = 0 then Inr b
           else let index = drop_bit 1 index;
                    level' = level - 1;
                    target_bit = highlight_target level' index;
                    buddy_bit = highlight_buddy level' index;
                    real = block_real_index level' index
                in andThen (get_block wram_size real b) (\<lambda>loaded.
                   let loaded_case = loaded OR target_bit
                   in andThen (put_block wram_size real loaded_case b) (\<lambda>b.
                      fuse_blocks wram_size level' index loaded_case target_bit buddy_bit b))
      else Inr b)"
  by auto

termination
  by (relation "measure (\<lambda>(_, level, _). unat level)") (auto simp: measure_unat word_neq_0_conv)

declare fuse_blocks.simps [simp del]

definition buddy_free_fusion_of_blocks :: "nat \<Rightarrow> u32 \<Rightarrow> buddy_search_context \<Rightarrow> buddy \<Rightarrow> dpu_fault + buddy" where
  "buddy_free_fusion_of_blocks wram_size index context b =
     andThen (get_block wram_size (real_index context) b) (\<lambda>loaded_case.
     fuse_blocks wram_size (target_level context) index loaded_case
       (highlight_target_bit context) (highlight_buddy_bit context) b)"

definition safe_buddy_free :: "nat \<Rightarrow> u32 \<Rightarrow> buddy \<Rightarrow> dpu_fault + buddy" where
  "safe_buddy_free wram_size pointer b =
     andThen (buddy_search_for_pointer wram_size pointer b) (\<lambda>(found, b).
     case found of
       None \<Rightarrow> Inr b
     | Some (index, context) \<Rightarrow>
         andThen (get_block wram_size (real_index context) b) (\<lambda>loaded.
         andThen (put_block wram_size (real_index context) (loaded OR highlight_target_bit context) b) (\<lambda>b.
         buddy_free_fusion_of_blocks wram_size index context b)))"

definition buddy_alloc :: "nat \<Rightarrow> u32 \<Rightarrow> buddy \<Rightarrow> dpu_fault + u32 \<times> buddy" where
  "buddy_alloc wram_size sz b = safe_buddy_alloc wram_size sz b"

definition buddy_free :: "nat \<Rightarrow> u32 \<Rightarrow> buddy \<Rightarrow> dpu_fault + buddy" where
  "buddy_free wram_size pointer b = safe_buddy_free wram_size pointer b"

section \<open>Initialisation\<close>

text \<open>\<^verbatim>\<open>memset\<close> on \<open>n\<close> words of the array.\<close>

fun fill_blocks :: "nat \<Rightarrow> nat \<Rightarrow> u32 \<Rightarrow> buddy \<Rightarrow> dpu_fault + buddy" where
  "fill_blocks wram_size 0 i b = Inr b"
| "fill_blocks wram_size (Suc n) i b =
     andThen (put_block wram_size i 0xFFFFFFFF b) (\<lambda>b. fill_blocks wram_size n (i + 1) b)"

definition bytes_in_buddy_blocks :: "u8 \<Rightarrow> u32" where
  "bytes_in_buddy_blocks levels = push_bit 2 (lsl 1 (ucast levels - 5))"

definition clear_buddy_blocks :: "nat \<Rightarrow> buddy \<Rightarrow> dpu_fault + buddy" where
  "clear_buddy_blocks wram_size b =
     andThen (put_block wram_size 0 0x7fffffff b) (\<lambda>b.
     fill_blocks wram_size (unat (bytes_in_buddy_blocks (BUDDY_NUMBER_OF_LEVELS b) - 4) div 4) 1 b)"

definition buddy_init :: "nat \<Rightarrow> u32 \<Rightarrow> buddy \<Rightarrow> dpu_fault + buddy" where
  "buddy_init wram_size size_of_heap b =
     (if buddy_init_done b = 0
      then let power_of_2 = count_leading_zeros size_of_heap;
               max_power = ucast (31 - power_of_2);
               levels = max_power - 3;
               blocks_in_buddy_blocks = bytes_in_buddy_blocks levels
           in andThen (mem_alloc wram_size (size_of_heap + blocks_in_buddy_blocks) (buddy_wram b)) (\<lambda>(blocks, m).
              let b = b\<lparr>buddy_wram := m, BUDDY_SIZE_OF_HEAP := size_of_heap, BUDDY_MAX_POWER := max_power,
                        BUDDY_NUMBER_OF_LEVELS := levels, buddy_blocks := blocks,
                        buddy_heap_start := blocks + 4 * drop_bit 2 blocks_in_buddy_blocks\<rparr>
              in andThen (clear_buddy_blocks wram_size b) (\<lambda>b. Inr (b\<lparr>buddy_init_done := 1\<rparr>)))
      else Inr b)"

definition buddy_reset :: "nat \<Rightarrow> buddy \<Rightarrow> dpu_fault + buddy" where
  "buddy_reset wram_size b = clear_buddy_blocks wram_size b"

section \<open>Words and bits\<close>

lemma top_bit:
  fixes x :: u32
  assumes "x \<noteq> 0"
  obtains n where "n < 32" "bit x n" "\<And>k. n < k \<Longrightarrow> \<not> bit x k"
proof -
  let ?B = "{n. bit x n}"
  have fin: "finite ?B"
    by (rule finite_subset [of _ "{..<32}"]) (auto dest: bit_imp_le_length)
  have "?B \<noteq> {}"
    using assms by (auto simp: bit_eq_iff)
  then have m: "bit x (Max ?B)"
    using Max_in [OF fin] by blast
  show ?thesis
  proof (rule that [of "Max ?B"])
    show "Max ?B < 32"
      using bit_imp_le_length [OF m] by simp
    show "\<not> bit x k" if "Max ?B < k" for k
      using Max_ge [OF fin, of k] that by fastforce
  qed (rule m)
qed

lemma upt_split_at: "n < m \<Longrightarrow> [0..<m] = [0..<n] @ n # [Suc n..<m]"
  by (metis less_imp_le_nat upt_add_eq_append upt_conv_Cons le_add_diff_inverse zero_le)

lemma count_leading_zeros_top:
  assumes "n < 32" "bit x n" "\<And>k. n < k \<Longrightarrow> \<not> bit x k"
  shows "count_leading_zeros x = of_nat (31 - n)"
proof -
  have "rev [0..<32] = rev [Suc n..<32] @ n # rev [0..<n]"
    unfolding upt_split_at [OF assms(1)] by simp
  then have "takeWhile (\<lambda>i. \<not> bit x i) (rev [0..<32]) = rev [Suc n..<32]"
    using assms(2,3) by (simp add: takeWhile_append del: upt_Suc)
  then show ?thesis
    using assms(1) by (simp add: count_leading_zeros_def)
qed

lemma lsl_one: "lsl 1 (of_nat i) = 2 ^ (i mod 32)"
  by (simp add: lsl_def unat_of_nat mod_mod_cancel)

lemma lsl_of_nat: "lsl x (of_nat i) = push_bit (i mod 32) x"
  by (simp add: lsl_def unat_of_nat mod_mod_cancel)

lemma push_bit_exp: "push_bit k (2 ^ n) = (2 ^ (n + k) :: u32)"
  by (simp add: push_bit_eq_mult power_add)

lemma clz_single:
  assumes "n < 32"
  shows "count_leading_zeros (2 ^ n) = of_nat (31 - n)"
  using assms by (intro count_leading_zeros_top) (auto simp: bit_simps)

section \<open>Where the bits of the blocks are\<close>

definition node_word :: "node \<Rightarrow> nat" where
  "node_word n = (if fst n < 5 then 0 else 2 ^ (fst n - 5) + snd n div 32)"

definition node_bit :: "node \<Rightarrow> nat" where
  "node_bit n = (if fst n < 5 then snd n + (32 - 2 ^ Suc (fst n)) else snd n mod 32)"

lemma small_level: "(l :: nat) < 5 \<Longrightarrow> l = 0 \<or> l = 1 \<or> l = 2 \<or> l = 3 \<or> l = 4"
  by auto

lemma node_bit_less: "node_valid L n \<Longrightarrow> node_bit n < 32 \<and> (node_word n = 0 \<longrightarrow> node_bit n < 31)"
  using small_level [of "fst n"] by (cases "fst n < 5") (auto simp: node_valid_def node_bit_def node_word_def)

lemma large_node_word:
  assumes "node_valid L n" "5 \<le> fst n"
  shows "2 ^ (fst n - 5) \<le> node_word n" "node_word n < 2 ^ (fst n - 4)"
proof -
  have "snd n < 2 ^ (fst n - 5) * 32"
    using assms power_add [of "2 :: nat" "fst n - 5" 5] by (simp add: node_valid_def)
  then have "snd n div 32 < 2 ^ (fst n - 5)"
    by (rule less_mult_imp_div_less)
  moreover have "2 ^ (fst n - 4) = (2 :: nat) * 2 ^ (fst n - 5)"
    using assms(2) by (simp add: Suc_diff_le flip: power_Suc)
  ultimately show "2 ^ (fst n - 5) \<le> node_word n" "node_word n < 2 ^ (fst n - 4)"
    using assms(2) by (simp_all add: node_word_def)
qed

lemma large_node_level:
  assumes "node_valid L n" "node_valid L m" "5 \<le> fst n" "5 \<le> fst m" "node_word n = node_word m"
  shows "\<not> fst n < fst m"
proof
  assume "fst n < fst m"
  then have "(2 :: nat) ^ (fst n - 4) \<le> 2 ^ (fst m - 5)"
    by (intro power_increasing) auto
  then show False
    using large_node_word(2) [OF assms(1,3)] large_node_word(1) [OF assms(2,4)] assms(5) by linarith
qed

lemma node_place_inj:
  assumes "node_valid L n" "node_valid L m" "node_word n = node_word m" "node_bit n = node_bit m"
  shows "n = m"
proof (cases "fst n < 5")
  case True
  then have m: "fst m < 5"
    using assms(3) by (auto simp: node_word_def split: if_splits)
  show ?thesis
    using small_level [OF True] small_level [OF m] assms(1,2,4)
    by (cases n; cases m) (elim disjE; simp add: node_valid_def node_bit_def)
next
  case False
  then have m: "5 \<le> fst m"
    using assms(3) by (auto simp: node_word_def split: if_splits)
  have l: "fst n = fst m"
    using large_node_level [OF assms(1,2)] large_node_level [OF assms(2,1)] False m assms(3) by fastforce
  then have "snd n div 32 = snd m div 32" "snd n mod 32 = snd m mod 32"
    using assms(3,4) False by (simp_all add: node_word_def node_bit_def)
  then have "snd n = snd m"
    by (metis div_mult_mod_eq)
  with l show ?thesis
    by (simp add: prod_eq_iff)
qed

lemma node_word_less:
  assumes "node_valid L n" "6 \<le> L"
  shows "node_word n < 2 ^ (L - 5)"
proof (cases "fst n < 5")
  case False
  then have "node_word n < 2 ^ (fst n - 4)"
    using large_node_word [OF assms(1)] by simp
  also have "\<dots> \<le> 2 ^ (L - 5)"
    using assms(1) by (intro power_increasing) (auto simp: node_valid_def)
  finally show ?thesis .
qed (simp add: node_word_def)

lemma level_offset:
  assumes "l < 5"
  shows "32 - lsl 2 (of_nat l) = of_nat (32 - 2 ^ Suc l)"
  using small_level [OF assms] by (elim disjE) (simp_all add: lsl_def)

lemma level_shift:
  assumes "l < 5"
  shows "lsl (2 ^ n) (32 - lsl 2 (of_nat l)) = 2 ^ (n + (32 - 2 ^ Suc l))"
proof -
  have "(32 - 2 ^ Suc l) mod 32 = (32 - 2 ^ Suc l :: nat)"
    using small_level [OF assms] by auto
  then show ?thesis
    unfolding level_offset [OF assms] unfolding lsl_of_nat push_bit_exp by (simp only:)
qed

lemma level_sint:
  assumes "l < 28"
  shows "sint (of_nat l - 4 :: u32) = int l - 4"
proof -
  have "of_nat l - 4 = (word_of_int (int l - 4) :: u32)"
    by simp
  then have "sint (of_nat l - 4 :: u32) = signed_take_bit 31 (int l - 4)"
    by (simp only: signed_of_int) simp
  then show ?thesis
    using assms by (simp add: signed_take_bit_int_eq_self)
qed

lemma highlight_target_node:
  assumes "node_valid 28 (l, i)"
  shows "highlight_target (of_nat l) (of_nat i) = 2 ^ node_bit (l, i)"
proof (cases "l < 5")
  case True
  have i: "i < 2 ^ l" "2 ^ l \<le> (16 :: nat)"
    using assms small_level [OF True] by (auto simp: node_valid_def)
  show ?thesis
  proof (cases "l < 4")
    case True
    then have "sint (of_nat l - 4 :: u32) < 0"
      using level_sint [of l] by simp
    then show ?thesis
      using level_shift [of l i] True i by (simp add: highlight_target_def Let_def lsl_one node_bit_def)
  next
    case False
    then have "l = 4"
      using \<open>l < 5\<close> by simp
    then show ?thesis
      using i by (simp add: highlight_target_def Let_def lsl_one node_bit_def)
  qed
next
  case False
  then have "\<not> sint (of_nat l - 4 :: u32) < 0"
    using level_sint [of l] assms by (simp add: node_valid_def)
  then show ?thesis
    using False by (simp add: highlight_target_def Let_def lsl_one node_bit_def)
qed

lemma unat_node:
  assumes "node_valid 28 (l, i)"
  shows "unat (of_nat i :: u32) = i" "unat (of_nat l :: u32) = l"
proof -
  have "2 ^ l \<le> (2 ^ 27 :: nat)"
    using assms by (intro power_increasing) (auto simp: node_valid_def)
  then show "unat (of_nat i :: u32) = i" "unat (of_nat l :: u32) = l"
    using assms by (simp_all add: unat_of_nat node_valid_def)
qed

lemma drop_bit_small:
  assumes "unat (of_nat i :: u32) = i"
  shows "drop_bit k (of_nat i :: u32) = of_nat (i div 2 ^ k)"
proof (rule bit_word_eqI)
  fix j
  assume "j < LENGTH(32)"
  have "bit i m \<Longrightarrow> m < 32" for m
    using bit_unsigned_iff [where 'a = nat, of "of_nat i :: u32" m] unfolding assms
    by (auto dest: bit_imp_le_length)
  then show "bit (drop_bit k (of_nat i :: u32)) j = bit (of_nat (i div 2 ^ k) :: u32) j"
    using \<open>j < LENGTH(32)\<close> by (auto simp: bit_simps simp flip: drop_bit_eq_div)
qed

lemma block_real_index_node:
  assumes "node_valid 28 (l, i)"
  shows "block_real_index (of_nat l) (of_nat i) = of_nat (node_word (l, i))"
proof -
  have l: "l < 28" and i: "i < 2 ^ l"
    using assms by (simp_all add: node_valid_def)
  have d: "drop_bit 5 (of_nat i :: u32) = of_nat (i div 32)"
    using drop_bit_small [OF unat_node(1) [OF assms], of 5] by simp
  show ?thesis
  proof (cases "l < 5")
    case False
    have "sint (of_nat l - 4 :: u32) - 1 = int (l - 5)"
      using False level_sint [OF l] by simp
    moreover have "lsl 1 (of_int (int (l - 5))) = (2 ^ (l - 5) :: u32)"
      using lsl_one [of "l - 5"] l by simp
    ultimately show ?thesis
      using False d unfolding block_real_index_def Let_def by (simp only:) (simp add: node_word_def)
  qed (use level_sint [OF l] in \<open>simp add: block_real_index_def Let_def node_word_def\<close>)
qed

lemma buddy_bit_flip:
  assumes "m < 32"
  shows "(if count_leading_zeros (2 ^ m) AND 1 = 0 then drop_bit 1 (2 ^ m) else push_bit 1 (2 ^ m))
    = (2 ^ flip_index m :: u32)"
proof -
  have "(of_nat (31 - m) :: u32) AND 1 = of_bool (odd (31 - m))"
    by (simp add: and_one_eq mod_2_eq_odd)
  then have "count_leading_zeros (2 ^ m) AND 1 = 0 \<longleftrightarrow> odd m"
    using clz_single [OF assms] assms by auto
  moreover have "drop_bit 1 (2 ^ m) = (2 ^ (m - 1) :: u32)" if "odd m"
    using that by (intro bit_word_eqI) (auto simp: bit_simps elim!: oddE)
  ultimately show ?thesis
    by (simp add: flip_index_def push_bit_exp)
qed

lemma flip_index_mod:
  shows "flip_index i mod 32 = flip_index (i mod 32)" "flip_index i div 32 = i div 32"
proof -
  have f: "flip_index (32 * q + r) = 32 * q + flip_index r" for q r
    by (auto simp: flip_index_def elim!: oddE)
  have "flip_index i = 32 * (i div 32) + flip_index (i mod 32)"
    using f [of "i div 32" "i mod 32"] by simp
  moreover have "flip_index r < 32" if "r < 32" for r
    using that unfolding flip_index_def by presburger
  ultimately show "flip_index i mod 32 = flip_index (i mod 32)" "flip_index i div 32 = i div 32"
    by simp_all
qed

lemma node_word_flip [simp]: "node_word (l, flip_index i) = node_word (l, i)"
  by (simp add: node_word_def flip_index_mod)

lemma highlight_buddy_node:
  assumes "node_valid 28 (l, i)"
  shows "highlight_buddy (of_nat l) (of_nat i) = 2 ^ node_bit (l, flip_index i)"
proof -
  have m: "i mod 32 < 32"
    by simp
  have h: "highlight_buddy (of_nat l) (of_nat i)
      = (if sint (of_nat l - 4 :: u32) < 0 then lsl (2 ^ flip_index (i mod 32)) (32 - lsl 2 (of_nat l))
         else 2 ^ flip_index (i mod 32))"
    unfolding highlight_buddy_def Let_def lsl_one buddy_bit_flip [OF m] ..
  have s: "sint (of_nat l - 4 :: u32) < 0 \<longleftrightarrow> l < 4"
    using level_sint [of l] assms by (simp add: node_valid_def)
  have i: "i mod 32 = i" if "l < 5"
    using small_level [OF that] assms by (auto simp: node_valid_def)
  show ?thesis
  proof (cases "l < 5")
    case True
    then show ?thesis
      unfolding h s level_shift [OF True] i [OF True] using small_level [OF True] by (auto simp: node_bit_def)
  next
    case False
    then show ?thesis
      unfolding h s by (simp add: node_bit_def flip_index_mod)
  qed
qed

section \<open>The array of bits\<close>

text \<open>
  The heap of a DPU after \<^verbatim>\<open>buddy_init\<close>, for \<open>L\<close> levels: \<open>2 ^ (L - 5)\<close> words of bits and \<open>2 ^ (L + 3)\<close> bytes of blocks, inside
  WRAM. The smallest heap for which the blocks are aligned on 8 bytes has six levels.
\<close>

definition buddy_ok :: "nat \<Rightarrow> nat \<Rightarrow> buddy \<Rightarrow> bool" where
  "buddy_ok W L b \<longleftrightarrow> 6 \<le> L \<and> L \<le> 28 \<and> unat (BUDDY_NUMBER_OF_LEVELS b) = L \<and> unat (BUDDY_MAX_POWER b) = L + 3
     \<and> unat (BUDDY_SIZE_OF_HEAP b) = 2 ^ (L + 3) \<and> unat (buddy_blocks b) mod 8 = 0
     \<and> unat (buddy_heap_start b) = unat (buddy_blocks b) + 4 * 2 ^ (L - 5)
     \<and> unat (buddy_heap_start b) + 2 ^ (L + 3) \<le> W \<and> W < 2 ^ 32
     \<and> \<not> bit (words (buddy_wram b) (buddy_blocks b)) 31"

definition block_word :: "buddy \<Rightarrow> nat \<Rightarrow> u32" where
  "block_word b k = words (buddy_wram b) (buddy_blocks b + 4 * of_nat k)"

definition set_block_word :: "nat \<Rightarrow> u32 \<Rightarrow> buddy \<Rightarrow> buddy" where
  "set_block_word k v b = b\<lparr>buddy_wram := (buddy_wram b)\<lparr>words :=
     (words (buddy_wram b))(buddy_blocks b + 4 * of_nat k := v)\<rparr>\<rparr>"

lemma block_address:
  assumes "buddy_ok W L b" "k < 2 ^ (L - 5)"
  shows "unat (buddy_blocks b + 4 * of_nat k) = unat (buddy_blocks b) + 4 * k"
    and "word_ok W (buddy_blocks b + 4 * of_nat k)"
proof -
  have le: "unat (buddy_blocks b) + 4 * k + 4 \<le> W" and W: "W < 2 ^ 32" and al: "unat (buddy_blocks b) mod 8 = 0"
    using assms by (auto simp: buddy_ok_def)
  have "buddy_blocks b + 4 * of_nat k = of_nat (unat (buddy_blocks b) + 4 * k)"
    by simp
  then show u: "unat (buddy_blocks b + 4 * of_nat k) = unat (buddy_blocks b) + 4 * k"
    using le W by (simp only: unat_of_nat) simp
  have "(unat (buddy_blocks b) + 4 * k) mod 4 = 0"
    using al by presburger
  then show "word_ok W (buddy_blocks b + 4 * of_nat k)"
    using le u by (simp add: word_ok_def)
qed

lemma get_block_word:
  assumes "buddy_ok W L b" "k < 2 ^ (L - 5)"
  shows "get_block W (of_nat k) b = Inr (block_word b k)"
  using block_address(2) [OF assms] by (simp add: get_block_def load_def block_word_def)

lemma put_block_word:
  assumes "buddy_ok W L b" "k < 2 ^ (L - 5)"
  shows "put_block W (of_nat k) v b = Inr (set_block_word k v b)"
  using block_address(2) [OF assms] by (simp add: put_block_def store_def set_block_word_def)

lemma block_word_set:
  assumes "buddy_ok W L b" "k < 2 ^ (L - 5)" "j < 2 ^ (L - 5)"
  shows "block_word (set_block_word k v b) j = (if j = k then v else block_word b j)"
proof -
  have "buddy_blocks b + 4 * of_nat j = buddy_blocks b + 4 * of_nat k \<longleftrightarrow> j = k"
    using block_address(1) [OF assms(1,2)] block_address(1) [OF assms(1,3)] by (metis add_left_cancel mult_cancel1 zero_neq_numeral)
  then show ?thesis
    by (simp add: block_word_def set_block_word_def)
qed

lemma buddy_ok_set:
  assumes "buddy_ok W L b" "k < 2 ^ (L - 5)" "k = 0 \<longrightarrow> \<not> bit v 31"
  shows "buddy_ok W L (set_block_word k v b)"
proof -
  have "block_word (set_block_word k v b) 0 = (if 0 = k then v else block_word b 0)"
    using assms by (intro block_word_set) (auto simp: buddy_ok_def)
  then show ?thesis
    using assms(1,3) by (auto simp: buddy_ok_def block_word_def set_block_word_def)
qed

text \<open>The bit of a block.\<close>

definition block_free :: "node \<Rightarrow> buddy \<Rightarrow> bool" where
  "block_free n b = bit (block_word b (node_word n)) (node_bit n)"

definition set_block_free :: "node \<Rightarrow> bool \<Rightarrow> buddy \<Rightarrow> buddy" where
  "set_block_free n v b =
     set_block_word (node_word n)
       (if v then block_word b (node_word n) OR 2 ^ node_bit n
        else block_word b (node_word n) AND NOT (2 ^ node_bit n)) b"

text \<open>Nothing but words of the array and \<^verbatim>\<open>errno\<close> differ.\<close>

definition same_heap :: "nat \<Rightarrow> buddy \<Rightarrow> buddy \<Rightarrow> bool" where
  "same_heap L b b' \<longleftrightarrow> heap_pointer (buddy_wram b') = heap_pointer (buddy_wram b)
     \<and> buddy_init_done b' = buddy_init_done b \<and> buddy_blocks b' = buddy_blocks b \<and> buddy_heap_start b' = buddy_heap_start b
     \<and> BUDDY_SIZE_OF_HEAP b' = BUDDY_SIZE_OF_HEAP b \<and> BUDDY_MAX_POWER b' = BUDDY_MAX_POWER b
     \<and> BUDDY_NUMBER_OF_LEVELS b' = BUDDY_NUMBER_OF_LEVELS b
     \<and> (\<forall>a. a \<notin> (\<lambda>k. buddy_blocks b + 4 * of_nat k) ` {..<2 ^ (L - 5)} \<longrightarrow> words (buddy_wram b') a = words (buddy_wram b) a)"

lemma same_heap_trans: "same_heap L b b' \<Longrightarrow> same_heap L b' b'' \<Longrightarrow> same_heap L b b''"
  unfolding same_heap_def by simp

interpretation bb: node_bits L "buddy_ok W L" block_free set_block_free "same_heap L" for W L
proof unfold_locales
  show "same_heap L b b" for b
    by (simp add: same_heap_def)
  show "same_heap L b b''" if "same_heap L b b'" "same_heap L b' b''" for b b' b''
    using that by (rule same_heap_trans)
next
  fix b n and v :: bool
  assume b: "buddy_ok W L b" and n: "node_valid L n"
  have L: "6 \<le> L"
    using b by (simp add: buddy_ok_def)
  have place: "node_bit n < 32 \<and> (node_word n = 0 \<longrightarrow> node_bit n < 31)"
    by (rule node_bit_less [OF n])
  have "\<not> bit (block_word b 0) 31"
    using b by (simp add: buddy_ok_def block_word_def)
  then show "buddy_ok W L (set_block_free n v b)"
    unfolding set_block_free_def using place node_word_less [OF n L]
    by (intro buddy_ok_set [OF b]) (auto simp: bit_simps)
  show "same_heap L b (set_block_free n v b)"
    using node_word_less [OF n L] by (simp add: same_heap_def set_block_free_def set_block_word_def)
  fix m
  assume m: "node_valid L m"
  have w: "block_word (set_block_free n v b) (node_word m) =
      (if node_word m = node_word n
       then if v then block_word b (node_word n) OR 2 ^ node_bit n
            else block_word b (node_word n) AND NOT (2 ^ node_bit n)
       else block_word b (node_word m))"
    unfolding set_block_free_def
    by (intro block_word_set [OF b] node_word_less [OF n L] node_word_less [OF m L])
  show "block_free m (set_block_free n v b) = (if m = n then v else block_free m b)"
    unfolding block_free_def w using place node_bit_less [OF m] node_place_inj [OF n m] by (auto simp: bit_simps)
qed

text \<open>How the code reads and writes these bits.\<close>

lemma and_exp_zero: "x AND 2 ^ n = (0 :: u32) \<longleftrightarrow> \<not> bit x n"
  by (rule and_exp_eq_0_iff_not_bit)

lemma minus_exp: "bit x n \<Longrightarrow> x - 2 ^ n = x AND NOT (2 ^ n :: u32)"
proof -
  assume "bit x n"
  then have "x = (x AND NOT (2 ^ n)) OR 2 ^ n"
    by (intro bit_word_eqI) (auto simp: bit_simps)
  also have "\<dots> = (x AND NOT (2 ^ n)) + 2 ^ n"
    by (intro disjunctive_add_eq_or [symmetric] bit_word_eqI) (simp add: bit_simps)
  finally show ?thesis
    by (metis add_diff_cancel_right')
qed

lemma mark_block:
  assumes "buddy_ok W L b" "node_valid L n" "block_free n b"
  shows "put_block W (of_nat (node_word n)) (block_word b (node_word n) - 2 ^ node_bit n) b
    = Inr (set_block_free n False b)"
proof -
  have "6 \<le> L"
    using assms(1) by (simp add: buddy_ok_def)
  then show ?thesis
    using put_block_word [OF assms(1) node_word_less [OF assms(2)]] assms(3)
    by (simp add: set_block_free_def block_free_def minus_exp)
qed

lemma node_valid_28: "buddy_ok W L b \<Longrightarrow> node_valid L n \<Longrightarrow> node_valid 28 n"
  by (auto simp: buddy_ok_def node_valid_def)

lemmas node_code = highlight_target_node [OF node_valid_28] highlight_buddy_node [OF node_valid_28]
  block_real_index_node [OF node_valid_28]

lemma read_node:
  assumes "buddy_ok W L b" "node_valid L n"
  shows "get_block W (of_nat (node_word n)) b = Inr (block_word b (node_word n))"
  using assms by (intro get_block_word node_word_less) (auto simp: buddy_ok_def)

lemma bit_node:
  shows "bit (block_word b (node_word (l, i))) (node_bit (l, i)) = block_free (l, i) b"
    and "bit (block_word b (node_word (l, i))) (node_bit (l, flip_index i)) = block_free (l, flip_index i) b"
  by (simp_all add: block_free_def)

section \<open>The loops on the tree\<close>

lemma cut_blocks_tree:
  assumes "buddy_ok W L b" "node_valid L (l, i)" "l + n < L"
    and "\<And>s. s \<in> {1..n} \<Longrightarrow> block_free (l + s, i * 2 ^ s) b"
  shows "cut_blocks W n (Suc l) (of_nat i) b = Inr (of_nat (i * 2 ^ n), bb.cut n (l, i) b)"
  using assms
proof (induction n arbitrary: l i b)
  case (Suc n)
  let ?m = "(Suc l, 2 * i)"
  have v: "node_valid L ?m"
    using node_valid_path [OF Suc.prems(2), of 1] Suc.prems(3) by (simp add: mult.commute)
  have f: "block_free ?m b"
    using Suc.prems(4) [of 1] by (simp add: mult.commute)
  have i: "push_bit 1 (of_nat i) = (of_nat (2 * i) :: u32)"
    by (simp add: push_bit_eq_mult mult.commute)
  have ok: "buddy_ok W L (set_block_free ?m False b)"
    by (rule bb.put_ok [OF Suc.prems(1) v])
  have fr: "block_free (Suc l + s, 2 * i * 2 ^ s) (set_block_free ?m False b)" if "s \<in> {1..n}" for s
  proof -
    have "node_valid L (Suc l + s, 2 * i * 2 ^ s)"
      using node_valid_path [OF v, of s] that Suc.prems(3) by simp
    then show ?thesis
      using bb.get_put [OF Suc.prems(1) v] Suc.prems(4) [of "Suc s"] that by (simp add: mult.assoc mult.commute mult.left_commute)
  qed
  have "cut_blocks W n (Suc (Suc l)) (of_nat (2 * i)) (set_block_free ?m False b)
      = Inr (of_nat (2 * i * 2 ^ n), bb.cut n ?m (set_block_free ?m False b))"
    using Suc.prems(3) by (intro Suc.IH [OF ok v _ fr]) simp_all
  moreover have "cut_blocks W (Suc n) (Suc l) (of_nat i) b
      = cut_blocks W n (Suc (Suc l)) (of_nat (2 * i)) (set_block_free ?m False b)"
    unfolding cut_blocks.simps Let_def i node_code [OF Suc.prems(1) v] read_node [OF Suc.prems(1) v] andThen_simps
      mark_block [OF Suc.prems(1) v f] ..
  ultimately show ?case
    by (simp add: mult.assoc mult.left_commute [of 2])
qed simp

lemma search_pointer_tree:
  assumes "buddy_ok W L b" "node_valid L (l, i)"
  shows "search_pointer W (of_nat l) (of_nat i) b =
    (case bb.find_block l i b of
       None \<Rightarrow> Inr (None, b\<lparr>errno := EINVAL\<rparr>)
     | Some (l', i') \<Rightarrow> Inr (Some (of_nat i', \<lparr>target_level = of_nat l', real_index = of_nat (node_word (l', i')),
         highlight_target_bit = 2 ^ node_bit (l', i'), highlight_buddy_bit = 2 ^ node_bit (l', flip_index i')\<rparr>), b))"
  using assms(2)
proof (induction l arbitrary: i)
  case 0
  show ?case
    by (subst search_pointer.simps, unfold Let_def node_code [OF assms(1) 0])
      (simp add: read_node [OF assms(1) 0])
next
  case (Suc l)
  have nz: "of_nat (Suc l) \<noteq> (0 :: u32)" and h: "drop_bit 1 (of_nat i) = (of_nat (i div 2) :: u32)"
    using unat_node [OF node_valid_28 [OF assms(1) Suc.prems]] drop_bit_small [of i 1] by force+
  show ?case
    unfolding search_pointer.simps [of W "of_nat (Suc l)"] Let_def node_code [OF assms(1) Suc.prems]
    using Suc.IH [OF node_valid_parent [OF Suc.prems]] nz
    by (simp add: read_node [OF assms(1) Suc.prems] and_exp_zero h [unfolded One_nat_def] bit_node)
qed

lemma release_block:
  assumes "buddy_ok W L b" "node_valid L n"
  shows "block_word (set_block_free n True b) (node_word n) = block_word b (node_word n) OR 2 ^ node_bit n"
    and "put_block W (of_nat (node_word n)) (block_word b (node_word n) OR 2 ^ node_bit n) b = Inr (set_block_free n True b)"
proof -
  have word: "node_word n < 2 ^ (L - 5)"
    using assms(1) by (intro node_word_less [OF assms(2)]) (simp add: buddy_ok_def)
  show "block_word (set_block_free n True b) (node_word n) = block_word b (node_word n) OR 2 ^ node_bit n"
    unfolding set_block_free_def using block_word_set [OF assms(1) word word] by simp
  show "put_block W (of_nat (node_word n)) (block_word b (node_word n) OR 2 ^ node_bit n) b = Inr (set_block_free n True b)"
    using put_block_word [OF assms(1) word] by (simp add: set_block_free_def)
qed

lemma fuse_blocks_tree:
  assumes "buddy_ok W L b" "node_valid L (l, i)"
  shows "fuse_blocks W (of_nat l) (of_nat i) (block_word b (node_word (l, i))) (2 ^ node_bit (l, i)) (2 ^ node_bit (l, flip_index i)) b
    = Inr (bb.fuse l i b)"
  using assms
proof (induction l arbitrary: i b)
  case 0
  then show ?case
    by (simp add: fuse_blocks.simps)
next
  case (Suc l)
  let ?p = "(l, i div 2)"
  have v: "node_valid L ?p" and ok: "buddy_ok W L (set_block_free ?p True b)"
    using node_valid_parent [OF Suc.prems(2)] bb.put_ok [OF Suc.prems(1)] by simp_all
  have nz: "of_nat (Suc l) > (0 :: u32)" and h: "drop_bit 1 (of_nat i) = (of_nat (i div 2) :: u32)"
    using unat_node [OF node_valid_28 [OF Suc.prems]] drop_bit_small [of i 1] by (force simp: word_neq_0_conv [symmetric])+
  note w = release_block(1) [OF Suc.prems(1) v] and p = release_block(2) [OF Suc.prems(1) v]
  show ?case
    unfolding fuse_blocks.simps [of W "of_nat (Suc l)"] Let_def
    using Suc.IH [OF ok v] nz
    by (simp add: h [unfolded One_nat_def] node_code [OF Suc.prems(1) v] read_node [OF Suc.prems(1) v] p w and_exp_zero bit_node)
qed

section \<open>The search for a free block\<close>

lemma odd_bits: "bit (0xAAAAAAAA :: u32) n \<longleftrightarrow> n < 32 \<and> odd n"
proof -
  have "\<forall>n \<in> set [0..<32]. bit (0xAAAAAAAA :: u32) n = odd n"
    by code_simp
  then have "n < 32 \<Longrightarrow> bit (0xAAAAAAAA :: u32) n = odd n"
    by simp
  moreover have "n < 32" if "bit (0xAAAAAAAA :: u32) n"
    using bit_imp_le_length [OF that] by simp
  ultimately show ?thesis
    by metis
qed

lemma pair_bits:
  "bit ((push_bit 1 x XOR x) AND 0xAAAAAAAA) n \<longleftrightarrow> n < 32 \<and> odd n \<and> bit (x :: u32) n \<noteq> bit x (n - 1)"
  unfolding bit_and_iff odd_bits bit_xor_iff bit_push_bit_iff by (auto elim!: oddE)

lemma loaded_case_mask_bits:
  "bit (loaded_case_mask l) n \<longleftrightarrow> n < 32 \<and> (l < 5 \<longrightarrow> 32 - 2 ^ Suc l \<le> n \<and> n < 32 - 2 ^ l)"
proof -
  have "\<forall>n \<in> set [0..<32]. \<forall>l \<in> set [0..<6]. bit (loaded_case_mask l) n \<longleftrightarrow> (l < 5 \<longrightarrow> 32 - 2 ^ Suc l \<le> n \<and> n < 32 - 2 ^ l)"
    by code_simp
  then have "bit (loaded_case_mask (min l 5)) n \<longleftrightarrow> (l < 5 \<longrightarrow> 32 - 2 ^ Suc l \<le> n \<and> n < 32 - 2 ^ l)" if "n < 32"
    using that by (cases "l < 5") (auto simp: min_def)
  moreover have "loaded_case_mask (min l 5) = loaded_case_mask l"
    by (auto simp: loaded_case_mask_def min_def)
  moreover have "n < 32" if "bit (loaded_case_mask l) n"
    using bit_imp_le_length [OF that] by simp
  ultimately show ?thesis
    by metis
qed

text \<open>The block of the bit \<open>n\<close> of the word \<open>k\<close> of a level.\<close>

definition word_index :: "nat \<Rightarrow> nat \<Rightarrow> nat \<Rightarrow> nat" where
  "word_index l k n = (if l < 5 then n - (32 - 2 ^ Suc l) else 32 * k + n)"

definition level_words :: "nat \<Rightarrow> nat" where
  "level_words l = (if l < 5 then 1 else 2 ^ (l - 5))"

lemma level_bits:
  assumes "k < level_words l" "bit (loaded_case_mask l) n"
  shows "word_index l k n < 2 ^ l" "node_word (l, word_index l k n) = 2 ^ l div 32 + k" "node_bit (l, word_index l k n) = n"
proof -
  have n: "n < 32" "l < 5 \<longrightarrow> 32 - 2 ^ Suc l \<le> n \<and> n < 32 - 2 ^ l"
    using assms(2) by (simp_all add: loaded_case_mask_bits)
  have "word_index l k n < 2 ^ l \<and> node_word (l, word_index l k n) = 2 ^ l div 32 + k \<and> node_bit (l, word_index l k n) = n"
  proof (cases "l < 5")
    case True
    then show ?thesis
      using n assms(1) small_level [OF True] by (auto simp: word_index_def node_word_def node_bit_def level_words_def)
  next
    case False
    then have p: "(2 :: nat) ^ l = 32 * 2 ^ (l - 5)"
      using power_add [of "2 :: nat" 5 "l - 5"] by simp
    have "k < 2 ^ (l - 5)"
      using assms(1) False by (simp add: level_words_def)
    then have "32 * k + n < 2 ^ l"
      using n(1) unfolding p by linarith
    then show ?thesis
      using False n(1) p by (simp add: word_index_def node_word_def node_bit_def)
  qed
  then show "word_index l k n < 2 ^ l" "node_word (l, word_index l k n) = 2 ^ l div 32 + k" "node_bit (l, word_index l k n) = n"
    by simp_all
qed

text \<open>Every block has a bit in a word of its level.\<close>

lemma level_bits_onto:
  assumes "i < 2 ^ l"
  obtains k n where "k < level_words l" "bit (loaded_case_mask l) n" "i = word_index l k n"
proof (cases "l < 5")
  case True
  then show ?thesis
    using assms small_level [OF True] that [of 0 "i + (32 - 2 ^ Suc l)"]
    by (auto simp: level_words_def word_index_def loaded_case_mask_bits)
next
  case False
  then have "i < 2 ^ (l - 5) * 32"
    using assms power_add [of "2 :: nat" "l - 5" 5] by simp
  then have "i div 32 < 2 ^ (l - 5)"
    by (rule less_mult_imp_div_less)
  then show ?thesis
    using False that [of "i div 32" "i mod 32"] by (simp add: level_words_def word_index_def loaded_case_mask_bits)
qed

text \<open>The bits of a pair are those of a block and its buddy.\<close>

lemma level_bits_flip:
  assumes "bit (loaded_case_mask (Suc l)) n"
  shows "bit (loaded_case_mask (Suc l)) (flip_index n)"
    and "word_index (Suc l) k (flip_index n) = flip_index (word_index (Suc l) k n)"
proof -
  have "\<forall>n \<in> set [0..<32]. \<forall>l \<in> set [0..<5]. bit (loaded_case_mask (Suc l)) n \<longrightarrow>
      bit (loaded_case_mask (Suc l)) (flip_index n) \<and> word_index (Suc l) 0 (flip_index n) = flip_index (word_index (Suc l) 0 n)"
    by code_simp
  note small = this
  have n: "n < 32"
    using assms by (simp add: loaded_case_mask_bits)
  have f: "flip_index (32 * k + n) = 32 * k + flip_index n"
    by (auto simp: flip_index_def elim!: oddE)
  have g: "flip_index n < 32"
    using n unfolding flip_index_def by presburger
  have "bit (loaded_case_mask (Suc l)) (flip_index n)
      \<and> word_index (Suc l) k (flip_index n) = flip_index (word_index (Suc l) k n)"
  proof (cases "l < 5")
    case True
    then have "bit (loaded_case_mask (Suc l)) (flip_index n) \<and> (Suc l < 5 \<longrightarrow>
        word_index (Suc l) 0 (flip_index n) = flip_index (word_index (Suc l) 0 n))"
      using small [rule_format, of n l] assms n by simp
    then show ?thesis
      using f by (auto simp: word_index_def)
  next
    case False
    then show ?thesis
      using f g by (simp add: word_index_def loaded_case_mask_bits)
  qed
  then show "bit (loaded_case_mask (Suc l)) (flip_index n)"
    and "word_index (Suc l) k (flip_index n) = flip_index (word_index (Suc l) k n)"
    by simp_all
qed

text \<open>What the code reads of a word: the bits of the blocks of the level.\<close>

abbreviation (input) level_case :: "buddy \<Rightarrow> nat \<Rightarrow> nat \<Rightarrow> u32" where
  "level_case b l k \<equiv> block_word b (2 ^ l div 32 + k) AND loaded_case_mask l"

lemma level_case_bit:
  assumes "k < level_words l"
  shows "bit (level_case b l k) n \<longleftrightarrow> bit (loaded_case_mask l) n \<and> block_free (l, word_index l k n) b"
  using level_bits [OF assms, of n] by (auto simp: bit_and_iff block_free_def)

lemma no_pair_in_word:
  assumes "k < level_words l" "(push_bit 1 (level_case b l k) XOR level_case b l k) AND 0xAAAAAAAA = 0"
    and "bit (loaded_case_mask l) n"
  shows "l = 0 \<Longrightarrow> \<not> block_free (0, 0) b"
    and "l \<noteq> 0 \<Longrightarrow> block_free (l, word_index l k n) b = block_free (l, flip_index (word_index l k n)) b"
proof -
  let ?c = "level_case b l k"
  have p: "bit ?c m = bit ?c (m - 1)" if "m < 32" "odd m" for m
    using pair_bits [of ?c m] that assms(2) by simp
  have q: "bit ?c m = bit ?c (flip_index m)" if "m < 32" for m
    using that p [of m] p [of "m + 1"] by (cases "even m") (auto simp: flip_index_def elim!: evenE)
  show "\<not> block_free (0, 0) b" if "l = 0"
    using level_case_bit [OF assms(1), of b 30] level_case_bit [OF assms(1), of b 31] q [of 30] that
    by (auto simp: loaded_case_mask_bits word_index_def flip_index_def)
  show "block_free (l, word_index l k n) b = block_free (l, flip_index (word_index l k n)) b" if "l \<noteq> 0"
  proof -
    obtain m where m: "l = Suc m"
      using \<open>l \<noteq> 0\<close> by (cases l) auto
    have "n < 32"
      using assms(3) by (simp add: loaded_case_mask_bits)
    then show ?thesis
      using q [of n] level_case_bit [OF assms(1), of b] assms(3) level_bits_flip(1) [of m n] level_bits_flip(2) [of m n k] unfolding m by simp
  qed
qed

lemma pair_in_word:
  assumes k: "k < level_words l" and t: "(push_bit 1 (level_case b l k) XOR level_case b l k) AND 0xAAAAAAAA \<noteq> 0"
  obtains n m where "n < 32" "odd n" "32 - 2 ^ Suc l \<le> n \<or> 5 \<le> l"
    "count_leading_zeros ((push_bit 1 (level_case b l k) XOR level_case b l k) AND 0xAAAAAAAA) = of_nat (31 - n)"
    "m = (if bit (level_case b l k) n then n else n - 1)" "bit (loaded_case_mask l) m"
    "block_free (l, word_index l k m) b" "l = 0 \<or> \<not> block_free (l, flip_index (word_index l k m)) b"
proof -
  let ?c = "level_case b l k" and ?t = "(push_bit 1 (level_case b l k) XOR level_case b l k) AND 0xAAAAAAAA"
  obtain n where n: "n < 32" "bit ?t n" "\<And>j. n < j \<Longrightarrow> \<not> bit ?t j"
    using top_bit [OF t] by blast
  have o: "odd n" "bit ?c n \<noteq> bit ?c (n - 1)"
    using n(2) unfolding pair_bits by simp_all
  define m where "m = (if bit ?c n then n else n - 1)"
  have bm: "bit ?c m" "\<not> bit ?c (flip_index m)"
    using o by (auto simp: m_def flip_index_def)
  then have mm: "bit (loaded_case_mask l) m" "block_free (l, word_index l k m) b"
    using level_case_bit [OF k] by blast+
  have buddy: "l = 0 \<or> \<not> block_free (l, flip_index (word_index l k m)) b"
  proof (cases l)
    case (Suc j)
    then show ?thesis
      using bm(2) level_case_bit [OF k, of b "flip_index m"] level_bits_flip(1) [of j m] level_bits_flip(2) [of j m k] mm(1) by auto
  qed simp
  have "32 - 2 ^ Suc l \<le> m \<or> 5 \<le> l"
    using mm(1) by (auto simp: loaded_case_mask_bits)
  then have "32 - 2 ^ Suc l \<le> n \<or> 5 \<le> l"
    by (auto simp: m_def split: if_splits)
  then show ?thesis
    using that [OF n(1) o(1) _ count_leading_zeros_top [OF n] m_def mm buddy] by blast
qed

text \<open>The index that the code computes for the first pair, and the bit it marks.\<close>

lemma pair_index:
  assumes "k < level_words l" "l < 28" "n < 32" "32 - 2 ^ Suc l \<le> n \<or> 5 \<le> l"
  defines "start \<equiv> (if l < 5 then 2 ^ l else 32 * Suc k)"
  defines "index \<equiv> (of_nat start - of_nat (31 - n) - 1 :: u32)"
  shows "(if l < 5 then index + lsl 1 (of_nat l) else index) = of_nat (word_index l k n)"
    and "(if l < 4 then lsl (lsl 1 (of_nat (word_index l k n))) (32 - lsl 2 (of_nat l)) else lsl 1 (of_nat (word_index l k n))) = 2 ^ n"
proof -
  have d: "of_nat (31 - n) = (31 - of_nat n :: u32)"
    using assms(3) by (simp add: of_nat_diff)
  show "(if l < 5 then index + lsl 1 (of_nat l) else index) = of_nat (word_index l k n)"
  proof (cases "l < 5")
    case True
    then have "2 ^ Suc l \<le> (32 :: nat)" "32 - 2 ^ Suc l \<le> n"
      using small_level [OF True] assms(4) by auto
    then have "of_nat (n - (32 - 2 ^ Suc l)) = (of_nat n - 32 + 2 ^ Suc l :: u32)"
      by (simp add: of_nat_diff)
    then show ?thesis
      using True by (simp add: index_def start_def word_index_def d lsl_one algebra_simps)
  qed (simp add: index_def start_def word_index_def d algebra_simps)
  show "(if l < 4 then lsl (lsl 1 (of_nat (word_index l k n))) (32 - lsl 2 (of_nat l)) else lsl 1 (of_nat (word_index l k n))) = 2 ^ n"
  proof (cases "l < 5")
    case True
    then have s: "word_index l k n mod 32 = n - (32 - 2 ^ Suc l)" "32 - 2 ^ Suc l \<le> n"
      using assms(3,4) by (auto simp: word_index_def)
    show ?thesis
      unfolding lsl_one s(1) level_shift [OF True] using s(2) small_level [OF True] by auto
  next
    case False
    then show ?thesis
      unfolding lsl_one using assms(3) by (simp add: word_index_def)
  qed
qed

lemma lsl_level:
  assumes "l < 28"
  shows "lsl 1 (of_nat l) = (of_nat (2 ^ l) :: u32)" "drop_bit 5 (lsl 1 (of_nat l)) = (of_nat (2 ^ l div 32) :: u32)"
proof -
  show e: "lsl 1 (of_nat l) = (of_nat (2 ^ l) :: u32)"
    using assms by (simp add: lsl_one)
  have "2 ^ l \<le> (2 ^ 27 :: nat)"
    using assms by (intro power_increasing) auto
  then have "unat (of_nat (2 ^ l) :: u32) = 2 ^ l"
    by (simp add: unat_of_nat del: of_nat_power)
  then show "drop_bit 5 (lsl 1 (of_nat l)) = (of_nat (2 ^ l div 32) :: u32)"
    unfolding e by (subst drop_bit_small) simp_all
qed

lemma level_word_less:
  assumes "k < level_words l" "l < L" "6 \<le> L"
  shows "2 ^ l div 32 + k < (2 :: nat) ^ (L - 5)"
proof (cases "l < 5")
  case True
  then show ?thesis
    using assms small_level [OF True] by (auto simp: level_words_def)
next
  case False
  then have "2 ^ l div 32 + k < (2 :: nat) ^ Suc (l - 5)"
    using assms(1) power_add [of "2 :: nat" 5 "l - 5"] by (simp add: level_words_def)
  also have "\<dots> \<le> 2 ^ (L - 5)"
    using False assms(2) by (intro power_increasing) auto
  finally show ?thesis .
qed

text \<open>What the code makes of a word with a pair.\<close>

lemma search_bitfields_found:
  assumes k: "k < level_words l" and l: "l < 28" and rd: "get_block W (of_nat k + drop_bit 5 (lsl 1 (of_nat l))) b = Inr x"
    and x: "x = block_word b (2 ^ l div 32 + k)"
    and t: "(push_bit 1 (level_case b l k) XOR level_case b l k) AND 0xAAAAAAAA \<noteq> 0"
    and n: "n < 32" "odd n" "32 - 2 ^ Suc l \<le> n \<or> 5 \<le> l"
      "count_leading_zeros ((push_bit 1 (level_case b l k) XOR level_case b l k) AND 0xAAAAAAAA) = of_nat (31 - n)"
    and m: "m = (if bit (level_case b l k) n then n else n - 1)" "bit (loaded_case_mask l) m"
  shows "search_bitfields W l (Suc k) (of_nat (if l < 5 then 2 ^ l else 32 * Suc k)) b
    = andThen (put_block W (of_nat k + drop_bit 5 (lsl 1 (of_nat l))) (x - 2 ^ m) b) (\<lambda>b. Inr (Some (of_nat (word_index l k m)), b))"
proof -
  note i = pair_index [OF k l n(1,3)]
  have d: "drop_bit 1 (2 ^ n) = (2 ^ (n - 1) :: u32)"
    using n(1,2) by (intro bit_word_eqI) (auto simp: bit_simps elim!: oddE)
  have w: "of_nat (word_index l k n) - 1 = (of_nat (word_index l k (n - 1)) :: u32)" if "bit (loaded_case_mask l) (n - 1)"
  proof -
    have "0 < word_index l k n" "word_index l k (n - 1) = word_index l k n - 1"
      using that n(1,2) by (auto simp: loaded_case_mask_bits word_index_def elim!: oddE)
    then show ?thesis
      by (simp add: of_nat_diff)
  qed
  show ?thesis
    unfolding search_bitfields.simps Let_def rd andThen_simps x n(4) i and_exp_zero d
    using t m w by (auto simp only: split: if_splits)
qed

lemma search_bitfields_tree:
  assumes ok: "buddy_ok W L b" and l: "l < L" and k: "k \<le> level_words l"
    and index: "index = of_nat (if l < 5 then 2 ^ l else 32 * k)"
  shows "(search_bitfields W l k index b = Inr (None, b)
      \<and> (\<forall>j n. j < k \<longrightarrow> bit (loaded_case_mask l) n \<longrightarrow> (if l = 0 then \<not> block_free (0, 0) b
           else block_free (l, word_index l j n) b = block_free (l, flip_index (word_index l j n)) b)))
    \<or> (\<exists>i. node_valid L (l, i) \<and> block_free (l, i) b \<and> (l = 0 \<or> \<not> block_free (l, flip_index i) b)
         \<and> search_bitfields W l k index b = Inr (Some (of_nat i), set_block_free (l, i) False b))"
  using k index
proof (induction k arbitrary: index)
  case (Suc k)
  have k: "k < level_words l"
    using Suc.prems by simp
  have l28: "l < 28"
    using ok l by (simp add: buddy_ok_def)
  have real: "drop_bit 5 (lsl 1 (of_nat l)) = (of_nat (2 ^ l div 32) :: u32)"
    by (rule lsl_level(2) [OF l28])
  have "2 ^ l div 32 + k < 2 ^ (L - 5)"
    using ok by (intro level_word_less [OF k l]) (simp add: buddy_ok_def)
  then have rd: "get_block W (of_nat k + drop_bit 5 (lsl 1 (of_nat l))) b = Inr (block_word b (2 ^ l div 32 + k))"
    using get_block_word [OF ok] unfolding real by (metis add.commute of_nat_add)
  let ?t = "(push_bit 1 (level_case b l k) XOR level_case b l k) AND 0xAAAAAAAA"
  show ?case
  proof (cases "?t = 0")
    case True
    have "search_bitfields W l (Suc k) index b = search_bitfields W l k (index - 32) b"
      unfolding search_bitfields.simps Let_def rd andThen_simps using True by simp
    moreover have "index - 32 = of_nat (if l < 5 then 2 ^ l else 32 * k) \<or> l < 5 \<and> k = 0"
      using Suc.prems by (auto simp: level_words_def algebra_simps)
    ultimately have "search_bitfields W l (Suc k) index b = search_bitfields W l k (of_nat (if l < 5 then 2 ^ l else 32 * k)) b"
      by auto
    note eq = this
    show ?thesis
      using Suc.IH [OF less_imp_le [OF k] refl]
    proof (elim disjE)
      assume ih: "search_bitfields W l k (of_nat (if l < 5 then 2 ^ l else 32 * k)) b = Inr (None, b)
        \<and> (\<forall>j n. j < k \<longrightarrow> bit (loaded_case_mask l) n \<longrightarrow> (if l = 0 then \<not> block_free (0, 0) b
             else block_free (l, word_index l j n) b = block_free (l, flip_index (word_index l j n)) b))"
      have "if l = 0 then \<not> block_free (0, 0) b
          else block_free (l, word_index l j n) b = block_free (l, flip_index (word_index l j n)) b"
        if "j < Suc k" "bit (loaded_case_mask l) n" for j n
      proof (cases "j = k")
        case False
        then have "j < k"
          using that(1) by simp
        then show ?thesis
          using ih that(2) by blast
      qed (use no_pair_in_word [OF k True that(2)] in \<open>simp\<close>)
      then show ?thesis
        unfolding eq using ih by blast
    next
      assume "\<exists>i. node_valid L (l, i) \<and> block_free (l, i) b \<and> (l = 0 \<or> \<not> block_free (l, flip_index i) b)
         \<and> search_bitfields W l k (of_nat (if l < 5 then 2 ^ l else 32 * k)) b = Inr (Some (of_nat i), set_block_free (l, i) False b)"
      then show ?thesis
        unfolding eq by (rule disjI2)
    qed
  next
    case False
    obtain n m where n: "n < 32" "odd n" "32 - 2 ^ Suc l \<le> n \<or> 5 \<le> l" "count_leading_zeros ?t = of_nat (31 - n)"
      and m: "m = (if bit (level_case b l k) n then n else n - 1)" "bit (loaded_case_mask l) m"
      and i: "block_free (l, word_index l k m) b" "l = 0 \<or> \<not> block_free (l, flip_index (word_index l k m)) b"
      using pair_in_word [OF k False] by blast
    let ?i = "word_index l k m"
    have v: "node_valid L (l, ?i)"
      using level_bits(1) [OF k m(2)] l by (simp add: node_valid_def)
    have mk: "put_block W (of_nat (2 ^ l div 32 + k)) (block_word b (2 ^ l div 32 + k) - 2 ^ m) b
        = Inr (set_block_free (l, ?i) False b)"
      using mark_block [OF ok v i(1)] level_bits(2,3) [OF k m(2)] by simp
    have "search_bitfields W l (Suc k) index b = Inr (Some (of_nat ?i), set_block_free (l, ?i) False b)"
      unfolding Suc.prems(2) search_bitfields_found [OF k l28 rd refl False n m] real of_nat_add [symmetric] add.commute [of k]
        mk andThen_simps ..
    then show ?thesis
      using v i by blast
  qed
qed simp

lemma rep_errno [simp]: "bb.rep L W (b\<lparr>errno := e\<rparr>) A = bb.rep L W b A"
  by (simp add: bb.rep_def buddy_ok_def block_free_def block_word_def)

lemma same_heap_errno [simp]: "same_heap L b (b\<lparr>errno := e\<rparr>)"
  by (simp add: same_heap_def)

lemma level_words_code:
  assumes "l < 28"
  shows "(if l < 5 then 1 else unat (drop_bit 5 (lsl 1 (of_nat l)))) = level_words l"
    and "lsl 1 (of_nat l) = of_nat (if l < 5 then 2 ^ l else 32 * level_words l)"
proof -
  have p: "(2 :: nat) ^ l = 32 * 2 ^ (l - 5)" if "\<not> l < 5"
    using that power_add [of "2 :: nat" 5 "l - 5"] by simp
  have "2 ^ l \<le> (2 ^ 27 :: nat)"
    using assms by (intro power_increasing) auto
  then have "unat (of_nat (2 ^ l div 32) :: u32) = 2 ^ l div 32"
    by (simp add: unat_of_nat)
  then show "(if l < 5 then 1 else unat (drop_bit 5 (lsl 1 (of_nat l)))) = level_words l"
    using p unfolding lsl_level(2) [OF assms] by (simp only: level_words_def) simp
  show "lsl 1 (of_nat l) = of_nat (if l < 5 then 2 ^ l else 32 * level_words l)"
    unfolding lsl_level(1) [OF assms] level_words_def
  proof (cases "l < 5")
    case False
    then show "of_nat (2 ^ l) = (of_nat (if l < 5 then 2 ^ l else 32 * (if l < 5 then 1 else 2 ^ (l - 5))) :: u32)"
      using p [OF False] by (simp only: if_False)
  qed simp
qed

text \<open>A free block of a pair is cut down to the level of the request.\<close>

lemma allocate_in_pair:
  assumes r: "bb.rep L W b A" and v: "node_valid L (l, i)" and free: "block_free (l, i) b"
    and pair: "l = 0 \<or> \<not> block_free (l, flip_index i) b" and t: "l + t < L"
  obtains b' where "cut_blocks W t (Suc l) (of_nat i) (set_block_free (l, i) False b) = Inr (of_nat (i * 2 ^ t), b')"
    "bb.rep L W b' (insert (l + t, i * 2 ^ t) A)" "same_heap L b b'"
proof -
  let ?b = "set_block_free (l, i) False b"
  have ok: "buddy_ok W L b" and ok1: "buddy_ok W L ?b"
    using bb.rep_ok [OF r] bb.put_ok v by blast+
  have fr: "block_free (l + s, i * 2 ^ s) ?b" if "s \<in> {1..t}" for s
  proof -
    have vs: "node_valid L (l + s, i * 2 ^ s)"
      using node_valid_path [OF v] that t by simp
    have "unused A (l + s, i * 2 ^ s)"
      using unused_below [OF _ covers_path] bb.rep_get [OF r v] free by blast
    then show ?thesis
      using bb.get_put [OF ok v vs] bb.rep_get [OF r vs] that by simp
  qed
  have "same_heap L b (bb.cut t (l, i) ?b)"
    using bb.same_trans [OF bb.same_put [OF ok v] bb.cut_same [OF ok1 v t]] .
  then show ?thesis
    using that cut_blocks_tree [OF ok1 v t fr] bb.rep_allocate(1) [OF r v free t pair] by blast
qed

lemma block_address_code:
  assumes "buddy_ok W L b" "lv < L"
  shows "lsl (of_nat i) (ucast (BUDDY_MAX_POWER b) - of_nat lv) = of_nat (i * 2 ^ (L + 3 - lv))"
proof -
  have "ucast (BUDDY_MAX_POWER b) = (of_nat (unat (BUDDY_MAX_POWER b)) :: u32)"
    by simp
  also have "unat (BUDDY_MAX_POWER b) = L + 3"
    using assms(1) by (simp add: buddy_ok_def)
  finally have "ucast (BUDDY_MAX_POWER b) - of_nat lv = (of_nat (L + 3 - lv) :: u32)"
    using assms(2) by (simp add: of_nat_diff)
  moreover have "L + 3 - lv < 32"
    using assms by (auto simp: buddy_ok_def)
  then have "(L + 3 - lv) mod 32 = L + 3 - lv"
    by simp
  ultimately show ?thesis
    by (simp only: lsl_of_nat) (simp add: push_bit_eq_mult)
qed

lemma search_levels_tree:
  assumes r: "bb.rep L W b A" and lv: "lv < L" and n: "n \<le> Suc lv"
  shows "(search_levels W lv n b = Inr (0, b\<lparr>errno := ENOMEM\<rparr>)
      \<and> (\<forall>l i. l < n \<longrightarrow> i < 2 ^ l \<longrightarrow> (if l = 0 then \<not> unused A (0, 0) else unused A (l, i) = unused A (l, flip_index i))))
    \<or> (\<exists>i b'. i < 2 ^ lv \<and> search_levels W lv n b = Inr (buddy_heap_start b + of_nat (i * 2 ^ (L + 3 - lv)), b')
         \<and> bb.rep L W b' (insert (lv, i) A) \<and> (\<forall>a \<in> A. \<not> overlaps (lv, i) a) \<and> same_heap L b b')"
  using n
proof (induction n)
  case (Suc l)
  have ok: "buddy_ok W L b" and lL: "l < L" and l: "l < 28"
    using bb.rep_ok [OF r] lv Suc.prems by (auto simp: buddy_ok_def)
  have code: "search_levels W lv (Suc l) b =
     andThen (search_bitfields W l (level_words l) (of_nat (if l < 5 then 2 ^ l else 32 * level_words l)) b) (\<lambda>(found, b).
         case found of
           None \<Rightarrow> search_levels W lv l b
         | Some index_in_level \<Rightarrow>
             andThen (cut_blocks W (lv - l) (Suc l) index_in_level b) (\<lambda>(index_in_level, b).
             Inr (buddy_heap_start b + lsl index_in_level (ucast (BUDDY_MAX_POWER b) - of_nat lv), b)))"
    unfolding search_levels.simps Let_def level_words_code(1) [OF l] unfolding level_words_code(2) [OF l] ..
  from search_bitfields_tree [OF ok lL order_refl refl] show ?case
  proof (elim disjE)
    assume a: "search_bitfields W l (level_words l) (of_nat (if l < 5 then 2 ^ l else 32 * level_words l)) b = Inr (None, b)
      \<and> (\<forall>j n. j < level_words l \<longrightarrow> bit (loaded_case_mask l) n \<longrightarrow> (if l = 0 then \<not> block_free (0, 0) b
           else block_free (l, word_index l j n) b = block_free (l, flip_index (word_index l j n)) b))"
    have np: "if l = 0 then \<not> unused A (0, 0) else unused A (l, i) = unused A (l, flip_index i)" if i: "i < 2 ^ l" for i
    proof -
      obtain k m where km: "k < level_words l" "bit (loaded_case_mask l) m" "i = word_index l k m"
        using level_bits_onto [OF i] by blast
      have v: "node_valid L (l, i)" "l \<noteq> 0 \<Longrightarrow> node_valid L (l, flip_index i)"
        using i lL node_valid_flip [of L "l - 1" i] by (auto simp: node_valid_def)
      have "if l = 0 then \<not> block_free (0, 0) b else block_free (l, i) b = block_free (l, flip_index i) b"
        using a km by blast
      then show ?thesis
        using bb.rep_get [OF r v(1)] bb.rep_get [OF r v(2)] i by (cases "l = 0") auto
    qed
    have "search_levels W lv (Suc l) b = search_levels W lv l b"
      unfolding code using a by simp
    then show ?thesis
      using Suc.IH Suc.prems np by (auto simp: less_Suc_eq)
  next
    assume "\<exists>i. node_valid L (l, i) \<and> block_free (l, i) b \<and> (l = 0 \<or> \<not> block_free (l, flip_index i) b)
         \<and> search_bitfields W l (level_words l) (of_nat (if l < 5 then 2 ^ l else 32 * level_words l)) b
           = Inr (Some (of_nat i), set_block_free (l, i) False b)"
    then obtain i where i: "node_valid L (l, i)" "block_free (l, i) b" "l = 0 \<or> \<not> block_free (l, flip_index i) b"
      "search_bitfields W l (level_words l) (of_nat (if l < 5 then 2 ^ l else 32 * level_words l)) b
           = Inr (Some (of_nat i), set_block_free (l, i) False b)"
      by blast
    let ?j = "i * 2 ^ (lv - l)"
    have t: "l + (lv - l) = lv"
      using Suc.prems by simp
    then obtain b' where b': "cut_blocks W (lv - l) (Suc l) (of_nat i) (set_block_free (l, i) False b) = Inr (of_nat ?j, b')"
      "bb.rep L W b' (insert (lv, ?j) A)" "same_heap L b b'"
      using allocate_in_pair [OF r i(1-3), of "lv - l"] lv by metis
    have "\<not> overlaps (lv, ?j) a" if "a \<in> A" for a
      using bb.rep_allocate(2) [OF r i(1,2) _ i(3) that, of "lv - l"] lv t by simp
    moreover have "?j < 2 ^ lv"
      using node_valid_path [OF i(1), of "lv - l"] lv t by (simp add: node_valid_def)
    moreover have "search_levels W lv (Suc l) b = Inr (buddy_heap_start b + of_nat (?j * 2 ^ (L + 3 - lv)), b')"
      using b'(3) block_address_code [OF bb.rep_ok [OF b'(2)] lv, of ?j]
      unfolding code i(4) andThen_simps prod.case option.case b'(1) by (simp add: same_heap_def)
    ultimately show ?thesis
      using b' by blast
  qed
qed simp

section \<open>Allocation and release\<close>

lemma top_bit_bounds:
  fixes x :: u32
  assumes "bit x n" "\<And>k. n < k \<Longrightarrow> \<not> bit x k"
  shows "2 ^ n \<le> unat x" "unat x < 2 ^ Suc n"
proof -
  have b: "bit (unat x) k = bit x k" for k
    by (auto simp: bit_unsigned_iff dest: bit_imp_le_length)
  have "take_bit (Suc n) (unat x) = unat x"
    by (intro bit_eqI) (metis assms(2) b bit_take_bit_iff not_less_eq)
  then show "unat x < 2 ^ Suc n"
    by (metis take_bit_nat_less_exp)
  have "odd (unat x div 2 ^ n)"
    using b [of n] assms(1) by (simp add: bit_iff_odd)
  then have "unat x div 2 ^ n \<noteq> 0"
    by (metis even_zero)
  then show "2 ^ n \<le> unat x"
    by (metis div_eq_0_iff not_le power_not_zero zero_neq_numeral)
qed

lemma unat_exp:
  assumes "n < 32"
  shows "unat (2 ^ n :: u32) = 2 ^ n"
proof -
  have "(2 :: nat) ^ n < 2 ^ 32"
    using assms by (intro power_strict_increasing) auto
  then show ?thesis
    using unat_of_nat [where 'a = 32, of "2 ^ n"] by simp
qed

lemma count_population_one:
  fixes x :: u32
  assumes "bit x n" "n < 32" "\<And>k. n < k \<Longrightarrow> \<not> bit x k"
  shows "count_population x = 1 \<longleftrightarrow> unat x = 2 ^ n"
proof
  assume "count_population x = 1"
  then have "\<exists>y. filter (bit x) [0..<32] = [y]"
    by (simp add: count_population_def length_Suc_conv)
  then obtain y where "set (filter (bit x) [0..<32]) = {y}"
    by (metis list.simps(15) set_empty2)
  then have y: "k = y" if "bit x k" "k < 32" for k
    using that by auto
  have only: "bit x k \<longleftrightarrow> k = n" for k
    using y [of k] y [of n] assms(1,2) bit_imp_le_length [of x k] by auto
  then have "x = 2 ^ n"
    using assms(2) by (intro bit_word_eqI) (auto simp: bit_simps)
  then show "unat x = 2 ^ n"
    by (simp add: unat_exp [OF assms(2)])
next
  assume "unat x = 2 ^ n"
  then have "x = 2 ^ n"
    using unat_exp [OF assms(2)] by (simp add: word_unat_eq_iff)
  then have "filter (bit x) [0..<32] = filter (\<lambda>k. k = n) [0..<32]"
    using assms(2) by (intro filter_cong) (auto simp: bit_simps)
  also have "\<dots> = [n]"
    unfolding upt_split_at [OF assms(2)] by (auto simp: filter_empty_conv)
  finally show "count_population x = 1"
    by (simp add: count_population_def)
qed

text \<open>The order of the smallest block for a request.\<close>

definition block_order :: "nat \<Rightarrow> nat \<Rightarrow> bool" where
  "block_order sz p \<longleftrightarrow> 4 \<le> p \<and> sz \<le> 2 ^ p \<and> (p = 4 \<or> 2 ^ p < 2 * sz)"

lemma block_order_unique:
  assumes "block_order s p" "block_order s q"
  shows "p = q"
proof -
  have "\<not> m < n" if "block_order s m" "block_order s n" for m n
  proof
    assume "m < n"
    then have "2 ^ n < 2 * s" "s \<le> 2 ^ m"
      using that by (auto simp: block_order_def)
    moreover have "(2 :: nat) ^ Suc m \<le> 2 ^ n"
      using \<open>m < n\<close> by (intro power_increasing) auto
    then have "2 * 2 ^ m \<le> (2 :: nat) ^ n"
      by simp
    ultimately show False
      by linarith
  qed
  then show ?thesis
    using assms by (meson linorder_less_linear)
qed

lemma next_power_of_2_order:
  assumes "sz \<noteq> 0"
  obtains p where "next_power_of_2 sz = of_nat p" "p \<le> 32" "unat sz \<le> 2 ^ p" "2 ^ p < 2 * unat sz"
proof -
  obtain n where n: "n < 32" "bit sz n" "\<And>k. n < k \<Longrightarrow> \<not> bit sz k"
    using top_bit [OF assms] by blast
  have d: "31 - of_nat (31 - n) = (of_nat n :: u32)"
    using n(1) by (simp add: of_nat_diff)
  note b = top_bit_bounds [OF n(2,3)]
  show ?thesis
  proof (cases "count_population sz = 1")
    case True
    then have "unat sz = 2 ^ n"
      using count_population_one [OF n(2,1,3)] by simp
    then show ?thesis
      using that [of n] n(1) True d by (simp add: next_power_of_2_def count_leading_zeros_top [OF n])
  next
    case False
    then have "2 ^ n < unat sz"
      using count_population_one [OF n(2,1,3)] b(1) by simp
    then show ?thesis
      using that [of "Suc n"] n(1) b(2) False d by (simp add: next_power_of_2_def count_leading_zeros_top [OF n] add.commute)
  qed
qed

text \<open>A request that is not larger than the heap: its level is that of the smallest block for it.\<close>

lemma safe_buddy_alloc_level:
  assumes ok: "buddy_ok W L b" and sz: "0 < unat sz" "unat sz \<le> 2 ^ (L + 3)"
  obtains lv where "lv < L" "block_order (unat sz) (L + 3 - lv)" "safe_buddy_alloc W sz b = search_levels W lv (Suc lv) b"
proof -
  have L: "6 \<le> L" "L \<le> 28" and m: "unat (BUDDY_MAX_POWER b) = L + 3" and n: "unat (BUDDY_NUMBER_OF_LEVELS b) = L"
    and h: "unat (BUDDY_SIZE_OF_HEAP b) = 2 ^ (L + 3)"
    using ok by (simp_all add: buddy_ok_def)
  obtain p where p: "next_power_of_2 sz = of_nat p" "p \<le> 32" "unat sz \<le> 2 ^ p" "2 ^ p < 2 * unat sz"
    using next_power_of_2_order [of sz] sz(1) by (auto simp: unat_gt_0)
  have "(2 :: nat) ^ p < 2 ^ (L + 4)"
    using p(4) sz(2) by (simp add: power_add)
  then have pL: "p \<le> L + 3"
    using power_less_imp_less_exp [of "2 :: nat" p "L + 4"] by simp
  have "ucast (BUDDY_MAX_POWER b) = (of_nat (unat (BUDDY_MAX_POWER b)) :: u32)"
    by simp
  then have "ucast (BUDDY_MAX_POWER b) - next_power_of_2 sz = (of_nat (L + 3 - p) :: u32)"
    using pL unfolding p(1) m by (simp only: of_nat_diff)
  moreover have "sint (of_nat (L + 3 - p) :: u32) = int (L + 3 - p)"
    using L(2) by (subst signed_of_nat) (simp add: signed_take_bit_int_eq_self)
  ultimately have lev: "sint (ucast (BUDDY_MAX_POWER b) - next_power_of_2 sz :: u32) = int (L + 3 - p)"
    by simp
  define lv where "lv = (if L \<le> L + 3 - p then L - 1 else L + 3 - p)"
  have cl: "(if int (L + 3 - p) \<ge> uint (BUDDY_NUMBER_OF_LEVELS b) then uint (BUDDY_NUMBER_OF_LEVELS b) - 1 else int (L + 3 - p))
      = int lv"
    using L(1) n by (auto simp: lv_def uint_nat of_nat_diff)
  have "\<not> (sz = 0 \<or> sz > BUDDY_SIZE_OF_HEAP b)"
    using sz h by (auto simp: word_less_nat_alt)
  then have "safe_buddy_alloc W sz b = search_levels W lv (Suc lv) b"
    unfolding safe_buddy_alloc_def Let_def lev cl by (simp add: nat_add_distrib del: search_levels.simps)
  moreover have "lv < L"
    using L(1) by (auto simp: lv_def)
  moreover have "block_order (unat sz) (L + 3 - lv)"
  proof (cases "L \<le> L + 3 - p")
    case True
    then have "(2 :: nat) ^ p \<le> 2 ^ 4"
      using L(1) by (intro power_increasing) auto
    then have "unat sz \<le> 2 ^ 4"
      using p(3) by linarith
    moreover have "L + 3 - lv = 4"
      using True L(1) by (simp add: lv_def)
    ultimately show ?thesis
      unfolding block_order_def by simp
  next
    case False
    then have "L + 3 - lv = p" "4 \<le> p"
      using pL by (auto simp: lv_def)
    then show ?thesis
      using p(3,4) by (simp add: block_order_def)
  qed
  ultimately show ?thesis
    using that by blast
qed

text \<open>
  An allocation, for the set of the allocated blocks: either the new block overlaps none of them and is as large as asked for,
  or no block of that size is free. The heap is not at the address 0, so that NULL means failure.
\<close>

lemma safe_buddy_alloc_tree:
  assumes r: "bb.rep L W b A" and sz: "0 < unat sz" "unat sz \<le> 2 ^ (L + 3)" and o: "block_order (unat sz) p"
  obtains (found) i b' where "i < 2 ^ (L + 3 - p)" "safe_buddy_alloc W sz b = Inr (buddy_heap_start b + of_nat (i * 2 ^ p), b')"
      "bb.rep L W b' (insert (L + 3 - p, i) A)" "\<And>a. a \<in> A \<Longrightarrow> \<not> overlaps (L + 3 - p, i) a" "same_heap L b b'"
    | (full) "safe_buddy_alloc W sz b = Inr (0, b\<lparr>errno := ENOMEM\<rparr>)"
      "\<And>i. i < 2 ^ (L + 3 - p) \<Longrightarrow> \<exists>a \<in> A. overlaps (L + 3 - p, i) a"
proof -
  obtain lv where lv: "lv < L" "block_order (unat sz) (L + 3 - lv)" "safe_buddy_alloc W sz b = search_levels W lv (Suc lv) b"
    using safe_buddy_alloc_level [OF bb.rep_ok [OF r] sz] by blast
  have "L + 3 - lv = p"
    by (rule block_order_unique [OF lv(2) o])
  then have p: "L + 3 - p = lv" "L + 3 - lv = p"
    using lv(1) by auto
  from search_levels_tree [OF r lv(1) order_refl] show ?thesis
  proof (elim disjE)
    assume a: "search_levels W lv (Suc lv) b = Inr (0, b\<lparr>errno := ENOMEM\<rparr>)
      \<and> (\<forall>l i. l < Suc lv \<longrightarrow> i < 2 ^ l \<longrightarrow> (if l = 0 then \<not> unused A (0, 0) else unused A (l, i) = unused A (l, flip_index i)))"
    have root: "\<not> unused A (0, 0)"
      using a by (metis less_numeral_extra(1) power_0 zero_less_Suc)
    have pairs: "unused A (Suc l, i) = unused A (Suc l, flip_index i)" if "Suc l \<le> lv" "i < 2 ^ Suc l" for l i
      using a that by (metis le_imp_less_Suc nat.discI)
    have "\<exists>a \<in> A. overlaps (lv, i) a" if "i < 2 ^ lv" for i
      using no_pair_no_room [OF root pairs that] by (auto simp: overlaps_def unused_def)
    then show ?thesis
      using a lv(3) p(1) by (intro full) auto
  next
    assume "\<exists>i b'. i < 2 ^ lv \<and> search_levels W lv (Suc lv) b = Inr (buddy_heap_start b + of_nat (i * 2 ^ (L + 3 - lv)), b')
         \<and> bb.rep L W b' (insert (lv, i) A) \<and> (\<forall>a \<in> A. \<not> overlaps (lv, i) a) \<and> same_heap L b b'"
    then show ?thesis
      using lv(3) p found by metis
  qed
qed

text \<open>The pointers inside the heap that are aligned on 8 bytes, and the search that they start.\<close>

lemma and_7: "(x :: u32) AND 7 = 0 \<longleftrightarrow> unat x mod 8 = 0"
proof -
  have "x AND 7 = take_bit 3 x"
    by (simp add: take_bit_eq_mask mask_eq_exp_minus_1)
  then have "unat (x AND 7) = unat x mod 8"
    by (simp only: unsigned_take_bit_eq) (simp add: take_bit_eq_mod)
  then show ?thesis
    by (metis unat_eq_zero)
qed

lemma heap_bounds:
  assumes "buddy_ok W L b"
  shows "unat (buddy_heap_start b + BUDDY_SIZE_OF_HEAP b - 1) = unat (buddy_heap_start b) + 2 ^ (L + 3) - 1"
    and "0 < unat (buddy_heap_start b)"
proof -
  have h: "unat (buddy_heap_start b) + 2 ^ (L + 3) < 2 ^ 32" "unat (BUDDY_SIZE_OF_HEAP b) = 2 ^ (L + 3)"
    using assms by (auto simp: buddy_ok_def)
  then have "unat (buddy_heap_start b + BUDDY_SIZE_OF_HEAP b) = unat (buddy_heap_start b) + 2 ^ (L + 3)"
    by (simp add: unat_word_ariths)
  then show "unat (buddy_heap_start b + BUDDY_SIZE_OF_HEAP b - 1) = unat (buddy_heap_start b) + 2 ^ (L + 3) - 1"
    by (metis add_is_0 power_not_zero unat_minus_one unsigned_0 zero_neq_numeral)
  show "0 < unat (buddy_heap_start b)"
    using assms by (simp add: buddy_ok_def)
qed

definition heap_pointer_ok :: "nat \<Rightarrow> buddy \<Rightarrow> u32 \<Rightarrow> bool" where
  "heap_pointer_ok L b pointer \<longleftrightarrow> unat pointer mod 8 = 0 \<and> unat (buddy_heap_start b) \<le> unat pointer
     \<and> unat pointer < unat (buddy_heap_start b) + 2 ^ (L + 3)"

lemma search_for_pointer_code:
  assumes ok: "buddy_ok W L b"
  shows "\<not> heap_pointer_ok L b pointer \<Longrightarrow> buddy_search_for_pointer W pointer b = Inr (None, b\<lparr>errno := EINVAL\<rparr>)"
    and "heap_pointer_ok L b pointer \<Longrightarrow> buddy_search_for_pointer W pointer b
      = search_pointer W (of_nat (L - 1)) (of_nat ((unat pointer - unat (buddy_heap_start b)) div 16)) b"
proof -
  have g: "(pointer AND 7 \<noteq> 0 \<or> pointer < buddy_heap_start b \<or> pointer > buddy_heap_start b + BUDDY_SIZE_OF_HEAP b - 1)
      \<longleftrightarrow> \<not> heap_pointer_ok L b pointer"
    unfolding heap_pointer_ok_def word_less_nat_alt heap_bounds(1) [OF ok] and_7
    using zero_less_power [of "2 :: nat" "L + 3"] by linarith
  then show "\<not> heap_pointer_ok L b pointer \<Longrightarrow> buddy_search_for_pointer W pointer b = Inr (None, b\<lparr>errno := EINVAL\<rparr>)"
    unfolding buddy_search_for_pointer_def by simp
  assume p: "heap_pointer_ok L b pointer"
  then have "unat (pointer - buddy_heap_start b) = unat pointer - unat (buddy_heap_start b)"
    by (intro unat_sub) (simp add: heap_pointer_ok_def word_le_nat_alt)
  then have "drop_bit 4 (pointer - buddy_heap_start b) = of_nat ((unat pointer - unat (buddy_heap_start b)) div 2 ^ 4)"
    by (metis drop_bit_small of_nat_unat ucast_id)
  moreover have "ucast (BUDDY_NUMBER_OF_LEVELS b) = (of_nat L :: u32)" "1 \<le> L"
    using ok by (auto simp: buddy_ok_def)
  then have "ucast (BUDDY_NUMBER_OF_LEVELS b) - 1 = (of_nat (L - 1) :: u32)"
    by (simp add: of_nat_diff)
  ultimately show "buddy_search_for_pointer W pointer b
      = search_pointer W (of_nat (L - 1)) (of_nat ((unat pointer - unat (buddy_heap_start b)) div 16)) b"
    unfolding buddy_search_for_pointer_def using g p by simp
qed

text \<open>A release, for the set of the allocated blocks: the block around the pointer, if there is one, is taken out of it.\<close>

lemma release_node:
  assumes r: "bb.rep L W b A" and v: "node_valid L (l, i)"
  shows "andThen (get_block W (of_nat (node_word (l, i))) b) (\<lambda>loaded.
         andThen (put_block W (of_nat (node_word (l, i))) (loaded OR 2 ^ node_bit (l, i)) b) (\<lambda>b.
         buddy_free_fusion_of_blocks W (of_nat i) \<lparr>target_level = of_nat l, real_index = of_nat (node_word (l, i)),
           highlight_target_bit = 2 ^ node_bit (l, i), highlight_buddy_bit = 2 ^ node_bit (l, flip_index i)\<rparr> b))
     = Inr (bb.fuse l i (set_block_free (l, i) True b))"
    and "same_heap L b (bb.fuse l i (set_block_free (l, i) True b))"
proof -
  have ok: "buddy_ok W L b" and ok1: "buddy_ok W L (set_block_free (l, i) True b)"
    using bb.rep_ok [OF r] bb.put_ok [OF _ v] by blast+
  show "same_heap L b (bb.fuse l i (set_block_free (l, i) True b))"
    using bb.same_trans [OF bb.same_put [OF ok v] bb.fuse_same [OF ok1 v]] .
  show "andThen (get_block W (of_nat (node_word (l, i))) b) (\<lambda>loaded.
         andThen (put_block W (of_nat (node_word (l, i))) (loaded OR 2 ^ node_bit (l, i)) b) (\<lambda>b.
         buddy_free_fusion_of_blocks W (of_nat i) \<lparr>target_level = of_nat l, real_index = of_nat (node_word (l, i)),
           highlight_target_bit = 2 ^ node_bit (l, i), highlight_buddy_bit = 2 ^ node_bit (l, flip_index i)\<rparr> b))
     = Inr (bb.fuse l i (set_block_free (l, i) True b))"
    by (simp add: read_node [OF ok v] release_block(2) [OF ok v] buddy_free_fusion_of_blocks_def read_node [OF ok1 v]
      fuse_blocks_tree [OF ok1 v])
qed

lemma safe_buddy_free_tree:
  assumes r: "bb.rep L W b A" and p: "heap_pointer_ok L b pointer"
  defines "i \<equiv> (unat pointer - unat (buddy_heap_start b)) div 16"
  obtains b' where "safe_buddy_free W pointer b = Inr b'" "bb.rep L W b' {a \<in> A. \<not> covers a (L - 1, i)}" "same_heap L b b'"
proof -
  have ok: "buddy_ok W L b"
    by (rule bb.rep_ok [OF r])
  have L: "6 \<le> L"
    using ok by (simp add: buddy_ok_def)
  have "(2 :: nat) ^ (L - 1 + 4) = 2 ^ (L - 1) * 16"
    by (simp add: power_add)
  moreover have "L - 1 + 4 = L + 3"
    using L by simp
  ultimately have "(2 :: nat) ^ (L + 3) = 2 ^ (L - 1) * 16"
    by (simp only:)
  then have "unat pointer - unat (buddy_heap_start b) < 2 ^ (L - 1) * 16"
    using p unfolding heap_pointer_ok_def by linarith
  then have v: "node_valid L (L - 1, i)"
    using L unfolding i_def by (simp add: node_valid_def less_mult_imp_div_less)
  have code: "safe_buddy_free W pointer b = andThen (search_pointer W (of_nat (L - 1)) (of_nat i) b) (\<lambda>(found, b).
     case found of
       None \<Rightarrow> Inr b
     | Some (index, context) \<Rightarrow>
         andThen (get_block W (real_index context) b) (\<lambda>loaded.
         andThen (put_block W (real_index context) (loaded OR highlight_target_bit context) b) (\<lambda>b.
         buddy_free_fusion_of_blocks W index context b)))"
    unfolding safe_buddy_free_def search_for_pointer_code(2) [OF ok p] i_def ..
  show ?thesis
  proof (cases "\<exists>a \<in> A. covers a (L - 1, i)")
    case True
    then obtain l j where a: "(l, j) \<in> A" "covers (l, j) (L - 1, i)"
      by auto
    then have f: "bb.find_block (L - 1) i b = Some (l, j)"
      using bb.find_block_result(1) [OF r v disjI1 [OF refl]] by blast
    have va: "node_valid L (l, j)"
      by (rule node_valid_covers [OF v a(2)])
    have "x = (l, j)" if "x \<in> A" "covers x (L - 1, i)" for x
      using bb.find_block_result(1) [OF r v disjI1 [OF refl] that] f by simp
    then have "{a \<in> A. \<not> covers a (L - 1, i)} = A - {(l, j)}"
      using a by blast
    moreover have "safe_buddy_free W pointer b = Inr (bb.fuse l j (set_block_free (l, j) True b))"
      unfolding code search_pointer_tree [OF ok v] f using release_node(1) [OF r va] by simp
    ultimately show ?thesis
      using that bb.rep_release [OF r a(1)] release_node(2) [OF r va] by metis
  next
    case False
    then have none: "{a \<in> A. \<not> covers a (L - 1, i)} = A"
      by auto
    from False have "A = {} \<and> bb.find_block (L - 1) i b = Some (0, 0) \<or> A \<noteq> {} \<and> bb.find_block (L - 1) i b = None"
      using bb.find_block_result(2) [OF r v disjI1 [OF refl]] by blast
    then show ?thesis
    proof
      assume f: "A = {} \<and> bb.find_block (L - 1) i b = Some (0, 0)"
      have v0: "node_valid L (0, 0)"
        using L by (simp add: node_valid_def)
      have "bb.rep L W (set_block_free (0, 0) True b) {}"
        using r f bb.put_ok [OF ok v0] bb.get_put [OF ok v0] by (auto simp: bb.rep_def unused_def)
      moreover have "safe_buddy_free W pointer b = Inr (set_block_free (0, 0) True b)"
        unfolding code search_pointer_tree [OF ok v] using f release_node(1) [OF r v0] by simp
      ultimately show ?thesis
        using that none f bb.same_put [OF ok v0] by auto
    next
      assume f: "A \<noteq> {} \<and> bb.find_block (L - 1) i b = None"
      then have "safe_buddy_free W pointer b = Inr (b\<lparr>errno := EINVAL\<rparr>)"
        unfolding code search_pointer_tree [OF ok v] by simp
      then show ?thesis
        using that none r by simp
    qed
  qed
qed

section \<open>Initialisation and reset\<close>

lemma fill_blocks_words:
  assumes "buddy_ok W L b" "0 < i" "i + n \<le> 2 ^ (L - 5)"
  obtains b' where "fill_blocks W n (of_nat i) b = Inr b'" "buddy_ok W L b'" "same_heap L b b'"
    "\<And>j. j < 2 ^ (L - 5) \<Longrightarrow> block_word b' j = (if i \<le> j \<and> j < i + n then 0xFFFFFFFF else block_word b j)"
  using assms
proof (induction n arbitrary: i b thesis)
  case 0
  show ?case
    by (rule "0.prems"(1) [of b]) (use "0.prems" in \<open>auto simp: bb.same_refl\<close>)
next
  case (Suc n)
  let ?b = "set_block_word i 0xFFFFFFFF b"
  have i: "i < 2 ^ (L - 5)"
    using Suc.prems(4) by simp
  have ok: "buddy_ok W L ?b"
    using Suc.prems(3) by (intro buddy_ok_set [OF Suc.prems(2) i]) simp
  have same: "same_heap L b ?b"
    using i by (simp add: same_heap_def set_block_word_def)
  obtain b' where b': "fill_blocks W n (of_nat (Suc i)) ?b = Inr b'" "buddy_ok W L b'" "same_heap L ?b b'"
    "\<And>j. j < 2 ^ (L - 5) \<Longrightarrow> block_word b' j = (if Suc i \<le> j \<and> j < Suc i + n then 0xFFFFFFFF else block_word ?b j)"
    using Suc.IH [OF _ ok] Suc.prems(4) by (metis add_Suc_shift zero_less_Suc)
  have "of_nat i + 1 = (of_nat (Suc i) :: u32)"
    by simp
  then have "fill_blocks W (Suc n) (of_nat i) b = Inr b'"
    unfolding fill_blocks.simps put_block_word [OF Suc.prems(2) i] andThen_simps using b'(1) by (simp add: add.commute)
  moreover have "block_word b' j = (if i \<le> j \<and> j < i + Suc n then 0xFFFFFFFF else block_word b j)" if "j < 2 ^ (L - 5)" for j
    using b'(4) [OF that] block_word_set [OF Suc.prems(2) i that, of "0xFFFFFFFF"] by auto
  ultimately show ?case
    using Suc.prems(1) b'(2) same_heap_trans [OF same b'(3)] by blast
qed

lemma bytes_in_buddy_blocks_code:
  assumes "unat levels = L" "6 \<le> L" "L \<le> 28"
  shows "bytes_in_buddy_blocks levels = of_nat (4 * 2 ^ (L - 5))" "unat (bytes_in_buddy_blocks levels) = 4 * 2 ^ (L - 5)"
proof -
  have "ucast levels = (of_nat (unat levels) :: u32)"
    by simp
  then have "ucast levels - 5 = (of_nat (L - 5) :: u32)"
    using assms by (simp add: of_nat_diff)
  moreover have "(L - 5) mod 32 = L - 5"
    using assms(3) by simp
  ultimately show e: "bytes_in_buddy_blocks levels = of_nat (4 * 2 ^ (L - 5))"
    unfolding bytes_in_buddy_blocks_def by (simp only: lsl_one) (simp add: push_bit_eq_mult mult.commute)
  have "(2 :: nat) ^ (L - 5) \<le> 2 ^ 23"
    using assms by (intro power_increasing) auto
  then show "unat (bytes_in_buddy_blocks levels) = 4 * 2 ^ (L - 5)"
    unfolding e by (simp only: unat_of_nat) simp
qed

lemma free_words: "k < 32 \<Longrightarrow> bit (0xFFFFFFFF :: u32) k" "k < 32 \<Longrightarrow> bit (0x7FFFFFFF :: u32) k \<longleftrightarrow> k < 31"
proof -
  have "\<forall>k \<in> set [0..<32]. bit (0xFFFFFFFF :: u32) k \<and> (bit (0x7FFFFFFF :: u32) k \<longleftrightarrow> k < 31)"
    by code_simp
  then show "k < 32 \<Longrightarrow> bit (0xFFFFFFFF :: u32) k" "k < 32 \<Longrightarrow> bit (0x7FFFFFFF :: u32) k \<longleftrightarrow> k < 31"
    by simp_all
qed

text \<open>When all bits of the array are set, nothing is allocated.\<close>

lemma fresh_rep:
  assumes ok: "buddy_ok W L b"
    and "block_word b 0 = 0x7FFFFFFF" "\<And>j. 0 < j \<Longrightarrow> j < 2 ^ (L - 5) \<Longrightarrow> block_word b j = 0xFFFFFFFF"
  shows "bb.rep L W b {}"
proof -
  have "6 \<le> L"
    using ok by (simp add: buddy_ok_def)
  then have "block_free m b" if "node_valid L m" for m
    using assms(2,3) node_word_less [OF that] node_bit_less [OF that] free_words [of "node_bit m"]
    by (cases "node_word m = 0") (auto simp: block_free_def)
  then show ?thesis
    using ok by (auto simp: bb.rep_def allocation_def unused_def)
qed

text \<open>After the initialisation of the array nothing is allocated.\<close>

lemma clear_buddy_blocks_tree:
  assumes ok: "buddy_ok W L (set_block_word 0 0x7FFFFFFF b)" and w: "word_ok W (buddy_blocks b)"
  obtains b' where "clear_buddy_blocks W b = Inr b'" "bb.rep L W b' {}" "same_heap L b b'"
proof -
  let ?b = "set_block_word 0 0x7FFFFFFF b"
  have L: "6 \<le> L" "L \<le> 28" "unat (BUDDY_NUMBER_OF_LEVELS b) = L"
    using ok by (simp_all add: buddy_ok_def set_block_word_def)
  have lev: "BUDDY_NUMBER_OF_LEVELS ?b = BUDDY_NUMBER_OF_LEVELS b" and w0: "block_word ?b 0 = 0x7FFFFFFF"
    by (simp_all add: set_block_word_def block_word_def)
  have "buddy_blocks b \<in> (\<lambda>k. buddy_blocks b + 4 * of_nat k) ` {..<2 ^ (L - 5)}"
    by (rule image_eqI [of _ _ 0]) simp_all
  then have same: "same_heap L b ?b"
    unfolding same_heap_def set_block_word_def by auto
  have "unat (bytes_in_buddy_blocks (BUDDY_NUMBER_OF_LEVELS b) - 4) = 4 * 2 ^ (L - 5) - 4"
    using bytes_in_buddy_blocks_code(2) [OF L(3,1,2)] by (subst unat_sub) (simp_all add: word_le_nat_alt)
  then have n: "unat (bytes_in_buddy_blocks (BUDDY_NUMBER_OF_LEVELS b) - 4) div 4 = 2 ^ (L - 5) - 1"
    by (simp add: div_mult_self1_is_m flip: right_diff_distrib')
  obtain b' where b': "fill_blocks W (2 ^ (L - 5) - 1) (of_nat 1) ?b = Inr b'" "buddy_ok W L b'" "same_heap L ?b b'"
    "\<And>j. j < 2 ^ (L - 5) \<Longrightarrow> block_word b' j = (if 1 \<le> j \<and> j < 1 + (2 ^ (L - 5) - 1) then 0xFFFFFFFF else block_word ?b j)"
    by (rule fill_blocks_words [OF ok, of 1 "2 ^ (L - 5) - 1"]) simp_all
  have "put_block W 0 0x7FFFFFFF b = Inr ?b"
    using w by (simp add: put_block_def store_def set_block_word_def)
  then have c: "clear_buddy_blocks W b = Inr b'"
    unfolding clear_buddy_blocks_def using b'(1) lev n by simp
  have "bb.rep L W b' {}"
  proof (rule fresh_rep [OF b'(2)])
    show "block_word b' 0 = 0x7FFFFFFF"
      using b'(4) [of 0] w0 by simp
    show "block_word b' j = 0xFFFFFFFF" if "0 < j" "j < 2 ^ (L - 5)" for j
      using b'(4) [of j] that by simp
  qed
  then show ?thesis
    using that c same_heap_trans [OF same b'(3)] by blast
qed

text \<open>The heap of \<open>2 ^ n\<close> bytes and its bits fit into WRAM.\<close>

definition buddy_fits :: "nat \<Rightarrow> nat \<Rightarrow> buddy \<Rightarrow> bool" where
  "buddy_fits W n b \<longleftrightarrow> 9 \<le> n \<and> n \<le> 31 \<and> buddy_init_done b = 0 \<and> W < 2 ^ 32
     \<and> (unat (heap_pointer (buddy_wram b)) + 7) div 8 * 8 + 4 * 2 ^ (n - 8) + 2 ^ n \<le> W"

lemma buddy_init_tree:
  assumes fits: "buddy_fits W n b"
  obtains b' where "buddy_init W (2 ^ n) b = Inr b'" "bb.rep (n - 3) W b' {}"
proof -
  let ?a = "(unat (heap_pointer (buddy_wram b)) + 7) div 8 * 8"
  have n: "9 \<le> n" "n \<le> 31" "n < 32" and W: "W < 2 ^ 32" "?a + 4 * 2 ^ (n - 8) + 2 ^ n \<le> W" and nd: "buddy_init_done b = 0"
    using fits by (simp_all add: buddy_fits_def)
  define L where "L = n - 3"
  have L: "6 \<le> L" "L \<le> 28" "n = L + 3" "n - 8 = L - 5"
    using n by (simp_all add: L_def)
  have "31 - of_nat (31 - n) = (of_nat n :: u32)"
    using n(2) by (simp add: of_nat_diff)
  then have mp: "31 - count_leading_zeros (2 ^ n) = (of_nat n :: u32)"
    unfolding clz_single [OF n(3)] .
  define mx :: u8 where "mx = ucast (of_nat n :: u32)"
  have "unat (of_nat n :: u32) = n"
    using n(3) by (simp add: unat_of_nat)
  then have mx: "unat mx = n"
    using n(3) unfolding mx_def by (simp only: unsigned_ucast_eq) (simp add: take_bit_eq_mod)
  then have mx3: "unat (mx - 3) = L"
    using n(1) by (subst unat_sub) (simp_all add: word_le_nat_alt L_def)
  note bytes = bytes_in_buddy_blocks_code [OF mx3 L(1,2)]
  define sz where "sz = 2 ^ n + bytes_in_buddy_blocks (mx - 3)"
  have sz: "unat sz = 2 ^ n + 4 * 2 ^ (n - 8)"
    unfolding sz_def using W bytes(2) unat_exp [OF n(3)] L(4) by (simp add: unat_word_ariths)
  have "(2 :: nat) ^ 9 \<le> 2 ^ n"
    using n(1) by (intro power_increasing) auto
  moreover have "unat (heap_pointer (buddy_wram b)) \<le> ?a"
    by presburger
  ultimately have hp: "unat (heap_pointer (buddy_wram b)) + 7 < 2 ^ 32" "sz \<noteq> 0"
    using W sz by auto
  let ?p = "(heap_pointer (buddy_wram b) + 7) AND NOT 7"
  have p: "unat ?p = ?a"
    by (rule unat_align_up [OF hp(1)])
  have al: "mem_alloc W sz (buddy_wram b) = Inr (?p, (buddy_wram b)\<lparr>heap_pointer := ?p + sz\<rparr>)"
    using mem_alloc_iff(1) [OF hp(2,1) W(1)] W(2) sz by simp
  define b1 where "b1 = b\<lparr>buddy_wram := (buddy_wram b)\<lparr>heap_pointer := ?p + sz\<rparr>, BUDDY_SIZE_OF_HEAP := 2 ^ n, BUDDY_MAX_POWER := mx,
                        BUDDY_NUMBER_OF_LEVELS := mx - 3, buddy_blocks := ?p,
                        buddy_heap_start := ?p + 4 * drop_bit 2 (bytes_in_buddy_blocks (mx - 3))\<rparr>"
  have hs: "unat (?p + 4 * drop_bit 2 (bytes_in_buddy_blocks (mx - 3))) = ?a + 4 * 2 ^ (L - 5)"
  proof -
    have "drop_bit 2 (bytes_in_buddy_blocks (mx - 3)) = of_nat (2 ^ (L - 5))"
      unfolding bytes(1) using bytes(2) by (subst drop_bit_small) (simp_all add: bytes(1))
    then have "?p + 4 * drop_bit 2 (bytes_in_buddy_blocks (mx - 3)) = of_nat (unat ?p + 4 * 2 ^ (L - 5))"
      by simp
    then show ?thesis
      using p W L(4) by (simp only: unat_of_nat) simp
  qed
  have "unat (2 ^ n :: u32) = 2 ^ (L + 3)"
    using unat_exp [OF n(3)] L(3) by simp
  then have ok: "buddy_ok W L (set_block_word 0 0x7FFFFFFF b1)"
    unfolding buddy_ok_def set_block_word_def b1_def using L W hs p mx mx3 free_words(2) [of 31] by simp
  have "word_ok W (buddy_blocks b1)"
    using block_address(2) [OF ok, of 0] by (simp add: set_block_word_def)
  then obtain b' where b': "clear_buddy_blocks W b1 = Inr b'" "bb.rep L W b' {}"
    using clear_buddy_blocks_tree [OF ok] by blast
  have "buddy_init W (2 ^ n) b = Inr (b'\<lparr>buddy_init_done := 1\<rparr>)"
    unfolding buddy_init_def Let_def mp mx_def [symmetric] sz_def [symmetric] al andThen_simps prod.case
    using nd b'(1) b1_def by simp
  moreover have "bb.rep L W (b'\<lparr>buddy_init_done := 1\<rparr>) {}"
    using b'(2) by (simp add: bb.rep_def buddy_ok_def block_free_def block_word_def)
  ultimately show ?thesis
    using that L_def by blast
qed

section \<open>The clients of the allocator\<close>

text \<open>
  The tasklets allocate, free any pointer, write to the words of the blocks that they own, and reset the heap, in any order. An
  owned block is an address and a size. As \<^verbatim>\<open>buddy_alloc.h\<close> says, a pointer to the inside of a block releases the
  block; pointers that are not aligned on 8 bytes are ignored.
\<close>

definition block_range :: "u32 \<times> nat \<Rightarrow> nat set" where
  "block_range = (\<lambda>(p, s). {unat p..<unat p + s})"

inductive buddy_run :: "nat \<Rightarrow> buddy \<Rightarrow> buddy \<Rightarrow> (u32 \<times> nat) set \<Rightarrow> bool" for wram_size b0 where
  buddy_run_start: "buddy_run wram_size b0 b0 {}"
| buddy_run_alloc: "\<lbrakk>buddy_run wram_size b0 b owned; buddy_alloc wram_size sz b = Inr (p, b'); p \<noteq> 0; block_order (unat sz) q\<rbrakk>
     \<Longrightarrow> buddy_run wram_size b0 b' (insert (p, 2 ^ q) owned)"
| buddy_run_alloc_failed: "\<lbrakk>buddy_run wram_size b0 b owned; buddy_alloc wram_size sz b = Inr (0, b')\<rbrakk>
     \<Longrightarrow> buddy_run wram_size b0 b' owned"
| buddy_run_free: "\<lbrakk>buddy_run wram_size b0 b owned; buddy_free wram_size p b = Inr b'\<rbrakk>
     \<Longrightarrow> buddy_run wram_size b0 b' {x \<in> owned. \<not> (unat p mod 8 = 0 \<and> unat p \<in> block_range x)}"
| buddy_run_write: "\<lbrakk>buddy_run wram_size b0 b owned; x \<in> owned; unat a \<in> block_range x\<rbrakk>
     \<Longrightarrow> buddy_run wram_size b0 (b\<lparr>buddy_wram := (buddy_wram b)\<lparr>words := (words (buddy_wram b))(a := v)\<rparr>\<rparr>) owned"
| buddy_run_reset: "\<lbrakk>buddy_run wram_size b0 b owned; buddy_reset wram_size b = Inr b'\<rbrakk>
     \<Longrightarrow> buddy_run wram_size b0 b' {}"

definition node_block :: "nat \<Rightarrow> u32 \<Rightarrow> node \<Rightarrow> u32 \<times> nat" where
  "node_block L start n = (start + of_nat (node_start (L + 3) n), node_size (L + 3) n)"

lemma node_inside:
  assumes "node_valid L n"
  shows "node_start (L + 3) n + node_size (L + 3) n \<le> 2 ^ (L + 3)" "4 \<le> L + 3 - fst n"
proof -
  have "Suc (snd n) * 2 ^ (L + 3 - fst n) \<le> 2 ^ fst n * 2 ^ (L + 3 - fst n)"
    using assms by (intro mult_right_mono) (simp_all add: node_valid_def)
  also have "\<dots> = 2 ^ (L + 3)"
    using assms by (simp add: node_valid_def flip: power_add)
  finally show "node_start (L + 3) n + node_size (L + 3) n \<le> 2 ^ (L + 3)"
    by (simp add: node_start_def node_size_def)
  show "4 \<le> L + 3 - fst n"
    using assms by (auto simp: node_valid_def)
qed

lemma node_block_range:
  assumes "buddy_ok W L b" "node_valid L n"
  shows "block_range (node_block L (buddy_heap_start b) n) = (+) (unat (buddy_heap_start b)) ` node_range (L + 3) n"
    and "unat (fst (node_block L (buddy_heap_start b) n)) = unat (buddy_heap_start b) + node_start (L + 3) n"
proof -
  have "unat (buddy_heap_start b) + node_start (L + 3) n < 2 ^ 32"
    using node_inside(1) [OF assms(2)] assms(1) by (simp add: buddy_ok_def)
  moreover have "buddy_heap_start b + of_nat (node_start (L + 3) n) = of_nat (unat (buddy_heap_start b) + node_start (L + 3) n)"
    by simp
  ultimately have "unat (buddy_heap_start b + of_nat (node_start (L + 3) n)) = unat (buddy_heap_start b) + node_start (L + 3) n"
    by (simp only: unat_of_nat) simp
  then show "unat (fst (node_block L (buddy_heap_start b) n)) = unat (buddy_heap_start b) + node_start (L + 3) n"
    and "block_range (node_block L (buddy_heap_start b) n) = (+) (unat (buddy_heap_start b)) ` node_range (L + 3) n"
    by (simp_all add: node_block_def block_range_def node_range_def ac_simps)
qed

text \<open>Blocks share a byte exactly when their nodes overlap.\<close>

lemma node_block_overlaps:
  assumes "buddy_ok W L b" "node_valid L n" "node_valid L m"
  shows "block_range (node_block L (buddy_heap_start b) n) \<inter> block_range (node_block L (buddy_heap_start b) m) \<noteq> {}
    \<longleftrightarrow> overlaps n m"
proof -
  have "((+) (unat (buddy_heap_start b)) ` node_range (L + 3) n) \<inter> ((+) (unat (buddy_heap_start b)) ` node_range (L + 3) m)
      = (+) (unat (buddy_heap_start b)) ` (node_range (L + 3) n \<inter> node_range (L + 3) m)"
    by (rule image_Int [symmetric]) simp
  then show ?thesis
    unfolding node_block_range(1) [OF assms(1,2)] node_block_range(1) [OF assms(1,3)]
    using node_range_overlaps [of n "L + 3" m] assms(2,3) by (simp add: node_valid_def)
qed

lemma node_block_inj:
  assumes "buddy_ok W L b" "node_valid L n" "node_valid L m"
    and "node_block L (buddy_heap_start b) n = node_block L (buddy_heap_start b) m"
  shows "n = m"
proof -
  have "node_size (L + 3) n = node_size (L + 3) m"
    using assms(4) by (simp add: node_block_def)
  then have l: "fst n = fst m"
    using assms(2,3) by (auto simp: node_size_def node_valid_def)
  have "node_start (L + 3) n = node_start (L + 3) m"
    using node_block_range(2) [OF assms(1,2)] node_block_range(2) [OF assms(1,3)] assms(4) by simp
  then show ?thesis
    using l by (simp add: node_start_def node_size_def prod_eq_iff)
qed

text \<open>The blocks of a pointer are the nodes above its leaf.\<close>

lemma covers_leaf:
  assumes "buddy_ok W L b" "node_valid L a" "unat p = unat (buddy_heap_start b) + off"
  shows "covers a (L - 1, off div 16) \<longleftrightarrow> unat p \<in> block_range (node_block L (buddy_heap_start b) a)"
proof -
  have L: "1 \<le> L" "fst a \<le> L - 1"
    using assms(2) by (auto simp: node_valid_def)
  then have "node_size (L + 3) (L - 1, off div 16) = 16"
    by (simp add: node_size_def)
  then have "off \<in> node_range (L + 3) (L - 1, off div 16)"
    by (simp add: node_range_index)
  then show ?thesis
    using node_range_covers [of a "(L - 1, off div 16)" "L + 3" off] L node_block_range(1) [OF assms(1,2)] assms(3) by auto
qed

text \<open>The owned blocks are the allocated nodes.\<close>

definition owns :: "nat \<Rightarrow> nat \<Rightarrow> buddy \<Rightarrow> (u32 \<times> nat) set \<Rightarrow> bool" where
  "owns W L b owned \<longleftrightarrow> (\<exists>A. bb.rep L W b A \<and> owned = node_block L (buddy_heap_start b) ` A)"

lemma block_order_le:
  assumes "block_order s q" "s \<le> 2 ^ (L + 3)" "6 \<le> L"
  shows "4 \<le> q" "q \<le> L + 3"
proof -
  show "4 \<le> q"
    using assms(1) by (simp add: block_order_def)
  have "2 ^ q < (2 :: nat) ^ (L + 4) \<or> q = 4"
    using assms(1,2) by (auto simp: block_order_def power_add)
  then show "q \<le> L + 3"
    using power_less_imp_less_exp [of "2 :: nat" q "L + 4"] assms(3) by auto
qed

text \<open>The slots of a size: the blocks at the multiples of it.\<close>

lemma slot_node:
  assumes "4 \<le> q" "q \<le> L + 3" "i < 2 ^ (L + 3 - q)"
  shows "node_valid L (L + 3 - q, i)" "node_block L start (L + 3 - q, i) = (start + of_nat (i * 2 ^ q), 2 ^ q)"
  using assms by (auto simp: node_valid_def node_block_def node_start_def node_size_def)

lemma owns_alloc:
  assumes "owns W L b owned" "0 < unat sz" "unat sz \<le> 2 ^ (L + 3)" "block_order (unat sz) q"
  obtains (found) i b' where "i < 2 ^ (L + 3 - q)" "buddy_alloc W sz b = Inr (buddy_heap_start b + of_nat (i * 2 ^ q), b')"
      "buddy_heap_start b + of_nat (i * 2 ^ q) \<noteq> 0" "same_heap L b b'"
      "owns W L b' (insert (buddy_heap_start b + of_nat (i * 2 ^ q), 2 ^ q) owned)"
      "\<And>x. x \<in> owned \<Longrightarrow> block_range (buddy_heap_start b + of_nat (i * 2 ^ q), 2 ^ q) \<inter> block_range x = {}"
    | (full) "buddy_alloc W sz b = Inr (0, b\<lparr>errno := ENOMEM\<rparr>)"
      "\<And>i. i < 2 ^ (L + 3 - q) \<Longrightarrow> \<exists>x \<in> owned. block_range (buddy_heap_start b + of_nat (i * 2 ^ q), 2 ^ q) \<inter> block_range x \<noteq> {}"
proof -
  obtain A where A: "bb.rep L W b A" "owned = node_block L (buddy_heap_start b) ` A"
    using assms(1) by (auto simp: owns_def)
  have ok: "buddy_ok W L b" and vA: "\<And>a. a \<in> A \<Longrightarrow> node_valid L a"
    using bb.rep_ok [OF A(1)] A(1) by (auto simp: bb.rep_def allocation_def)
  have q: "4 \<le> q" "q \<le> L + 3"
    using block_order_le [OF assms(4,3)] ok by (simp_all add: buddy_ok_def)
  have share: "block_range (buddy_heap_start b + of_nat (i * 2 ^ q), 2 ^ q) \<inter> block_range (node_block L (buddy_heap_start b) a) \<noteq> {}
      \<longleftrightarrow> overlaps (L + 3 - q, i) a" if "i < 2 ^ (L + 3 - q)" "a \<in> A" for i a
    using node_block_overlaps [OF ok slot_node(1) [OF q that(1)] vA [OF that(2)]] slot_node(2) [OF q that(1)] by simp
  from A(1) assms(2-4) show ?thesis
  proof (cases rule: safe_buddy_alloc_tree)
    case (found i b')
    let ?n = "(L + 3 - q, i)"
    note sn = slot_node [OF q found(1)]
    have st: "buddy_heap_start b' = buddy_heap_start b"
      using found(5) by (simp add: same_heap_def)
    have "unat (buddy_heap_start b + of_nat (i * 2 ^ q)) = unat (buddy_heap_start b) + node_start (L + 3) ?n"
      using node_block_range(2) [OF ok sn(1)] sn(2) by simp
    then have nz: "buddy_heap_start b + of_nat (i * 2 ^ q) \<noteq> 0"
      using heap_bounds(2) [OF ok] by (metis add_is_0 less_numeral_extra(3) unsigned_0)
    have "owns W L b' (insert (buddy_heap_start b + of_nat (i * 2 ^ q), 2 ^ q) owned)"
      unfolding owns_def A(2) st using found(3) sn(2) by (metis image_insert)
    moreover have "block_range (buddy_heap_start b + of_nat (i * 2 ^ q), 2 ^ q) \<inter> block_range x = {}" if "x \<in> owned" for x
      using that found(4) share [OF found(1)] unfolding A(2) by blast
    ultimately show ?thesis
      using that(1) [OF found(1) _ nz found(5)] found(2) unfolding buddy_alloc_def by blast
  next
    case full
    have "\<exists>x \<in> owned. block_range (buddy_heap_start b + of_nat (i * 2 ^ q), 2 ^ q) \<inter> block_range x \<noteq> {}"
      if "i < 2 ^ (L + 3 - q)" for i
      using full(2) [OF that] share [OF that] A(2) by blast
    then show ?thesis
      using that(2) full(1) by (simp add: buddy_alloc_def)
  qed
qed

lemma owns_free:
  assumes "owns W L b owned"
  obtains b' where "buddy_free W p b = Inr b'" "same_heap L b b'"
    "owns W L b' {x \<in> owned. \<not> (unat p mod 8 = 0 \<and> unat p \<in> block_range x)}"
proof -
  obtain A where A: "bb.rep L W b A" "owned = node_block L (buddy_heap_start b) ` A"
    using assms(1) by (auto simp: owns_def)
  have ok: "buddy_ok W L b" and vA: "\<And>a. a \<in> A \<Longrightarrow> node_valid L a"
    using bb.rep_ok [OF A(1)] A(1) by (auto simp: bb.rep_def allocation_def)
  show ?thesis
  proof (cases "heap_pointer_ok L b p")
    case True
    define off where "off = unat p - unat (buddy_heap_start b)"
    have p: "unat p = unat (buddy_heap_start b) + off" "unat p mod 8 = 0"
      using True by (simp_all add: heap_pointer_ok_def off_def)
    obtain b' where b': "safe_buddy_free W p b = Inr b'" "bb.rep L W b' {a \<in> A. \<not> covers a (L - 1, off div 16)}" "same_heap L b b'"
      using safe_buddy_free_tree [OF A(1) True] unfolding off_def by blast
    have "covers a (L - 1, off div 16) \<longleftrightarrow> unat p \<in> block_range (node_block L (buddy_heap_start b) a)" if "a \<in> A" for a
      by (rule covers_leaf [OF ok vA [OF that] p(1)])
    then have "{x \<in> owned. \<not> (unat p mod 8 = 0 \<and> unat p \<in> block_range x)}
        = node_block L (buddy_heap_start b) ` {a \<in> A. \<not> covers a (L - 1, off div 16)}"
      using p(2) A(2) by auto
    moreover have "buddy_heap_start b' = buddy_heap_start b"
      using b'(3) by (simp add: same_heap_def)
    ultimately have "owns W L b' {x \<in> owned. \<not> (unat p mod 8 = 0 \<and> unat p \<in> block_range x)}"
      using b'(2) unfolding owns_def by metis
    then show ?thesis
      using that b'(1,3) by (simp add: buddy_free_def)
  next
    case False
    have "\<not> (unat p mod 8 = 0 \<and> unat p \<in> block_range (node_block L (buddy_heap_start b) a))" if "a \<in> A" for a
      using False node_block_range(1) [OF ok vA [OF that]] node_inside(1) [OF vA [OF that]]
      by (auto simp: heap_pointer_ok_def node_range_def)
    then have "{x \<in> owned. \<not> (unat p mod 8 = 0 \<and> unat p \<in> block_range x)} = owned"
      using A(2) by auto
    moreover have "buddy_free W p b = Inr (b\<lparr>errno := EINVAL\<rparr>)"
      by (simp add: buddy_free_def safe_buddy_free_def search_for_pointer_code(1) [OF ok False])
    moreover have "owns W L (b\<lparr>errno := EINVAL\<rparr>) owned"
      using A by (auto simp: owns_def)
    ultimately show ?thesis
      using that by simp
  qed
qed

text \<open>Words that are not in the array do not matter to the allocator.\<close>

lemma owns_words:
  assumes "owns W L b owned"
    and w: "\<And>k. k < 2 ^ (L - 5) \<Longrightarrow> words m (buddy_blocks b + 4 * of_nat k) = words (buddy_wram b) (buddy_blocks b + 4 * of_nat k)"
  shows "owns W L (b\<lparr>buddy_wram := m\<rparr>) owned"
proof -
  let ?b = "b\<lparr>buddy_wram := m\<rparr>"
  obtain A where A: "bb.rep L W b A" "owned = node_block L (buddy_heap_start b) ` A"
    using assms(1) by (auto simp: owns_def)
  have ok: "buddy_ok W L b"
    by (rule bb.rep_ok [OF A(1)])
  have "buddy_ok W L ?b"
    using ok w [of 0] by (simp add: buddy_ok_def)
  moreover have "block_free n ?b = block_free n b" if "node_valid L n" for n
    using w [OF node_word_less [OF that]] ok by (simp add: block_free_def block_word_def buddy_ok_def)
  ultimately have "bb.rep L W ?b A"
    using A(1) by (simp add: bb.rep_def)
  then show ?thesis
    using A(2) by (auto simp: owns_def)
qed

lemma array_below_heap:
  assumes "buddy_ok W L b" "k < 2 ^ (L - 5)"
  shows "unat (buddy_blocks b) \<le> unat (buddy_blocks b + 4 * of_nat k)" "unat (buddy_blocks b + 4 * of_nat k) + 4 \<le> unat (buddy_heap_start b)"
  using block_address(1) [OF assms] assms by (auto simp: buddy_ok_def)

lemma owns_write:
  fixes v :: u32
  assumes "owns W L b owned" "x \<in> owned" "unat a \<in> block_range x"
  shows "owns W L (b\<lparr>buddy_wram := (buddy_wram b)\<lparr>words := (words (buddy_wram b))(a := v)\<rparr>\<rparr>) owned"
proof (rule owns_words [OF assms(1)])
  obtain A where A: "bb.rep L W b A" "owned = node_block L (buddy_heap_start b) ` A"
    using assms(1) by (auto simp: owns_def)
  have ok: "buddy_ok W L b" and vA: "\<And>a. a \<in> A \<Longrightarrow> node_valid L a"
    using bb.rep_ok [OF A(1)] A(1) by (auto simp: bb.rep_def allocation_def)
  obtain n where n: "n \<in> A" "x = node_block L (buddy_heap_start b) n"
    using assms(2) A(2) by auto
  have "unat (buddy_heap_start b) \<le> unat a"
    using assms(3) node_block_range(1) [OF ok vA [OF n(1)]] n(2) by auto
  then have "buddy_blocks b + 4 * of_nat k \<noteq> a" if "k < 2 ^ (L - 5)" for k
    using array_below_heap(2) [OF ok that] by auto
  then show "words ((buddy_wram b)\<lparr>words := (words (buddy_wram b))(a := v)\<rparr>) (buddy_blocks b + 4 * of_nat k)
      = words (buddy_wram b) (buddy_blocks b + 4 * of_nat k)" if "k < 2 ^ (L - 5)" for k
    using that by simp
qed

lemma owns_reset:
  assumes "owns W L b owned"
  obtains b' where "buddy_reset W b = Inr b'" "same_heap L b b'" "owns W L b' {}"
proof -
  have ok: "buddy_ok W L b"
    using assms bb.rep_ok by (auto simp: owns_def)
  have "buddy_ok W L (set_block_word 0 0x7FFFFFFF b)"
    using free_words(2) [of 31] by (intro buddy_ok_set [OF ok]) simp_all
  moreover have "word_ok W (buddy_blocks b)"
    using block_address(2) [OF ok, of 0] by simp
  ultimately show ?thesis
    using clear_buddy_blocks_tree that unfolding buddy_reset_def owns_def by (metis image_empty)
qed

lemma buddy_run_owns:
  assumes "buddy_run W b0 b owned" "bb.rep L W b0 {}"
  shows "owns W L b owned \<and> buddy_heap_start b = buddy_heap_start b0"
  using assms(1)
proof induction
  case buddy_run_start
  show ?case
    using assms(2) by (auto simp: owns_def)
next
  case (buddy_run_alloc b owned sz p b' q)
  have "sz \<noteq> 0 \<and> \<not> BUDDY_SIZE_OF_HEAP b < sz"
    using buddy_run_alloc.hyps(2,3) by (auto simp: buddy_alloc_def safe_buddy_alloc_def split: if_splits)
  moreover have "unat (BUDDY_SIZE_OF_HEAP b) = 2 ^ (L + 3)"
    using buddy_run_alloc.IH bb.rep_ok by (auto simp: owns_def buddy_ok_def)
  ultimately have sz: "0 < unat sz" "unat sz \<le> 2 ^ (L + 3)"
    by (auto simp: unat_gt_0 word_less_nat_alt)
  from conjunct1 [OF buddy_run_alloc.IH] sz buddy_run_alloc.hyps(4) show ?case
  proof (cases rule: owns_alloc)
    case (found i b1)
    then show ?thesis
      using buddy_run_alloc by (auto simp: same_heap_def)
  next
    case full
    then show ?thesis
      using buddy_run_alloc.hyps(2,3) by simp
  qed
next
  case (buddy_run_alloc_failed b owned sz b')
  have ok: "buddy_ok W L b"
    using buddy_run_alloc_failed.IH bb.rep_ok by (auto simp: owns_def)
  have "b' = b\<lparr>errno := errno b'\<rparr>"
  proof (cases "sz = 0 \<or> sz > BUDDY_SIZE_OF_HEAP b")
    case True
    then show ?thesis
      using buddy_run_alloc_failed.hyps(2) by (auto simp: buddy_alloc_def safe_buddy_alloc_def)
  next
    case False
    then have sz: "0 < unat sz" "unat sz \<le> 2 ^ (L + 3)"
      using ok by (auto simp: unat_gt_0 word_less_nat_alt buddy_ok_def)
    obtain q where q: "block_order (unat sz) q"
      using safe_buddy_alloc_level [OF ok sz] by blast
    from conjunct1 [OF buddy_run_alloc_failed.IH] sz q show ?thesis
      using buddy_run_alloc_failed.hyps(2) by (cases rule: owns_alloc) auto
  qed
  then show ?case
    using buddy_run_alloc_failed.IH unfolding owns_def by (metis rep_errno buddy.select_convs(5) buddy.surjective buddy.update_convs(2))
next
  case (buddy_run_free b owned p b')
  obtain b1 where "buddy_free W p b = Inr b1" "same_heap L b b1" "owns W L b1 {x \<in> owned. \<not> (unat p mod 8 = 0 \<and> unat p \<in> block_range x)}"
    using owns_free buddy_run_free.IH by blast
  then show ?case
    using buddy_run_free by (simp add: same_heap_def)
next
  case (buddy_run_write b owned x a v)
  then show ?case
    using owns_write [of W L b owned x a v] by simp
next
  case (buddy_run_reset b owned b')
  obtain b1 where "buddy_reset W b = Inr b1" "same_heap L b b1" "owns W L b1 {}"
    using owns_reset buddy_run_reset.IH by blast
  then show ?case
    using buddy_run_reset by (simp add: same_heap_def)
qed

lemma owns_disjoint:
  assumes "owns W L b owned"
  shows "x \<in> owned \<Longrightarrow> block_range x \<subseteq> {unat (buddy_heap_start b)..<unat (buddy_heap_start b) + 2 ^ (L + 3)}"
    and "x \<in> owned \<Longrightarrow> unat (fst x) mod 8 = 0"
    and "\<lbrakk>x \<in> owned; y \<in> owned; x \<noteq> y\<rbrakk> \<Longrightarrow> block_range x \<inter> block_range y = {}"
proof -
  obtain A where A: "bb.rep L W b A" "owned = node_block L (buddy_heap_start b) ` A"
    using assms(1) by (auto simp: owns_def)
  have ok: "buddy_ok W L b" and al: "allocation L A"
    using bb.rep_ok [OF A(1)] A(1) by (simp_all add: bb.rep_def)
  then have vA: "\<And>a. a \<in> A \<Longrightarrow> node_valid L a"
    by (simp add: allocation_def)
  show "block_range x \<subseteq> {unat (buddy_heap_start b)..<unat (buddy_heap_start b) + 2 ^ (L + 3)}" if x: "x \<in> owned"
  proof -
    obtain n where n: "n \<in> A" "x = node_block L (buddy_heap_start b) n"
      using x A(2) by auto
    show ?thesis
      using node_inside(1) [OF vA [OF n(1)]] unfolding n(2) node_block_range(1) [OF ok vA [OF n(1)]] node_range_def by auto
  qed
  show "unat (fst x) mod 8 = 0" if x: "x \<in> owned"
  proof -
    obtain n where n: "n \<in> A" "x = node_block L (buddy_heap_start b) n"
      using x A(2) by auto
    have "8 dvd node_size (L + 3) n"
      using node_inside(2) [OF vA [OF n(1)]] le_imp_power_dvd [of 3 "L + 3 - fst n" "2 :: nat"] by (simp add: node_size_def)
    then have "8 dvd node_start (L + 3) n"
      by (simp add: node_start_def)
    moreover have "(2 :: nat) ^ 1 dvd 2 ^ (L - 5)"
      using ok by (intro le_imp_power_dvd) (auto simp: buddy_ok_def)
    then have "8 dvd 4 * (2 :: nat) ^ (L - 5)"
      using mult_dvd_mono [of 4 "4 :: nat" "2 ^ 1" "2 ^ (L - 5)"] by simp
    then have "8 dvd unat (buddy_heap_start b)"
      using ok by (auto simp: buddy_ok_def intro!: dvd_add)
    ultimately show ?thesis
      unfolding n(2) node_block_range(2) [OF ok vA [OF n(1)]] by simp
  qed
  show "block_range x \<inter> block_range y = {}" if xy: "x \<in> owned" "y \<in> owned" "x \<noteq> y"
  proof -
    obtain n m where n: "n \<in> A" "x = node_block L (buddy_heap_start b) n" and m: "m \<in> A" "y = node_block L (buddy_heap_start b) m"
      using xy A(2) by auto
    then have "\<not> overlaps n m"
      using al xy(3) by (auto simp: allocation_def overlaps_def)
    then show ?thesis
      using node_block_overlaps [OF ok vA [OF n(1)] vA [OF m(1)]] n(2) m(2) by simp
  qed
qed

section \<open>Properties\<close>

text \<open>No block of \<open>2 ^ q\<close> bytes is free.\<close>

definition no_room :: "u32 \<Rightarrow> nat \<Rightarrow> nat \<Rightarrow> (u32 \<times> nat) set \<Rightarrow> bool" where
  "no_room start n q owned \<longleftrightarrow>
     (\<forall>i < 2 ^ (n - q). \<exists>x \<in> owned. block_range (start + of_nat (i * 2 ^ q), 2 ^ q) \<inter> block_range x \<noteq> {})"

lemma owns_alloc_returns:
  assumes "owns W L b owned" "0 < unat sz" "unat sz \<le> 2 ^ (L + 3)" "block_order (unat sz) q"
  shows "\<exists>p b2. buddy_alloc W sz b = Inr (p, b2) \<and> (p = 0 \<longleftrightarrow> no_room (buddy_heap_start b) (L + 3) q owned)
    \<and> (p \<noteq> 0 \<longrightarrow> (\<forall>x \<in> owned. block_range (p, 2 ^ q) \<inter> block_range x = {}))"
  using assms
proof (cases rule: owns_alloc)
  case (found i b')
  then have "\<not> no_room (buddy_heap_start b) (L + 3) q owned"
    unfolding no_room_def by blast
  then show ?thesis
    using found(2,3,6) by blast
next
  case full
  then have "no_room (buddy_heap_start b) (L + 3) q owned"
    by (simp add: no_room_def)
  then show ?thesis
    using full(1) by blast
qed

text \<open>
  C35: The buddy allocator. For a heap of \<open>2 ^ n\<close> bytes that fits into WRAM, after any sequence of allocations, releases of any
  pointer, writes inside owned blocks and resets: the owned blocks are inside the heap, aligned on 8 bytes, and do not overlap. A
  request that is not larger than the heap returns; it returns NULL exactly when every block of the smallest power of two
  for it (at least 16) overlaps an owned block, and otherwise a block of that size that overlaps none. A release returns.
\<close>

theorem buddy_blocks_have_one_owner:
  assumes "buddy_fits W n b"
  shows "\<exists>b0. buddy_init W (2 ^ n) b = Inr b0 \<and> (\<forall>b1 owned. buddy_run W b0 b1 owned \<longrightarrow>
      (\<forall>x \<in> owned. block_range x \<subseteq> {unat (buddy_heap_start b0)..<unat (buddy_heap_start b0) + 2 ^ n} \<and> unat (fst x) mod 8 = 0)
    \<and> (\<forall>x \<in> owned. \<forall>y \<in> owned. x \<noteq> y \<longrightarrow> block_range x \<inter> block_range y = {})
    \<and> (\<forall>sz q. 0 < unat sz \<and> unat sz \<le> 2 ^ n \<and> block_order (unat sz) q \<longrightarrow>
         (\<exists>p b2. buddy_alloc W sz b1 = Inr (p, b2) \<and> (p = 0 \<longleftrightarrow> no_room (buddy_heap_start b0) n q owned)
           \<and> (p \<noteq> 0 \<longrightarrow> (\<forall>x \<in> owned. block_range (p, 2 ^ q) \<inter> block_range x = {}))))
    \<and> (\<forall>p. \<exists>b2. buddy_free W p b1 = Inr b2))"
proof -
  obtain b0 where b0: "buddy_init W (2 ^ n) b = Inr b0" "bb.rep (n - 3) W b0 {}"
    using buddy_init_tree [OF assms] by blast
  have n: "n - 3 + 3 = n"
    using assms by (simp add: buddy_fits_def)
  have own: "owns W (n - 3) b1 owned" and st: "buddy_heap_start b1 = buddy_heap_start b0" if "buddy_run W b0 b1 owned" for b1 owned
    using buddy_run_owns [OF that b0(2)] by simp_all
  note dis = owns_disjoint [OF own, unfolded n st] and alloc = owns_alloc_returns [OF own, unfolded n st]
  have free: "\<exists>b2. buddy_free W p b1 = Inr b2" if "buddy_run W b0 b1 owned" for b1 owned p
    using owns_free [OF own [OF that]] by blast
  show ?thesis
    by (rule exI [of _ b0], intro conjI allI impI ballI) (use b0(1) dis alloc free in \<open>simp_all add: st\<close>)
qed

theorem buddy_blocks_have_one_owner_witness:
  "\<exists>b0. buddy_init 65536 (2 ^ 12) \<lparr>buddy_wram = \<lparr>heap_pointer = 4097, words = (\<lambda>_. 0)\<rparr>, errno = 0, buddy_init_done = 0,
       buddy_blocks = 0, buddy_heap_start = 0, BUDDY_SIZE_OF_HEAP = 0, BUDDY_MAX_POWER = 0, BUDDY_NUMBER_OF_LEVELS = 0\<rparr> = Inr b0
     \<and> (\<exists>p b2. buddy_alloc 65536 33 b0 = Inr (p, b2) \<and> p \<noteq> 0)"
proof -
  have fits: "buddy_fits 65536 12 \<lparr>buddy_wram = \<lparr>heap_pointer = 4097, words = (\<lambda>_. 0)\<rparr>, errno = 0, buddy_init_done = 0,
       buddy_blocks = 0, buddy_heap_start = 0, BUDDY_SIZE_OF_HEAP = 0, BUDDY_MAX_POWER = 0, BUDDY_NUMBER_OF_LEVELS = 0\<rparr>"
    by (simp add: buddy_fits_def)
  have order: "0 < unat (33 :: u32) \<and> unat (33 :: u32) \<le> 2 ^ 12 \<and> block_order (unat (33 :: u32)) 6"
    by (simp add: block_order_def)
  have room: "\<not> no_room start 12 6 {}" for start
    by (auto simp: no_room_def intro: exI [of _ 0])
  from buddy_blocks_have_one_owner [OF fits] show ?thesis
    apply (elim exE conjE)
    subgoal premises p for b0
      using p(1) p(2) [rule_format, OF buddy_run_start, THEN conjunct2, THEN conjunct2, THEN conjunct1, rule_format, OF order] room by blast
    done
qed

end
