(* ===== verification/MemCopy.thy ===== *)
theory MemCopy
  imports Bytes
begin

text \<open>
  Copies inside WRAM (\<^verbatim>\<open>dpu-rt/src/stdlib/memcpy.c\<close>, \<^verbatim>\<open>memmove.c\<close>, \<^verbatim>\<open>memset.c\<close>, \<^verbatim>\<open>memcmp.c\<close>): bytes up to a
  word boundary, then words, then the bytes that are left. The memory is a function from addresses to bytes; a word is four
  bytes that are read, or written, at once. The model is that of calls whose ranges lie in WRAM: an access outside stops
  the DPU. The variants for MRAM (\<^verbatim>\<open>__memcpy_mw\<close> and so on) are not modelled.
\<close>

section \<open>memcpy\<close>

text \<open>The loops \<^verbatim>\<open>d[i] = s[i]\<close> for bytes and \<^verbatim>\<open>dw[i] = sw[i]\<close> for words, with \<open>n\<close> iterations left.\<close>

fun copy_bytes :: "nat \<Rightarrow> u32 \<Rightarrow> u32 \<Rightarrow> (u32 \<Rightarrow> u8) \<Rightarrow> u32 \<Rightarrow> u8" where
  "copy_bytes 0 d s m = m"
| "copy_bytes (Suc n) d s m = copy_bytes n (d + 1) (s + 1) (m(d := m s))"

fun memcpy_words :: "nat \<Rightarrow> u32 \<Rightarrow> u32 \<Rightarrow> (u32 \<Rightarrow> u8) \<Rightarrow> u32 \<Rightarrow> u8" where
  "memcpy_words 0 dw sw m = m"
| "memcpy_words (Suc n) dw sw m = memcpy_words n (dw + 4) (sw + 4) (write_bytes m dw (read_bytes m sw 4))"

definition memcpy_wram_4align :: "u32 \<Rightarrow> u32 \<Rightarrow> u32 \<Rightarrow> (u32 \<Rightarrow> u8) \<Rightarrow> u32 \<Rightarrow> u8" where
  "memcpy_wram_4align dest src len m = memcpy_words (unat len div 4) dest src m"

definition memcpy :: "u32 \<Rightarrow> u32 \<Rightarrow> u32 \<Rightarrow> (u32 \<Rightarrow> u8) \<Rightarrow> u32 \<Rightarrow> u8" where
  "memcpy dest src len m =
     (let tail = dest + len;
          body = tail AND NOT 3;
          head = (if dest AND 3 \<noteq> src AND 3 then tail
                  else if tail < (dest + 3) AND NOT 3 then tail
                  else (dest + 3) AND NOT 3);
          head_len = head - dest;
          m = copy_bytes (unat head_len) dest src m;
          dw = dest + head_len;
          sw = src + head_len;
          body_len = (if body < dw then 0 else (body - dw) div 4);
          m = memcpy_wram_4align dw sw (body_len * 4) m;
          d = dw + 4 * body_len;
          s = sw + 4 * body_len;
          tail_len = tail - d
      in copy_bytes (unat tail_len) d s m)"

section \<open>memmove\<close>

text \<open>The loops that count down: the bytes and words in front of \<^verbatim>\<open>d\<close> and \<^verbatim>\<open>s\<close>.\<close>

fun copy_bytes_down :: "nat \<Rightarrow> u32 \<Rightarrow> u32 \<Rightarrow> (u32 \<Rightarrow> u8) \<Rightarrow> u32 \<Rightarrow> u8" where
  "copy_bytes_down 0 d s m = m"
| "copy_bytes_down (Suc n) d s m = copy_bytes_down n (d - 1) (s - 1) (m(d - 1 := m (s - 1)))"

fun copy_words_down :: "nat \<Rightarrow> u32 \<Rightarrow> u32 \<Rightarrow> (u32 \<Rightarrow> u8) \<Rightarrow> u32 \<Rightarrow> u8" where
  "copy_words_down 0 dw sw m = m"
| "copy_words_down (Suc n) dw sw m =
     copy_words_down n (dw - 4) (sw - 4) (write_bytes m (dw - 4) (read_bytes m (sw - 4) 4))"

text \<open>The rounds of \<^verbatim>\<open>for (int32_t i = n - 1; i >= 0; --i)\<close>: none when the first value is negative.\<close>

definition rounds_down :: "u32 \<Rightarrow> nat" where
  "rounds_down n = (if sint (n - 1) \<ge> 0 then unat n else 0)"

definition memmove :: "u32 \<Rightarrow> u32 \<Rightarrow> u32 \<Rightarrow> (u32 \<Rightarrow> u8) \<Rightarrow> u32 \<Rightarrow> u8" where
  "memmove dest src len m =
     (if dest \<le> src \<or> dest \<ge> src + len then memcpy dest src len m
      else let d = dest + len;
               s = src + len;
               tail = dest;
               body = (tail + 3) AND NOT 3;
               head = (if dest AND 3 \<noteq> src AND 3 then tail
                       else if tail > d AND NOT 3 then tail
                       else d AND NOT 3);
               head_len = d - head;
               m = copy_bytes_down (rounds_down head_len) d s m;
               dw = d - head_len;
               sw = s - head_len;
               body_len = (if dw < body then 0 else (dw - body) div 4);
               m = copy_words_down (rounds_down body_len) dw sw m;
               d = dw - 4 * body_len;
               s = sw - 4 * body_len;
               tail_len = d - tail
           in copy_bytes_down (rounds_down tail_len) d s m)"

section \<open>memset and memcmp\<close>

fun memset_wram_1align :: "nat \<Rightarrow> u32 \<Rightarrow> u8 \<Rightarrow> (u32 \<Rightarrow> u8) \<Rightarrow> u32 \<Rightarrow> u8" where
  "memset_wram_1align 0 d c m = m"
| "memset_wram_1align (Suc n) d c m = memset_wram_1align n (d + 1) c (m(d := c))"

text \<open>The four bytes of the word \<^verbatim>\<open>c | (c << 8) | (c << 16) | (c << 24)\<close> are \<^verbatim>\<open>c\<close>.\<close>

fun memset_wram_4align :: "nat \<Rightarrow> u32 \<Rightarrow> u8 \<Rightarrow> (u32 \<Rightarrow> u8) \<Rightarrow> u32 \<Rightarrow> u8" where
  "memset_wram_4align 0 d c m = m"
| "memset_wram_4align (Suc n) d c m = memset_wram_4align n (d + 4) c (write_bytes m d [c, c, c, c])"

definition memset :: "u32 \<Rightarrow> u8 \<Rightarrow> u32 \<Rightarrow> (u32 \<Rightarrow> u8) \<Rightarrow> u32 \<Rightarrow> u8" where
  "memset dest c len m =
     (let align_offset = dest AND 3;
          (d, len, m) = (if align_offset \<noteq> 0
            then let head_len = 4 - align_offset;
                     head_len = (if head_len > len then len else head_len)
                 in (dest + head_len, len - head_len, memset_wram_1align (unat head_len) dest c m)
            else (dest, len, m));
          (d, len, m) = (if len \<ge> 4
            then let body_len = len AND NOT 3
                 in (d + body_len, len - body_len, memset_wram_4align (unat body_len div 4) d c m)
            else (d, len, m))
      in if len > 0 then memset_wram_1align (unat len) d c m else m)"

fun memcmp :: "u32 \<Rightarrow> u32 \<Rightarrow> nat \<Rightarrow> (u32 \<Rightarrow> u8) \<Rightarrow> int" where
  "memcmp area1 area2 0 m = 0"
| "memcmp area1 area2 (Suc n) m =
     (let diff = uint (m area1) - uint (m area2)
      in if diff \<noteq> 0 then diff else memcmp (area1 + 1) (area2 + 1) n m)"

section \<open>Moving a range\<close>

text \<open>What the copies are meant to do: all the bytes are read before the first one is written.\<close>

definition move :: "u32 \<Rightarrow> u32 \<Rightarrow> nat \<Rightarrow> (u32 \<Rightarrow> u8) \<Rightarrow> u32 \<Rightarrow> u8" where
  "move d s n m = write_bytes m d (read_bytes m s n)"

lemma move_0 [simp]: "move d s 0 m = m"
  by (simp add: move_def read_bytes_def)

lemma move_1: "move d s 1 m = m(d := m s)"
  by (auto simp: move_def read_bytes_def write_bytes_def fun_eq_iff unat_eq_zero)

text \<open>A range may be moved in two steps, from its start or from its end, when the second step reads nothing that the first one wrote.\<close>

lemma move_up:
  assumes "disjoint_ranges d k (s + of_nat k) n" "k + n < 2 ^ 32"
  shows "move (d + of_nat k) (s + of_nat k) n (move d s k m) = move d s (k + n) m"
proof -
  have "read_bytes (write_bytes m d (read_bytes m s k)) (s + of_nat k) n = read_bytes m (s + of_nat k) n"
    using assms by (intro read_write_disjoint) simp_all
  then show ?thesis
    using write_bytes_append [of "read_bytes m s k" "read_bytes m (s + of_nat k) n" m d] assms(2)
    by (simp add: move_def read_bytes_add)
qed

lemma move_down:
  assumes "disjoint_ranges (d + of_nat k) n s k" "k + n < 2 ^ 32"
  shows "move d s k (move (d + of_nat k) (s + of_nat k) n m) = move d s (k + n) m"
proof -
  let ?hi = "read_bytes m (s + of_nat k) n" and ?lo = "read_bytes m s k"
  have "read_bytes (write_bytes m (d + of_nat k) ?hi) s k = ?lo"
    using assms by (intro read_write_disjoint) simp_all
  moreover have "disjoint_ranges (d + of_nat k) (length ?hi) d (length ?lo)"
    using disjoint_ranges_offsets [of k n 0 k d] assms(2) by simp
  ultimately show ?thesis
    using write_bytes_append [of ?lo ?hi m d] assms(2) write_write_disjoint [of "d + of_nat k" ?hi d ?lo m]
    by (simp add: move_def read_bytes_add)
qed

section \<open>Copies upwards\<close>

text \<open>The ranges do not wrap around, and the destination does not start inside the source.\<close>

definition upwards :: "u32 \<Rightarrow> u32 \<Rightarrow> nat \<Rightarrow> bool" where
  "upwards d s n \<longleftrightarrow> unat d + n < 2 ^ 32 \<and> unat s + n < 2 ^ 32 \<and> (unat d \<le> unat s \<or> unat s + n \<le> unat d)"

lemma unat_plus_of_nat:
  fixes x :: u32
  assumes "unat x + k < 2 ^ 32"
  shows "unat (x + of_nat k) = unat x + k"
proof -
  have "x + of_nat k = of_nat (unat x + k)"
    by simp
  then show ?thesis
    using assms by (simp only: unat_of_nat) simp
qed

lemma disjoint_no_wrap:
  fixes a b :: u32
  assumes "unat a + k \<le> unat b \<or> unat b + n \<le> unat a" "unat a + k \<le> 2 ^ 32" "unat b + n \<le> 2 ^ 32"
  shows "disjoint_ranges a k b n"
  using disjoint_ranges_offsets [of "unat a" k "unat b" n "0 :: u32"] assms by simp

lemma upwards_split:
  assumes "upwards d s (k + n)"
  shows "upwards d s k" "upwards (d + of_nat k) (s + of_nat k) n"
    and "move (d + of_nat k) (s + of_nat k) n (move d s k m) = move d s (k + n) m"
proof -
  have u: "unat (d + of_nat k) = unat d + k" "unat (s + of_nat k) = unat s + k"
    using assms by (auto simp: upwards_def intro!: unat_plus_of_nat)
  show "upwards d s k" "upwards (d + of_nat k) (s + of_nat k) n"
    using assms by (auto simp: upwards_def u)
  have "disjoint_ranges d k (s + of_nat k) n"
    using assms by (intro disjoint_no_wrap) (auto simp: upwards_def u)
  then show "move (d + of_nat k) (s + of_nat k) n (move d s k m) = move d s (k + n) m"
    using assms by (intro move_up) (auto simp: upwards_def)
qed

lemma copy_bytes_move: "upwards d s n \<Longrightarrow> copy_bytes n d s m = move d s n m"
proof (induction n arbitrary: d s m)
  case (Suc n)
  then have "upwards d s (1 + n)"
    by simp
  note sp = upwards_split [OF this]
  have "copy_bytes n (d + 1) (s + 1) (move d s 1 m) = move (d + 1) (s + 1) n (move d s 1 m)"
    using sp(2) by (intro Suc.IH) simp
  then show ?case
    using sp(3) [of m] by (simp add: move_1 [unfolded One_nat_def])
qed simp

lemma memcpy_words_move: "upwards d s (4 * n) \<Longrightarrow> memcpy_words n d s m = move d s (4 * n) m"
proof (induction n arbitrary: d s m)
  case (Suc n)
  then have "upwards d s (4 + 4 * n)"
    by simp
  note sp = upwards_split [OF this]
  show ?case
    using Suc.IH [of "d + 4" "s + 4" "move d s 4 m"] sp(2) sp(3) [of m] by (simp add: move_def)
qed simp

text \<open>Rounding to words.\<close>

lemma unat_round_down: "unat (x AND NOT 3 :: u32) = unat x div 4 * 4"
proof -
  have "x AND NOT 3 = x - (x AND 3)"
    by (metis add_diff_cancel_left' and_not_split)
  moreover have "unat (x AND 3) = unat x mod 4"
  proof -
    have "x AND 3 = take_bit 2 x"
      by (simp add: take_bit_eq_mask mask_eq_exp_minus_1)
    then show ?thesis
      by (simp only: unsigned_take_bit_eq) (simp add: take_bit_eq_mod)
  qed
  ultimately show ?thesis
    by (simp add: unat_sub word_le_nat_alt minus_mod_eq_div_mult)
qed

lemma unat_and_minus_4: "unat (x AND - 4 :: u32) = unat x div 4 * 4"
  using unat_round_down [of x] by simp

lemma memcpy_moves:
  assumes up: "upwards dest src (unat len)" and top: "unat dest + unat len + 3 < 2 ^ 32"
  shows "memcpy dest src len m = move dest src (unat len) m"
proof -
  define tl where "tl = dest + len"
  define hd where "hd = (if dest AND 3 \<noteq> src AND 3 then tl else if tl < (dest + 3) AND NOT 3 then tl else (dest + 3) AND NOT 3)"
  define h where "h = unat (hd - dest)"
  define dw sw where "dw = dest + (hd - dest)" and "sw = src + (hd - dest)"
  define bl where "bl = (if tl AND NOT 3 < dw then 0 else ((tl AND NOT 3) - dw) div 4)"
  have t: "unat tl = unat dest + unat len"
    using top by (simp add: tl_def unat_word_ariths)
  have "unat (dest + 3) = unat dest + 3"
    using top by (simp add: unat_word_ariths)
  then have r: "unat ((dest + 3) AND NOT 3) = (unat dest + 3) div 4 * 4"
    by (simp only: unat_round_down)
  have hd: "unat dest \<le> unat hd" "unat hd \<le> unat tl"
    using t r by (auto simp: hd_def word_less_nat_alt)
  then have h: "h = unat hd - unat dest"
    unfolding h_def by (intro unat_sub) (simp add: word_le_nat_alt)
  have dw: "dw = hd" "dw = dest + of_nat h" "sw = src + of_nat h"
    by (simp_all add: dw_def sw_def h_def)
  have b: "4 * unat bl \<le> unat tl - unat hd" "unat (bl * 4) = 4 * unat bl"
  proof -
    show le: "4 * unat bl \<le> unat tl - unat hd"
    proof (cases "tl AND NOT 3 < dw")
      case False
      then have "unat ((tl AND NOT 3) - dw) = unat tl div 4 * 4 - unat hd"
        unfolding dw(1) by (subst unat_sub) (simp_all add: word_le_nat_alt word_less_nat_alt unat_and_minus_4)
      then have "unat bl = (unat tl div 4 * 4 - unat hd) div 4"
        using False by (simp add: bl_def unat_div)
      then have "4 * unat bl \<le> unat tl div 4 * 4 - unat hd"
        by (simp add: mult.commute)
      moreover have "unat tl div 4 * 4 \<le> unat tl"
        by simp
      ultimately show ?thesis
        by linarith
    qed (simp add: bl_def)
    have "4 * unat bl < 2 ^ 32"
      using le t top by linarith
    then show "unat (bl * 4) = 4 * unat bl"
      by (simp add: unat_word_ariths mult.commute)
  qed
  define tn where "tn = unat len - (h + 4 * unat bl)"
  have len: "unat len = h + (4 * unat bl + tn)"
    using b(1) t hd h by (simp add: tn_def)
  have d4: "dw + 4 * bl = dw + of_nat (4 * unat bl)" "sw + 4 * bl = sw + of_nat (4 * unat bl)"
    by simp_all
  have "unat (dw + 4 * bl) = unat hd + 4 * unat bl"
    unfolding d4 using b(1) hd t top by (subst unat_plus_of_nat) (simp_all add: dw(1))
  then have tlen: "unat (tl - (dw + 4 * bl)) = tn"
    using b(1) hd h t by (subst unat_sub) (simp_all add: word_le_nat_alt tn_def)
  have up1: "upwards dest src (h + (4 * unat bl + tn))"
    using up len by simp
  note s1 = upwards_split [OF up1, folded dw(2,3)]
  note s2 = upwards_split [OF s1(2), folded d4]
  have "memcpy dest src len m = copy_bytes tn (dw + 4 * bl) (sw + 4 * bl) (memcpy_words (unat bl) dw sw (copy_bytes h dest src m))"
    unfolding memcpy_def Let_def memcpy_wram_4align_def tl_def [symmetric] hd_def [symmetric] h_def [symmetric]
      dw_def [symmetric] sw_def [symmetric] bl_def [symmetric] b(2) tlen by simp
  also have "\<dots> = move dest src (h + (4 * unat bl + tn)) m"
    using s1 s2 by (simp add: copy_bytes_move memcpy_words_move)
  finally show ?thesis
    using len by simp
qed

section \<open>Copies downwards\<close>

text \<open>The ranges do not wrap around, and the source does not start above the destination.\<close>

definition downwards :: "u32 \<Rightarrow> u32 \<Rightarrow> nat \<Rightarrow> bool" where
  "downwards d s n \<longleftrightarrow> unat d + n < 2 ^ 32 \<and> unat s \<le> unat d"

lemma downwards_split:
  assumes "downwards d s (k + n)"
  shows "downwards d s k" "downwards (d + of_nat k) (s + of_nat k) n"
    and "move d s k (move (d + of_nat k) (s + of_nat k) n m) = move d s (k + n) m"
proof -
  have u: "unat (d + of_nat k) = unat d + k" "unat (s + of_nat k) = unat s + k"
    using assms by (auto simp: downwards_def intro!: unat_plus_of_nat)
  show "downwards d s k" "downwards (d + of_nat k) (s + of_nat k) n"
    using assms by (auto simp: downwards_def u)
  have "disjoint_ranges (d + of_nat k) n s k"
    using assms by (intro disjoint_no_wrap) (auto simp: downwards_def u)
  then show "move d s k (move (d + of_nat k) (s + of_nat k) n m) = move d s (k + n) m"
    using assms by (intro move_down) (auto simp: downwards_def)
qed

lemma copy_bytes_down_move:
  "downwards d s n \<Longrightarrow> copy_bytes_down n (d + of_nat n) (s + of_nat n) m = move d s n m"
proof (induction n arbitrary: m)
  case (Suc n)
  then have "downwards d s (n + 1)"
    by simp
  note sp = downwards_split [OF this]
  have "copy_bytes_down n (d + of_nat n) (s + of_nat n) (move (d + of_nat n) (s + of_nat n) 1 m)
      = move d s n (move (d + of_nat n) (s + of_nat n) 1 m)"
    by (rule Suc.IH [OF sp(1)])
  then show ?case
    using sp(3) [of m] by (simp add: move_1 [unfolded One_nat_def] add.assoc [symmetric])
qed simp

lemma copy_words_down_move:
  "downwards d s (4 * n) \<Longrightarrow> copy_words_down n (d + of_nat (4 * n)) (s + of_nat (4 * n)) m = move d s (4 * n) m"
proof (induction n arbitrary: m)
  case (Suc n)
  then have "downwards d s (4 * n + 4)"
    by (simp add: add.commute)
  note sp = downwards_split [OF this]
  have "copy_words_down n (d + of_nat (4 * n)) (s + of_nat (4 * n)) (move (d + of_nat (4 * n)) (s + of_nat (4 * n)) 4 m)
      = move d s (4 * n) (move (d + of_nat (4 * n)) (s + of_nat (4 * n)) 4 m)"
    by (rule Suc.IH [OF sp(1)])
  moreover have "x + of_nat (4 * Suc n) - 4 = x + of_nat (4 * n)" for x :: u32
    by simp
  ultimately show ?case
    using sp(3) [of m] unfolding copy_words_down.simps by (simp only: move_def) (simp add: add.commute)
qed simp

lemma rounds_down_small: "unat n \<le> 2 ^ 31 \<Longrightarrow> rounds_down n = unat n"
proof (cases "n = 0")
  case False
  assume "unat n \<le> 2 ^ 31"
  then have "unat (n - 1) < 2 ^ 31"
    using False by (simp add: unat_minus_one)
  then have "int (unat (n - 1)) < int (2 ^ 31)"
    by (simp only: of_nat_less_iff)
  then have "uint (n - 1) < 2 ^ 31"
    by simp
  then have "sint (n - 1) = uint (n - 1)"
    unfolding sint_uint by (intro signed_take_bit_int_eq_self order.trans [OF _ uint_ge_0]) simp_all
  then show ?thesis
    by (simp add: rounds_down_def)
qed (simp add: rounds_down_def)

lemma memmove_down:
  assumes dw: "downwards dest src (unat len)" and top: "unat dest + unat len + 3 < 2 ^ 32"
    and branch: "\<not> (dest \<le> src \<or> dest \<ge> src + len)" and small: "unat len \<le> 2 ^ 31"
  shows "memmove dest src len m = move dest src (unat len) m"
proof -
  define d s where "d = dest + len" and "s = src + len"
  define hd where "hd = (if dest AND 3 \<noteq> src AND 3 then dest else if dest > d AND NOT 3 then dest else d AND NOT 3)"
  define body where "body = (dest + 3) AND NOT 3"
  define bl where "bl = (if d - (d - hd) < body then 0 else (d - (d - hd) - body) div 4)"
  have d: "unat d = unat dest + unat len"
    using top by (simp add: d_def unat_word_ariths)
  have "unat (dest + 3) = unat dest + 3"
    using top by (simp add: unat_word_ariths)
  then have body: "unat dest \<le> unat body"
    unfolding body_def by (simp only: unat_round_down)
  have hd: "unat dest \<le> unat hd" "unat hd \<le> unat d"
    using d by (auto simp: hd_def word_less_nat_alt unat_and_minus_4)
  have h: "unat (d - hd) = unat d - unat hd" "d - (d - hd) = hd"
    using hd by (auto intro!: unat_sub simp: word_le_nat_alt)
  have b: "4 * unat bl \<le> unat hd - unat dest"
  proof (cases "hd < body")
    case False
    then have "unat (hd - body) = unat hd - unat body"
      by (intro unat_sub) (simp add: word_le_nat_alt word_less_nat_alt)
    then have "unat bl = (unat hd - unat body) div 4"
      using False by (simp add: bl_def h(2) unat_div)
    then have "4 * unat bl \<le> unat hd - unat body"
      by (simp add: mult.commute)
    then show ?thesis
      using body by linarith
  qed (simp add: bl_def h(2))
  define tn where "tn = unat hd - unat dest - 4 * unat bl"
  have len: "unat len = tn + (4 * unat bl + unat (d - hd))"
    using b d hd h(1) by (simp add: tn_def)
  have dw1: "downwards dest src (tn + (4 * unat bl + unat (d - hd)))"
    using dw len by simp
  note s1 = downwards_split [OF dw1] and s2 = downwards_split [OF downwards_split(2) [OF dw1]]
  have ends: "hd = dest + of_nat tn + of_nat (4 * unat bl)" "s - (d - hd) = src + of_nat tn + of_nat (4 * unat bl)"
  proof -
    have "unat dest + (tn + 4 * unat bl) = unat hd"
      using b hd by (simp add: tn_def)
    then have "of_nat (unat dest + (tn + 4 * unat bl)) = hd"
      by simp
    then show "hd = dest + of_nat tn + of_nat (4 * unat bl)"
      by (simp add: add.assoc)
    then have "hd - dest = of_nat tn + of_nat (4 * unat bl)"
      by simp
    then show "s - (d - hd) = src + of_nat tn + of_nat (4 * unat bl)"
      by (simp add: s_def d_def algebra_simps)
  qed
  have m4: "hd - 4 * bl = dest + of_nat tn" "s - (d - hd) - 4 * bl = src + of_nat tn"
    unfolding ends(2) by (subst ends(1)) simp_all
  have tlen: "rounds_down (hd - 4 * bl - dest) = tn"
    unfolding m4 using dw1 len small by (subst rounds_down_small) (simp_all add: unat_of_nat downwards_def)
  have rounds: "rounds_down (d - hd) = unat (d - hd)" "rounds_down bl = unat bl"
    using len small by (simp_all add: rounds_down_small)
  have top3: "d = hd + of_nat (unat (d - hd))" "s = s - (d - hd) + of_nat (unat (d - hd))"
    by simp_all
  have "memmove dest src len m = copy_bytes_down tn (dest + of_nat tn) (src + of_nat tn)
      (copy_words_down (unat bl) hd (s - (d - hd)) (copy_bytes_down (unat (d - hd)) d s m))"
    using branch unfolding memmove_def Let_def d_def [symmetric] s_def [symmetric] hd_def [symmetric] body_def [symmetric]
      bl_def [symmetric] unfolding h(2) tlen rounds unfolding m4 by simp
  also have "copy_bytes_down (unat (d - hd)) d s m = move hd (s - (d - hd)) (unat (d - hd)) m"
    using copy_bytes_down_move [OF s2(2) [folded ends]] top3 by simp
  also have "copy_words_down (unat bl) hd (s - (d - hd)) (move hd (s - (d - hd)) (unat (d - hd)) m)
      = move (dest + of_nat tn) (src + of_nat tn) (4 * unat bl + unat (d - hd)) m"
    using copy_words_down_move [OF s2(1), folded ends] s2(3) [of m, folded ends] by simp
  also have "copy_bytes_down tn (dest + of_nat tn) (src + of_nat tn) (move (dest + of_nat tn) (src + of_nat tn) (4 * unat bl + unat (d - hd)) m)
      = move dest src (unat len) m"
    using copy_bytes_down_move [OF s1(1)] s1(3) [of m] len by simp
  finally show ?thesis .
qed

text \<open>\<^verbatim>\<open>memset\<close>.\<close>

lemma write_replicate:
  assumes "k + n < 2 ^ 32"
  shows "write_bytes (write_bytes m d (replicate k c)) (d + of_nat k) (replicate n c) = write_bytes m (d :: u32) (replicate (k + n) c)"
  using write_bytes_append [of "replicate k c" "replicate n c" m d] assms by (simp add: replicate_add)

lemma memset_1_fills: "n < 2 ^ 32 \<Longrightarrow> memset_wram_1align n d c m = write_bytes m d (replicate n c)"
proof (induction n arbitrary: d m)
  case (Suc n)
  have "m(d := c) = write_bytes m d (replicate 1 c)"
    by (auto simp: write_bytes_def fun_eq_iff unat_eq_zero)
  then show ?case
    using Suc.IH [of "d + 1" "m(d := c)"] Suc.prems write_replicate [of 1 n m d c] by simp
qed simp

lemma memset_4_fills: "4 * n < 2 ^ 32 \<Longrightarrow> memset_wram_4align n d c m = write_bytes m d (replicate (4 * n) c)"
proof (induction n arbitrary: d m)
  case (Suc n)
  have "[c, c, c, c] = replicate 4 c"
    by (simp add: numeral_eq_Suc)
  then show ?case
    using Suc.IH [of "d + 4" "write_bytes m d (replicate 4 c)"] Suc.prems write_replicate [of 4 "4 * n" m d c] by simp
qed simp

lemma memset_fills:
  assumes "unat dest + unat len < 2 ^ 32"
  shows "memset dest c len m = write_bytes m dest (replicate (unat len) c)"
proof -
  define hl where "hl = (if dest AND 3 \<noteq> 0 then if 4 - (dest AND 3) > len then len else 4 - (dest AND 3) else 0)"
  have hl: "unat hl \<le> unat len"
    by (auto simp: hl_def word_less_nat_alt)
  define l1 where "l1 = len - hl"
  have l1: "unat l1 = unat len - unat hl"
    unfolding l1_def using hl by (intro unat_sub) (simp add: word_le_nat_alt)
  define bl where "bl = (if l1 \<ge> 4 then l1 AND NOT 3 else 0)"
  have bl: "unat bl \<le> unat l1" "4 * (unat bl div 4) = unat bl"
    by (auto simp: bl_def unat_and_minus_4)
  have l2: "unat (l1 - bl) = unat l1 - unat bl"
    using bl by (intro unat_sub) (simp add: word_le_nat_alt)
  have n: "unat hl < 2 ^ 32" "unat bl < 2 ^ 32" "unat (l1 - bl) < 2 ^ 32"
    using unsigned_less [where 'a = nat and 'b = 32] by auto
  have e: "memset dest c len m = memset_wram_1align (unat (l1 - bl)) (dest + hl + bl) c
      (memset_wram_4align (unat bl div 4) (dest + hl) c (memset_wram_1align (unat hl) dest c m))"
  proof -
    have head: "(if dest AND 3 \<noteq> 0
        then (dest + (if 4 - (dest AND 3) > len then len else 4 - (dest AND 3)),
              len - (if 4 - (dest AND 3) > len then len else 4 - (dest AND 3)),
              memset_wram_1align (unat (if 4 - (dest AND 3) > len then len else 4 - (dest AND 3))) dest c m)
        else (dest, len, m)) = (dest + hl, l1, memset_wram_1align (unat hl) dest c m)"
      by (simp add: hl_def l1_def)
    have body: "(if l1 \<ge> 4 then (d + (l1 AND NOT 3), l1 - (l1 AND NOT 3), memset_wram_4align (unat (l1 AND NOT 3) div 4) d c m')
        else (d, l1, m')) = (d + bl, l1 - bl, memset_wram_4align (unat bl div 4) d c m')" for d m'
      by (simp add: bl_def)
    show ?thesis
      unfolding memset_def Let_def head prod.case body by (simp add: word_neq_0_conv [symmetric])
  qed
  have d: "dest + hl = dest + of_nat (unat hl)" "dest + hl + bl = dest + of_nat (unat hl + unat bl)"
    by simp_all
  have t: "unat hl + unat bl + unat (l1 - bl) = unat len"
    using hl l1 bl l2 by simp
  have "memset_wram_4align (unat bl div 4) (dest + hl) c (memset_wram_1align (unat hl) dest c m)
      = write_bytes m dest (replicate (unat hl + unat bl) c)"
    using memset_1_fills [OF n(1)] memset_4_fills [of "unat bl div 4"] bl(2) n(2) t write_replicate [of "unat hl" "unat bl" m dest c]
      unsigned_less [where 'a = nat, of len] unfolding d by simp
  then show ?thesis
    unfolding e d(2) using memset_1_fills [OF n(3)] write_replicate [of "unat hl + unat bl" "unat (l1 - bl)" m dest c] t
      unsigned_less [where 'a = nat, of len] by simp
qed

section \<open>Properties\<close>

text \<open>
  C38: \<^verbatim>\<open>memmove\<close> moves a range as if all its bytes were read before the first one is written, for every overlap and every
  alignment of the two ranges, although it copies words, upwards or downwards, wherever it can.
\<close>

theorem memmove_moves:
  assumes "unat dest + unat len + 3 < 2 ^ 32" "unat src + unat len < 2 ^ 32" "unat len \<le> 2 ^ 31"
  shows "memmove dest src len m = write_bytes m dest (read_bytes m src (unat len))"
proof (cases "dest \<le> src \<or> dest \<ge> src + len")
  case True
  then have "upwards dest src (unat len)"
    using assms by (auto simp: upwards_def word_le_nat_alt unat_word_ariths)
  then show ?thesis
    using memcpy_moves [OF _ assms(1)] True by (simp add: memmove_def move_def)
next
  case False
  then have "downwards dest src (unat len)"
    using assms by (auto simp: downwards_def word_le_nat_alt)
  then show ?thesis
    using memmove_down [OF _ assms(1) False assms(3)] by (simp add: move_def)
qed

theorem memmove_moves_witness:
  "memmove 13 9 6 (\<lambda>a. ucast a) = write_bytes (\<lambda>a. ucast a) 13 (read_bytes (\<lambda>a :: u32. ucast a :: u8) 9 6)"
  using memmove_moves [of 13 6 9 "\<lambda>a. ucast a"] by simp

end
