(* ===== verification/CString.thy ===== *)
theory CString
  imports MemCopy
begin

text \<open>
  The strings of the C library of a DPU (\<^verbatim>\<open>dpu-rt/src/stdlib/str*.c\<close>). The loops that look for the end of a string are partial
  functions: no result is a loop that does not end. Pointers are addresses, NULL is 0; functions that write return their result
  and the memory.
\<close>

type_synonym bytes = "u32 \<Rightarrow> u8"

section \<open>The functions\<close>

partial_function (option) strlen_loop :: "bytes \<Rightarrow> u32 \<Rightarrow> u32 option" where
  "strlen_loop m ptr = (if m ptr \<noteq> 0 then strlen_loop m (ptr + 1) else Some ptr)"

definition strlen :: "bytes \<Rightarrow> u32 \<Rightarrow> u32 option" where
  "strlen m string = map_option (\<lambda>ptr. ptr - string) (strlen_loop m string)"

function strnlen_loop :: "bytes \<Rightarrow> u32 \<Rightarrow> u32 \<Rightarrow> u32 \<Rightarrow> u32" where
  "strnlen_loop m string max_len len =
     (if m (string + len) \<noteq> 0 \<and> len < max_len then strnlen_loop m string max_len (len + 1) else len)"
  by auto

termination
proof (relation "measure (\<lambda>(m, string, max_len, len). unat max_len - unat len)")
  fix m :: bytes and string max_len len :: u32
  assume "m (string + len) \<noteq> 0 \<and> len < max_len"
  then have "unat len < unat max_len" "unat (len + 1) = unat len + 1"
    using unsigned_less [where 'a = nat, of max_len] by (auto simp: word_less_nat_alt unat_word_ariths)
  then show "((m, string, max_len, len + 1), m, string, max_len, len)
      \<in> measure (\<lambda>(m, string, max_len, len). unat max_len - unat len)"
    by simp
qed simp

declare strnlen_loop.simps [simp del]

definition strnlen :: "bytes \<Rightarrow> u32 \<Rightarrow> u32 \<Rightarrow> u32" where
  "strnlen m string max_len = strnlen_loop m string max_len 0"

text \<open>The loop of \<^verbatim>\<open>strcpy\<close> and \<^verbatim>\<open>stpcpy\<close>: the address of the terminator that was written, and the memory.\<close>

partial_function (option) strcpy_loop :: "u32 \<Rightarrow> u32 \<Rightarrow> bytes \<Rightarrow> (u32 \<times> bytes) option" where
  "strcpy_loop ptr source m =
     (let c = m source
      in if c \<noteq> 0 then strcpy_loop (ptr + 1) (source + 1) (m(ptr := c)) else Some (ptr, m(ptr := c)))"

definition strcpy :: "u32 \<Rightarrow> u32 \<Rightarrow> bytes \<Rightarrow> (u32 \<times> bytes) option" where
  "strcpy destination source m = map_option (\<lambda>(_, m). (destination, m)) (strcpy_loop destination source m)"

definition stpcpy :: "u32 \<Rightarrow> u32 \<Rightarrow> bytes \<Rightarrow> (u32 \<times> bytes) option" where
  "stpcpy destination source m = strcpy_loop destination source m"

text \<open>The loops of \<^verbatim>\<open>strncpy\<close> and \<^verbatim>\<open>stpncpy\<close>, with \<open>n\<close> bytes left: the address that \<^verbatim>\<open>stpncpy\<close> returns, and the memory.\<close>

fun strncpy_pad :: "nat \<Rightarrow> u32 \<Rightarrow> bytes \<Rightarrow> bytes" where
  "strncpy_pad 0 ptr m = m"
| "strncpy_pad (Suc n) ptr m = strncpy_pad n (ptr + 1) (m(ptr := 0))"

fun strncpy_loop :: "nat \<Rightarrow> u8 \<Rightarrow> u32 \<Rightarrow> u32 \<Rightarrow> bytes \<Rightarrow> u32 \<times> bytes" where
  "strncpy_loop 0 c ptr source m = (ptr, m)"
| "strncpy_loop (Suc n) c ptr source m =
     (if c = 0 then (ptr, strncpy_pad (Suc n) ptr m)
      else let m = m(ptr := c) in strncpy_loop n (m (source + 1)) (ptr + 1) (source + 1) m)"

definition strncpy :: "u32 \<Rightarrow> u32 \<Rightarrow> u32 \<Rightarrow> bytes \<Rightarrow> u32 \<times> bytes" where
  "strncpy destination source sz m = (destination, snd (strncpy_loop (unat sz) (m source) destination source m))"

definition stpncpy :: "u32 \<Rightarrow> u32 \<Rightarrow> u32 \<Rightarrow> bytes \<Rightarrow> u32 \<times> bytes" where
  "stpncpy destination source sz m = strncpy_loop (unat sz) (m source) destination source m"

partial_function (option) strcat_loop :: "u32 \<Rightarrow> u32 \<Rightarrow> u32 \<Rightarrow> bytes \<Rightarrow> bytes option" where
  "strcat_loop end_of_destination source i m =
     (if m (source + i) \<noteq> 0
      then strcat_loop end_of_destination source (i + 1) (m(end_of_destination + i := m (source + i)))
      else Some (m(end_of_destination + i := 0)))"

definition strcat :: "u32 \<Rightarrow> u32 \<Rightarrow> bytes \<Rightarrow> (u32 \<times> bytes) option" where
  "strcat destination source m =
     (case strlen m destination of
        None \<Rightarrow> None
      | Some length_of_destination \<Rightarrow>
          map_option (\<lambda>m. (destination, m)) (strcat_loop (destination + length_of_destination) source 0 m))"

partial_function (option) strcmp :: "bytes \<Rightarrow> u32 \<Rightarrow> u32 \<Rightarrow> int option" where
  "strcmp m string1 string2 =
     (let c1 = m string1; c2 = m string2
      in if c1 \<noteq> 0
         then if uint c1 - uint c2 \<noteq> 0 then Some (uint c1 - uint c2) else strcmp m (string1 + 1) (string2 + 1)
         else Some (uint c1 - uint c2))"

fun strncmp :: "bytes \<Rightarrow> u32 \<Rightarrow> u32 \<Rightarrow> nat \<Rightarrow> int" where
  "strncmp m string1 string2 0 = 0"
| "strncmp m string1 string2 (Suc n) =
     (let c1 = m string1; c2 = m string2
      in if uint c1 - uint c2 \<noteq> 0 \<or> c1 = 0 then uint c1 - uint c2 else strncmp m (string1 + 1) (string2 + 1) n)"

text \<open>The character is an \<^verbatim>\<open>int\<close> that is compared with the unsigned byte, without the conversion that the C standard asks for.\<close>

partial_function (option) strchr :: "bytes \<Rightarrow> u32 \<Rightarrow> int \<Rightarrow> u32 option" where
  "strchr m str character =
     (if uint (m str) = character then Some str
      else if m str = 0 then Some 0
      else strchr m (str + 1) character)"

partial_function (option) strrchr_loop :: "bytes \<Rightarrow> u32 \<Rightarrow> int \<Rightarrow> u32 \<Rightarrow> u32 option" where
  "strrchr_loop m ptr character pos =
     (let pos = (if uint (m ptr) = character then ptr else pos)
      in if m ptr \<noteq> 0 then strrchr_loop m (ptr + 1) character pos else Some pos)"

definition strrchr :: "bytes \<Rightarrow> u32 \<Rightarrow> int \<Rightarrow> u32 option" where
  "strrchr m string character = strrchr_loop m string character 0"

text \<open>Whether a character is in the set of a string: the inner loops of \<^verbatim>\<open>strspn\<close> and \<^verbatim>\<open>strcspn\<close>.\<close>

partial_function (option) span_accepts :: "bytes \<Rightarrow> u8 \<Rightarrow> u32 \<Rightarrow> bool option" where
  "span_accepts m c accept =
     (let a = m accept
      in if c = a then Some True else if a = 0 then Some False else span_accepts m c (accept + 1))"

partial_function (option) strspn_loop :: "bytes \<Rightarrow> u32 \<Rightarrow> u32 \<Rightarrow> u32 \<Rightarrow> u32 option" where
  "strspn_loop m string accept prefix_length =
     (if m (string + prefix_length) \<noteq> 0
      then case span_accepts m (m (string + prefix_length)) accept of
             None \<Rightarrow> None
           | Some found \<Rightarrow> if found then strspn_loop m string accept (prefix_length + 1) else Some prefix_length
      else Some prefix_length)"

definition strspn :: "bytes \<Rightarrow> u32 \<Rightarrow> u32 \<Rightarrow> u32 option" where
  "strspn m string accept = strspn_loop m string accept 0"

partial_function (option) span_rejects :: "bytes \<Rightarrow> u8 \<Rightarrow> u32 \<Rightarrow> bool option" where
  "span_rejects m c reject =
     (if m reject \<noteq> 0 then if m reject = c then Some True else span_rejects m c (reject + 1) else Some False)"

partial_function (option) strcspn_loop :: "bytes \<Rightarrow> u32 \<Rightarrow> u32 \<Rightarrow> u32 \<Rightarrow> u32 option" where
  "strcspn_loop m string reject prefix_length =
     (if m (string + prefix_length) \<noteq> 0
      then case span_rejects m (m (string + prefix_length)) reject of
             None \<Rightarrow> None
           | Some found \<Rightarrow> if found then Some prefix_length else strcspn_loop m string reject (prefix_length + 1)
      else Some prefix_length)"

definition strcspn :: "bytes \<Rightarrow> u32 \<Rightarrow> u32 \<Rightarrow> u32 option" where
  "strcspn m string reject = strcspn_loop m string reject 0"

definition strpbrk :: "bytes \<Rightarrow> u32 \<Rightarrow> u32 \<Rightarrow> u32 option" where
  "strpbrk m string accept =
     map_option (\<lambda>n. if m (string + n) \<noteq> 0 then string + n else 0) (strcspn m string accept)"

partial_function (option) strstr_loop :: "bytes \<Rightarrow> u32 \<Rightarrow> u32 \<Rightarrow> u32 \<Rightarrow> u32 \<Rightarrow> u32 option" where
  "strstr_loop m needle current_needle start_haystack current_haystack =
     (if m current_needle = 0 then Some start_haystack
      else if m current_haystack = m current_needle
           then strstr_loop m needle (current_needle + 1) start_haystack (current_haystack + 1)
      else if m current_haystack = 0 then Some 0
      else strstr_loop m needle needle (start_haystack + 1) (start_haystack + 1))"

definition strstr :: "bytes \<Rightarrow> u32 \<Rightarrow> u32 \<Rightarrow> u32 option" where
  "strstr m haystack needle = strstr_loop m needle needle haystack haystack"

text \<open>The result, the value of \<^verbatim>\<open>*stringp\<close> or \<^verbatim>\<open>*saveptr\<close> afterwards, and the memory.\<close>

definition strsep :: "u32 \<Rightarrow> u32 \<Rightarrow> bytes \<Rightarrow> (u32 \<times> u32 \<times> bytes) option" where
  "strsep stringp delim m =
     (if stringp = 0 then Some (0, stringp, m)
      else map_option (\<lambda>delim_ptr. if delim_ptr = 0 then (stringp, 0, m) else (stringp, delim_ptr + 1, m(delim_ptr := 0)))
             (strpbrk m stringp delim))"

definition strtok_r :: "u32 \<Rightarrow> u32 \<Rightarrow> u32 \<Rightarrow> bytes \<Rightarrow> (u32 \<times> u32 \<times> bytes) option" where
  "strtok_r str delim saveptr m =
     (let str = (if str = 0 then saveptr else str)
      in if m str = 0 then Some (0, str, m)
         else case strspn m str delim of
                None \<Rightarrow> None
              | Some n \<Rightarrow>
                  let str = str + n
                  in if m str = 0 then Some (0, str, m)
                     else map_option (\<lambda>n. let tok_end = str + n
                            in if m tok_end = 0 then (str, tok_end, m) else (str, tok_end + 1, m(tok_end := 0)))
                          (strcspn m str delim))"

section \<open>Strings in memory\<close>

fun cstring :: "bytes \<Rightarrow> u32 \<Rightarrow> u8 list \<Rightarrow> bool" where
  "cstring m p [] \<longleftrightarrow> m p = 0"
| "cstring m p (x # xs) \<longleftrightarrow> m p = x \<and> x \<noteq> 0 \<and> cstring m (p + 1) xs"

lemma cstring_append: "cstring m p (xs @ ys) \<longleftrightarrow> (\<forall>i < length xs. m (p + of_nat i) = xs ! i \<and> xs ! i \<noteq> 0) \<and> cstring m (p + of_nat (length xs)) ys"
proof (induction xs arbitrary: p)
  case (Cons x xs)
  have "(\<forall>i < length (x # xs). m (p + of_nat i) = (x # xs) ! i \<and> (x # xs) ! i \<noteq> 0)
      \<longleftrightarrow> m p = x \<and> x \<noteq> 0 \<and> (\<forall>i < length xs. m (p + 1 + of_nat i) = xs ! i \<and> xs ! i \<noteq> 0)"
    by (auto simp: less_Suc_eq_0_disj add.assoc)
  then show ?case
    using Cons.IH [of "p + 1"] by (auto simp: add.assoc)
qed simp

lemma cstring_drop: "cstring m p xs \<Longrightarrow> n \<le> length xs \<Longrightarrow> cstring m (p + of_nat n) (drop n xs)"
  using cstring_append [of m p "take n xs" "drop n xs"] by simp

lemma cstring_end: "cstring m p xs \<Longrightarrow> m (p + of_nat (length xs)) = 0"
  using cstring_drop [of m p xs "length xs"] by simp

lemma cstring_nonzero: "cstring m p xs \<Longrightarrow> i < length xs \<Longrightarrow> m (p + of_nat i) = xs ! i \<and> xs ! i \<noteq> 0"
  using cstring_append [of m p xs "[]"] by simp

lemma cstring_set: "cstring m p xs \<Longrightarrow> x \<in> set xs \<Longrightarrow> x \<noteq> 0"
  by (induction xs arbitrary: p) auto

lemma cstring_unique: "cstring m p xs \<Longrightarrow> cstring m p ys \<Longrightarrow> xs = ys"
  by (induction xs arbitrary: p ys; case_tac ys) auto

lemma cstring_iff: "cstring m p xs \<longleftrightarrow> (\<forall>i < length xs. m (p + of_nat i) = xs ! i \<and> xs ! i \<noteq> 0) \<and> m (p + of_nat (length xs)) = 0"
  using cstring_append [of m p xs "[]"] by simp

text \<open>A write outside of a string leaves it alone.\<close>

lemma cstring_frame:
  assumes "\<And>x. in_range p (Suc (length xs)) x \<Longrightarrow> m' x = m x" "length xs < 2 ^ 32"
  shows "cstring m' p xs = cstring m p xs"
proof -
  have "m' (p + of_nat i) = m (p + of_nat i)" if "i \<le> length xs" for i
    using assms that by (intro assms(1) in_range_add) auto
  then show ?thesis
    by (simp add: cstring_iff)
qed

section \<open>What the functions return\<close>

lemma strlen_loop_end: "cstring m p xs \<Longrightarrow> strlen_loop m p = Some (p + of_nat (length xs))"
proof (induction xs arbitrary: p)
  case Nil
  then show ?case
    by (subst strlen_loop.simps) simp
next
  case (Cons x xs)
  then show ?case
    by (subst strlen_loop.simps) (auto simp: add.assoc)
qed

lemma strlen_result: "cstring m p xs \<Longrightarrow> strlen m p = Some (of_nat (length xs))"
  by (simp add: strlen_def strlen_loop_end)

lemma strnlen_result:
  assumes "cstring m p xs" "length xs < 2 ^ 32"
  shows "strnlen m p max_len = of_nat (min (length xs) (unat max_len))"
proof -
  have "strnlen_loop m p max_len (of_nat k) = of_nat (min (length xs) (unat max_len))" if "k \<le> length xs" "k \<le> unat max_len" for k
    using that
  proof (induction "min (length xs) (unat max_len) - k" arbitrary: k)
    case 0
    then have "k = length xs \<or> k = unat max_len"
      by auto
    then show ?case
      using 0 cstring_end [OF assms(1)] by (subst strnlen_loop.simps) (auto simp: min_def)
  next
    case (Suc j)
    then have k: "k < length xs" "k < unat max_len"
      by auto
    then have "unat (of_nat k :: u32) = k"
      using assms(2) by (simp add: unat_of_nat)
    then have "strnlen_loop m p max_len (of_nat k) = strnlen_loop m p max_len (of_nat (Suc k))"
      using cstring_nonzero [OF assms(1) k(1)] k(2) by (subst strnlen_loop.simps) (simp add: word_less_nat_alt add.commute)
    also have "\<dots> = of_nat (min (length xs) (unat max_len))"
      using Suc k by (intro Suc.hyps(1)) auto
    finally show ?case .
  qed
  from this [of 0] show ?thesis
    by (simp add: strnlen_def)
qed

text \<open>Comparison of strings as lists of unsigned bytes.\<close>

fun compare_bytes :: "u8 list \<Rightarrow> u8 list \<Rightarrow> int" where
  "compare_bytes [] [] = 0"
| "compare_bytes (x # xs) [] = uint x"
| "compare_bytes [] (y # ys) = - uint y"
| "compare_bytes (x # xs) (y # ys) = (if x = y then compare_bytes xs ys else uint x - uint y)"

lemma strcmp_result:
  assumes "cstring m p xs" "cstring m q ys"
  shows "strcmp m p q = Some (compare_bytes xs ys)"
  using assms
proof (induction xs ys arbitrary: p q rule: compare_bytes.induct)
  case (4 x xs y ys)
  have "uint x = uint y \<longleftrightarrow> x = y"
    by (simp add: word_uint_eq_iff)
  then show ?case
    using 4 by (subst strcmp.simps) (simp add: Let_def)
next
  case 1
  then show ?case
    by (subst strcmp.simps) (simp add: Let_def)
next
  case (2 x xs)
  then show ?case
    by (subst strcmp.simps) (simp add: Let_def uint_0_iff)
next
  case (3 y ys)
  then show ?case
    by (subst strcmp.simps) (simp add: Let_def)
qed

lemma compare_bytes_sign:
  assumes "0 \<notin> set xs" "0 \<notin> set ys"
  shows "compare_bytes xs ys = 0 \<longleftrightarrow> xs = ys" "compare_bytes xs ys < 0 \<longleftrightarrow> (xs, ys) \<in> lexord {(x, y). x < y}"
proof -
  have "(compare_bytes xs ys = 0 \<longleftrightarrow> xs = ys) \<and> (compare_bytes xs ys < 0 \<longleftrightarrow> (xs, ys) \<in> lexord {(x, y). x < y})"
    using assms
  proof (induction xs ys rule: compare_bytes.induct)
    case (2 x xs)
    then show ?case
      by (auto simp: uint_0_iff not_less)
  next
    case (3 y ys)
    then have "0 < uint y"
      by (auto simp: word_less_def word_neq_0_conv)
    then show ?case
      by simp
  next
    case (4 x xs y ys)
    have "uint x = uint y \<longleftrightarrow> x = y"
      by (simp add: word_uint_eq_iff)
    then show ?case
      using 4 by (auto simp: word_less_def)
  qed simp
  then show "compare_bytes xs ys = 0 \<longleftrightarrow> xs = ys" "compare_bytes xs ys < 0 \<longleftrightarrow> (xs, ys) \<in> lexord {(x, y). x < y}"
    by simp_all
qed

text \<open>Copying a string to a range that it does not touch.\<close>

lemma in_range_Suc: "n < 2 ^ 32 \<Longrightarrow> in_range (p + 1 :: u32) n x \<Longrightarrow> in_range p (Suc n) x"
  using unat_minus_add [of 1 x p] by (auto simp: in_range_def split: if_splits)

lemma strcpy_loop_copies:
  assumes "cstring m s xs" "disjoint_ranges d (Suc (length xs)) s (Suc (length xs))" "Suc (length xs) < 2 ^ 32"
  shows "strcpy_loop d s m = Some (d + of_nat (length xs), write_bytes m d (xs @ [0]))"
  using assms
proof (induction xs arbitrary: d s m)
  case Nil
  have "m(d := 0) = write_bytes m d [0]"
    by (auto simp: write_bytes_def fun_eq_iff unat_eq_zero)
  then show ?case
    using Nil by (subst strcpy_loop.simps) (simp add: Let_def)
next
  case (Cons x xs)
  have d: "in_range d (Suc (length (x # xs))) d"
    by (simp add: in_range_def)
  have c: "cstring (m(d := x)) (s + 1) xs = cstring m (s + 1) xs"
  proof (rule cstring_frame)
    show "(m(d := x)) y = m y" if "in_range (s + 1) (Suc (length xs)) y" for y
      using that in_range_Suc [of "Suc (length xs)" s y] Cons.prems(2,3) d by (auto simp: disjoint_ranges_def)
  qed (use Cons.prems(3) in simp)
  have r: "disjoint_ranges (d + 1) (Suc (length xs)) (s + 1) (Suc (length xs))"
    using Cons.prems(2,3) in_range_Suc [of "Suc (length xs)"] by (auto simp: disjoint_ranges_def)
  have "cstring m (s + 1) xs"
    using Cons.prems(1) by simp
  then have "strcpy_loop (d + 1) (s + 1) (m(d := x)) = Some (d + 1 + of_nat (length xs), write_bytes (m(d := x)) (d + 1) (xs @ [0]))"
    using Cons.prems(3) by (intro Cons.IH r c [THEN iffD2]) simp_all
  moreover have "write_bytes (m(d := x)) (d + 1) (xs @ [0]) = write_bytes m d (x # xs @ [0])"
  proof -
    have "m(d := x) = write_bytes m d [x]"
      by (auto simp: write_bytes_def fun_eq_iff unat_eq_zero)
    then show ?thesis
      using write_bytes_append [of "[x]" "xs @ [0]" m d] Cons.prems(3) by simp
  qed
  ultimately show ?case
    using Cons.prems(1) by (subst strcpy_loop.simps) (auto simp: Let_def add.assoc)
qed

text \<open>Searching.\<close>

lemma strchr_result:
  assumes "cstring m p xs" "0 < c"
  shows "strchr m p c = Some (if c \<in> uint ` set xs then p + of_nat (length (takeWhile (\<lambda>x. uint x \<noteq> c) xs)) else 0)"
  using assms(1)
proof (induction xs arbitrary: p)
  case Nil
  then show ?case
    using assms(2) by (subst strchr.simps) simp
next
  case (Cons x xs)
  then show ?case
    by (subst strchr.simps) (auto simp: add.assoc)
qed

fun find_substring :: "u8 list \<Rightarrow> u8 list \<Rightarrow> nat option" where
  "find_substring ys [] = (if ys = [] then Some 0 else None)"
| "find_substring ys (x # xs) =
     (if take (length ys) (x # xs) = ys then Some 0 else map_option Suc (find_substring ys xs))"

text \<open>The comparison at one position: a match, the end of the haystack, or the next position.\<close>

lemma strstr_compare:
  assumes "cstring m cn ys" "cstring m ch xs"
  shows "strstr_loop m n cn sh ch =
    (if take (length ys) xs = ys then Some sh
     else if take (length xs) ys = xs then Some 0
     else strstr_loop m n n (sh + 1) (sh + 1))"
  using assms
proof (induction ys arbitrary: cn ch xs)
  case Nil
  then show ?case
    by (subst strstr_loop.simps) simp
next
  case (Cons y ys)
  show ?case
  proof (cases xs)
    case Nil
    then show ?thesis
      using Cons.prems by (subst strstr_loop.simps) auto
  next
    case (Cons x xs')
    then show ?thesis
      using Cons.prems Cons.IH [of "cn + 1" "ch + 1" xs'] by (subst strstr_loop.simps) auto
  qed
qed

lemma find_substring_short: "length xs < length ys \<Longrightarrow> find_substring ys xs = None"
  by (induction xs) auto

lemma strstr_result:
  assumes "cstring m h xs" "cstring m n ys"
  shows "strstr m h n = Some (case find_substring ys xs of None \<Rightarrow> 0 | Some i \<Rightarrow> h + of_nat i)"
  using assms(1) unfolding strstr_def
proof (induction xs arbitrary: h)
  case Nil
  then show ?case
    using strstr_compare [OF assms(2) Nil, of n h] by auto
next
  case (Cons x xs)
  have e: "strstr_loop m n n h h = (if take (length ys) (x # xs) = ys then Some h
      else if take (length (x # xs)) ys = x # xs then Some 0 else strstr_loop m n n (h + 1) (h + 1))"
    by (rule strstr_compare [OF assms(2) Cons.prems])
  have ih: "strstr_loop m n n (h + 1) (h + 1) = Some (case find_substring ys xs of None \<Rightarrow> 0 | Some i \<Rightarrow> h + 1 + of_nat i)"
    using Cons by simp
  have short: "length xs < length ys" if "take (length (x # xs)) ys = x # xs"
    using arg_cong [OF that, of length] by simp
  show ?case
    unfolding e ih using find_substring_short [OF short] by (auto split: option.split)
qed

lemma find_substring_first:
  assumes "find_substring ys xs = Some i"
  shows "take (length ys) (drop i xs) = ys \<and> (\<forall>j < i. take (length ys) (drop j xs) \<noteq> ys)"
  using assms
proof (induction xs arbitrary: i)
  case (Cons x xs)
  then show ?case
    by (auto split: if_splits simp: less_Suc_eq_0_disj)
qed (simp split: if_splits)

lemma find_substring_bound: "find_substring ys xs = Some i \<Longrightarrow> i \<le> length xs"
  by (induction xs arbitrary: i) (auto split: if_splits)

lemma find_substring_none: "find_substring ys xs = None \<Longrightarrow> j \<le> length xs \<Longrightarrow> take (length ys) (drop j xs) \<noteq> ys"
proof (induction xs arbitrary: j)
  case (Cons x xs)
  then show ?case
    by (cases j) (auto split: if_splits)
qed (auto split: if_splits)

text \<open>
  On two terminated strings, \<open>strstr\<close> returns (its loop, which restarts the comparison at every
  position, ends): the address of the first place where the second string occurs in the first, the
  haystack itself when the second string is empty, and the null pointer when it occurs nowhere.\<close>

lemma strstr_first_occurrence:
  assumes "cstring m haystack xs" "cstring m needle ys"
  shows "\<exists>r. strstr m haystack needle = Some r \<and>
    ((\<exists>i \<le> length xs. r = haystack + of_nat i \<and> take (length ys) (drop i xs) = ys \<and>
        (\<forall>j < i. take (length ys) (drop j xs) \<noteq> ys)) \<or>
     (r = 0 \<and> (\<forall>j \<le> length xs. take (length ys) (drop j xs) \<noteq> ys)))"
proof (cases "find_substring ys xs")
  case None
  then show ?thesis
    using strstr_result [OF assms] find_substring_none [OF None] by auto
next
  case (Some i)
  then show ?thesis
    using strstr_result [OF assms] find_substring_first [OF Some] find_substring_bound [OF Some] by auto
qed

lemma strstr_first_occurrence_witness:
  "\<exists>r. strstr (write_bytes (\<lambda>_. 0) 16 [97, 98, 97, 99, 0, 97, 99]) 16 21 = Some r \<and>
    ((\<exists>i \<le> length [97, 98, 97, 99 :: u8]. r = 16 + of_nat i \<and> take (length [97, 99 :: u8]) (drop i [97 :: u8, 98, 97, 99]) = [97, 99] \<and>
        (\<forall>j < i. take (length [97, 99 :: u8]) (drop j [97 :: u8, 98, 97, 99]) \<noteq> [97, 99])) \<or>
     (r = 0 \<and> (\<forall>j \<le> length [97, 98, 97, 99 :: u8]. take (length [97, 99 :: u8]) (drop j [97 :: u8, 98, 97, 99]) \<noteq> [97, 99])))"
  by (rule strstr_first_occurrence) (simp_all add: write_bytes_def)

end
