(* ===== verification/CText.thy ===== *)
theory CText
  imports CString
begin

text \<open>
  Characters and text in the C library of a DPU: the classes of \<^verbatim>\<open>ctype.h\<close>, the decimal numbers of \<^verbatim>\<open>atoi.c\<close> and \<^verbatim>\<open>atol.c\<close>
  (\<^verbatim>\<open>int\<close> has 32 bits and \<^verbatim>\<open>long\<close> 64, by \<^verbatim>\<open>limits.h\<close>), and the functions that rewrite a string in place
  (\<^verbatim>\<open>strlwr.c\<close>, \<^verbatim>\<open>strupr.c\<close>, \<^verbatim>\<open>strrev.c\<close>, \<^verbatim>\<open>strncat.c\<close>).
\<close>

section \<open>Classes of characters\<close>

definition isdigit :: "int \<Rightarrow> bool" where "isdigit c \<longleftrightarrow> 48 \<le> c \<and> c \<le> 57"
definition islower :: "int \<Rightarrow> bool" where "islower c \<longleftrightarrow> 97 \<le> c \<and> c \<le> 122"
definition isupper :: "int \<Rightarrow> bool" where "isupper c \<longleftrightarrow> 65 \<le> c \<and> c \<le> 90"
definition isalpha :: "int \<Rightarrow> bool" where "isalpha c \<longleftrightarrow> islower c \<or> isupper c"
definition isalnum :: "int \<Rightarrow> bool" where "isalnum c \<longleftrightarrow> isalpha c \<or> isdigit c"
definition iscntrl :: "int \<Rightarrow> bool" where "iscntrl c \<longleftrightarrow> c \<le> 31 \<or> c = 127"
definition isprint :: "int \<Rightarrow> bool" where "isprint c \<longleftrightarrow> \<not> iscntrl c"
definition isgraph :: "int \<Rightarrow> bool" where "isgraph c \<longleftrightarrow> isprint c \<and> c \<noteq> 32"
definition ispunct :: "int \<Rightarrow> bool" where
  "ispunct c \<longleftrightarrow> 33 \<le> c \<and> c \<le> 47 \<or> 58 \<le> c \<and> c \<le> 64 \<or> 91 \<le> c \<and> c \<le> 96 \<or> 123 \<le> c \<and> c \<le> 126"
definition isspace :: "int \<Rightarrow> bool" where "isspace c \<longleftrightarrow> 9 \<le> c \<and> c \<le> 13 \<or> c = 32"
definition isxdigit :: "int \<Rightarrow> bool" where
  "isxdigit c \<longleftrightarrow> isdigit c \<or> 65 \<le> c \<and> c \<le> 70 \<or> 97 \<le> c \<and> c \<le> 102"
definition isblank :: "int \<Rightarrow> bool" where "isblank c \<longleftrightarrow> c = 32 \<or> c = 9"
definition tolower :: "int \<Rightarrow> int" where "tolower c = (if isupper c then c + 32 else c)"
definition toupper :: "int \<Rightarrow> int" where "toupper c = (if islower c then c - 32 else c)"

lemmas ctype_defs = isdigit_def islower_def isupper_def isalpha_def isalnum_def iscntrl_def isprint_def isgraph_def
  ispunct_def isspace_def isxdigit_def isblank_def tolower_def toupper_def

text \<open>Among the characters of ASCII, the visible ones are the letters, the digits and the punctuation, and no character is in two of
  these classes.\<close>

lemma graphic_partition: "0 \<le> c \<Longrightarrow> c \<le> 127 \<Longrightarrow> isgraph c \<longleftrightarrow> isalnum c \<or> ispunct c"
  by (auto simp: ctype_defs)

lemma graphic_disjoint: "\<not> (isalpha c \<and> isdigit c)" "\<not> (isalnum c \<and> ispunct c)" "\<not> (islower c \<and> isupper c)"
  by (auto simp: ctype_defs)

lemma case_conversions [simp]: "tolower (toupper c) = tolower c" "toupper (tolower c) = toupper c"
  by (auto simp: ctype_defs)

section \<open>Numbers\<close>

partial_function (option) skip_spaces :: "bytes \<Rightarrow> u32 \<Rightarrow> u32 option" where
  "skip_spaces m nptr = (if isspace (uint (m nptr)) then skip_spaces m (nptr + 1) else Some nptr)"

text \<open>The digit is an \<^verbatim>\<open>unsigned int\<close>: a character before \<^verbatim>\<open>'0'\<close> wraps around to a large number.\<close>

partial_function (option) digits_loop :: "bytes \<Rightarrow> u32 \<Rightarrow> 'a::len word \<Rightarrow> 'a word option" where
  "digits_loop m nptr result =
     (let digit = ucast (m nptr) - 48 :: u32
      in if digit > 9 then Some result else digits_loop m (nptr + 1) (10 * result + ucast digit))"

definition atoi :: "bytes \<Rightarrow> u32 \<Rightarrow> u32 option" where
  "atoi m nptr =
     (if nptr = 0 then Some 0
      else case skip_spaces m nptr of
             None \<Rightarrow> None
           | Some nptr \<Rightarrow>
               let is_positive = m nptr \<noteq> 45;
                   nptr = (if m nptr = 45 then nptr + 1 else if m nptr = 43 then nptr + 1 else nptr)
               in map_option (\<lambda>result. if is_positive then result else - result) (digits_loop m nptr 0))"

definition atol :: "bytes \<Rightarrow> u32 \<Rightarrow> u64 option" where
  "atol m nptr =
     (if nptr = 0 then Some 0
      else case skip_spaces m nptr of
             None \<Rightarrow> None
           | Some nptr \<Rightarrow>
               let is_positive = m nptr \<noteq> 45;
                   nptr = (if m nptr = 45 then nptr + 1 else if m nptr = 43 then nptr + 1 else nptr)
               in map_option (\<lambda>result. if is_positive then result else - result) (digits_loop m nptr 0))"

section \<open>Strings rewritten in place\<close>

partial_function (option) strlwr_loop :: "u32 \<Rightarrow> bytes \<Rightarrow> bytes option" where
  "strlwr_loop ptr m =
     (let c = m ptr in if c \<noteq> 0 then strlwr_loop (ptr + 1) (m(ptr := word_of_int (tolower (uint c)))) else Some m)"

definition strlwr :: "u32 \<Rightarrow> bytes \<Rightarrow> (u32 \<times> bytes) option" where
  "strlwr string m = map_option (Pair string) (strlwr_loop string m)"

partial_function (option) strupr_loop :: "u32 \<Rightarrow> bytes \<Rightarrow> bytes option" where
  "strupr_loop ptr m =
     (let c = m ptr in if c \<noteq> 0 then strupr_loop (ptr + 1) (m(ptr := word_of_int (toupper (uint c)))) else Some m)"

definition strupr :: "u32 \<Rightarrow> bytes \<Rightarrow> (u32 \<times> bytes) option" where
  "strupr string m = map_option (Pair string) (strupr_loop string m)"

text \<open>The first \<open>n\<close> rounds of the loop of \<^verbatim>\<open>strrev\<close>.\<close>

fun strrev_loop :: "nat \<Rightarrow> u32 \<Rightarrow> u32 \<Rightarrow> bytes \<Rightarrow> bytes" where
  "strrev_loop 0 string len m = m"
| "strrev_loop (Suc each_char) string len m =
     (let m = strrev_loop each_char string len m;
          i = of_nat each_char;
          c = m (string + i);
          m = m(string + i := m (string + (len - i - 1)))
      in m(string + (len - i - 1) := c))"

definition strrev :: "u32 \<Rightarrow> bytes \<Rightarrow> (u32 \<times> bytes) option" where
  "strrev string m = map_option (\<lambda>len. (string, strrev_loop (unat (len div 2)) string len m)) (strlen m string)"

text \<open>The loop of \<^verbatim>\<open>strncat\<close> with \<open>n\<close> characters left; the last byte is the terminator.\<close>

fun strncat_loop :: "nat \<Rightarrow> u32 \<Rightarrow> u32 \<Rightarrow> bytes \<Rightarrow> bytes" where
  "strncat_loop 0 ptr source m = m(ptr := 0)"
| "strncat_loop (Suc n) ptr source m =
     (if m source \<noteq> 0 then strncat_loop n (ptr + 1) (source + 1) (m(ptr := m source)) else m(ptr := 0))"

definition strncat :: "u32 \<Rightarrow> u32 \<Rightarrow> u32 \<Rightarrow> bytes \<Rightarrow> (u32 \<times> bytes) option" where
  "strncat destination source sz m =
     map_option (\<lambda>len. (destination, strncat_loop (unat sz) (destination + len) source m)) (strlen m destination)"

text \<open>The value of a plain \<^verbatim>\<open>char\<close> as an \<^verbatim>\<open>int\<close> is that of the target: a parameter (\<open>uint\<close> or \<open>sint\<close>).\<close>

fun memchr_loop :: "(u8 \<Rightarrow> int) \<Rightarrow> nat \<Rightarrow> u32 \<Rightarrow> int \<Rightarrow> bytes \<Rightarrow> u32" where
  "memchr_loop char_value 0 ptr character m = 0"
| "memchr_loop char_value (Suc n) ptr character m =
     (if char_value (m ptr) = character then ptr else memchr_loop char_value n (ptr + 1) character m)"

definition memchr :: "(u8 \<Rightarrow> int) \<Rightarrow> u32 \<Rightarrow> int \<Rightarrow> u32 \<Rightarrow> bytes \<Rightarrow> u32" where
  "memchr char_value area character sz m = memchr_loop char_value (unat sz) area character m"

section \<open>Text in memory\<close>

fun stored :: "bytes \<Rightarrow> u32 \<Rightarrow> u8 list \<Rightarrow> bool" where
  "stored m p [] \<longleftrightarrow> True"
| "stored m p (x # xs) \<longleftrightarrow> m p = x \<and> stored m (p + 1) xs"

lemma stored_append [simp]: "stored m p (xs @ ys) \<longleftrightarrow> stored m p xs \<and> stored m (p + of_nat (length xs)) ys"
  by (induction xs arbitrary: p) (auto simp: add.assoc)

text \<open>The number that a list of digits stands for, and its characters.\<close>

definition decimal :: "nat list \<Rightarrow> nat" where
  "decimal ds = foldl (\<lambda>n d. 10 * n + d) 0 ds"

definition digit_char :: "nat \<Rightarrow> u8" where
  "digit_char d = of_nat (48 + d)"

lemma skip_spaces_result:
  assumes "stored m p ws" "list_all (\<lambda>c. isspace (uint c)) ws" "\<not> isspace (uint (m (p + of_nat (length ws))))"
  shows "skip_spaces m p = Some (p + of_nat (length ws))"
  using assms
proof (induction ws arbitrary: p)
  case Nil
  then show ?case
    by (subst skip_spaces.simps) simp
next
  case (Cons w ws)
  then show ?case
    by (subst skip_spaces.simps) (auto simp: add.assoc)
qed

lemma digit_char_value:
  assumes "d < 10"
  shows "uint (digit_char d) = 48 + int d" "ucast (digit_char d) - 48 = (of_nat d :: u32)"
    and "\<not> isspace (uint (digit_char d))" "digit_char d \<noteq> 45" "digit_char d \<noteq> 43"
proof -
  have "d \<in> {0,1,2,3,4,5,6,7,8,9}"
    using assms by auto
  then show "uint (digit_char d) = 48 + int d" "ucast (digit_char d) - 48 = (of_nat d :: u32)"
    "\<not> isspace (uint (digit_char d))" "digit_char d \<noteq> 45" "digit_char d \<noteq> 43"
    by (auto simp: digit_char_def isspace_def)
qed

lemma not_digit_large:
  assumes "\<not> isdigit (uint (c :: u8))"
  shows "(9 :: u32) < ucast c - 48"
proof -
  have b: "unat c < 256"
    using unsigned_less [where 'a = nat, of c] by simp
  then have u: "unat (ucast c :: u32) = unat c"
    by (simp add: unsigned_ucast_eq take_bit_nat_eq_self)
  have c: "unat c < 48 \<or> 57 < unat c"
    using assms unfolding isdigit_def uint_nat by linarith
  have "unat (ucast c - 48 :: u32) = (if 48 \<le> unat c then unat c - 48 else unat c + 2 ^ 32 - 48)"
    using b by (simp add: unat_sub_if_size word_size u)
  then show ?thesis
    using c b by (simp add: word_less_nat_alt split: if_splits)
qed

lemma digits_loop_result:
  assumes "stored m p (map digit_char ds @ [c])" "list_all (\<lambda>d. d < 10) ds" "\<not> isdigit (uint c)"
  shows "digits_loop m p (r :: 'a::len word) = Some (of_nat (foldl (\<lambda>n d. 10 * n + d) 0 ds) + of_nat (10 ^ length ds) * r)"
proof -
  have "digits_loop m p (of_nat n * 1 + of_nat k * r) =
      Some (of_nat (foldl (\<lambda>n d. 10 * n + d) n ds) + of_nat (k * 10 ^ length ds) * r)" for n k
    using assms
  proof (induction ds arbitrary: p n k)
    case Nil
    then show ?case
      using not_digit_large [of c] by (subst digits_loop.simps) (simp add: Let_def)
  next
    case (Cons d ds)
    then have d: "d < 10" "ucast (m p) - 48 = (of_nat d :: u32)"
      using digit_char_value(2) [of d] by auto
    then have "\<not> (9 :: u32) < of_nat d" "(ucast (of_nat d :: u32) :: 'a word) = of_nat d"
      by (simp_all add: word_less_nat_alt unat_of_nat unsigned_of_nat take_bit_nat_eq_self)
    then have "digits_loop m p (of_nat n * 1 + of_nat k * r) =
        digits_loop m (p + 1) (of_nat (10 * n + d) * 1 + of_nat (10 * k) * r)"
      using d(2) by (subst digits_loop.simps) (simp add: Let_def algebra_simps)
    also have "\<dots> = Some (of_nat (foldl (\<lambda>n d. 10 * n + d) (10 * n + d) ds) + of_nat (10 * k * 10 ^ length ds) * r)"
      using Cons.prems by (intro Cons.IH) auto
    finally show ?case
      by (simp add: ac_simps)
  qed
  from this [of 0 1] show ?thesis
    by simp
qed

text \<open>What is read of a text: white space, a sign, digits, and a character that is no digit.\<close>

lemma read_number:
  assumes "stored m p (ws @ sg @ map digit_char ds @ [c])"
    and "list_all (\<lambda>c. isspace (uint c)) ws" "sg \<in> {[], [43], [45]}" "list_all (\<lambda>d. d < 10) ds" "ds \<noteq> []" "\<not> isdigit (uint c)"
  defines "q \<equiv> p + of_nat (length ws)"
  shows "skip_spaces m p = Some q" "m q = 45 \<longleftrightarrow> sg = [45]" "m q = 43 \<longleftrightarrow> sg = [43]"
    and "digits_loop m (q + of_nat (length sg)) (0 :: 'a::len word) = Some (of_nat (decimal ds))"
proof -
  obtain d ds' where d: "ds = d # ds'" "d < 10"
    using assms(4,5) by (cases ds) auto
  have q: "m q = (if sg = [] then digit_char d else hd sg)"
    using assms(1,3) by (auto simp: q_def d(1))
  then show "m q = 45 \<longleftrightarrow> sg = [45]" "m q = 43 \<longleftrightarrow> sg = [43]"
    using assms(3) digit_char_value(4,5) [OF d(2)] by auto
  have "\<not> isspace (uint (m q))"
    using q assms(3) digit_char_value(3) [OF d(2)] by (auto simp: isspace_def)
  then show "skip_spaces m p = Some q"
    using skip_spaces_result [of m p ws] assms(1,2) by (simp add: q_def)
  have "stored m (q + of_nat (length sg)) (map digit_char ds @ [c])"
    using assms(1) by (simp add: q_def)
  then show "digits_loop m (q + of_nat (length sg)) (0 :: 'a word) = Some (of_nat (decimal ds))"
    using digits_loop_result [OF _ assms(4,6), of m _ 0] by (simp add: decimal_def)
qed

lemma atol_reads_decimal:
  assumes "stored m p (ws @ sg @ map digit_char ds @ [c])" "p \<noteq> 0"
    and "list_all (\<lambda>c. isspace (uint c)) ws" "sg \<in> {[], [43], [45]}" "list_all (\<lambda>d. d < 10) ds" "ds \<noteq> []" "\<not> isdigit (uint c)"
  shows "atol m p = Some (if sg = [45] then - of_nat (decimal ds) else of_nat (decimal ds))"
  using read_number [OF assms(1,3-7)] assms(2,4) by (auto simp: atol_def Let_def)

text \<open>
  \<open>atoi\<close> returns on every text of white space, an optional sign and at least one digit, ended by any character
  that is not a digit: the number modulo $2^{32}$, negated when the sign is a minus. There is no saturation at
  the bounds of \<open>int\<close>, as \<open>stdlib.h\<close> promises: a number outside of them wraps around.\<close>

lemma atoi_reads_decimal:
  assumes "stored m p (ws @ sg @ map digit_char ds @ [c])" "p \<noteq> 0"
    and "list_all (\<lambda>c. isspace (uint c)) ws" "sg \<in> {[], [43], [45]}" "list_all (\<lambda>d. d < 10) ds" "ds \<noteq> []" "\<not> isdigit (uint c)"
  shows "atoi m p = Some (if sg = [45] then - of_nat (decimal ds) else of_nat (decimal ds))"
  using read_number [OF assms(1,3-7)] assms(2,4) by (auto simp: atoi_def Let_def)

lemma atoi_reads_decimal_witness:
  "atoi (write_bytes (\<lambda>_. 0) 16 [32, 45, 52, 50, 0]) 16 = Some (- 42)"
  using atoi_reads_decimal [of "write_bytes (\<lambda>_. 0) 16 [32, 45, 52, 50, 0]" 16 "[32]" "[45]" "[4, 2]" 0]
  by (simp add: write_bytes_def digit_char_def isspace_def isdigit_def decimal_def)

section \<open>What the rewriting functions do\<close>

lemma write_byte: "m(p := x) = write_bytes m p [x]"
  by (auto simp: write_bytes_def fun_eq_iff unat_eq_zero)

lemma map_in_place:
  assumes "cstring m p xs" "Suc (length xs) < 2 ^ 32"
    and "\<And>ptr m. loop ptr m = (if m ptr \<noteq> 0 then loop (ptr + 1) (m(ptr := f (m ptr))) else Some m)"
  shows "loop p m = Some (write_bytes m p (map f xs))"
  using assms(1,2)
proof (induction xs arbitrary: p m)
  case Nil
  then show ?case
    by (subst assms(3)) (simp add: write_bytes_def fun_eq_iff)
next
  case (Cons x xs)
  have c: "cstring (m(p := f x)) (p + 1) xs = cstring m (p + 1) xs"
  proof (rule cstring_frame)
    show "(m(p := f x)) y = m y" if "in_range (p + 1) (Suc (length xs)) y" for y
      using that Cons.prems(2) by (auto simp: in_range_def unsigned_minus_1_eq_mask mask_eq_exp_minus_1)
  qed (use Cons.prems(2) in simp)
  have "cstring m (p + 1) xs"
    using Cons.prems(1) by simp
  then have "loop (p + 1) (m(p := f x)) = Some (write_bytes (m(p := f x)) (p + 1) (map f xs))"
    using Cons.prems(2) by (intro Cons.IH c [THEN iffD2]) simp_all
  moreover have "write_bytes (m(p := f x)) (p + 1) (map f xs) = write_bytes m p (map f (x # xs))"
    using write_bytes_append [of "[f x]" "map f xs" m p] Cons.prems(2) by (simp add: write_byte)
  ultimately show ?case
    using Cons.prems(1) by (subst assms(3)) simp
qed

lemma strupr_result:
  assumes "cstring m p xs" "Suc (length xs) < 2 ^ 32"
  shows "strupr p m = Some (p, write_bytes m p (map (\<lambda>c. word_of_int (toupper (uint c))) xs))"
proof -
  have "strupr_loop p m = Some (write_bytes m p (map (\<lambda>c. word_of_int (toupper (uint c))) xs))"
    by (rule map_in_place [OF assms]) (subst strupr_loop.simps, simp only: Let_def)
  then show ?thesis
    by (simp add: strupr_def)
qed

lemma strlwr_result:
  assumes "cstring m p xs" "Suc (length xs) < 2 ^ 32"
  shows "strlwr p m = Some (p, write_bytes m p (map (\<lambda>c. word_of_int (tolower (uint c))) xs))"
proof -
  have "strlwr_loop p m = Some (write_bytes m p (map (\<lambda>c. word_of_int (tolower (uint c))) xs))"
    by (rule map_in_place [OF assms]) (subst strlwr_loop.simps, simp only: Let_def)
  then show ?thesis
    by (simp add: strlwr_def)
qed

text \<open>After some rounds of \<^verbatim>\<open>strrev\<close>, as many bytes are exchanged at both ends of the string.\<close>

lemma strrev_loop_exchanges:
  assumes "2 * n \<le> len" "len < 2 ^ 32"
  shows "strrev_loop n p (of_nat len) m x =
    (let j = unat (x - p) in if j < n \<or> len - n \<le> j \<and> j < len then m (p + of_nat (len - 1 - j)) else m x)"
  using assms(1)
proof (induction n arbitrary: x)
  case 0
  then show ?case
    by (auto simp: Let_def)
next
  case (Suc n)
  define q where "q = len - 1 - n"
  have q: "len = q + n + 1" "n < q"
    using Suc.prems by (auto simp: q_def)
  have n: "of_nat len - of_nat n - 1 = (of_nat q :: u32)"
    by (simp add: q(1))
  have u: "unat (of_nat k :: u32) = k" if "k \<le> len" for k
    using that assms(2) by (simp add: unat_of_nat)
  have x: "x = p + of_nat k \<longleftrightarrow> unat (x - p) = k" if "k \<le> len" for k
  proof
    assume "unat (x - p) = k"
    then have "x - p = of_nat k"
      by auto
    then show "x = p + of_nat k"
      by (simp add: algebra_simps)
  qed (use u [OF that] in simp)
  have IH: "strrev_loop n p (of_nat len) m (p + of_nat k) =
      (if k < n \<or> len - n \<le> k \<and> k < len then m (p + of_nat (len - 1 - k)) else m (p + of_nat k))" if "k \<le> len" for k
    using Suc.IH [of "p + of_nat k"] Suc.prems u [OF that] by (simp add: Let_def)
  have IHx: "strrev_loop n p (of_nat len) m x =
      (let j = unat (x - p) in if j < n \<or> len - n \<le> j \<and> j < len then m (p + of_nat (len - 1 - j)) else m x)"
    using Suc.prems by (intro Suc.IH) simp
  have ends: "strrev_loop n p (of_nat len) m (p + of_nat n) = m (p + of_nat n)"
    "strrev_loop n p (of_nat len) m (p + of_nat q) = m (p + of_nat q)"
    using IH [of n] IH [of q] q by simp_all
  have "strrev_loop (Suc n) p (of_nat len) m x =
      (if unat (x - p) = q then m (p + of_nat n) else if unat (x - p) = n then m (p + of_nat q)
       else strrev_loop n p (of_nat len) m x)"
    unfolding strrev_loop.simps Let_def n ends using x [of n] x [of q] q by (simp add: ends fun_upd_apply)
  then show ?case
    unfolding IHx Let_def using q by (auto simp: less_Suc_eq)
qed

lemma strrev_result:
  assumes "cstring m p xs" "length xs < 2 ^ 32"
  shows "\<exists>m'. strrev p m = Some (p, m') \<and> cstring m' p (rev xs) \<and> (\<forall>x. \<not> in_range p (length xs) x \<longrightarrow> m' x = m x)"
proof -
  let ?len = "length xs"
  let ?m = "strrev_loop (?len div 2) p (of_nat ?len) m"
  have u: "unat (of_nat k :: u32) = k" if "k \<le> ?len" for k
    using that assms(2) by (simp add: unat_of_nat)
  have "strrev p m = Some (p, ?m)"
    using strlen_result [OF assms(1)] u [of ?len] by (simp add: strrev_def unat_div)
  moreover have "?m (p + of_nat k) = xs ! (?len - 1 - k)" if "k < ?len" for k
  proof -
    have "?m (p + of_nat k) = (if k < ?len div 2 \<or> ?len - ?len div 2 \<le> k \<and> k < ?len
        then m (p + of_nat (?len - 1 - k)) else m (p + of_nat k))"
      using strrev_loop_exchanges [of "?len div 2" ?len p m "p + of_nat k"] assms(2) u [of k] that by (simp add: Let_def)
    moreover have "k = ?len - 1 - k" if "\<not> (k < ?len div 2 \<or> ?len - ?len div 2 \<le> k \<and> k < ?len)"
      using that \<open>k < ?len\<close> by presburger
    moreover have "m (p + of_nat (?len - 1 - k)) = xs ! (?len - 1 - k)"
      using cstring_nonzero [OF assms(1), of "?len - 1 - k"] that by simp
    ultimately show ?thesis
      by (cases "k < ?len div 2 \<or> ?len - ?len div 2 \<le> k \<and> k < ?len") simp_all
  qed
  moreover have "?m x = m x" if "\<not> in_range p ?len x" for x
    using strrev_loop_exchanges [of "?len div 2" ?len p m x] assms(2) that by (auto simp: Let_def in_range_def)
  ultimately show ?thesis
    using cstring_nonzero [OF assms(1)] cstring_end [OF assms(1)] u [of ?len]
    by (auto simp: cstring_iff rev_nth in_range_def)
qed

end
