(* ===== verification/BuddyClients.thy ===== *)
theory BuddyClients
  imports Buddy CText
begin

text \<open>
  The functions of a DPU that move memory of the buddy allocator: \<^verbatim>\<open>buddy_realloc.c\<close> and the duplication of strings
  (\<^verbatim>\<open>stdlib/strdup.c\<close>, \<^verbatim>\<open>strndup.c\<close>). The strings and copies see the words of WRAM as bytes, the first byte of a word in its
  low bits; an access outside of WRAM is a fault.
\<close>

section \<open>The bytes of WRAM\<close>

definition wram_bytes :: "wram \<Rightarrow> bytes" where
  "wram_bytes st a = ucast (drop_bit (8 * unat (a AND 3)) (words st (a AND NOT 3)))"

definition word_of_bytes :: "bytes \<Rightarrow> u32 \<Rightarrow> u32" where
  "word_of_bytes f a =
     ucast (f a) OR push_bit 8 (ucast (f (a + 1))) OR push_bit 16 (ucast (f (a + 2))) OR push_bit 24 (ucast (f (a + 3)))"

definition set_wram_bytes :: "bytes \<Rightarrow> wram \<Rightarrow> wram" where
  "set_wram_bytes f st = st\<lparr>words := \<lambda>a. if a AND 3 = 0 then word_of_bytes f a else words st a\<rparr>"

abbreviation (input) buddy_bytes :: "buddy \<Rightarrow> bytes" where
  "buddy_bytes b \<equiv> wram_bytes (buddy_wram b)"

definition wram_memcpy :: "nat \<Rightarrow> u32 \<Rightarrow> u32 \<Rightarrow> u32 \<Rightarrow> buddy \<Rightarrow> dpu_fault + buddy" where
  "wram_memcpy wram_size dest src len b =
     (if len = 0 \<or> unat dest + unat len \<le> wram_size \<and> unat src + unat len \<le> wram_size
      then Inr (b\<lparr>buddy_wram := set_wram_bytes (memcpy dest src len (buddy_bytes b)) (buddy_wram b)\<rparr>)
      else Inl MEMORY_FAULT)"

definition wram_store_byte :: "nat \<Rightarrow> u32 \<Rightarrow> u8 \<Rightarrow> buddy \<Rightarrow> dpu_fault + buddy" where
  "wram_store_byte wram_size a c b =
     (if unat a < wram_size then Inr (b\<lparr>buddy_wram := set_wram_bytes ((buddy_bytes b)(a := c)) (buddy_wram b)\<rparr>)
      else Inl MEMORY_FAULT)"

definition wram_strlen :: "nat \<Rightarrow> u32 \<Rightarrow> buddy \<Rightarrow> dpu_fault + u32" where
  "wram_strlen wram_size string b =
     (case strlen (buddy_bytes b) string of
        None \<Rightarrow> Inl MEMORY_FAULT
      | Some len \<Rightarrow> if unat string + unat len < wram_size then Inr len else Inl MEMORY_FAULT)"

text \<open>\<^verbatim>\<open>strnlen\<close> reads the byte at the length that it returns, also when this is the maximum.\<close>

definition wram_strnlen :: "nat \<Rightarrow> u32 \<Rightarrow> u32 \<Rightarrow> buddy \<Rightarrow> dpu_fault + u32" where
  "wram_strnlen wram_size string max_len b =
     (let len = strnlen (buddy_bytes b) string max_len
      in if unat string + unat len < wram_size then Inr len else Inl MEMORY_FAULT)"

section \<open>Duplication of strings\<close>

definition strdup :: "nat \<Rightarrow> u32 \<Rightarrow> buddy \<Rightarrow> dpu_fault + u32 \<times> buddy" where
  "strdup wram_size string b =
     andThen (wram_strlen wram_size string b) (\<lambda>n.
     let len = n + 1
     in andThen (buddy_alloc wram_size len b) (\<lambda>(result, b).
        if result \<noteq> 0 then andThen (wram_memcpy wram_size result string len b) (\<lambda>b. Inr (result, b))
        else Inr (result, b)))"

definition strndup :: "nat \<Rightarrow> u32 \<Rightarrow> u32 \<Rightarrow> buddy \<Rightarrow> dpu_fault + u32 \<times> buddy" where
  "strndup wram_size string n b =
     andThen (wram_strnlen wram_size string n b) (\<lambda>len.
     andThen (buddy_alloc wram_size (len + 1) b) (\<lambda>(result, b).
     if result \<noteq> 0
     then andThen (wram_memcpy wram_size result string len b) (\<lambda>b.
          andThen (wram_store_byte wram_size (result + (len + 1)) 0 b) (\<lambda>b. Inr (result, b)))
     else Inr (result, b)))"

section \<open>Reallocation\<close>

text \<open>No size is the value -1 of the code. The shift is that of the processor, modulo 32.\<close>

definition buddy_sizeofblock :: "nat \<Rightarrow> u32 \<Rightarrow> buddy \<Rightarrow> dpu_fault + u32 option \<times> buddy" where
  "buddy_sizeofblock wram_size pointer b =
     andThen (buddy_search_for_pointer wram_size pointer b) (\<lambda>(found, b).
     Inr (map_option (\<lambda>(index, _). lsl 1 (12 - index)) found, b))"

definition buddy_realloc :: "nat \<Rightarrow> u32 \<Rightarrow> u32 \<Rightarrow> buddy \<Rightarrow> dpu_fault + u32 \<times> buddy" where
  "buddy_realloc wram_size ptr sz b =
     (if ptr = 0 then safe_buddy_alloc wram_size sz b
      else if sz = 0 then andThen (safe_buddy_free wram_size ptr b) (\<lambda>b. Inr (ptr, b))
      else andThen (buddy_sizeofblock wram_size ptr b) (\<lambda>(size_block, b).
           case size_block of
             None \<Rightarrow> Inr (0, b)
           | Some size_block \<Rightarrow>
               if drop_bit 1 size_block < sz \<and> sz \<le> size_block then Inr (ptr, b)
               else let size_block = (if sz \<le> drop_bit 1 size_block then sz else size_block)
                    in andThen (safe_buddy_free wram_size ptr b) (\<lambda>b.
                       andThen (safe_buddy_alloc wram_size sz b) (\<lambda>(result, b).
                       andThen (wram_memcpy wram_size result ptr size_block b) (\<lambda>b. Inr (result, b))))))"

section \<open>Words and bytes\<close>

lemma word_address:
  fixes a :: u32
  shows "(a AND NOT 3) + (a AND 3) = a" "(a AND NOT 3) AND 3 = 0" "unat (a AND 3) < 4" "unat (a AND NOT 3) \<le> unat a"
proof -
  show "(a AND NOT 3) + (a AND 3) = a"
    using and_not_split [of a 3] by (simp only: add.commute)
  show "(a AND NOT 3) AND 3 = 0"
    by (rule bit_eqI) (auto simp: bit_simps)
  have "a AND 3 \<le> 3"
    by (rule word_and_le1)
  then show "unat (a AND 3) < 4"
    by (simp add: word_le_nat_alt)
  show "unat (a AND NOT 3) \<le> unat a"
    using word_and_le2 [of a "NOT 3"] by (simp add: word_le_nat_alt and.commute)
qed

lemma byte_of_word: "ucast (word_of_bytes f a) = f a" "ucast (drop_bit 8 (word_of_bytes f a)) = f (a + 1)"
  "ucast (drop_bit 16 (word_of_bytes f a)) = f (a + 2)" "ucast (drop_bit 24 (word_of_bytes f a)) = f (a + 3)"
  by (rule bit_eqI; auto simp: word_of_bytes_def bit_simps dest: bit_imp_le_length)+

lemma wram_bytes_set [simp]: "wram_bytes (set_wram_bytes f st) = f"
proof
  fix a :: u32
  have "unat (a AND 3) \<in> {0, 1, 2, 3}"
    using word_address(3) [of a] by auto
  then have "a AND 3 \<in> {0, 1, 2, 3}"
    by (simp add: word_unat_eq_iff)
  then show "wram_bytes (set_wram_bytes f st) a = f a"
    using word_address(1) [of a] word_address(2) [of a] by (auto simp: wram_bytes_def set_wram_bytes_def byte_of_word)
qed

lemma word_offset:
  fixes a x :: u32
  assumes "a AND 3 = 0" "x AND 3 = x"
  shows "(a + x) AND 3 = x \<and> (a + x) AND NOT 3 = a"
proof -
  have "bit x i \<Longrightarrow> bit (3 :: u32) i" "\<not> (bit a i \<and> bit (3 :: u32) i)" for i
    using arg_cong [OF assms(2), of "\<lambda>w. bit w i"] arg_cong [OF assms(1), of "\<lambda>w. bit w i"] by (auto simp: bit_and_iff)
  note bits = this
  have "a AND x = 0"
    by (rule bit_eqI) (use bits in \<open>auto simp: bit_and_iff\<close>)
  then have "a + x = a OR x"
    by (rule disjunctive_add_eq_or)
  moreover have "(a OR x) AND 3 = x"
    by (rule bit_eqI) (use bits in \<open>auto simp: bit_and_iff bit_or_iff\<close>)
  moreover have "(a OR x) AND NOT 3 = a"
    by (rule bit_eqI) (use bits in \<open>auto simp only: bit_and_iff bit_or_iff bit_not_iff exp_eq_zero_iff\<close>)
  ultimately show ?thesis
    by (simp only: simp_thms)
qed

lemma words_set:
  assumes "\<And>k. k < 4 \<Longrightarrow> f (a + of_nat k) = wram_bytes st (a + of_nat k)" "a AND 3 = 0"
  shows "words (set_wram_bytes f st) a = words st a"
proof -
  have "(a + of_nat k) AND 3 = of_nat k \<and> (a + of_nat k) AND NOT 3 = a" if "k < 4" for k
  proof (rule word_offset [OF assms(2)])
    have "k \<in> {0, 1, 2, 3}"
      using that by auto
    then show "of_nat k AND 3 = (of_nat k :: u32)"
      by auto
  qed
  then have fk: "f (a + of_nat k) = ucast (drop_bit (8 * k) (words st a))" if "k < 4" for k
    using assms(1) [OF that] that by (simp add: wram_bytes_def unat_of_nat)
  have f: "f a = ucast (drop_bit 0 (words st a))" "f (a + 1) = ucast (drop_bit 8 (words st a))"
    "f (a + 2) = ucast (drop_bit 16 (words st a))" "f (a + 3) = ucast (drop_bit 24 (words st a))"
    using fk [of 0] fk [of 1] fk [of 2] fk [of 3] by simp_all
  have "word_of_bytes f a = words st a"
  proof (rule bit_word_eqI)
    fix n
    assume "n < LENGTH(32)"
    then consider "n < 8" | "8 \<le> n" "n - 8 < 8" | "16 \<le> n" "n - 16 < 8" | "24 \<le> n" "n - 24 < 8"
      by fastforce
    then show "bit (word_of_bytes f a) n = bit (words st a) n"
      by cases (auto simp: word_of_bytes_def f bit_simps)
  qed
  then show ?thesis
    using assms(2) by (simp add: set_wram_bytes_def)
qed

section \<open>The allocator and the bytes\<close>

lemma unat_word_address: "unat (a AND NOT 3 :: u32) \<le> unat a" "unat a < unat (a AND NOT 3) + 4"
proof -
  have "unat (a AND NOT 3) = unat a div 4 * 4"
    using unat_and_minus_4 [of a] by simp
  then show "unat (a AND NOT 3) \<le> unat a" "unat a < unat (a AND NOT 3) + 4"
    by presburger+
qed

lemma and_3: "unat (a :: u32) mod 4 = 0 \<Longrightarrow> a AND 3 = 0"
proof -
  assume "unat a mod 4 = 0"
  then have "unat (a AND NOT 3) = unat a"
    using unat_and_minus_4 [of a] by simp presburger
  then have "a AND NOT 3 = a"
    by (simp only: word_unat_eq_iff)
  then show "a AND 3 = 0"
    using word_address(1) [of a] by (metis add_cancel_right_right)
qed

text \<open>An allocation changes no byte outside of the array, and no byte outside of the array matters to it.\<close>

lemma same_heap_bytes:
  assumes "buddy_ok W L b" "same_heap L b b'" "unat x < unat (buddy_blocks b) \<or> unat (buddy_heap_start b) \<le> unat x"
  shows "buddy_bytes b' x = buddy_bytes b x"
proof -
  have "x AND NOT 3 \<noteq> buddy_blocks b + 4 * of_nat k" if "k < 2 ^ (L - 5)" for k
    using array_below_heap [OF assms(1) that] unat_word_address [of x] assms(3) by auto
  then have "words (buddy_wram b') (x AND NOT 3) = words (buddy_wram b) (x AND NOT 3)"
    using assms(2) unfolding same_heap_def by blast
  then show ?thesis
    unfolding wram_bytes_def by simp
qed

lemma owns_bytes:
  assumes own: "owns W L b owned"
    and f: "\<And>x. unat (buddy_blocks b) \<le> unat x \<Longrightarrow> unat x < unat (buddy_heap_start b) \<Longrightarrow> f x = buddy_bytes b x"
  shows "owns W L (b\<lparr>buddy_wram := set_wram_bytes f (buddy_wram b)\<rparr>) owned"
proof (rule owns_words [OF own])
  fix k :: nat
  assume k: "k < 2 ^ (L - 5)"
  let ?a = "buddy_blocks b + 4 * of_nat k"
  have ok: "buddy_ok W L b"
    using own bb.rep_ok by (auto simp: owns_def)
  have a: "unat ?a mod 4 = 0" "unat (buddy_blocks b) \<le> unat ?a" "unat ?a + 4 \<le> unat (buddy_heap_start b)"
    using block_address(2) [OF ok k] array_below_heap [OF ok k] by (simp_all add: word_ok_def)
  have h: "unat (buddy_heap_start b) < 2 ^ 32"
    using ok by (simp add: buddy_ok_def)
  show "words (set_wram_bytes f (buddy_wram b)) ?a = words (buddy_wram b) ?a"
  proof (rule words_set)
    show "?a AND 3 = 0"
      by (rule and_3 [OF a(1)])
    fix j :: nat
    assume j: "j < 4"
    have "unat (?a + of_nat j) = unat ?a + j"
      using a(3) h j by (intro unat_plus_of_nat) simp
    then show "f (?a + of_nat j) = buddy_bytes b (?a + of_nat j)"
      using a j by (intro f) simp_all
  qed
qed

text \<open>A range that the allocator leaves alone: inside an owned block, or outside of its memory.\<close>

definition kept_range :: "nat \<Rightarrow> buddy \<Rightarrow> (u32 \<times> nat) set \<Rightarrow> u32 \<Rightarrow> nat \<Rightarrow> bool" where
  "kept_range L b owned s n \<longleftrightarrow> (\<exists>x \<in> owned. {unat s..<unat s + n} \<subseteq> block_range x)
     \<or> unat s + n \<le> unat (buddy_blocks b) \<or> unat (buddy_heap_start b) + 2 ^ (L + 3) \<le> unat s"

lemma kept_range_bytes:
  assumes own: "owns W L b owned" and k: "kept_range L b owned s n" and same: "same_heap L b b'"
    and x: "unat x \<in> {unat s..<unat s + n}"
  shows "buddy_bytes b' x = buddy_bytes b x"
proof -
  have ok: "buddy_ok W L b"
    using own bb.rep_ok by (auto simp: owns_def)
  have "unat x < unat (buddy_blocks b) \<or> unat (buddy_heap_start b) \<le> unat x"
    using k x owns_disjoint(1) [OF own] unfolding kept_range_def by fastforce
  then show ?thesis
    by (rule same_heap_bytes [OF ok same])
qed

lemma kept_range_disjoint:
  assumes own: "owns W L b owned" and k: "kept_range L b owned s n" and "0 < n" "n \<le> 2 ^ q"
    and new: "block_range (p, 2 ^ q) \<subseteq> {unat (buddy_heap_start b)..<unat (buddy_heap_start b) + 2 ^ (L + 3)}"
    and dis: "\<And>x. x \<in> owned \<Longrightarrow> block_range (p, 2 ^ q) \<inter> block_range x = {}"
  shows "unat p + n \<le> unat s \<or> unat s + n \<le> unat p"
proof -
  have ok: "buddy_ok W L b"
    using own bb.rep_ok by (auto simp: owns_def)
  have "{unat s..<unat s + n} \<inter> {unat p..<unat p + 2 ^ q} = {}"
    using k unfolding kept_range_def
  proof (elim disjE bexE)
    fix x
    assume "x \<in> owned" "{unat s..<unat s + n} \<subseteq> block_range x"
    moreover have "{unat p..<unat p + 2 ^ q} \<inter> block_range x = {}"
      using dis [OF \<open>x \<in> owned\<close>] by (simp add: block_range_def)
    ultimately show ?thesis
      by blast
  qed (use new ok in \<open>auto simp: block_range_def buddy_ok_def\<close>)
  moreover have "unat p \<in> {unat p..<unat p + 2 ^ q}" "unat s \<in> {unat s..<unat s + n}"
    using assms(3) by simp_all
  ultimately have "unat p \<notin> {unat s..<unat s + n}" "unat s \<notin> {unat p..<unat p + 2 ^ q}"
    by blast+
  then show ?thesis
    using assms(3,4) by auto
qed

lemma memcpy_heap:
  assumes own: "owns W L b owned" and W: "W + 3 < 2 ^ 32"
    and d: "unat (buddy_heap_start b) \<le> unat d" "unat d + n \<le> W" and s: "unat s + n \<le> W"
    and dis: "unat d + n \<le> unat s \<or> unat s + n \<le> unat d"
  obtains b' where "wram_memcpy W d s (of_nat n) b = Inr b'" "owns W L b' owned"
    "buddy_bytes b' = write_bytes (buddy_bytes b) d (read_bytes (buddy_bytes b) s n)"
    "buddy_heap_start b' = buddy_heap_start b" "buddy_blocks b' = buddy_blocks b"
proof -
  let ?f = "write_bytes (buddy_bytes b) d (read_bytes (buddy_bytes b) s n)"
  let ?b = "b\<lparr>buddy_wram := set_wram_bytes ?f (buddy_wram b)\<rparr>"
  have n: "unat (of_nat n :: u32) = n"
    using W d by (simp add: unat_of_nat)
  have "memcpy d s (of_nat n) (buddy_bytes b) = ?f"
    using W d s dis by (subst memcpy_moves) (auto simp: upwards_def move_def n)
  then have "wram_memcpy W d s (of_nat n) b = Inr ?b"
    using d s n by (simp add: wram_memcpy_def)
  moreover have "owns W L ?b owned"
  proof (rule owns_bytes [OF own])
    fix x :: u32
    assume "unat x < unat (buddy_heap_start b)"
    then have x: "unat x < unat d"
      using d(1) by simp
    then have "unat (x - d) = 2 ^ 32 + unat x - unat d"
      using unat_sub_if_size [of x d] by (simp add: word_size)
    then have "\<not> unat (x - d) < n"
      using x W d(2) by linarith
    then show "?f x = buddy_bytes b x"
      by (simp add: write_bytes_def)
  qed
  ultimately show ?thesis
    using that by simp
qed

lemma in_range_nat: "in_range s n x \<Longrightarrow> unat s + n < 2 ^ 32 \<Longrightarrow> unat x \<in> {unat s..<unat s + n}" for x s :: u32
  using unat_sub_if_size [of x s] unsigned_less [where 'a = nat, of s] unsigned_less [where 'a = nat, of x]
  by (auto simp: in_range_def word_size split: if_splits)

text \<open>The space for a string of \<open>n\<close> bytes: no room, or a new block, with everything else as it was.\<close>

lemma alloc_for_bytes:
  assumes own: "owns W L b owned" and n: "0 < n" "n \<le> 2 ^ (L + 3)" "block_order n q"
  obtains (full) "buddy_alloc W (of_nat n) b = Inr (0, b\<lparr>errno := ENOMEM\<rparr>)" "no_room (buddy_heap_start b) (L + 3) q owned"
    | (found) p b' where "buddy_alloc W (of_nat n) b = Inr (p, b')" "p \<noteq> 0" "\<not> no_room (buddy_heap_start b) (L + 3) q owned"
      "same_heap L b b'" "owns W L b' (insert (p, 2 ^ q) owned)"
      "\<And>x. x \<in> owned \<Longrightarrow> block_range (p, 2 ^ q) \<inter> block_range x = {}"
      "block_range (p, 2 ^ q) \<subseteq> {unat (buddy_heap_start b)..<unat (buddy_heap_start b) + 2 ^ (L + 3)}" "n \<le> 2 ^ q"
      "unat (buddy_heap_start b) \<le> unat p" "unat p + 2 ^ q \<le> W"
proof -
  have ok: "buddy_ok W L b"
    using own bb.rep_ok by (auto simp: owns_def)
  have "n < 2 ^ 32"
    using n(2) ok by (simp add: buddy_ok_def)
  then have u: "unat (of_nat n :: u32) = n"
    by (simp add: unat_of_nat)
  have sz: "0 < unat (of_nat n :: u32)" "unat (of_nat n :: u32) \<le> 2 ^ (L + 3)" "block_order (unat (of_nat n :: u32)) q"
    using n u by simp_all
  from own sz show ?thesis
  proof (cases rule: owns_alloc)
    case (found i b')
    let ?p = "buddy_heap_start b + of_nat (i * 2 ^ q)"
    have st: "buddy_heap_start b' = buddy_heap_start b"
      using found(4) by (simp add: same_heap_def)
    have r: "block_range (?p, 2 ^ q) \<subseteq> {unat (buddy_heap_start b)..<unat (buddy_heap_start b) + 2 ^ (L + 3)}"
      using owns_disjoint(1) [OF found(5), of "(?p, 2 ^ q)"] st by simp
    then have "unat (buddy_heap_start b) \<le> unat ?p" "unat ?p + 2 ^ q \<le> unat (buddy_heap_start b) + 2 ^ (L + 3)"
      unfolding block_range_def by simp_all
    then have "unat (buddy_heap_start b) \<le> unat ?p" "unat ?p + 2 ^ q \<le> W"
      using ok unfolding buddy_ok_def by linarith+
    moreover have "\<not> no_room (buddy_heap_start b) (L + 3) q owned"
      using found(1,6) unfolding no_room_def by blast
    ultimately show ?thesis
      using that(2) found r n(3) by (simp add: block_order_def)
  next
    case full
    then show ?thesis
      using that(1) by (simp add: no_room_def)
  qed
qed

section \<open>Duplicates\<close>

lemma cstring_no_change:
  assumes "\<And>x. unat x \<in> {unat p..<unat p + Suc (length xs)} \<Longrightarrow> m' x = m x" "unat p + Suc (length xs) < 2 ^ 32"
  shows "cstring m' p xs = cstring m p xs"
proof (rule cstring_frame)
  show "m' x = m x" if "in_range p (Suc (length xs)) x" for x
    by (rule assms(1) [OF in_range_nat [OF that assms(2)]])
qed (use assms(2) in simp)

lemma cstring_copy:
  assumes "cstring m s xs" "Suc (length xs) < 2 ^ 32"
  shows "cstring (write_bytes m p (read_bytes m s (Suc (length xs)))) p xs"
proof -
  have "write_bytes m p (read_bytes m s (Suc (length xs))) (p + of_nat i) = m (s + of_nat i)" if "i \<le> length xs" for i
    using that assms(2) by (simp add: write_bytes_def unat_of_nat)
  then show ?thesis
    using assms(1) by (simp add: cstring_iff)
qed

lemma wram_strlen_result:
  assumes "cstring (buddy_bytes b) s xs" "unat s + length xs < W" "W < 2 ^ 32"
  shows "wram_strlen W s b = Inr (of_nat (length xs))"
  using strlen_result [OF assms(1)] assms(2,3) by (simp add: wram_strlen_def unat_of_nat)

text \<open>
  C36: \<open>strdup\<close>, on the buddy allocator and the copy of bytes. For a terminated string inside WRAM that lies in an owned block
  or outside of the memory of the allocator, the call returns. When no block of the smallest power of two for the string and its
  terminator is free, the result is NULL and the owned blocks are the same; otherwise it is a new block of that size,
  disjoint from all owned blocks and owned from then on, that holds the same string. The original string is unchanged.
\<close>

theorem strdup_duplicates:
  assumes "owns W L b owned" "W + 3 < 2 ^ 32"
    and "cstring (wram_bytes (buddy_wram b)) s xs" "unat s + length xs < W" "kept_range L b owned s (Suc (length xs))"
    and "Suc (length xs) \<le> 2 ^ (L + 3)" "block_order (Suc (length xs)) q"
  shows "\<exists>p b'. strdup W s b = Inr (p, b') \<and> cstring (wram_bytes (buddy_wram b')) s xs \<and>
    (if no_room (buddy_heap_start b) (L + 3) q owned then p = 0 \<and> owns W L b' owned
     else p \<noteq> 0 \<and> cstring (wram_bytes (buddy_wram b')) p xs \<and> owns W L b' (insert (p, 2 ^ q) owned)
       \<and> (\<forall>x \<in> owned. block_range (p, 2 ^ q) \<inter> block_range x = {}))"
proof -
  let ?n = "Suc (length xs)"
  have n: "?n < 2 ^ 32" "unat s + ?n \<le> W"
    using assms(2,4) by simp_all
  have len: "strdup W s b = andThen (buddy_alloc W (of_nat ?n) b) (\<lambda>(result, b).
        if result \<noteq> 0 then andThen (wram_memcpy W result s (of_nat ?n) b) (\<lambda>b. Inr (result, b)) else Inr (result, b))"
  proof -
    have "of_nat (length xs) + 1 = (of_nat ?n :: u32)"
      by simp
    moreover have "wram_strlen W s b = Inr (of_nat (length xs))"
      using wram_strlen_result [OF assms(3,4)] assms(2) by simp
    ultimately show ?thesis
      unfolding strdup_def Let_def by (simp only: andThen_simps)
  qed
  from assms(1) zero_less_Suc assms(6,7) show ?thesis
  proof (cases rule: alloc_for_bytes)
    case full
    then show ?thesis
      using len assms(1,3) by (auto simp: owns_def)
  next
    case (found p b1)
    have dis: "unat p + ?n \<le> unat s \<or> unat s + ?n \<le> unat p"
      by (rule kept_range_disjoint [OF assms(1,5) _ found(8,7,6)]) simp_all
    have st: "buddy_heap_start b1 = buddy_heap_start b"
      using found(4) by (simp add: same_heap_def)
    have p: "unat (buddy_heap_start b1) \<le> unat p" "unat p + ?n \<le> W"
      using found(8,9,10) st by simp_all
    obtain b' where b': "wram_memcpy W p s (of_nat ?n) b1 = Inr b'" "owns W L b' (insert (p, 2 ^ q) owned)"
      "buddy_bytes b' = write_bytes (buddy_bytes b1) p (read_bytes (buddy_bytes b1) s ?n)"
      by (rule memcpy_heap [OF found(5) assms(2) p n(2) dis])
    have c1: "cstring (buddy_bytes b1) s xs"
      using cstring_no_change [of s xs "buddy_bytes b1" "buddy_bytes b"] kept_range_bytes [OF assms(1,5) found(4)] assms(2,3) n(2) by simp
    moreover have "buddy_bytes b' x = buddy_bytes b1 x" if "unat x \<in> {unat s..<unat s + ?n}" for x
    proof -
      have "\<not> unat (x - p) < ?n"
        using in_range_nat [of p ?n x] that dis found(8,10) assms(2) by (auto simp: in_range_def)
      then show ?thesis
        unfolding b'(3) by (simp add: write_bytes_def)
    qed
    then have "cstring (buddy_bytes b') s xs"
      using cstring_no_change [of s xs "buddy_bytes b'" "buddy_bytes b1"] c1 assms(2) n(2) by simp
    moreover have "strdup W s b = Inr (p, b')"
      unfolding len found(1) using found(2) b'(1) by simp
    moreover have "cstring (buddy_bytes b') p xs"
      unfolding b'(3) by (rule cstring_copy [OF c1 n(1)])
    ultimately show ?thesis
      using found(2,3,6) b'(2) by auto
  qed
qed

text \<open>A heap of 512 bytes, and the string \<^verbatim>\<open>abc\<close> at address 16.\<close>

definition small_heap :: buddy where
  "small_heap = \<lparr>buddy_wram = \<lparr>heap_pointer = 584, words = (\<lambda>a. if a = 64 then 0x7FFFFFFF else if a = 68 then 0xFFFFFFFF
       else if a = 16 then 0x00636261 else 0)\<rparr>, errno = 0, buddy_init_done = 1, buddy_blocks = 64, buddy_heap_start = 72,
     BUDDY_SIZE_OF_HEAP = 512, BUDDY_MAX_POWER = 9, BUDDY_NUMBER_OF_LEVELS = 6\<rparr>"

lemma small_heap_owns: "owns 65536 6 small_heap {}"
proof -
  have "buddy_ok 65536 6 small_heap"
    using free_words(2) [of 31] by (simp add: buddy_ok_def small_heap_def)
  moreover have "block_word small_heap 0 = 0x7FFFFFFF" "block_word small_heap 1 = 0xFFFFFFFF"
    by (simp_all add: block_word_def small_heap_def)
  moreover have "j = 1" if "0 < j" "j < 2 ^ (6 - 5)" for j :: nat
    using that by simp
  ultimately have "bb.rep 6 65536 small_heap {}"
    by (intro fresh_rep) blast+
  then show ?thesis
    by (auto simp: owns_def)
qed

lemma small_heap_string: "cstring (wram_bytes (buddy_wram small_heap)) 16 [97, 98, 99]"
  by (simp add: wram_bytes_def small_heap_def)

theorem strdup_duplicates_witness:
  "\<exists>p b'. strdup 65536 16 small_heap = Inr (p, b') \<and> p \<noteq> 0 \<and> cstring (wram_bytes (buddy_wram b')) p [97, 98, 99]"
proof -
  have "kept_range 6 small_heap {} 16 (Suc (length [97, 98, 99 :: u8]))" "block_order (Suc (length [97, 98, 99 :: u8])) 4"
    by (simp_all add: kept_range_def small_heap_def block_order_def)
  moreover have "\<not> no_room (buddy_heap_start small_heap) (6 + 3) 4 {}"
    by (auto simp: no_room_def intro: exI [of _ 0])
  ultimately show ?thesis
    using strdup_duplicates [OF small_heap_owns _ small_heap_string, of 4] by auto
qed

lemma kept_range_mono: "kept_range L b owned s n \<Longrightarrow> k \<le> n \<Longrightarrow> kept_range L b owned s k"
  unfolding kept_range_def by fastforce

lemma wram_strnlen_result:
  assumes "cstring (buddy_bytes b) s xs" "unat s + length xs < W" "W < 2 ^ 32"
  shows "wram_strnlen W s n b = Inr (of_nat (min (length xs) (unat n)))"
proof -
  have "unat (of_nat (min (length xs) (unat n)) :: u32) = min (length xs) (unat n)"
    using assms(2,3) by (simp add: unat_of_nat)
  then show ?thesis
    using strnlen_result [OF assms(1), of n] assms(2,3) by (simp add: wram_strnlen_def Let_def)
qed

text \<open>
  \<open>strndup\<close> writes the terminator one byte too far. When there is room, the result is a new block with room for
  \<open>len + 1\<close> bytes, the byte at index \<open>len\<close>, where the copy ends, keeps the value it had in the heap, and the byte at
  index \<open>len + 1\<close> is set to zero, which lies after the end of the block when \<open>len + 1\<close> is a power of two from 16 on.
\<close>

lemma strndup_misplaces_terminator:
  fixes n :: u32
  assumes "owns W L b owned" "W + 3 < 2 ^ 32" "unat (buddy_heap_start b) + 2 ^ (L + 3) < W"
    and "cstring (wram_bytes (buddy_wram b)) s xs" "unat s + length xs < W" "kept_range L b owned s (Suc (length xs))"
    and "len = min (length xs) (unat n)" "Suc len \<le> 2 ^ (L + 3)" "block_order (Suc len) q"
    and "\<not> no_room (buddy_heap_start b) (L + 3) q owned"
  shows "\<exists>p b'. strndup W s n b = Inr (p, b') \<and> p \<noteq> 0 \<and> (\<forall>x \<in> owned. block_range (p, 2 ^ q) \<inter> block_range x = {})
    \<and> wram_bytes (buddy_wram b') (p + of_nat len) = wram_bytes (buddy_wram b) (p + of_nat len)
    \<and> wram_bytes (buddy_wram b') (p + of_nat (len + 1)) = 0"
proof -
  have ok: "buddy_ok W L b"
    using assms(1) bb.rep_ok by (auto simp: owns_def)
  have le: "len \<le> length xs" "unat s + len \<le> W" "len < 2 ^ 32"
    using assms(2,5,7) by auto
  have ul: "unat (of_nat len :: u32) = len"
    using le(3) by (simp add: unat_of_nat)
  have sl: "of_nat len + 1 = (of_nat (Suc len) :: u32)"
    by simp
  have code: "strndup W s n b = andThen (buddy_alloc W (of_nat (Suc len)) b) (\<lambda>(result, b).
     if result \<noteq> 0
     then andThen (wram_memcpy W result s (of_nat len) b) (\<lambda>b.
          andThen (wram_store_byte W (result + of_nat (Suc len)) 0 b) (\<lambda>b. Inr (result, b)))
     else Inr (result, b))"
  proof -
    have "wram_strnlen W s n b = Inr (of_nat len)"
      using wram_strnlen_result [OF assms(4,5), of n] assms(2,7) by simp
    then show ?thesis
      unfolding strndup_def sl [symmetric] by (simp only: andThen_simps)
  qed
  from assms(1) zero_less_Suc assms(8,9) show ?thesis
  proof (cases rule: alloc_for_bytes)
    case full
    then show ?thesis
      using assms(10) by simp
  next
    case (found p b1)
    have "unat p + Suc len \<le> unat s \<or> unat s + Suc len \<le> unat p"
      using kept_range_disjoint [OF assms(1) kept_range_mono [OF assms(6)] _ found(8,7,6)] le(1) by simp
    then have dis: "unat p + len \<le> unat s \<or> unat s + len \<le> unat p"
      by auto
    have st: "buddy_heap_start b1 = buddy_heap_start b"
      using found(4) by (simp add: same_heap_def)
    have p: "unat (buddy_heap_start b1) \<le> unat p" "unat p + len \<le> W" "unat p + Suc len \<le> unat (buddy_heap_start b) + 2 ^ (L + 3)"
      using found(7,8,9,10) st unfolding block_range_def by auto
    obtain b2 where b2: "wram_memcpy W p s (of_nat len) b1 = Inr b2"
      "buddy_bytes b2 = write_bytes (buddy_bytes b1) p (read_bytes (buddy_bytes b1) s len)"
      by (rule memcpy_heap [OF found(5) assms(2) p(1,2) le(2) dis])
    have u: "unat (p + of_nat k) = unat p + k" if "k \<le> Suc len" for k
      using p(3) assms(2,3) that by (intro unat_plus_of_nat) simp
    obtain b' where b': "wram_store_byte W (p + of_nat (Suc len)) 0 b2 = Inr b'"
      "buddy_bytes b' = (buddy_bytes b2)(p + of_nat (Suc len) := 0)"
      using u [of "Suc len"] p(3) assms(3) by (auto simp: wram_store_byte_def)
    have "p + of_nat len \<noteq> p + of_nat (Suc len)"
      using u [of len] u [of "Suc len"] by auto
    then have "buddy_bytes b' (p + of_nat len) = buddy_bytes b2 (p + of_nat len)"
      unfolding b'(2) by simp
    also have "\<dots> = buddy_bytes b1 (p + of_nat len)"
      unfolding b2(2) using ul by (simp add: write_bytes_def)
    also have "\<dots> = buddy_bytes b (p + of_nat len)"
      using u [of len] found(9) by (intro same_heap_bytes [OF ok found(4)]) simp
    finally have "buddy_bytes b' (p + of_nat len) = buddy_bytes b (p + of_nat len)" .
    moreover have "buddy_bytes b' (p + of_nat (len + 1)) = 0"
      unfolding b'(2) by simp
    moreover have "strndup W s n b = Inr (p, b')"
      unfolding code found(1) using found(2) b2(1) b'(1) by simp
    ultimately show ?thesis
      using found(2,6) by blast
  qed
qed

lemma strndup_misplaces_terminator_witness:
  "\<exists>p b'. strndup 65536 16 2 small_heap = Inr (p, b') \<and> p \<noteq> 0 \<and> (\<forall>x \<in> {}. block_range (p, 2 ^ 4) \<inter> block_range x = {})
     \<and> wram_bytes (buddy_wram b') (p + of_nat 2) = wram_bytes (buddy_wram small_heap) (p + of_nat 2)
     \<and> wram_bytes (buddy_wram b') (p + of_nat (2 + 1)) = 0"
proof (rule strndup_misplaces_terminator [OF small_heap_owns _ _ small_heap_string])
  show "kept_range 6 small_heap {} 16 (Suc (length [97, 98, 99 :: u8]))" "block_order (Suc 2) 4"
    "unat (buddy_heap_start small_heap) + 2 ^ (6 + 3) < 65536"
    by (simp_all add: kept_range_def small_heap_def block_order_def)
  show "\<not> no_room (buddy_heap_start small_heap) (6 + 3) 4 {}"
    by (auto simp: no_room_def intro: exI [of _ 0])
qed simp_all

section \<open>Reallocation\<close>

lemma search_owned:
  assumes own: "owns W L b owned" and x: "(p, 2 ^ q) \<in> owned"
  obtains ctx where "buddy_search_for_pointer W p b
    = Inr (Some (of_nat ((unat p - unat (buddy_heap_start b)) div 2 ^ q), ctx), b)"
proof -
  obtain A where A: "bb.rep L W b A" "owned = node_block L (buddy_heap_start b) ` A"
    using own by (auto simp: owns_def)
  have ok: "buddy_ok W L b" and vA: "\<And>a. a \<in> A \<Longrightarrow> node_valid L a"
    using bb.rep_ok [OF A(1)] A(1) by (auto simp: bb.rep_def allocation_def)
  obtain l j where n: "(l, j) \<in> A" "(p, 2 ^ q) = node_block L (buddy_heap_start b) (l, j)"
    using x A(2) by auto
  define off where "off = unat p - unat (buddy_heap_start b)"
  have p: "unat p = unat (buddy_heap_start b) + j * 2 ^ q"
    using node_block_range(2) [OF ok vA [OF n(1)]] n(2) by (auto simp: node_block_def node_start_def)
  then have off: "unat p = unat (buddy_heap_start b) + off" "off div 2 ^ q = j"
    by (simp_all add: off_def)
  have in_block: "unat p \<in> block_range (node_block L (buddy_heap_start b) (l, j))"
    unfolding n(2) [symmetric] by (simp add: block_range_def)
  have "unat p mod 8 = 0"
    using owns_disjoint(2) [OF own x] by simp
  then have pok: "heap_pointer_ok L b p"
    using owns_disjoint(1) [OF own x] in_block n(2) by (auto simp: heap_pointer_ok_def)
  have c: "covers (l, j) (L - 1, off div 16)"
    using covers_leaf [OF ok vA [OF n(1)] off(1)] in_block by simp
  have "(2 :: nat) ^ (L - 1 + 4) = 2 ^ (L - 1) * 16"
    by (simp add: power_add)
  moreover have "L - 1 + 4 = L + 3"
    using ok by (simp add: buddy_ok_def)
  ultimately have "(2 :: nat) ^ (L + 3) = 2 ^ (L - 1) * 16"
    by (simp only:)
  then have "off < 2 ^ (L - 1) * 16"
    using pok off(1) unfolding heap_pointer_ok_def by linarith
  then have v: "node_valid L (L - 1, off div 16)"
    using ok by (auto simp: buddy_ok_def node_valid_def less_mult_imp_div_less)
  have f: "bb.find_block (L - 1) (off div 16) b = Some (l, j)"
    using bb.find_block_result(1) [OF A(1) v disjI1 [OF refl] n(1) c] .
  have "(unat p - unat (buddy_heap_start b)) div 2 ^ q = j"
    using off(2) unfolding off_def .
  then show ?thesis
    using that unfolding search_for_pointer_code(2) [OF ok pok, folded off_def] search_pointer_tree [OF ok v] f option.case prod.case
    by blast
qed

text \<open>The size that \<^verbatim>\<open>buddy_realloc\<close> sees: a power of two that depends on the index of the block in its level, not on its size.\<close>

lemma buddy_sizeofblock_index:
  assumes "owns W L b owned" "(p, 2 ^ q) \<in> owned"
  shows "buddy_sizeofblock W p b = Inr (Some (lsl 1 (12 - of_nat ((unat p - unat (buddy_heap_start b)) div 2 ^ q))), b)"
  by (rule search_owned [OF assms]) (simp add: buddy_sizeofblock_def)

lemma buddy_realloc_cases:
  "buddy_realloc W 0 sz b = buddy_alloc W sz b"
  "ptr \<noteq> 0 \<Longrightarrow> buddy_realloc W ptr 0 b = andThen (buddy_free W ptr b) (\<lambda>b. Inr (ptr, b))"
  by (simp_all add: buddy_realloc_def buddy_alloc_def buddy_free_def)

lemma buddy_realloc_unaligned:
  assumes "buddy_ok W L b" "\<not> heap_pointer_ok L b ptr" "ptr \<noteq> 0" "sz \<noteq> 0"
  shows "buddy_realloc W ptr sz b = Inr (0, b\<lparr>errno := EINVAL\<rparr>)"
  using assms by (simp add: buddy_realloc_def buddy_sizeofblock_def search_for_pointer_code(1))

text \<open>
  C37: \<open>buddy_realloc\<close> ignores the size of the block. For an owned block whose index among the blocks of its size is \<open>i\<close> (at
  most 12), a request of more than \<open>2 ^ (12 - i)\<close> halved and at most \<open>2 ^ (12 - i)\<close> bytes returns the block as it is, whatever
  its size: the first block of the heap is returned for 4096 bytes even when it has 16.
\<close>

theorem realloc_ignores_block_size:
  assumes "owns W L b owned" "(p, 2 ^ q) \<in> owned"
    and "i = (unat p - unat (buddy_heap_start b)) div 2 ^ q" "i \<le> 12" "2 ^ (12 - i) < 2 * unat sz" "unat sz \<le> 2 ^ (12 - i)"
  shows "buddy_realloc W p sz b = Inr (p, b)"
proof -
  have ok: "buddy_ok W L b"
    using assms(1) bb.rep_ok by (auto simp: owns_def)
  have "(12 :: u32) - of_nat i = of_nat (12 - i)" "12 - i < 32"
    using assms(4) by (simp_all add: of_nat_diff)
  then have sz: "lsl 1 (12 - of_nat i) = (2 ^ (12 - i) :: u32)"
    by (simp only: lsl_one mod_less)
  have u: "unat (2 ^ (12 - i) :: u32) = 2 ^ (12 - i)"
    using \<open>12 - i < 32\<close> by (rule unat_exp)
  have half: "unat (drop_bit 1 (2 ^ (12 - i) :: u32)) = 2 ^ (12 - i) div 2"
    using u by (simp add: drop_bit_eq_div unat_div)
  have "unat (buddy_heap_start b) \<le> unat p"
    using owns_disjoint(1) [OF assms(1,2)] by (auto simp: block_range_def)
  then have "p \<noteq> 0"
    using heap_bounds(2) [OF ok] by auto
  moreover have "sz \<noteq> 0" "drop_bit 1 (2 ^ (12 - i) :: u32) < sz" "sz \<le> 2 ^ (12 - i)"
    using assms(5,6) half u by (auto simp: word_less_nat_alt word_le_nat_alt)
  ultimately show ?thesis
    using buddy_sizeofblock_index [OF assms(1,2)] sz assms(3) by (simp add: buddy_realloc_def)
qed

text \<open>A block that is the whole heap of 512 bytes is kept for a request of 4096 bytes.\<close>

theorem realloc_ignores_block_size_witness:
  "\<exists>b. buddy_alloc 65536 512 small_heap = Inr (72, b) \<and> buddy_realloc 65536 72 4096 b = Inr (72, b)"
proof -
  have sz: "0 < unat (512 :: u32)" "unat (512 :: u32) \<le> 2 ^ (6 + 3)" "block_order (unat (512 :: u32)) 9"
    by (simp_all add: block_order_def)
  have st: "buddy_heap_start small_heap = 72"
    by (simp add: small_heap_def)
  from small_heap_owns sz show ?thesis
  proof (cases rule: owns_alloc)
    case (found i b)
    then have i: "buddy_heap_start small_heap + of_nat (i * 2 ^ 9) = 72" "buddy_heap_start b = 72"
      using st by (simp_all add: same_heap_def)
    have "buddy_realloc 65536 72 4096 b = Inr (72, b)"
      using realloc_ignores_block_size [OF found(5), of 72 9 0 4096] i by simp
    then show ?thesis
      using found(2) i(1) by simp
  next
    case full
    then show ?thesis
      using full(2) [of 0] by simp
  qed
qed

end
