(* ===== verification/Unaligned.thy ===== *)
theory Unaligned
  imports Bytes
begin

text \<open>
  Unaligned accesses of a tasklet to MRAM (\<^verbatim>\<open>dpu-rt/src/syslib/mram_unaligned.c\<close>, over the DMA transfers of
  \<^verbatim>\<open>mram.h\<close>). A DMA transfer moves a multiple of eight bytes between addresses that are multiples of eight, so that an
  unaligned write reads, patches and writes back the words at both ends, each under the virtual mutex of its address; the
  model is that of one tasklet between its lock and unlock calls.
\<close>

section \<open>DMA transfers\<close>

type_synonym memory = "u32 \<Rightarrow> u8"

text \<open>
  What ends a call: the fault of the code, or a transfer that the DMA engine does not provide (\<^verbatim>\<open>mram.h\<close>: at least 8 and at
  most 2048 bytes, a multiple of 8, between aligned addresses).
\<close>

datatype mram_error = FAULT_MRAM_UNALIGNED | INVALID_DMA

definition dma_ok :: "u32 \<Rightarrow> u32 \<Rightarrow> u32 \<Rightarrow> bool" where
  "dma_ok wram_addr mram_addr n \<longleftrightarrow>
     wram_addr AND 7 = 0 \<and> mram_addr AND 7 = 0 \<and> n \<ge> 8 \<and> n \<le> 2048 \<and> n AND 7 = 0"

definition mram_read :: "memory \<Rightarrow> u32 \<Rightarrow> memory \<Rightarrow> u32 \<Rightarrow> u32 \<Rightarrow> mram_error + memory" where
  "mram_read mram from wram to n =
     (if dma_ok to from n then Inr (write_bytes wram to (read_bytes mram from (unat n))) else Inl INVALID_DMA)"

definition mram_write :: "memory \<Rightarrow> u32 \<Rightarrow> memory \<Rightarrow> u32 \<Rightarrow> u32 \<Rightarrow> mram_error + memory" where
  "mram_write wram from mram to n =
     (if dma_ok from to n then Inr (write_bytes mram to (read_bytes wram from (unat n))) else Inl INVALID_DMA)"

section \<open>The operations\<close>

definition ALIGN_8_LOW :: "u32 \<Rightarrow> u32" where
  "ALIGN_8_LOW x = push_bit 3 (drop_bit 3 x)"

definition ALIGN_8_HIGH :: "u32 \<Rightarrow> u32" where
  "ALIGN_8_HIGH x = push_bit 3 (drop_bit 3 (x + 7))"

text \<open>The result: the pointer to the first byte, and WRAM after the transfer.\<close>

definition mram_read_unaligned :: "memory \<Rightarrow> u32 \<Rightarrow> memory \<Rightarrow> u32 \<Rightarrow> u32 \<Rightarrow> mram_error + u32 \<times> memory" where
  "mram_read_unaligned mram from wram buffer nb_of_bytes =
     (let addr_8align = ALIGN_8_LOW from;
          diff = ucast (from - addr_8align) :: u8;
          size_8align = ALIGN_8_HIGH (nb_of_bytes + ucast diff)
      in map_sum id (\<lambda>wram'. (buffer + ucast diff, wram')) (mram_read mram addr_8align wram buffer size_8align))"

text \<open>
  The eight bytes of \<^verbatim>\<open>__mram_unaligned_access_buffer\<close> that belong to the tasklet are a list. Its slot is aligned, so that the
  transfers between it and MRAM ask for an aligned address in MRAM only.
\<close>

definition mram_read_slot :: "memory \<Rightarrow> u32 \<Rightarrow> mram_error + u8 list" where
  "mram_read_slot mram from = (if from AND 7 = 0 then Inr (read_bytes mram from 8) else Inl INVALID_DMA)"

definition mram_write_slot :: "u8 list \<Rightarrow> memory \<Rightarrow> u32 \<Rightarrow> mram_error + memory" where
  "mram_write_slot buf mram to = (if to AND 7 = 0 then Inr (write_bytes mram to (take 8 buf)) else Inl INVALID_DMA)"

text \<open>The loops: the patched buffer, the source address and, in the prolog, the number of bytes left.\<close>

function prolog_loop :: "memory \<Rightarrow> u8 \<Rightarrow> u32 \<Rightarrow> u32 \<Rightarrow> u8 list \<Rightarrow> u8 list \<times> u32 \<times> u32" where
  "prolog_loop wram i nb_of_bytes wram_addr buf =
     (if i < 8 \<and> nb_of_bytes \<noteq> 0
      then prolog_loop wram (i + 1) (nb_of_bytes - 1) (wram_addr + 1) (buf[unat i := wram wram_addr])
      else (buf, wram_addr, nb_of_bytes))"
  by auto

termination
proof (relation "measure (\<lambda>(wram, i, n, a, buf). 8 - unat i)")
  fix wram :: memory and i :: u8 and n a :: u32 and buf :: "u8 list"
  assume "i < 8 \<and> n \<noteq> 0"
  then have "unat i < 8" "unat (i + 1) = unat i + 1"
    by (auto simp: word_less_nat_alt unat_word_ariths)
  then show "((wram, i + 1, n - 1, a + 1, buf[unat i := wram a]), wram, i, n, a, buf)
      \<in> measure (\<lambda>(wram, i, n, a, buf). 8 - unat i)"
    by simp
qed simp

function epilog_loop :: "memory \<Rightarrow> u8 \<Rightarrow> u8 \<Rightarrow> u32 \<Rightarrow> u8 list \<Rightarrow> u8 list" where
  "epilog_loop wram i diff wram_addr buf =
     (if i < diff then epilog_loop wram (i + 1) diff (wram_addr + 1) (buf[unat i := wram wram_addr]) else buf)"
  by auto

termination
proof (relation "measure (\<lambda>(wram, i, diff, a, buf). unat diff - unat i)")
  fix wram :: memory and i diff :: u8 and a :: u32 and buf :: "u8 list"
  assume "i < diff"
  then have "unat i < unat diff" "unat (i + 1) = unat i + 1"
    using unsigned_less [where 'a = nat, of diff] by (auto simp: word_less_nat_alt unat_word_ariths)
  then show "((wram, i + 1, diff, a + 1, buf[unat i := wram a]), wram, i, diff, a, buf)
      \<in> measure (\<lambda>(wram, i, diff, a, buf). unat diff - unat i)"
    by simp
qed simp

declare prolog_loop.simps [simp del] epilog_loop.simps [simp del]

definition write_prolog :: "memory \<Rightarrow> memory \<Rightarrow> u32 \<Rightarrow> u32 \<Rightarrow> u32 \<Rightarrow> mram_error + memory \<times> u32 \<times> u32" where
  "write_prolog wram mram from dest nb_of_bytes =
     (let start = ucast (dest AND 7); dest_low = ALIGN_8_LOW dest
      in case mram_read_slot mram dest_low of
           Inl e \<Rightarrow> Inl e
         | Inr buf \<Rightarrow>
             (case prolog_loop wram start nb_of_bytes from buf of
                (buf, wram_addr, nb_of_bytes) \<Rightarrow>
                  map_sum id (\<lambda>mram. (mram, wram_addr, nb_of_bytes)) (mram_write_slot buf mram dest_low)))"

definition write_aligned_and_epilog :: "memory \<Rightarrow> memory \<Rightarrow> u32 \<Rightarrow> u32 \<Rightarrow> u32 \<Rightarrow> mram_error + memory" where
  "write_aligned_and_epilog wram mram wram_addr dest nb_of_bytes =
     (let nb_bytes_low = ucast (ALIGN_8_LOW nb_of_bytes) :: u8; dest_high = ALIGN_8_HIGH dest
      in case (if nb_bytes_low \<noteq> 0
               then map_sum id (\<lambda>mram. (mram, wram_addr + ucast nb_bytes_low))
                      (mram_write wram wram_addr mram dest_high (ucast nb_bytes_low))
               else Inr (mram, wram_addr)) of
           Inl e \<Rightarrow> Inl e
         | Inr (mram, wram_addr) \<Rightarrow>
             if nb_of_bytes > ucast nb_bytes_low
             then let addr = dest_high + ucast nb_bytes_low
                  in case mram_read_slot mram addr of
                       Inl e \<Rightarrow> Inl e
                     | Inr buf \<Rightarrow>
                         let diff = ucast (nb_of_bytes - ucast nb_bytes_low)
                         in mram_write_slot (epilog_loop wram 0 diff wram_addr buf) mram addr
             else Inr mram)"

definition mram_write_unaligned :: "memory \<Rightarrow> u32 \<Rightarrow> memory \<Rightarrow> u32 \<Rightarrow> u32 \<Rightarrow> mram_error + memory" where
  "mram_write_unaligned wram from mram dest nb_of_bytes =
     (let is_addr_aligned = (dest AND 7 = 0); is_sz_aligned = (nb_of_bytes AND 7 = 0)
      in if is_addr_aligned \<and> is_sz_aligned then mram_write wram from mram dest nb_of_bytes
         else if from AND 7 \<noteq> dest AND 7 then Inl FAULT_MRAM_UNALIGNED
         else if \<not> is_addr_aligned
         then case write_prolog wram mram from dest nb_of_bytes of
                Inl e \<Rightarrow> Inl e
              | Inr (mram, wram_addr, nb_of_bytes) \<Rightarrow>
                  if nb_of_bytes = 0 then Inr mram
                  else write_aligned_and_epilog wram mram wram_addr dest nb_of_bytes
         else write_aligned_and_epilog wram mram from dest nb_of_bytes)"

section \<open>Alignment\<close>

lemma unat_and_7: "unat (x AND 7) = unat (x :: u32) mod 8"
proof -
  have "x AND 7 = take_bit 3 x"
    by (simp add: take_bit_eq_mask mask_eq_exp_minus_1)
  then have "unat (x AND 7) = take_bit 3 (unat x)"
    by (simp only: unsigned_take_bit_eq)
  then show ?thesis
    by (simp add: take_bit_eq_mod)
qed

lemma and_7_eq_0: "x AND 7 = 0 \<longleftrightarrow> unat (x :: u32) mod 8 = 0"
  by (metis unat_and_7 unat_eq_zero)

lemma unat_align_low: "unat (ALIGN_8_LOW x) = unat x - unat x mod 8"
proof -
  have "unat (drop_bit 3 x) = unat x div 8"
    using unat_drop_bit_eq [of 3 x] by (simp add: drop_bit_eq_div)
  moreover have "unat (push_bit 3 (drop_bit 3 x)) = take_bit 32 (push_bit 3 (unat (drop_bit 3 x)))"
    using unsigned_push_bit_eq [where 'a = nat, of 3 "drop_bit 3 x"] by simp
  ultimately have "unat (ALIGN_8_LOW x) = unat x div 8 * 8 mod 2 ^ 32"
    by (simp add: ALIGN_8_LOW_def push_bit_eq_mult take_bit_eq_mod)
  moreover have "unat x div 8 * 8 < 2 ^ 32"
    using unsigned_less [where 'a = nat, of x] by (simp add: le_less_trans)
  ultimately show ?thesis
    by (simp add: minus_mod_eq_div_mult)
qed

lemma align_low_add: "ALIGN_8_LOW x + of_nat (unat x mod 8) = x"
proof -
  have "of_nat (unat (ALIGN_8_LOW x)) + of_nat (unat x mod 8) = (of_nat (unat x) :: u32)"
    unfolding unat_align_low of_nat_add [symmetric] by simp
  then show ?thesis by simp
qed

lemma align_high_eq: "ALIGN_8_HIGH x = ALIGN_8_LOW (x + 7)"
  by (simp add: ALIGN_8_HIGH_def ALIGN_8_LOW_def)

lemma align_low_aligned: "ALIGN_8_LOW x AND 7 = 0"
  by (simp add: and_7_eq_0 unat_align_low minus_mod_eq_div_mult)

lemma unat_add_mod_8: "unat (x + y :: u32) mod 8 = (unat x + unat y) mod 8"
  by (simp add: unat_word_ariths mod_mod_cancel)

lemma aligned_add: "x AND 7 = 0 \<Longrightarrow> y AND 7 = 0 \<Longrightarrow> (x + y) AND 7 = (0 :: u32)"
  unfolding and_7_eq_0 unat_add_mod_8 mod_eq_0_iff_dvd by (rule dvd_add)

lemma align_low_plus:
  assumes "y AND 7 = 0" "k < 8"
  shows "ALIGN_8_LOW (y + of_nat k) = y"
proof -
  have y: "unat y mod 8 = 0"
    using assms(1) by (simp add: and_7_eq_0)
  then have "unat y + k < 2 ^ 32"
    using assms(2) unsigned_less [where 'a = nat, of y] by simp presburger
  then have "unat (y + of_nat k) = unat y + k"
    using assms(2) by (simp add: unat_word_ariths unat_of_nat)
  moreover have "(unat y + k) mod 8 = k"
    using y assms(2) by presburger
  ultimately show ?thesis
    by (simp add: word_unat_eq_iff unat_align_low)
qed

lemma align_high_aligned: "dest AND 7 = 0 \<Longrightarrow> ALIGN_8_HIGH dest = dest"
  using align_low_plus [of dest 7] by (simp add: align_high_eq)

lemma align_high_unaligned:
  assumes "dest AND 7 \<noteq> 0"
  shows "ALIGN_8_HIGH dest = dest + of_nat (8 - unat dest mod 8)"
proof -
  let ?r = "unat dest mod 8" and ?l = "ALIGN_8_LOW dest"
  have r: "0 < ?r" "?r < 8"
    using assms by (simp_all add: and_7_eq_0)
  have "(?l + 8) AND 7 = 0"
    using align_low_aligned [of dest] unat_add_mod_8 [of ?l 8] by (simp add: and_7_eq_0)
  then have low: "ALIGN_8_LOW (?l + 8 + of_nat (?r - 1)) = ?l + 8"
    using r by (intro align_low_plus) simp_all
  have "Suc (?r - 1) = ?r"
    using r by linarith
  then have "(of_nat ?r :: u32) = 1 + of_nat (?r - 1)"
    using of_nat_Suc [where 'a = u32, of "?r - 1"] by simp
  then have "?l + 8 + of_nat (?r - 1) = ?l + of_nat ?r + 7"
    by simp
  then have "ALIGN_8_HIGH dest = ?l + 8"
    using low by (simp only: align_high_eq align_low_add)
  also have "?l + 8 = ?l + of_nat ?r + of_nat (8 - ?r)"
    using r by (simp add: of_nat_diff)
  finally show ?thesis
    by (simp only: align_low_add)
qed

section \<open>The loops\<close>

lemma list_patch_step:
  assumes "i < length buf"
  shows "take (Suc i) (buf[i := b]) @ bs @ drop (Suc i + k) (buf[i := b]) = take i buf @ (b # bs) @ drop (i + Suc k) buf"
  using assms by (simp add: take_Suc_conv_app_nth)

lemma prolog_loop_result:
  assumes "length buf = 8" "p = min (unat n) (8 - unat i)"
  shows "prolog_loop wram i n a buf
       = (take (unat i) buf @ read_bytes wram a p @ drop (unat i + p) buf, a + of_nat p, n - of_nat p)"
  using assms
proof (induction wram i n a buf arbitrary: p rule: prolog_loop.induct)
  case (1 wram i n a buf)
  show ?case
  proof (cases "i < 8 \<and> n \<noteq> 0")
    case True
    then have i: "unat i < 8" "unat (i + 1) = Suc (unat i)" and n: "unat (n - 1) = unat n - 1" "0 < unat n"
      by (auto simp: word_less_nat_alt unat_word_ariths unat_minus_one unat_gt_0)
    define q where "q = min (unat (n - 1)) (8 - unat (i + 1))"
    have q: "p = Suc q" "q = min (unat (n - 1)) (8 - unat (i + 1))"
      using i n "1.prems"(2) unfolding q_def by linarith+
    have "prolog_loop wram (i + 1) (n - 1) (a + 1) (buf[unat i := wram a])
        = (take (Suc (unat i)) (buf[unat i := wram a]) @ read_bytes wram (a + 1) q
             @ drop (Suc (unat i) + q) (buf[unat i := wram a]), a + 1 + of_nat q, n - 1 - of_nat q)"
      using "1.IH" [OF True, of q] "1.prems"(1) q(2) i(2) by simp
    then show ?thesis
      using True i list_patch_step [of "unat i" buf "wram a" "read_bytes wram (a + 1) q" q] "1.prems"(1)
      by (subst prolog_loop.simps) (simp add: q(1) read_bytes_Suc algebra_simps)
  next
    case False
    then have "p = 0"
      using "1.prems"(2) by (auto simp: word_less_nat_alt)
    then show ?thesis
      using False prolog_loop.simps [of wram i n a buf] by (auto simp: read_bytes_def)
  qed
qed

lemma epilog_loop_result:
  assumes "length buf = 8" "unat i \<le> unat diff" "unat diff \<le> 8"
  shows "epilog_loop wram i diff a buf
       = take (unat i) buf @ read_bytes wram a (unat diff - unat i) @ drop (unat diff) buf"
  using assms
proof (induction wram i diff a buf rule: epilog_loop.induct)
  case (1 wram i diff a buf)
  show ?case
  proof (cases "i < diff")
    case True
    then have i: "unat i < unat diff" "unat (i + 1) = Suc (unat i)"
      using "1.prems"(3) by (auto simp: word_less_nat_alt unat_word_ariths)
    obtain q where q: "unat diff = Suc (unat i) + q"
      using i(1) less_iff_Suc_add by auto
    have "epilog_loop wram (i + 1) diff (a + 1) (buf[unat i := wram a])
        = take (Suc (unat i)) (buf[unat i := wram a]) @ read_bytes wram (a + 1) q
             @ drop (Suc (unat i) + q) (buf[unat i := wram a])"
      using "1.IH" [OF True] "1.prems" i q by simp
    then show ?thesis
      using True i list_patch_step [of "unat i" buf "wram a" "read_bytes wram (a + 1) q" q] "1.prems"
      by (subst epilog_loop.simps) (simp add: q read_bytes_Suc)
  next
    case False
    then have "unat i = unat diff"
      using "1.prems"(2) by (simp add: word_less_nat_alt)
    then show ?thesis
      using False by (subst epilog_loop.simps) (simp add: read_bytes_def)
  qed
qed

section \<open>The parts of an unaligned write\<close>

lemma write_prolog_result:
  fixes dest n :: u32
  assumes "p = min (unat n) (8 - unat dest mod 8)"
  shows "write_prolog wram mram from dest n
       = Inr (write_bytes mram dest (read_bytes wram from p), from + of_nat p, n - of_nat p)"
proof -
  let ?r = "unat dest mod 8" and ?l = "ALIGN_8_LOW dest"
  have st: "unat (ucast (dest AND 7) :: u8) = ?r"
    by (simp add: unsigned_ucast_eq unat_and_7 take_bit_eq_mod)
  have "prolog_loop wram (ucast (dest AND 7)) n from (read_bytes mram ?l 8)
      = (take ?r (read_bytes mram ?l 8) @ read_bytes wram from p @ drop (?r + p) (read_bytes mram ?l 8),
         from + of_nat p, n - of_nat p)"
    using prolog_loop_result [of "read_bytes mram ?l 8" p n "ucast (dest AND 7)" wram "from"] assms st by simp
  moreover have "?r + p \<le> 8"
    using assms mod_less_divisor [of 8 "unat dest"] by linarith
  then have "write_bytes mram ?l (take ?r (read_bytes mram ?l 8) @ read_bytes wram from p @ drop (?r + p) (read_bytes mram ?l 8))
      = write_bytes mram dest (read_bytes wram from p)"
    using write_bytes_patch [of ?r "read_bytes wram from p" 8 mram ?l] by (simp add: align_low_add)
  ultimately show ?thesis
    using \<open>?r + p \<le> 8\<close>
    by (simp add: write_prolog_def mram_read_slot_def mram_write_slot_def align_low_aligned Let_def)
qed

text \<open>The number of bytes that are moved after the prolog: \<^verbatim>\<open>nb_bytes_low\<close> is an octet.\<close>

lemma low_and_diff:
  fixes n :: u32
  defines "l \<equiv> ucast (ALIGN_8_LOW n) :: u8"
  shows "unat l + unat n mod 8 = unat n mod 256" "unat l mod 8 = 0" "unat l \<le> unat n"
    "unat (ucast (n - ucast l) :: u8) = unat n mod 8"
proof -
  have l: "unat l = (unat n - unat n mod 8) mod 256"
    by (simp add: l_def unsigned_ucast_eq take_bit_eq_mod unat_align_low)
  then have l8: "unat l = 8 * (unat n div 8 mod 32)"
    using mult_mod_right [of 8 "unat n div 8" 32] by (simp add: minus_mod_eq_mult_div)
  then show "unat l mod 8 = 0"
    by simp
  show e: "unat l + unat n mod 8 = unat n mod 256"
    using l8 mod_mult2_eq [of "unat n" 8 32] by simp
  then show le: "unat l \<le> unat n"
    by (metis le_add1 le_trans mod_less_eq_dividend)
  have "unat (ucast l :: u32) = unat l"
    using unsigned_less [where 'a = nat, of l] by (simp add: unsigned_ucast_eq take_bit_nat_eq_self)
  then have "unat (n - ucast l) = unat n - unat l"
    using le by (simp add: unat_sub word_le_nat_alt)
  moreover have "(unat n - unat l) mod 256 = unat n mod 8"
  proof -
    have "unat n - unat l = unat n div 256 * 256 + unat n mod 8"
      using e div_mult_mod_eq [of "unat n" 256] by linarith
    then show ?thesis
      by simp
  qed
  ultimately show "unat (ucast (n - ucast l) :: u8) = unat n mod 8"
    by (simp add: unsigned_ucast_eq take_bit_eq_mod)
qed

lemma write_epilog_result:
  assumes "d < 8" "addr AND 7 = 0" "unat diff = d"
  shows "mram_write_slot (epilog_loop wram 0 diff wram_addr (read_bytes mram addr 8)) mram addr
       = Inr (write_bytes mram addr (read_bytes wram wram_addr d))"
proof -
  have "epilog_loop wram 0 diff wram_addr (read_bytes mram addr 8)
      = take 0 (read_bytes mram addr 8) @ read_bytes wram wram_addr d @ drop (0 + d) (read_bytes mram addr 8)"
    using epilog_loop_result [of "read_bytes mram addr 8" 0 diff wram wram_addr] assms by simp
  moreover have "write_bytes mram addr
        (take 0 (read_bytes mram addr 8) @ read_bytes wram wram_addr d @ drop (0 + d) (read_bytes mram addr 8))
      = write_bytes mram addr (read_bytes wram wram_addr d)"
    using write_bytes_patch [of 0 "read_bytes wram wram_addr d" 8 mram addr] assms by simp
  ultimately show ?thesis
    using assms by (simp add: mram_write_slot_def)
qed

lemma unat_ucast_octet: "unat (ucast (l :: u8) :: u32) = unat l"
  using unsigned_less [where 'a = nat, of l] by (simp add: unsigned_ucast_eq take_bit_nat_eq_self)

lemma octet_roundtrip: "unat (x :: u32) < 256 \<Longrightarrow> (ucast (ucast x :: u8) :: u32) = x"
  by (subst word_unat_eq_iff, subst unat_ucast_octet) (simp add: unsigned_ucast_eq take_bit_nat_eq_self)

lemma aligned_and_epilog_result:
  assumes "wram_addr AND 7 = 0"
  shows "write_aligned_and_epilog wram mram wram_addr dest n
       = Inr (write_bytes mram (ALIGN_8_HIGH dest) (read_bytes wram wram_addr (unat n mod 256)))"
proof -
  define l where "l = (ucast (ALIGN_8_LOW n) :: u8)"
  let ?d = "unat n mod 8" and ?D = "ALIGN_8_HIGH dest" and ?L = "ucast l :: u32"
  note l = low_and_diff [of n, folded l_def]
  have L: "unat ?L = unat l"
    by (rule unat_ucast_octet)
  have D: "?D AND 7 = 0"
    by (simp add: align_high_eq align_low_aligned)
  let ?m = "write_bytes mram ?D (read_bytes wram wram_addr (unat l))"
  have part: "(if l \<noteq> 0 then map_sum id (\<lambda>mram. (mram, wram_addr + ?L)) (mram_write wram wram_addr mram ?D ?L)
      else Inr (mram, wram_addr)) = Inr (?m, wram_addr + ?L)"
  proof (cases "l = 0")
    case False
    then have "0 < unat l"
      by (simp add: unat_gt_0)
    then have "8 \<le> unat l"
      by (rule dvd_imp_le [OF mod_0_imp_dvd [OF l(2)]])
    moreover have "unat l \<le> 2048"
      using unsigned_less [where 'a = nat, of l] by simp
    ultimately have "dma_ok wram_addr ?D ?L"
      using assms D L l(2) by (simp add: dma_ok_def and_7_eq_0 word_le_nat_alt)
    then show ?thesis
      using False L by (simp add: mram_write_def)
  qed (simp add: read_bytes_def)
  have rest: "?m = write_bytes mram ?D (read_bytes wram wram_addr (unat n mod 256))" if "\<not> n > ?L"
  proof -
    have "unat l = unat n"
      using that l(3) L by (simp add: word_less_nat_alt)
    then show ?thesis
      using l(1,2) by simp
  qed
  have "(?D + ?L) AND 7 = 0"
    using D L l(2) by (intro aligned_add) (simp_all add: and_7_eq_0)
  moreover have "?d < 8"
    by simp
  ultimately have "mram_write_slot (epilog_loop wram 0 (ucast (n - ?L)) (wram_addr + ?L) (read_bytes ?m (?D + ?L) 8)) ?m (?D + ?L)
      = Inr (write_bytes ?m (?D + ?L) (read_bytes wram (wram_addr + ?L) ?d))"
    using write_epilog_result [of ?d "?D + ?L" "ucast (n - ?L)" wram "wram_addr + ?L" ?m] l(4) by blast
  moreover have "write_bytes ?m (?D + ?L) (read_bytes wram (wram_addr + ?L) ?d)
      = write_bytes mram ?D (read_bytes wram wram_addr (unat n mod 256))"
    using write_bytes_append [of "read_bytes wram wram_addr (unat l)" "read_bytes wram (wram_addr + ?L) ?d" mram ?D]
      unsigned_less [where 'a = nat, of l] L l(1) read_bytes_add [of wram wram_addr "unat l" ?d] by simp
  ultimately show ?thesis
    using part rest \<open>(?D + ?L) AND 7 = 0\<close>
    by (simp add: write_aligned_and_epilog_def mram_read_slot_def Let_def flip: l_def)
qed

text \<open>The bytes that the prolog moves.\<close>

definition prolog_bytes :: "u32 \<Rightarrow> u32 \<Rightarrow> nat" where
  "prolog_bytes dest n = (if dest AND 7 = 0 then 0 else min (unat n) (8 - unat dest mod 8))"

lemma prolog_bytes_le: "prolog_bytes dest n \<le> unat n"
  by (simp add: prolog_bytes_def)

lemma write_unaligned_result:
  assumes same: "from AND 7 = dest AND 7" and un: "\<not> (dest AND 7 = 0 \<and> n AND 7 = 0)"
  defines "p \<equiv> prolog_bytes dest n"
  shows "mram_write_unaligned wram from mram dest n
       = Inr (write_bytes mram dest (read_bytes wram from (p + (unat n - p) mod 256)))"
proof (cases "dest AND 7 = 0")
  case True
  then show ?thesis
    using un aligned_and_epilog_result [of "from" wram mram dest n] same
    by (simp add: mram_write_unaligned_def p_def prolog_bytes_def align_high_aligned Let_def)
next
  case False
  let ?m = "write_bytes mram dest (read_bytes wram from p)" and ?a = "from + of_nat p" and ?n = "n - of_nat p"
  have p: "p = min (unat n) (8 - unat dest mod 8)" "p \<le> unat n" "p \<le> 8"
    using False by (simp_all add: p_def prolog_bytes_def)
  have pr: "write_prolog wram mram from dest n = Inr (?m, ?a, ?n)"
    by (rule write_prolog_result [OF p(1)])
  have n: "unat ?n = unat n - p"
    using p(2,3) by (simp add: unat_sub word_le_nat_alt unat_of_nat)
  show ?thesis
  proof (cases "?n = 0")
    case True
    then have "unat n - p = 0"
      using n by simp
    then show ?thesis
      using pr False same True by (simp add: mram_write_unaligned_def Let_def)
  next
    case n0: False
    then have "unat n - p \<noteq> 0"
      using n by (metis unat_eq_zero)
    then have p8: "p = 8 - unat dest mod 8"
      using p(1) by linarith
    have "unat from mod 8 = unat dest mod 8"
      using same by (metis unat_and_7)
    then have "(unat from + p) mod 8 = 0"
      using p8 mod_add_left_eq [of "unat from" 8 p] mod_less_divisor [of 8 "unat dest"] by simp
    then have "?a AND 7 = 0"
      using unat_add_mod_8 [of "from" "of_nat p"] p(3) by (simp add: and_7_eq_0 unat_of_nat)
    then have "write_aligned_and_epilog wram ?m ?a dest ?n
        = Inr (write_bytes ?m (dest + of_nat p) (read_bytes wram ?a ((unat n - p) mod 256)))"
      using aligned_and_epilog_result [of ?a wram ?m dest ?n] align_high_unaligned [OF False] n p8 by simp
    also have "write_bytes ?m (dest + of_nat p) (read_bytes wram ?a ((unat n - p) mod 256))
        = write_bytes mram dest (read_bytes wram from (p + (unat n - p) mod 256))"
    proof -
      have "p + (unat n - p) mod 256 < 2 ^ 32"
        using p(3) mod_less_divisor [of 256 "unat n - p"] by simp
      then show ?thesis
        using write_bytes_append [of "read_bytes wram from p" "read_bytes wram ?a ((unat n - p) mod 256)" mram dest]
        by (simp add: read_bytes_add)
    qed
    finally show ?thesis
      using pr False same n0 by (simp add: mram_write_unaligned_def Let_def)
  qed
qed

lemma round_up_8:
  fixes k :: nat
  assumes "0 < k"
  shows "8 \<le> k + 7 - (k + 7) mod 8" "k \<le> k + 7 - (k + 7) mod 8" "(k + 7 - (k + 7) mod 8) mod 8 = 0"
    "k \<le> 2048 \<Longrightarrow> k + 7 - (k + 7) mod 8 \<le> 2048"
proof -
  have e: "k + 7 - (k + 7) mod 8 = 8 * ((k + 7) div 8)"
    by (rule minus_mod_eq_mult_div)
  show "8 \<le> k + 7 - (k + 7) mod 8" "k \<le> k + 7 - (k + 7) mod 8" "(k + 7 - (k + 7) mod 8) mod 8 = 0"
    using assms unfolding e by presburger+
  show "k \<le> 2048 \<Longrightarrow> k + 7 - (k + 7) mod 8 \<le> 2048"
    unfolding e by presburger
qed

lemma read_unaligned_result:
  assumes "buffer AND 7 = 0" "0 < n" "unat n + unat from mod 8 \<le> 2048"
  shows "\<exists>wram'. mram_read_unaligned mram from wram buffer n = Inr (buffer + of_nat (unat from mod 8), wram')
     \<and> read_bytes wram' (buffer + of_nat (unat from mod 8)) (unat n) = read_bytes mram from (unat n)"
proof -
  let ?l = "ALIGN_8_LOW from" and ?r = "unat from mod 8"
  have r: "?r < 8"
    by simp
  have d: "from - ?l = of_nat ?r"
    using align_low_add [of "from"] by (metis add_diff_cancel_left')
  have diff: "ucast (ucast (from - ?l) :: u8) = (of_nat ?r :: u32)"
    unfolding d using r by (intro octet_roundtrip) (simp add: unat_of_nat)
  let ?s = "ALIGN_8_HIGH (n + of_nat ?r)"
  have "unat (n + of_nat ?r + 7) = unat n + ?r + 7"
    using assms(3) by (simp add: unat_word_ariths unat_of_nat)
  then have s: "unat ?s = unat n + ?r + 7 - (unat n + ?r + 7) mod 8"
    by (simp add: align_high_eq unat_align_low)
  have "0 < unat n"
    using assms(2) by (simp add: word_less_nat_alt)
  then have sz: "8 \<le> unat ?s" "unat ?s \<le> 2048" "unat n + ?r \<le> unat ?s" "unat ?s mod 8 = 0"
    unfolding s using assms(3) by (intro round_up_8; linarith)+
  then have dma: "dma_ok buffer ?l ?s"
    using assms(1) align_low_aligned [of "from"] by (simp add: dma_ok_def and_7_eq_0 word_le_nat_alt)
  let ?w = "write_bytes wram buffer (read_bytes mram ?l (unat ?s))"
  have "mram_read_unaligned mram from wram buffer n = Inr (buffer + of_nat ?r, ?w)"
    using dma unfolding mram_read_unaligned_def Let_def diff by (simp add: mram_read_def)
  moreover have "read_bytes ?w (buffer + of_nat ?r) (unat n) = read_bytes mram from (unat n)"
  proof -
    have "read_bytes ?w buffer (?r + unat n) = read_bytes mram ?l (?r + unat n)"
      using read_after_write [of "?r + unat n" "read_bytes mram ?l (unat ?s)" wram buffer] sz
      by (simp add: read_bytes_def take_map)
    then show ?thesis
      unfolding read_bytes_add align_low_add by simp
  qed
  ultimately show ?thesis by blast
qed

section \<open>Properties\<close>

lemma write_unaligned_small:
  assumes "from AND 7 = dest AND 7" "0 < n" "n \<le> 255"
  shows "mram_write_unaligned wram from mram dest n = Inr (write_bytes mram dest (read_bytes wram from (unat n)))"
proof (cases "dest AND 7 = 0 \<and> n AND 7 = 0")
  case True
  have "0 < unat n" "unat n \<le> 255"
    using assms(2,3) by (simp_all add: word_less_nat_alt word_le_nat_alt)
  moreover from this True have "8 \<le> unat n"
    by (intro dvd_imp_le mod_0_imp_dvd) (simp_all add: and_7_eq_0)
  ultimately have "dma_ok from dest n"
    using True assms(1) by (simp add: dma_ok_def word_le_nat_alt)
  then show ?thesis
    using True by (simp add: mram_write_unaligned_def mram_write_def)
next
  case False
  have "unat n \<le> 255"
    using assms(3) by (simp add: word_le_nat_alt)
  then have "prolog_bytes dest n + (unat n - prolog_bytes dest n) mod 256 = unat n"
    using prolog_bytes_le [of dest n] by simp
  then show ?thesis
    using write_unaligned_result [OF assms(1) False, of wram mram] by simp
qed

text \<open>
  C39: What an unaligned write to MRAM moves. When address and size are both multiples of eight it is one transfer, of up to
  2048 bytes. When source and destination are differently aligned it is a fault. In every other case the call succeeds, moves
  the bytes up to the next multiple of eight, and then the remaining number of bytes modulo 256, because \<^verbatim>\<open>nb_bytes_low\<close> is
  an octet: of a write of 256 bytes or more after the prolog, most of the bytes are silently left out, although the
  documentation allows 2048. Whatever is moved goes to the right place, and nothing else in MRAM changes.
\<close>

theorem unaligned_write_moves_octet_count:
  "(dest AND 7 = 0 \<and> from AND 7 = 0 \<and> n AND 7 = 0 \<and> n \<ge> 8 \<and> n \<le> 2048 \<longrightarrow>
      mram_write_unaligned wram from mram dest n = Inr (write_bytes mram dest (read_bytes wram from (unat n))))
   \<and> (\<not> (dest AND 7 = 0 \<and> n AND 7 = 0) \<and> from AND 7 \<noteq> dest AND 7 \<longrightarrow>
      mram_write_unaligned wram from mram dest n = Inl FAULT_MRAM_UNALIGNED)
   \<and> (\<not> (dest AND 7 = 0 \<and> n AND 7 = 0) \<and> from AND 7 = dest AND 7 \<longrightarrow>
      mram_write_unaligned wram from mram dest n
        = Inr (write_bytes mram dest
            (read_bytes wram from (prolog_bytes dest n + (unat n - prolog_bytes dest n) mod 256))))"
proof (intro conjI impI; (elim conjE)?)
  show "mram_write_unaligned wram from mram dest n = Inr (write_bytes mram dest (read_bytes wram from (unat n)))"
    if "dest AND 7 = 0" "from AND 7 = 0" "n AND 7 = 0" "n \<ge> 8" "n \<le> 2048"
    using that by (simp add: mram_write_unaligned_def mram_write_def dma_ok_def)
  show "mram_write_unaligned wram from mram dest n = Inl FAULT_MRAM_UNALIGNED"
    if "\<not> (dest AND 7 = 0 \<and> n AND 7 = 0)" "from AND 7 \<noteq> dest AND 7"
    using that by (auto simp: mram_write_unaligned_def)
qed (rule write_unaligned_result)

theorem unaligned_write_moves_octet_count_witness:
  "mram_write_unaligned (\<lambda>a. ucast a) 8 (\<lambda>_. 0) 16 1024 = Inr (write_bytes (\<lambda>_. 0) 16 (read_bytes (\<lambda>a :: u32. ucast a) 8 1024))
   \<and> mram_write_unaligned (\<lambda>a. ucast a) 1 (\<lambda>_. 0) 4 10 = Inl FAULT_MRAM_UNALIGNED
   \<and> mram_write_unaligned (\<lambda>a. ucast a) 4 (\<lambda>_. 0) 20 300 = Inr (write_bytes (\<lambda>_. 0) 20 (read_bytes (\<lambda>a :: u32. ucast a) 4 44))"
  using unaligned_write_moves_octet_count [of 16 8 1024 "\<lambda>a. ucast a" "\<lambda>_. 0"]
    unaligned_write_moves_octet_count [of 4 1 10 "\<lambda>a. ucast a" "\<lambda>_. 0"]
    unaligned_write_moves_octet_count [of 20 4 300 "\<lambda>a. ucast a" "\<lambda>_. 0"]
  by (simp add: prolog_bytes_def)

text \<open>
  Round trip of the unaligned accesses: up to 255 bytes written to any address of MRAM from a source of the same alignment
  are the bytes that an unaligned read of that address then finds, at the pointer that it returns, in any aligned buffer.
\<close>

lemma unaligned_roundtrip:
  assumes "from AND 7 = dest AND 7" "0 < n" "n \<le> 255" "buffer AND 7 = 0"
  shows "\<exists>mram' ptr wram'. mram_write_unaligned wram from mram dest n = Inr mram'
     \<and> mram_read_unaligned mram' dest wram buffer n = Inr (ptr, wram')
     \<and> read_bytes wram' ptr (unat n) = read_bytes wram from (unat n)"
proof -
  let ?m = "write_bytes mram dest (read_bytes wram from (unat n))"
  have n: "unat n \<le> 255"
    using assms(3) by (simp add: word_le_nat_alt)
  then have "unat n + unat dest mod 8 \<le> 2048"
    using mod_less_divisor [of 8 "unat dest"] by linarith
  then obtain ptr wram' where "mram_read_unaligned ?m dest wram buffer n = Inr (ptr, wram')"
    "read_bytes wram' ptr (unat n) = read_bytes ?m dest (unat n)"
    using read_unaligned_result [OF assms(4,2)] by blast
  moreover have "read_bytes ?m dest (unat n) = read_bytes wram from (unat n)"
    using read_after_write [of "unat n" "read_bytes wram from (unat n)" mram dest] n by simp
  ultimately show ?thesis
    using write_unaligned_small [OF assms(1,2,3)] by auto
qed

lemma unaligned_roundtrip_witness:
  "\<exists>mram' ptr wram'. mram_write_unaligned (\<lambda>a. ucast a) 3 (\<lambda>_. 0) 11 200 = Inr mram'
     \<and> mram_read_unaligned mram' 11 (\<lambda>a. ucast a) 64 200 = Inr (ptr, wram')
     \<and> read_bytes wram' ptr 200 = read_bytes (\<lambda>a :: u32. ucast a) 3 200"
  using unaligned_roundtrip [of 3 11 200 64 "\<lambda>a. ucast a" "\<lambda>_. 0"] by simp

text \<open>
  A read of the 2048 bytes that the documentation allows asks the DMA engine for more than it can move when the address is
  not a multiple of eight.
\<close>

lemma full_unaligned_read_is_invalid: "mram_read_unaligned mram 1 wram 0 2048 = Inl INVALID_DMA"
  by (simp add: mram_read_unaligned_def mram_read_def dma_ok_def ALIGN_8_LOW_def ALIGN_8_HIGH_def)

end
