(* ===== verification/Arith.thy ===== *)
theory Arith
  imports Prelude "HOL-Library.Signed_Division"
begin

text \<open>
  The 64-bit arithmetic of the DPU runtime (\<^verbatim>\<open>dpu-rt/src/syslib\<close>): the DPU has 8-bit multipliers and a division step, so
  that the compiler calls \<^verbatim>\<open>__muldi3\<close> (\<^verbatim>\<open>mul64.c\<close>), \<^verbatim>\<open>__udiv64\<close> (\<^verbatim>\<open>udiv64.c\<close>) and the libcalls
  above it (\<^verbatim>\<open>udivdi3.c\<close>, \<^verbatim>\<open>umoddi3.c\<close>, \<^verbatim>\<open>divdi3.c\<close>, \<^verbatim>\<open>moddi3.c\<close>). They are shown to compute the
  product, the quotient and the remainder of the language. A division by zero is a fault of the DPU, the value \<open>None\<close>.
\<close>

section \<open>Division\<close>

text \<open>\<^verbatim>\<open>__builtin_clzl\<close>: \<^verbatim>\<open>long\<close> has 64 bits on the DPU (\<^verbatim>\<open>limits.h\<close>).\<close>

definition clz64 :: "u64 \<Rightarrow> nat" where
  "clz64 x = length (takeWhile (\<lambda>i. \<not> bit x i) (rev [0..<64]))"

definition udiv_step :: "u64 \<Rightarrow> nat \<Rightarrow> u64 \<times> u64 \<Rightarrow> u64 \<times> u64" where
  "udiv_step divider i = (\<lambda>(dxo, dxe).
     let pivot = push_bit i divider
     in if dxo \<ge> pivot then (dxo - pivot, push_bit 1 dxe OR 1) else (dxo, push_bit 1 dxe))"

text \<open>The loop \<^verbatim>\<open>for (; i >= 0; i--)\<close>, by the number of its iterations, which is \<open>i + 1\<close>.\<close>

fun udiv_loop :: "u64 \<Rightarrow> nat \<Rightarrow> u64 \<times> u64 \<Rightarrow> u64 \<times> u64" where
  "udiv_loop divider 0 s = s"
| "udiv_loop divider (Suc i) s = udiv_loop divider i (udiv_step divider i s)"

definition udiv64 :: "u64 \<Rightarrow> u64 \<Rightarrow> int \<Rightarrow> u64 option" where
  "udiv64 dividend divider ask_remainder =
     (if divider = 0 then None
      else if divider > dividend then Some (if ask_remainder = 0 then 0 else dividend)
      else let i = int (clz64 divider) - int (clz64 dividend)
           in case udiv_loop divider (nat (i + 1)) (dividend, 0) of
                (dxo, dxe) \<Rightarrow> Some (if ask_remainder = 1 then dxo else dxe))"

definition udivdi3 :: "u64 \<Rightarrow> u64 \<Rightarrow> u64 option" where
  "udivdi3 dividend divider = udiv64 dividend divider 0"

definition umoddi3 :: "u64 \<Rightarrow> u64 \<Rightarrow> u64 option" where
  "umoddi3 dividend divider = udiv64 dividend divider 1"

definition divdi3 :: "u64 \<Rightarrow> u64 \<Rightarrow> u64 option" where
  "divdi3 dividend divider =
     (if sint dividend \<ge> 0
      then if sint divider \<ge> 0 then udiv64 dividend divider 0
           else map_option uminus (udiv64 dividend (- divider) 0)
      else if sint divider \<ge> 0 then map_option uminus (udiv64 (- dividend) divider 0)
      else udiv64 (- dividend) (- divider) 0)"

definition moddi3 :: "u64 \<Rightarrow> u64 \<Rightarrow> u64 option" where
  "moddi3 dividend divider =
     (if sint dividend \<ge> 0
      then if sint divider \<ge> 0 then udiv64 dividend divider 1
           else udiv64 dividend (- divider) 1
      else if sint divider \<ge> 0 then map_option uminus (udiv64 (- dividend) divider 1)
      else map_option uminus (udiv64 (- dividend) (- divider) 1))"

section \<open>Multiplication\<close>

text \<open>
  The byte multipliers, and \<^verbatim>\<open>__muldi3\<close> with the macros \<^verbatim>\<open>mulxiyj\<close> expanded: byte \<open>i\<close> of \<open>x\<close> times byte \<open>j\<close> of
  \<open>y\<close>. The instructions of the DPU that the functions use compute what their C bodies for other machines say.
\<close>

definition mul00 :: "u32 \<Rightarrow> u32 \<Rightarrow> u16" where "mul00 a b = ucast ((a AND 0xff) * (b AND 0xff))"
definition mul01 :: "u32 \<Rightarrow> u32 \<Rightarrow> u16" where "mul01 a b = ucast ((a AND 0xff) * (drop_bit 8 b AND 0xff))"
definition mul02 :: "u32 \<Rightarrow> u32 \<Rightarrow> u16" where "mul02 a b = mul00 a (drop_bit 16 b)"
definition mul03 :: "u32 \<Rightarrow> u32 \<Rightarrow> u16" where "mul03 a b = mul01 a (drop_bit 16 b)"
definition mul11 :: "u32 \<Rightarrow> u32 \<Rightarrow> u16" where "mul11 a b = ucast ((drop_bit 8 a AND 0xff) * (drop_bit 8 b AND 0xff))"
definition mul12 :: "u32 \<Rightarrow> u32 \<Rightarrow> u16" where "mul12 a b = ucast ((drop_bit 8 a AND 0xff) * (drop_bit 16 b AND 0xff))"
definition mul13 :: "u32 \<Rightarrow> u32 \<Rightarrow> u16" where "mul13 a b = mul11 a (drop_bit 16 b)"
definition mul22 :: "u32 \<Rightarrow> u32 \<Rightarrow> u16" where "mul22 a b = mul00 (drop_bit 16 a) (drop_bit 16 b)"
definition mul23 :: "u32 \<Rightarrow> u32 \<Rightarrow> u16" where "mul23 a b = mul01 (drop_bit 16 a) (drop_bit 16 b)"
definition mul33 :: "u32 \<Rightarrow> u32 \<Rightarrow> u16" where "mul33 a b = mul11 (drop_bit 16 a) (drop_bit 16 b)"

definition muldi3 :: "u64 \<Rightarrow> u64 \<Rightarrow> u64" where
  "muldi3 x y =
     (let xl = ucast x :: u32; xh = ucast (drop_bit 32 x) :: u32;
          yl = ucast y :: u32; yh = ucast (drop_bit 32 y) :: u32;
          p0 = ucast (mul00 xl yl) :: u32;
          rl = ucast p0 :: u64;
          p1 = ucast (mul01 xl yl) + ucast (mul01 yl xl) :: u32;
          rl = rl + push_bit 8 (ucast p1);
          p2 = ucast (mul02 xl yl) + ucast (mul02 yl xl) + ucast (mul11 xl yl) :: u32;
          rl = rl + push_bit 16 (ucast p2);
          p3 = ucast (mul03 xl yl) + ucast (mul03 yl xl) + ucast (mul12 xl yl) + ucast (mul12 yl xl) :: u32;
          rl = rl + push_bit 24 (ucast p3);
          p4 = ucast (mul00 xl yh) + ucast (mul00 yl xh) + ucast (mul13 xl yl) + ucast (mul13 yl xl)
             + ucast (mul22 xl yl) :: u32;
          rh = p4;
          p5 = ucast (mul01 xl yh) + ucast (mul01 yl xh) + ucast (mul01 yh xl) + ucast (mul01 xh yl)
             + ucast (mul23 xl yl) + ucast (mul23 yl xl) :: u32;
          rh = rh + push_bit 8 p5;
          p6 = ucast (mul02 xl yh) + ucast (mul02 yl xh) + ucast (mul11 xl yh) + ucast (mul11 yl xh)
             + ucast (mul02 yh xl) + ucast (mul02 xh yl) + ucast (mul33 xl yl) :: u32;
          rh = rh + push_bit 16 p6;
          p7 = ucast (mul03 xl yh) + ucast (mul03 yl xh) + ucast (mul12 xl yh) + ucast (mul12 yl xh)
             + ucast (mul12 yh xl) + ucast (mul12 xh yl) + ucast (mul03 yh xl) + ucast (mul03 xh yl) :: u32;
          rh = rh + push_bit 24 p7
      in rl + push_bit 32 (ucast rh))"

section \<open>The loop divides\<close>

lemma clz64_bounds:
  assumes "x \<noteq> 0"
  shows "clz64 x < 64" and "2 ^ (63 - clz64 x) \<le> unat x" and "unat x < 2 ^ (64 - clz64 x)"
proof -
  let ?is = "rev [0..<64]" and ?P = "\<lambda>i. \<not> bit x i"
  obtain n where n: "bit x n"
    using assms by (metis bit_eq_iff bit_0_eq bot_apply bot_bool_def)
  then have "n < 64"
    using bit_imp_le_length [OF n] by simp
  then have "\<exists>i \<in> set ?is. \<not> ?P i"
    using n by auto
  then have lt: "clz64 x < length ?is"
    unfolding clz64_def by (metis takeWhile_eq_all_conv length_takeWhile_le nat_less_le takeWhile_eq_take take_all_iff order_refl)
  then show c: "clz64 x < 64"
    by simp
  have top: "bit x (63 - clz64 x)"
    using nth_length_takeWhile [of ?P ?is] lt c by (simp add: clz64_def rev_nth)
  then have "bit (unat x) (63 - clz64 x)"
    by (simp add: bit_unsigned_iff)
  then have "odd (unat x div 2 ^ (63 - clz64 x))"
    by (simp add: bit_iff_odd)
  then show "2 ^ (63 - clz64 x) \<le> unat x"
    by (metis div_less even_zero not_le)
  have "\<not> bit x i" if "64 - clz64 x \<le> i" for i
  proof (cases "i < 64")
    case True
    then have "63 - i < length (takeWhile ?P ?is)"
      using that c by (simp add: clz64_def)
    then have "?P (?is ! (63 - i))"
      by (metis nth_mem set_takeWhileD takeWhile_nth)
    then show ?thesis
      using True by (simp add: rev_nth)
  qed (use bit_imp_le_length [of x i] in auto)
  then have "take_bit (64 - clz64 x) (unat x) = unat x"
    by (intro bit_eqI) (metis bit_take_bit_iff bit_unsigned_iff not_le)
  then show "unat x < 2 ^ (64 - clz64 x)"
    by (metis take_bit_nat_less_exp)
qed

lemma unat_shift_one: "2 * unat (x :: u64) < 2 ^ 64 \<Longrightarrow> unat (push_bit 1 x) = 2 * unat x"
  by (simp add: push_bit_eq_mult unat_word_ariths)

lemma unat_shift_one_or:
  fixes x :: u64
  assumes "2 * unat x < 2 ^ 64"
  shows "unat (push_bit 1 x OR 1) = 2 * unat x + 1"
proof -
  have "even (push_bit 1 x)"
    by simp
  then have "push_bit 1 x AND 1 = 0"
    by (simp only: and_one_eq even_iff_mod_2_eq_zero)
  then have "push_bit 1 x OR 1 = push_bit 1 x + 1"
    by (rule disjunctive_add_eq_or [symmetric])
  moreover have "unat (push_bit 1 x + 1) = unat (push_bit 1 x) + 1"
    using unat_shift_one [OF assms] assms by (simp add: unat_word_ariths)
  ultimately show ?thesis
    using unat_shift_one [OF assms] by simp
qed

lemma unat_push_bit: "unat (x :: u64) * 2 ^ n < 2 ^ 64 \<Longrightarrow> unat (push_bit n x) = unat x * 2 ^ n"
proof -
  assume a: "unat x * 2 ^ n < 2 ^ 64"
  have "unat (push_bit n x) = take_bit 64 (push_bit n (unat x))"
    using unsigned_push_bit_eq [where 'a = nat, of n x] by simp
  also have "\<dots> = unat x * 2 ^ n"
    using a by (simp only: push_bit_eq_mult take_bit_nat_eq_self_iff)
  finally show ?thesis .
qed

text \<open>The invariant of the loop, with \<open>n\<close> steps to go, and the step.\<close>

definition div_inv :: "nat \<Rightarrow> nat \<Rightarrow> nat \<Rightarrow> u64 \<times> u64 \<Rightarrow> bool" where
  "div_inv N D n s \<longleftrightarrow>
     N = unat (snd s) * 2 ^ n * D + unat (fst s) \<and> unat (fst s) < 2 ^ n * D"

lemma div_inv_step:
  assumes inv: "div_inv N (unat d) (Suc i) s" and fit: "unat d * 2 ^ i < 2 ^ 64" "N < 2 ^ 64" and pos: "d \<noteq> 0"
  shows "div_inv N (unat d) i (udiv_step d i s)"
proof -
  obtain dxo dxe where s: "s = (dxo, dxe)"
    by force
  have p: "unat (push_bit i d) = unat d * 2 ^ i"
    using fit(1) by (rule unat_push_bit)
  have N: "N = 2 * unat dxe * (2 ^ i * unat d) + unat dxo" "unat dxo < 2 * (2 ^ i * unat d)"
    using inv by (simp_all add: div_inv_def s algebra_simps)
  have "2 * unat dxe * 1 \<le> 2 * unat dxe * (2 ^ i * unat d)"
    using pos by (intro mult_left_mono) (simp_all add: Suc_le_eq unat_gt_0)
  then have q: "2 * unat dxe < 2 ^ 64"
    using N(1) fit(2) by linarith
  show ?thesis
  proof (cases "dxo \<ge> push_bit i d")
    case True
    then have "unat (dxo - push_bit i d) = unat dxo - unat d * 2 ^ i" "unat d * 2 ^ i \<le> unat dxo"
      using p by (simp_all add: unat_sub word_le_nat_alt)
    then show ?thesis
      using True N unat_shift_one_or [OF q]
      by (simp add: div_inv_def udiv_step_def s algebra_simps)
  next
    case False
    then have "unat dxo < unat d * 2 ^ i"
      using p by (simp add: word_le_nat_alt)
    then show ?thesis
      using False N unat_shift_one [OF q]
      by (simp add: div_inv_def udiv_step_def s algebra_simps)
  qed
qed

lemma div_inv_loop:
  assumes "div_inv N (unat d) n s" "\<And>i. i < n \<Longrightarrow> unat d * 2 ^ i < 2 ^ 64" "N < 2 ^ 64" "d \<noteq> 0"
  shows "div_inv N (unat d) 0 (udiv_loop d n s)"
  using assms
proof (induction d n s rule: udiv_loop.induct)
  case (2 d i s)
  then show ?case
    using div_inv_step [of N d i s] by auto
qed simp

lemma udiv64_result:
  assumes "divider \<noteq> 0"
  shows "udiv64 dividend divider 0 = Some (dividend div divider)"
    and "udiv64 dividend divider 1 = Some (dividend mod divider)"
proof -
  let ?N = "unat dividend" and ?D = "unat divider"
  have "udiv64 dividend divider 0 = Some (dividend div divider) \<and> udiv64 dividend divider 1 = Some (dividend mod divider)"
  proof (cases "divider > dividend")
    case True
    then have "dividend div divider = 0" "dividend mod divider = dividend"
      by (simp_all add: word_eq_iff_unsigned unat_div unat_mod word_less_nat_alt word_unat_eq_iff)
    then show ?thesis
      using assms True by (simp add: udiv64_def)
  next
    case False
    let ?c = "clz64 divider" and ?e = "clz64 dividend"
    have N0: "dividend \<noteq> 0"
      using False assms by (metis word_gt_0)
    have le: "?D \<le> ?N"
      using False by (simp add: word_less_nat_alt)
    have c: "?c < 64" "2 ^ (63 - ?c) \<le> ?D" "?D < 2 ^ (64 - ?c)"
      and e: "?e < 64" "2 ^ (63 - ?e) \<le> ?N" "?N < 2 ^ (64 - ?e)"
      using clz64_bounds [OF assms] clz64_bounds [OF N0] by blast+
    have "(2 :: nat) ^ (63 - ?c) < 2 ^ (64 - ?e)"
      using c(2) le e(3) by linarith
    then have ec: "?e \<le> ?c"
      using c(1) e(1) by simp
    let ?n = "?c - ?e + 1"
    have "2 ^ ?n * 2 ^ (63 - ?c) = (2 :: nat) ^ (64 - ?e)"
      using ec c(1) e(1) by (simp flip: power_add power_Suc)
    then have "2 ^ (64 - ?e) \<le> 2 ^ ?n * ?D"
      using c(2) by (metis mult_le_mono2)
    then have inv: "div_inv ?N ?D ?n (dividend, 0)"
      using e(3) by (simp add: div_inv_def)
    have fit: "?D * 2 ^ i < 2 ^ 64" if "i < ?n" for i
    proof -
      have "?D * 2 ^ i < 2 ^ (64 - ?c) * 2 ^ i"
        using c(3) by simp
      also have "\<dots> \<le> 2 ^ 64"
        using that ec c(1) power_increasing [of "64 - ?c + i" 64 "2 :: nat"] by (simp flip: power_add)
      finally show ?thesis .
    qed
    obtain r q where rq: "udiv_loop divider ?n (dividend, 0) = (r, q)"
      by force
    have "div_inv ?N ?D 0 (r, q)"
      using div_inv_loop [OF inv fit _ assms] unsigned_less [where 'a = nat, of dividend] rq by simp
    then have "?N = unat q * ?D + unat r" "unat r < ?D"
      by (simp_all add: div_inv_def)
    then have "unat q = ?N div ?D" "unat r = ?N mod ?D"
      by (simp_all)
    then have "q = dividend div divider" "r = dividend mod divider"
      by (simp_all add: word_unat_eq_iff unat_div unat_mod)
    moreover have "nat (int ?c - int ?e + 1) = ?n"
      using ec by linarith
    ultimately show ?thesis
      using False assms rq by (simp add: udiv64_def Let_def)
  qed
  then show "udiv64 dividend divider 0 = Some (dividend div divider)"
    and "udiv64 dividend divider 1 = Some (dividend mod divider)" by simp_all
qed

section \<open>Signed division\<close>

lemma uint_sint:
  fixes a :: u64
  shows "sint a \<ge> 0 \<Longrightarrow> uint a = \<bar>sint a\<bar>" and "sint a < 0 \<Longrightarrow> uint (- a) = \<bar>sint a\<bar>"
proof -
  have r: "- (2 ^ 63) \<le> sint a" "sint a < 2 ^ 63"
    using sint_ge [of a] sint_lt [of a] by simp_all
  have p: "uint a = sint a mod 2 ^ 64"
    using uint_word_of_int [where 'a = 64, of "sint a"] by simp
  have "uint (- a) = - uint a mod 2 ^ 64"
    by (simp add: uint_word_ariths)
  then have m: "uint (- a) = - sint a mod 2 ^ 64"
    by (simp only: p mod_minus_eq)
  show "sint a \<ge> 0 \<Longrightarrow> uint a = \<bar>sint a\<bar>"
    using p r by simp
  show "sint a < 0 \<Longrightarrow> uint (- a) = \<bar>sint a\<bar>"
    using m r by simp
qed

lemma udiv64_int:
  assumes "divider \<noteq> 0"
  shows "udiv64 dividend divider 0 = Some (word_of_int (uint dividend div uint divider))"
    and "udiv64 dividend divider 1 = Some (word_of_int (uint dividend mod uint divider))"
  using udiv64_result [OF assms, of dividend]
  by (simp_all add: word_div_def word_mod_def)

text \<open>
  C40: The 64-bit divisions of the DPU runtime are the divisions of C. For every divider other than zero, the quotient and the
  remainder of the unsigned libcalls are those of the unsigned values, and those of the signed libcalls are the ones of the
  signed values, rounded towards zero, with the sign of the dividend for the remainder; the one quotient that does not fit,
  that of the least value by minus one, wraps around to the least value. A division by zero is a fault of the DPU.
\<close>

theorem divisions_are_exact:
  "udivdi3 a b = (if b = 0 then None else Some (a div b))
   \<and> umoddi3 a b = (if b = 0 then None else Some (a mod b))
   \<and> divdi3 a b = (if b = 0 then None else Some (word_of_int (sint a sdiv sint b)))
   \<and> moddi3 a b = (if b = 0 then None else Some (word_of_int (sint a smod sint b)))"
proof (intro conjI)
  have zero: "udiv64 x 0 k = None" for x k
    by (simp add: udiv64_def)
  show "udivdi3 a b = (if b = 0 then None else Some (a div b))"
    and "umoddi3 a b = (if b = 0 then None else Some (a mod b))"
    using udiv64_result [of b a] zero by (simp_all add: udivdi3_def umoddi3_def)
  have n: "- b \<noteq> 0" if "b \<noteq> 0"
    using that by simp
  show "divdi3 a b = (if b = 0 then None else Some (word_of_int (sint a sdiv sint b)))"
    using udiv64_int [of b] udiv64_int [OF n] uint_sint [of a] uint_sint [of b] zero
    by (auto simp: divdi3_def signed_divide_int_def sgn_if not_le)
  show "moddi3 a b = (if b = 0 then None else Some (word_of_int (sint a smod sint b)))"
    using udiv64_int [of b] udiv64_int [OF n] uint_sint [of a] uint_sint [of b] zero
    by (auto simp: moddi3_def signed_modulo_int_def sgn_if not_le)
qed

section \<open>The bytes of the product\<close>

definition byte :: "nat \<Rightarrow> 'a::len word \<Rightarrow> nat" where
  "byte k x = take_bit 8 (drop_bit (8 * k) (unat x))"

lemma byte_less: "byte k x < 256"
  using take_bit_nat_less_exp [of 8] by (simp add: byte_def)

lemma unat_and_byte: "unat (x AND 0xff) = byte 0 (x :: u32)"
proof -
  have "x AND 0xff = take_bit 8 x"
    by (simp add: take_bit_eq_mask mask_eq_exp_minus_1)
  then have "unat (x AND 0xff) = take_bit 8 (unat x)"
    by (simp only: unsigned_take_bit_eq)
  then show ?thesis
    by (simp add: byte_def)
qed

lemma byte_drop: "byte k (drop_bit (8 * n) x) = byte (k + n) x"
  by (simp add: byte_def unat_drop_bit_eq algebra_simps)

lemma byte_drop_u32 [simp]:
  "byte 0 (drop_bit 8 (x :: u32)) = byte 1 x"
  "byte 0 (drop_bit 16 (x :: u32)) = byte 2 x"
  "byte 0 (drop_bit 24 (x :: u32)) = byte 3 x"
  using byte_drop [of 0 1 x] byte_drop [of 0 2 x] byte_drop [of 0 3 x] by (simp_all add: numeral_2_eq_2)

lemma byte_product: "unat (ucast ((a AND 0xff) * (b AND 0xff) :: u32) :: u16) = byte 0 a * byte 0 b"
proof -
  have "byte 0 a * byte 0 b \<le> 255 * 255"
    using byte_less [of 0 a] byte_less [of 0 b] by (intro mult_le_mono) simp_all
  then show ?thesis
    by (simp add: unsigned_ucast_eq unat_word_ariths unat_and_byte take_bit_eq_mod)
qed

lemma unat_mul [simp]:
  "unat (mul00 a b) = byte 0 a * byte 0 b"
  "unat (mul01 a b) = byte 0 a * byte 1 b"
  "unat (mul02 a b) = byte 0 a * byte 2 b"
  "unat (mul03 a b) = byte 0 a * byte 3 b"
  "unat (mul11 a b) = byte 1 a * byte 1 b"
  "unat (mul12 a b) = byte 1 a * byte 2 b"
  "unat (mul13 a b) = byte 1 a * byte 3 b"
  "unat (mul22 a b) = byte 2 a * byte 2 b"
  "unat (mul23 a b) = byte 2 a * byte 3 b"
  "unat (mul33 a b) = byte 3 a * byte 3 b"
  by (simp_all add: mul00_def mul01_def mul02_def mul03_def mul11_def mul12_def mul13_def mul22_def mul23_def mul33_def
      byte_product)

lemma byte_low: "k < 4 \<Longrightarrow> byte k (ucast (x :: u64) :: u32) = byte k x"
  by (rule bit_eqI) (auto simp: byte_def bit_simps unsigned_ucast_eq)

lemma unat_bytes:
  "unat (x :: u64) = byte 0 x + 2 ^ 8 * byte 1 x + 2 ^ 16 * byte 2 x + 2 ^ 24 * byte 3 x
     + 2 ^ 32 * byte 4 x + 2 ^ 40 * byte 5 x + 2 ^ 48 * byte 6 x + 2 ^ 56 * byte 7 x"
proof -
  have split: "drop_bit (8 * k) (unat x) = byte k x + 2 ^ 8 * drop_bit (8 * (k + 1)) (unat x)" for k
  proof -
    have "drop_bit (8 * (k + 1)) (unat x) = drop_bit 8 (drop_bit (8 * k) (unat x))"
      by (simp add: algebra_simps)
    then show ?thesis
      using bits_ident [of 8 "drop_bit (8 * k) (unat x)"] by (simp add: byte_def push_bit_eq_mult)
  qed
  have "drop_bit 64 (unat x) = 0"
    using unsigned_less [where 'a = nat, of x] by (simp add: drop_bit_eq_div)
  then show ?thesis
    using split [of 0] split [of 1] split [of 2] split [of 3] split [of 4] split [of 5] split [of 6] split [of 7] by simp
qed

text \<open>A word as the residue of a number: widening, shifting and adding are those of the numbers.\<close>

lemma ucast_of_unat: "(ucast (m :: u16) :: u32) = of_nat (unat m)"
  by simp

lemma ucast_of_nat_small: "n < 2 ^ 32 \<Longrightarrow> (ucast (of_nat n :: u32) :: u64) = of_nat n"
  by (simp add: unsigned_ucast_eq word_unat_eq_iff unat_of_nat take_bit_nat_eq_self)

lemma push_bit_of_nat_word: "push_bit k (of_nat n :: 'a::len word) = of_nat (n * 2 ^ k)"
  by (simp add: push_bit_eq_mult)

lemma of_nat_residue: "(of_nat (n mod 2 ^ 64) :: u64) = of_nat n"
  by (simp add: word_unat_eq_iff unat_of_nat)

lemma high_of_nat: "push_bit 32 (ucast (of_nat n :: u32) :: u64) = of_nat (n * 2 ^ 32)"
proof -
  have "(ucast (of_nat n :: u32) :: u64) = of_nat (n mod 2 ^ 32)"
    by (simp add: word_unat_eq_iff unsigned_ucast_eq unat_of_nat take_bit_eq_mod)
  then have "push_bit 32 (ucast (of_nat n :: u32) :: u64) = of_nat ((n mod 2 ^ 32) * 2 ^ 32)"
    by (simp only: push_bit_of_nat_word)
  also have "(n mod 2 ^ 32) * 2 ^ 32 = (n * 2 ^ 32) mod 2 ^ 64"
    using mod_mult_mult2 [of n "2 ^ 32" "2 ^ 32"] by simp
  finally show ?thesis
    by (simp only: of_nat_residue)
qed

lemma byte_product_le: "byte i x * byte j y \<le> 65025"
  using byte_less [of i x] byte_less [of j y] mult_le_mono [of "byte i x" 255 "byte j y" 255] by simp

lemma bytes_of_halves:
  "byte 0 (ucast (x :: u64) :: u32) = byte 0 x" "byte 1 (ucast x :: u32) = byte 1 x"
  "byte 2 (ucast x :: u32) = byte 2 x" "byte 3 (ucast x :: u32) = byte 3 x"
  "byte 0 (drop_bit 32 x) = byte 4 x" "byte 1 (drop_bit 32 x) = byte 5 x"
  "byte 2 (drop_bit 32 x) = byte 6 x" "byte 3 (drop_bit 32 x) = byte 7 x"
  using byte_low [of 0 x] byte_low [of 1 x] byte_low [of 2 x] byte_low [of 3 x]
    byte_drop [of 0 4 x] byte_drop [of 1 4 x] byte_drop [of 2 4 x] byte_drop [of 3 4 x] by simp_all

lemma muldi3_of_nat:
  fixes x y :: u64
  defines "b \<equiv> \<lambda>i j. byte i x * byte j y"
  shows "muldi3 x y =
    of_nat (b 0 0 + (b 0 1 + b 1 0) * 2 ^ 8 + (b 0 2 + b 2 0 + b 1 1) * 2 ^ 16
      + (b 0 3 + b 3 0 + b 1 2 + b 2 1) * 2 ^ 24
      + ((b 0 4 + b 4 0 + b 1 3 + b 3 1 + b 2 2)
         + (b 0 5 + b 5 0 + b 1 4 + b 4 1 + b 2 3 + b 3 2) * 2 ^ 8
         + (b 0 6 + b 6 0 + b 1 5 + b 5 1 + b 2 4 + b 4 2 + b 3 3) * 2 ^ 16
         + (b 0 7 + b 7 0 + b 1 6 + b 6 1 + b 2 5 + b 5 2 + b 3 4 + b 4 3) * 2 ^ 24) * 2 ^ 32)"
proof -
  have s: "b i j \<le> 65025" for i j
    using byte_product_le [of i x j y] by (simp add: b_def)
  have low: "b 0 0 < 2 ^ 32" "b 0 1 + b 1 0 < 2 ^ 32" "b 0 2 + b 2 0 + b 1 1 < 2 ^ 32"
    "b 0 3 + b 3 0 + b 1 2 + b 2 1 < 2 ^ 32"
    using s [of 0 0] s [of 0 1] s [of 1 0] s [of 0 2] s [of 2 0] s [of 1 1] s [of 0 3] s [of 3 0] s [of 1 2] s [of 2 1]
    by simp_all
  have c: "byte i y * byte j x = b j i" "byte j x * byte i y = b j i" for i j
    by (simp_all add: b_def)
  show ?thesis
    unfolding muldi3_def Let_def ucast_of_unat unat_mul bytes_of_halves c of_nat_add [symmetric] push_bit_of_nat_word
      high_of_nat low [THEN ucast_of_nat_small]
    by (rule refl)
qed

text \<open>The product of the bytes: what \<^verbatim>\<open>__muldi3\<close> adds up, and a multiple of \<open>2 ^ 64\<close>.\<close>

lemma product_of_bytes:
  fixes a0 a1 a2 a3 a4 a5 a6 a7 c0 c1 c2 c3 c4 c5 c6 c7 :: nat
  shows "(a0 + 2 ^ 8 * a1 + 2 ^ 16 * a2 + 2 ^ 24 * a3 + 2 ^ 32 * a4 + 2 ^ 40 * a5 + 2 ^ 48 * a6 + 2 ^ 56 * a7)
     * (c0 + 2 ^ 8 * c1 + 2 ^ 16 * c2 + 2 ^ 24 * c3 + 2 ^ 32 * c4 + 2 ^ 40 * c5 + 2 ^ 48 * c6 + 2 ^ 56 * c7)
   = (a0 * c0 + (a0 * c1 + a1 * c0) * 2 ^ 8 + (a0 * c2 + a2 * c0 + a1 * c1) * 2 ^ 16
      + (a0 * c3 + a3 * c0 + a1 * c2 + a2 * c1) * 2 ^ 24
      + ((a0 * c4 + a4 * c0 + a1 * c3 + a3 * c1 + a2 * c2)
         + (a0 * c5 + a5 * c0 + a1 * c4 + a4 * c1 + a2 * c3 + a3 * c2) * 2 ^ 8
         + (a0 * c6 + a6 * c0 + a1 * c5 + a5 * c1 + a2 * c4 + a4 * c2 + a3 * c3) * 2 ^ 16
         + (a0 * c7 + a7 * c0 + a1 * c6 + a6 * c1 + a2 * c5 + a5 * c2 + a3 * c4 + a4 * c3) * 2 ^ 24) * 2 ^ 32)
     + ((a1 * c7 + a2 * c6 + a3 * c5 + a4 * c4 + a5 * c3 + a6 * c2 + a7 * c1)
         + (a2 * c7 + a3 * c6 + a4 * c5 + a5 * c4 + a6 * c3 + a7 * c2) * 2 ^ 8
         + (a3 * c7 + a4 * c6 + a5 * c5 + a6 * c4 + a7 * c3) * 2 ^ 16
         + (a4 * c7 + a5 * c6 + a6 * c5 + a7 * c4) * 2 ^ 24
         + (a5 * c7 + a6 * c6 + a7 * c5) * 2 ^ 32 + (a6 * c7 + a7 * c6) * 2 ^ 40 + a7 * c7 * 2 ^ 48) * 2 ^ 64"
  by (simp add: algebra_simps)

lemma of_nat_wraps: "(of_nat (n + k * 2 ^ 64) :: u64) = of_nat n"
  by (metis of_nat_residue mod_mult_self1 mult.commute)

text \<open>
  The 64-bit multiplication that the DPU runtime composes of 36 byte products is the product modulo \<open>2 ^ 64\<close>, the one of
  the language, signed or unsigned.
\<close>

lemma muldi3_is_product: "muldi3 x y = x * y"
proof -
  have "x * y = of_nat (unat x * unat y)"
    by simp
  also have "\<dots> = muldi3 x y"
    unfolding muldi3_of_nat unat_bytes [of x] unat_bytes [of y] product_of_bytes
    by (rule of_nat_wraps)
  finally show ?thesis by simp
qed

end
