(* ===== verification/Atomics.thy ===== *)
theory Atomics
  imports Prelude
begin

text \<open>
  The atomic operations that the compiler calls on a DPU (\<^verbatim>\<open>dpu-rt/src/syslib/atomics.c\<close>). The macros define each of them
  for 1, 2, 4 and 8 bytes; the definitions here are those of any width. All of them hold the same hardware mutex, so that
  each is one step on the memory: the value that was loaded, and the memory.
\<close>

section \<open>The operations\<close>

type_synonym ('p, 'n) cells = "'p \<Rightarrow> 'n word"

definition sync_val_compare_and_swap ::
  "'p \<Rightarrow> 'n::len word \<Rightarrow> 'n word \<Rightarrow> ('p, 'n) cells \<Rightarrow> 'n word \<times> ('p, 'n) cells" where
  "sync_val_compare_and_swap ptr expected desired m =
     (let load = m ptr in (load, if load = expected then m(ptr := desired) else m))"

definition sync_lock_test_and_set :: "'p \<Rightarrow> 'n::len word \<Rightarrow> ('p, 'n) cells \<Rightarrow> 'n word \<times> ('p, 'n) cells" where
  "sync_lock_test_and_set ptr val m = (m ptr, m(ptr := val))"

definition sync_fetch_and_do ::
  "('n::len word \<Rightarrow> 'n word \<Rightarrow> 'n word) \<Rightarrow> 'p \<Rightarrow> 'n word \<Rightarrow> ('p, 'n) cells \<Rightarrow> 'n word \<times> ('p, 'n) cells" where
  "sync_fetch_and_do fct ptr val m = (let load = m ptr in (load, m(ptr := fct load val)))"

definition DO_ADD :: "'n::len word \<Rightarrow> 'n word \<Rightarrow> 'n word" where "DO_ADD a b = a + b"
definition DO_SUB :: "'n::len word \<Rightarrow> 'n word \<Rightarrow> 'n word" where "DO_SUB a b = a - b"
definition DO_AND :: "'n::len word \<Rightarrow> 'n word \<Rightarrow> 'n word" where "DO_AND a b = a AND b"
definition DO_OR :: "'n::len word \<Rightarrow> 'n word \<Rightarrow> 'n word" where "DO_OR a b = a OR b"
definition DO_XOR :: "'n::len word \<Rightarrow> 'n word \<Rightarrow> 'n word" where "DO_XOR a b = a XOR b"
definition DO_NAND :: "'n::len word \<Rightarrow> 'n word \<Rightarrow> 'n word" where "DO_NAND a b = NOT (a AND b)"
definition DO_MAX :: "'n::len word \<Rightarrow> 'n word \<Rightarrow> 'n word" where "DO_MAX a b = (if sint a > sint b then a else b)"
definition DO_UMAX :: "'n::len word \<Rightarrow> 'n word \<Rightarrow> 'n word" where "DO_UMAX a b = (if a > b then a else b)"
definition DO_MIN :: "'n::len word \<Rightarrow> 'n word \<Rightarrow> 'n word" where "DO_MIN a b = (if sint a > sint b then a else b)"
definition DO_UMIN :: "'n::len word \<Rightarrow> 'n word \<Rightarrow> 'n word" where "DO_UMIN a b = (if a > b then a else b)"

section \<open>Sequences of operations on one cell\<close>

text \<open>The values that a sequence of calls by any tasklets returns, and the memory.\<close>

fun fetch_all ::
  "('n::len word \<Rightarrow> 'n word \<Rightarrow> 'n word) \<Rightarrow> 'p \<Rightarrow> 'n word list \<Rightarrow> ('p, 'n) cells \<Rightarrow> 'n word list \<times> ('p, 'n) cells" where
  "fetch_all fct ptr [] m = ([], m)"
| "fetch_all fct ptr (v # vs) m =
     (case sync_fetch_and_do fct ptr v m of (old, m) \<Rightarrow> case fetch_all fct ptr vs m of (olds, m) \<Rightarrow> (old # olds, m))"

lemma fetch_all_result:
  "fetch_all fct ptr vs m = (map (\<lambda>i. foldl fct (m ptr) (take i vs)) [0..<length vs], m(ptr := foldl fct (m ptr) vs))"
proof (induction vs arbitrary: m)
  case (Cons v vs)
  have "map (\<lambda>i. foldl fct (m ptr) (take i (v # vs))) [0..<length (v # vs)]
      = m ptr # map (\<lambda>i. foldl fct (fct (m ptr) v) (take i vs)) [0..<length vs]"
    by (simp add: upt_conv_Cons map_Suc_upt [symmetric] comp_def del: upt_Suc)
  then show ?case
    by (auto simp: Cons sync_fetch_and_do_def Let_def fun_eq_iff)
qed simp

lemma foldl_do_max: "sint (foldl DO_MAX a vs) = Max (set (map sint (a # vs)))"
proof (induction vs arbitrary: a)
  case (Cons v vs)
  have "sint (DO_MAX a v) = max (sint a) (sint v)"
    by (simp add: DO_MAX_def)
  then show ?case
    using Cons [of "DO_MAX a v"] by (cases "vs = []") (simp_all add: ac_simps)
qed simp

text \<open>
  The atomic minimum is a maximum. The operations that \<^verbatim>\<open>atomics.c\<close> defines for the minimum, signed and unsigned, compare
  the wrong way round and are the operations for the maximum: after any sequence of signed minimum calls on a cell the
  cell holds the greatest of its first value and the arguments, and each call returned the greatest of what came before it.
\<close>

lemma atomic_min_is_max:
  "sync_fetch_and_do DO_MIN ptr v m = sync_fetch_and_do DO_MAX ptr v m
   \<and> sync_fetch_and_do DO_UMIN ptr v m = sync_fetch_and_do DO_UMAX ptr v m
   \<and> sint (snd (fetch_all DO_MIN ptr vs m) ptr) = Max (set (map sint (m ptr # vs)))
   \<and> map sint (fst (fetch_all DO_MIN ptr vs m)) = map (\<lambda>i. Max (set (map sint (m ptr # take i vs)))) [0..<length vs]"
proof -
  have e: "DO_MIN = (DO_MAX :: 'n::len word \<Rightarrow> 'n word \<Rightarrow> 'n word)" "DO_UMIN = (DO_UMAX :: 'n word \<Rightarrow> 'n word \<Rightarrow> 'n word)"
    by (simp_all add: fun_eq_iff DO_MIN_def DO_MAX_def DO_UMIN_def DO_UMAX_def)
  show ?thesis
    by (simp only: e fetch_all_result foldl_do_max fst_conv snd_conv fun_upd_same map_map comp_def simp_thms)
qed

end
