(* ===== verification/Spec2Isabelle.thy ===== *)
theory Spec2Isabelle
  imports Preempt Xeon UfiCi Tasklets BuddyClients Unaligned Arith Atomics
begin

text \<open>
  Verification of the UPMEM host library with lazy preemption of struggling ranks (\<^verbatim>\<open>library/src/backends/api\<close>), and of
  the parts of the runtime of the DPUs (\<^verbatim>\<open>library/src/dpu-rt\<close>) that the programs on the DPUs rely on.

  \<^bold>\<open>The program.\<close> A host program works on sets of DPUs. The DPUs are grouped in ranks, and the DPUs of a rank in control
  interfaces. The low-level API (\<^verbatim>\<open>api/src\<close>) boots, polls and accesses one rank or DPU through a table of functions of a
  backend, under the mutex of the rank. It keeps in the run context of the rank which DPUs run and which are in fault. The
  high-level API (\<^verbatim>\<open>api/src/api\<close>) turns every operation on a set into jobs: each rank has a FIFO of jobs, worker threads take
  ranks from queues and run the jobs at the head of their FIFO, polling threads poll the running ranks and wake those who wait
  for them. The launch functions of this repository start in addition a thread that watches the ranks of a launch and aborts
  those that have not finished when enough others have. On a DPU, tasklets share WRAM, synchronise by barriers, semaphores and
  handshakes, and move data to and from MRAM by DMA.

  \<^bold>\<open>The theories\<close>, in the order of their imports. For the host:
  \<^item> \<^verbatim>\<open>Prelude\<close>: integer types, status codes, the macro \<^verbatim>\<open>FF\<close> as a combinator, shared lemmas.
  \<^item> \<^verbatim>\<open>Mask\<close> (\<^verbatim>\<open>commons/include/dpu_mask.h\<close>): bitfields of the DPUs of a control interface; locale \<^verbatim>\<open>dpu_bitset\<close>, the contract
    of sets of ids, interpreted on them.
  \<^item> \<^verbatim>\<open>Rank\<close> (\<^verbatim>\<open>dpu_rank.h\<close>, \<^verbatim>\<open>dpu_custom.c\<close>, \<^verbatim>\<open>dpu_internals.c\<close>): rank, DPU and run context as records, the backend as a record
    of functions that is an argument of every operation, the recursive mutex as a depth; locale \<^verbatim>\<open>rank_op\<close>: an operation leaves
    the mutex as it found it and the geometry of the rank unchanged, interpreted on every operation.
  \<^item> \<^verbatim>\<open>Memory\<close> (\<^verbatim>\<open>dpu_memory.c\<close>): range checks, copies to and from IRAM, WRAM and MRAM, the transfer matrix; no copy to a
    running DPU, and a check that wraps around.
  \<^item> \<^verbatim>\<open>Profiler\<close> (\<^verbatim>\<open>dpu_profiler.c\<close>) and \<^verbatim>\<open>Runner\<close> (\<^verbatim>\<open>dpu_runner.c\<close>): boot, launch, poll and status; locale \<^verbatim>\<open>run_op\<close> extends
    \<^verbatim>\<open>rank_op\<close> by the preservation of the consistency of the run context; what a poll stores and when a boot is refused.
  \<^item> \<^verbatim>\<open>Polling\<close> (\<^verbatim>\<open>api/dpu_polling.c\<close>): the polling threads, the report of faults, \<^verbatim>\<open>dpu_sync_rank\<close>, which waits for the end and
    returns.
  \<^item> \<^verbatim>\<open>Jobs\<close> and \<^verbatim>\<open>Workers\<close> (\<^verbatim>\<open>api/dpu_thread_job.c\<close>): slots, FIFOs and synchronisation objects of the ranks, the computation of
    every kind of job, and the workers as a step relation: nobody is lost, no rank is served twice.
  \<^item> \<^verbatim>\<open>Submit\<close>: how an operation of the API gets slots, fills them and waits.
  \<^item> \<^verbatim>\<open>Preempt\<close> (\<^verbatim>\<open>api/dpu_runner.c\<close>, \<^verbatim>\<open>dpu_sync\<close>): launches, the preemption thread and its decision, both kinds of abort, the
    status of a set.
  \<^item> \<^verbatim>\<open>Transfers\<close> (\<^verbatim>\<open>api/dpu_memory.c\<close>): symbols, the programs of a set, copies, broadcasts and pushes.
  \<^item> \<^verbatim>\<open>Sets\<close> (\<^verbatim>\<open>api/dpu_set.c\<close>): counting, iterators and \<^verbatim>\<open>DPU_FOREACH\<close>, the table of the allocated sets (locale \<^verbatim>\<open>set_table\<close>), the
    choice of the DPUs to disable.
  \<^item> \<^verbatim>\<open>Bytes\<close>: memories as functions from addresses to bytes, shared by the theories below.
  \<^item> \<^verbatim>\<open>Interleave\<close>, \<^verbatim>\<open>ScatterGather\<close> and \<^verbatim>\<open>Xeon\<close> (\<^verbatim>\<open>hw/src/mappings/xeon_sp/xeon_sp_translation.c\<close>, the scatter/gather part of
    \<^verbatim>\<open>api/dpu_memory.c\<close>): the interleaving of the bytes of the chips (the vector routines equal the plain one), the collection of the
    blocks of a transfer and their iterators, and the transfers of a rank by the threads of a pool: what is written to the lines
    of the region is read back, and every word of MRAM has lines of its own.
  \<^item> \<^verbatim>\<open>UfiCi\<close> (\<^verbatim>\<open>ufi/src/ufi_ci.c\<close>): the protocol with the control interfaces, below the backends: commit of commands, the wait for
    the replies and their colours, faults, byte discovery, reset and the recovery of the colour. A command succeeds only when
    every interface has answered; what an ambiguous colour does.

  For the DPUs:
  \<^item> \<^verbatim>\<open>Tasklets\<close> (\<^verbatim>\<open>syslib/barrier.c\<close>, \<^verbatim>\<open>sem.c\<close>, \<^verbatim>\<open>handshake.c\<close>, \<^verbatim>\<open>waitqueue.c\<close>): the circular lists in the shared table as
    queues (locale \<^verbatim>\<open>shared_queues\<close>), and barriers and semaphores against a specification over the history of all calls.
  \<^item> \<^verbatim>\<open>Heap\<close> (\<^verbatim>\<open>syslib/alloc.c\<close>, \<^verbatim>\<open>fsb_allocator.c\<close>): allocations do not overlap; the free list of a block allocator and its clients
    (locale \<^verbatim>\<open>block_pool\<close>).
  \<^item> \<^verbatim>\<open>BlockTree\<close> and \<^verbatim>\<open>Buddy\<close> (\<^verbatim>\<open>syslib/buddy_alloc.c\<close>): the blocks of the buddy allocator as nodes of a binary tree with a bit each
    (locale \<^verbatim>\<open>node_bits\<close>: what an allocation, a search and a fusion do to the set of the allocated nodes), interpreted on the bits in
    the words of WRAM; the blocks of all clients are disjoint, and an allocation fails only when there is no room.
  \<^item> \<^verbatim>\<open>MemCopy\<close>, \<^verbatim>\<open>CString\<close> and \<^verbatim>\<open>CText\<close> (\<^verbatim>\<open>stdlib/mem*.c\<close>, \<^verbatim>\<open>str*.c\<close>, \<^verbatim>\<open>atoi.c\<close>, \<^verbatim>\<open>ctype.h\<close>): the copies that work on words against
    the move of a range of bytes, the functions on strings against lists of characters, and decimal numbers.
  \<^item> \<^verbatim>\<open>BuddyClients\<close> (\<^verbatim>\<open>syslib/buddy_realloc.c\<close>, \<^verbatim>\<open>stdlib/strdup.c\<close>, \<^verbatim>\<open>strndup.c\<close>): the composition of the allocator, the strings and
    the copies.
  \<^item> \<^verbatim>\<open>Unaligned\<close> (\<^verbatim>\<open>syslib/mram_unaligned.c\<close>): what unaligned accesses to MRAM move.
  \<^item> \<^verbatim>\<open>Arith\<close> (\<^verbatim>\<open>syslib/udiv64.c\<close>, \<^verbatim>\<open>mul64.c\<close> and the libcalls above them): 64-bit division and product.
  \<^item> \<^verbatim>\<open>Atomics\<close> (\<^verbatim>\<open>syslib/atomics.c\<close>): the atomic operations.

  \<^bold>\<open>State and concurrency.\<close> An operation is a function from a state to a status and a state; a critical section is one step.
  Where a thread waits on a condition variable, what the other threads did before each of its wake-ups is an argument, a list
  of functions on the state (\<^verbatim>\<open>Polling\<close>, \<^verbatim>\<open>Jobs\<close>, \<^verbatim>\<open>Submit\<close>, \<^verbatim>\<open>Preempt\<close>); a call that still waits after the last one has the
  value for waiting, and the properties that say that a call returns show that this is not the case. The workers, the clients
  of an allocator and the tasklets of a DPU are step relations, with any interleaving. Pointers are indices into the tables of
  the host state. The clock that the preemption thread reads and the addresses of new objects are arguments.

  \<^bold>\<open>Loops.\<close> Loops over ranks, control interfaces and DPUs are recursions over lists. \<^verbatim>\<open>DPU_FOREACH\<close> takes fuel, and any fuel
  above the number of enabled DPUs is shown to be enough. The loop that wakes the tasklets of a barrier follows the shared table
  and is a partial function; it is shown to return in every reachable state. The loops that look for the end of a string are
  partial functions and are shown to return on terminated strings. The waits for the control interfaces count their retries down,
  with the bounds of the code. The other loops have a measure.

  \<^bold>\<open>Integers.\<close> The fields of the structures keep their width. Sums that the code computes in 32 bits wrap (the theorem
  \<^verbatim>\<open>wram_check_wraps\<close> shows what follows), the octets of the DPU runtime too. Shifts on the DPU take their amount modulo 32, as
  the processor does. \<^verbatim>\<open>elapsed * 1.2 > average\<close> and the threshold of the preemption, computed in floating point in the code,
  are exact rational comparisons in the model, without the rounding.

  \<^bold>\<open>Memory of a DPU.\<close> The allocators work on aligned words of WRAM, and an access outside of it is a fault that ends the run. The
  strings and copies work on bytes; \<^verbatim>\<open>BuddyClients\<close> relates the two, the first byte of a word in its low bits.

  \<^bold>\<open>Not modelled.\<close> The allocation of ranks and their configuration, the loading of programs (ELF), the checkpoints, the debug
  contexts, the log, and the bindings for Java, Python and C++. The sequences of commands that
  the UFI sends over the protocol of \<^verbatim>\<open>UfiCi\<close>, and the backends, for which the backend record stands, without any assumption beyond what each property states; of the hardware
  backend the mapping of Xeon processors is modelled. The copies to MRAM through a program on the DPU are an argument. Of the
  DPU runtime: the variants of the copies on MRAM, the sequential reader, formatted output, the parts in assembly, and the
  routines taken from the LLVM compiler runtime. The host programs of the benchmarks are measurements around calls of this
  library.
\<close>

end
